(* ===== verification/Prelude.thy ===== *)
theory Prelude
  imports Main "HOL-Library.Word" "HOL-Library.Char_ord" "HOL-Library.List_Lexorder"
    "HOL-Library.Sublist"
begin

text \<open>
  The shared vocabulary of the development.  A \<^verbatim>\<open>std::string\<close> is a \<^typ>\<open>string\<close>, that is a list
  of bytes (\<^typ>\<open>char\<close> has 256 values and its order is the unsigned one \<^verbatim>\<open>char_traits<char>\<close> uses);
  \<open>uc\<close> is the conversion to \<^verbatim>\<open>unsigned char\<close>, \<open>sc\<close> the value a (signed) \<^verbatim>\<open>char\<close> has in an integer
  comparison, and \<open>ch\<close> the conversion of an integer to \<^verbatim>\<open>char\<close>, which keeps the low eight bits.
  The theory also holds \<^verbatim>\<open>std::map\<close> as a strictly sorted association list, the locale of byte
  codecs that the encoders of the library interpret, and generic lemmas on lists.
\<close>

unbundle bit_operations_syntax

named_theorems codec_simps \<open>bit arithmetic of the byte codecs\<close>
named_theorems smap_simps \<open>the operations of \<^verbatim>\<open>std::map\<close>\<close>

section \<open>Bytes\<close>

type_synonym time_t = int

text \<open>The successive readings of \<^verbatim>\<open>time(0)\<close> that one call makes, in program order.\<close>

type_synonym clock = "nat \<Rightarrow> time_t"

definition uc :: "char \<Rightarrow> nat" where
  "uc c = of_char c"

definition sc :: "char \<Rightarrow> int" where
  "sc c = (if uc c < 128 then int (uc c) else int (uc c) - 256)"

definition ch :: "nat \<Rightarrow> char" where
  "ch n = char_of n"

lemma ch_uc [simp]: "ch (uc c) = c"
  by (simp add: ch_def uc_def)

lemma uc_ch [simp]: "uc (ch n) = n mod 256"
  by (simp add: ch_def uc_def)

lemma uc_lt [simp]: "uc c < 256"
  by (simp add: uc_def)

lemma uc_lt_numeral [simp]: "uc c \<le> 255"
  using uc_lt [of c] by linarith

lemma uc_div_lt [simp]: "uc c div 4 < 64" "uc c div 16 < 16" "uc c div 64 < 4"
  using uc_lt [of c] by linarith+

lemma uc_inject [simp]: "uc c = uc d \<longleftrightarrow> c = d"
  by (simp add: uc_def)

lemma ch_inject_256: "m < 256 \<Longrightarrow> n < 256 \<Longrightarrow> ch m = ch n \<longleftrightarrow> m = n"
  by (metis mod_less uc_ch)

text \<open>Case analysis over all bytes: a decidable property of a byte holds when it holds below 256.\<close>

lemma all_bytes: "(\<And>n. n < 256 \<Longrightarrow> P (ch n)) \<Longrightarrow> P c"
  by (metis ch_uc uc_lt)

definition char_in :: "char \<Rightarrow> char \<Rightarrow> char \<Rightarrow> bool" where
  "char_in lo hi c \<longleftrightarrow> sc lo \<le> sc c \<and> sc c \<le> sc hi"

text \<open>Masks and shifts of the codecs as division and remainder.\<close>

lemma and_mask_mod [codec_simps]:
  "n AND 3 = n mod (4::nat)" "n AND 0xF = n mod (16::nat)" "n AND 0x3F = n mod (64::nat)"
  "n AND 0xFF = n mod (256::nat)"
  using take_bit_eq_mask [of 2 n] take_bit_eq_mask [of 4 n] take_bit_eq_mask [of 6 n]
    take_bit_eq_mask [of 8 n]
  by (simp_all add: mask_eq_exp_minus_1 take_bit_eq_mod)

lemma drop_bit_div [codec_simps]: "drop_bit k n = n div (2 ^ k :: nat)"
  by (rule drop_bit_eq_div)

lemma push_bit_mult [codec_simps]: "push_bit k n = n * (2 ^ k :: nat)"
  by (rule push_bit_eq_mult)

text \<open>A disjoint \<^verbatim>\<open>|\<close> is a sum: the shifted part has zeros where the other part has its bits.\<close>

lemma or_add: "b < 2 ^ k \<Longrightarrow> (a * 2 ^ k) OR b = a * 2 ^ k + (b::nat)"
proof (induction k arbitrary: b)
  case (Suc k)
  then have "(a * 2 ^ k) OR (b div 2) = a * 2 ^ k + b div 2" by simp
  moreover have "a * 2 ^ Suc k div 2 = a * 2 ^ k" "even (a * 2 ^ Suc k)" by simp_all
  moreover have "of_bool (odd b) + 2 * (b div 2) = b" by (cases "odd b") auto
  ultimately show ?case by (subst or_nat_rec) simp
qed simp

text \<open>A value converted to \<^verbatim>\<open>int\<close>.\<close>

definition to_int32 :: "nat \<Rightarrow> int" where
  "to_int32 n = (int n + 2 ^ 31) mod 2 ^ 32 - 2 ^ 31"

lemma to_int32_small [simp]: "n < 2 ^ 31 \<Longrightarrow> to_int32 n = int n"
  by (simp add: to_int32_def)

text \<open>The memory image of an unsigned integer of \<open>k\<close> bytes on a little-endian machine.\<close>

definition le_bytes :: "nat \<Rightarrow> nat \<Rightarrow> string" where
  "le_bytes k n = map (\<lambda>i. ch (drop_bit (8 * i) n)) [0..<k]"

fun from_le :: "string \<Rightarrow> nat" where
  "from_le [] = 0"
| "from_le (c # r) = uc c + 256 * from_le r"

lemma length_le_bytes [simp]: "length (le_bytes k n) = k"
  by (simp add: le_bytes_def)

lemma le_bytes_0 [simp]: "le_bytes 0 n = []"
  by (simp add: le_bytes_def)

lemma le_bytes_Suc: "le_bytes (Suc k) n = ch n # le_bytes k (n div 256)"
proof -
  have "drop_bit (8 * Suc i) n = drop_bit (8 * i) (n div 256)" for i
    using div_mult2_eq [of n 256 "2 ^ (8 * i)"] by (simp add: drop_bit_div power_add power_mult)
  moreover have "[0..<Suc k] = 0 # map Suc [0..<k]" by (simp add: upt_conv_Cons map_Suc_upt del: upt_Suc)
  ultimately show ?thesis by (simp add: le_bytes_def del: upt_Suc mult_Suc_right)
qed

lemma from_le_bytes: "from_le (le_bytes k n) = n mod 2 ^ (8 * k)"
proof (induction k arbitrary: n)
  case (Suc k)
  have "n mod 2 ^ (8 * Suc k) = n mod (256 * 2 ^ (8 * k))" by (simp add: power_add)
  also have "\<dots> = n mod 256 + 256 * (n div 256 mod 2 ^ (8 * k))"
    by (simp add: mod_mult2_eq)
  finally show ?case using Suc by (simp add: le_bytes_Suc)
qed simp

lemma from_le_bytes_small [simp]: "n < 2 ^ (8 * k) \<Longrightarrow> from_le (le_bytes k n) = n"
  by (simp add: from_le_bytes)

lemma from_le_less: "from_le s < 256 ^ length s"
proof (induction s)
  case (Cons c s)
  have "uc c + 256 * from_le s < 256 * Suc (from_le s)" by simp
  also have "\<dots> \<le> 256 * 256 ^ length s" using Cons by (intro mult_le_mono2) simp
  finally show ?case by simp
qed simp

lemma le_bytes_from_le [simp]: "length s = k \<Longrightarrow> le_bytes k (from_le s) = s"
proof (induction s arbitrary: k)
  case (Cons c s)
  have "ch (uc c + 256 * from_le s) = c"
    by (simp flip: uc_inject)
  then show ?case using Cons by (auto simp: le_bytes_Suc)
qed simp

section \<open>\<^verbatim>\<open>std::map\<close> as a strictly sorted association list\<close>

type_synonym ('k, 'v) smap = "('k \<times> 'v) list"

fun smap_put :: "'k::linorder \<Rightarrow> 'v \<Rightarrow> ('k, 'v) smap \<Rightarrow> ('k, 'v) smap" where
  "smap_put k v [] = [(k, v)]"
| "smap_put k v ((k', v') # m) =
     (if k < k' then (k, v) # (k', v') # m
      else if k = k' then (k, v) # m
      else (k', v') # smap_put k v m)"

fun smap_find :: "('k, 'v) smap \<Rightarrow> 'k \<Rightarrow> 'v option" where
  "smap_find [] k = None"
| "smap_find ((k', v) # m) k = (if k = k' then Some v else smap_find m k)"

fun smap_erase :: "'k \<Rightarrow> ('k, 'v) smap \<Rightarrow> ('k, 'v) smap" where
  "smap_erase k [] = []"
| "smap_erase k ((k', v) # m) = (if k = k' then m else (k', v) # smap_erase k m)"

definition smap_ok :: "('k::linorder, 'v) smap \<Rightarrow> bool" where
  "smap_ok m \<longleftrightarrow> sorted_wrt (<) (map fst m)"

lemma smap_ok_Nil [simp]: "smap_ok []"
  by (simp add: smap_ok_def)

lemma smap_ok_Cons [smap_simps]:
  "smap_ok ((k, v) # m) \<longleftrightarrow> (\<forall>p \<in> set m. k < fst p) \<and> smap_ok m"
  by (auto simp: smap_ok_def)

lemma smap_find_None_iff: "smap_find m k = None \<longleftrightarrow> k \<notin> fst ` set m"
  by (induction m k rule: smap_find.induct) (auto simp: image_iff)

lemma smap_find_Some_in: "smap_find m k = Some v \<Longrightarrow> (k, v) \<in> set m"
  by (induction m) (auto split: if_splits)

lemma smap_find_put: "smap_find (smap_put k v m) k' = (if k' = k then Some v else smap_find m k')"
  by (induction k v m rule: smap_put.induct) auto

lemma set_smap_put: "smap_ok m \<Longrightarrow> set (smap_put k v m) = insert (k, v) {p \<in> set m. fst p \<noteq> k}"
proof (induction k v m rule: smap_put.induct)
  case (2 k v k' v' m)
  then have ok: "smap_ok m" and lt: "\<And>p. p \<in> set m \<Longrightarrow> k' < fst p" by (auto simp: smap_simps)
  have "k < k' \<Longrightarrow> p \<in> set m \<Longrightarrow> fst p \<noteq> k" for p using lt [of p] by auto
  moreover have "p \<in> set m \<Longrightarrow> fst p \<noteq> k'" for p using lt [of p] by auto
  ultimately show ?case using "2.IH" ok by (cases k k' rule: linorder_cases) auto
qed simp

lemma smap_ok_put: "smap_ok m \<Longrightarrow> smap_ok (smap_put k v m)"
  by (induction k v m rule: smap_put.induct) (fastforce simp: smap_simps set_smap_put)+

lemma smap_find_erase:
  "smap_ok m \<Longrightarrow> smap_find (smap_erase k m) k' = (if k' = k then None else smap_find m k')"
proof (induction k m rule: smap_erase.induct)
  case (2 k k'' v m)
  then have "smap_ok m" and "smap_find m k'' = None"
    by (auto simp: smap_simps smap_find_None_iff)
  with "2.IH" show ?case by auto
qed simp

lemma set_smap_erase_subset: "set (smap_erase k m) \<subseteq> set m"
  by (induction k m rule: smap_erase.induct) auto

lemma smap_ok_erase: "smap_ok m \<Longrightarrow> smap_ok (smap_erase k m)"
proof (induction k m rule: smap_erase.induct)
  case (2 k k' v m)
  then show ?case using set_smap_erase_subset [of k m] by (auto simp: smap_simps)
qed simp

lemma smap_put_put: "smap_put k v' (smap_put k v m) = smap_put k v' m"
  by (induction k v m rule: smap_put.induct) auto

lemma smap_put_ne [simp]: "smap_put k v m \<noteq> []"
  by (cases "(k, v, m)" rule: smap_put.cases) auto

lemma smap_find_in: "smap_ok m \<Longrightarrow> smap_find m k = Some v \<longleftrightarrow> (k, v) \<in> set m"
proof (induction m)
  case (Cons p m)
  then show ?case by (cases p) (auto simp: smap_simps dest: smap_find_Some_in)
qed simp

text \<open>Insertion of a key above every key appends, so reading a map back in order rebuilds it.\<close>

lemma smap_put_last: "smap_ok (m @ [(k, v)]) \<Longrightarrow> smap_put k v m = m @ [(k, v)]"
proof (induction m)
  case (Cons p m)
  obtain k' v' where p: "p = (k', v')" by (cases p)
  with Cons.prems have "k' < k" "smap_ok (m @ [(k, v)])" by (auto simp: smap_simps)
  with Cons.IH p show ?case by auto
qed simp

lemma smap_ok_append1: "smap_ok (m @ m') \<Longrightarrow> smap_ok m"
  by (simp add: smap_ok_def sorted_wrt_append)

lemma fold_smap_put_ok:
  "smap_ok (m @ m') \<Longrightarrow> fold (\<lambda>(k, v). smap_put k v) m' m = m @ m'"
proof (induction m' arbitrary: m)
  case (Cons p m')
  obtain k v where p: "p = (k, v)" by (cases p)
  from Cons.prems p have "smap_ok (m @ [(k, v)])" and "smap_ok ((m @ [(k, v)]) @ m')"
    using smap_ok_append1 [of "m @ [(k, v)]" m'] by simp_all
  with Cons.IH [of "m @ [(k, v)]"] p show ?case by (simp add: smap_put_last)
qed simp

section \<open>\<^verbatim>\<open>std::multimap\<close> as a sorted association list\<close>

text \<open>A new element goes behind the elements of equal key.\<close>

fun mm_insert :: "'k::linorder \<Rightarrow> 'a \<Rightarrow> ('k \<times> 'a) list \<Rightarrow> ('k \<times> 'a) list" where
  "mm_insert t x [] = [(t, x)]"
| "mm_insert t x ((t', y) # m) = (if t < t' then (t, x) # (t', y) # m else (t', y) # mm_insert t x m)"

lemma set_mm_insert: "set (mm_insert t x m) = insert (t, x) (set m)"
  by (induction t x m rule: mm_insert.induct) auto

lemma sorted_mm_insert: "sorted (map fst m) \<Longrightarrow> sorted (map fst (mm_insert t x m))"
  by (induction t x m rule: mm_insert.induct) (fastforce simp: set_mm_insert)+

lemma distinct_mm_insert:
  "distinct (map snd (mm_insert t x m)) \<longleftrightarrow> distinct (map snd m) \<and> x \<notin> snd ` set m"
  by (induction t x m rule: mm_insert.induct) (auto simp: set_mm_insert)

text \<open>The values of \<^verbatim>\<open>equal_range\<close>, in the order of insertion.\<close>

definition mm_values :: "('k \<times> 'a) list \<Rightarrow> 'k \<Rightarrow> 'a list" where
  "mm_values m k = map snd (filter (\<lambda>p. fst p = k) m)"

lemma mm_values_Nil [simp]: "mm_values [] k = []"
  by (simp add: mm_values_def)

lemma mm_values_insert:
  "sorted (map fst m) \<Longrightarrow> mm_values (mm_insert t x m) k = mm_values m k @ (if k = t then [x] else [])"
proof (induction t x m rule: mm_insert.induct)
  case (2 t x t' y m)
  have "t < t' \<Longrightarrow> filter (\<lambda>p. fst p = t) m = []" using "2.prems" by (force simp: filter_empty_conv)
  then show ?case using 2 by (auto simp: mm_values_def)
qed (simp add: mm_values_def)

lemma mm_values_fold:
  "sorted (map fst m) \<Longrightarrow> mm_values (fold (\<lambda>(k, v). mm_insert k v) l m) k = mm_values m k @ map snd (filter (\<lambda>p. fst p = k) l)"
proof (induction l arbitrary: m)
  case (Cons p l)
  then show ?case by (cases p) (auto simp: mm_values_insert sorted_mm_insert)
qed simp

section \<open>Codecs\<close>

text \<open>
  What every encoder and decoder pair of the library promises: on well-formed values the decoder
  undoes the encoder.  Codecs compose, which is how a session cookie is built from the session data.
\<close>

locale codec =
  fixes enc :: "'a \<Rightarrow> 'b"
    and dec :: "'b \<Rightarrow> 'a option"
    and wf :: "'a \<Rightarrow> bool"
  assumes roundtrip: "wf x \<Longrightarrow> dec (enc x) = Some x"
begin

lemma enc_inj: "wf x \<Longrightarrow> wf y \<Longrightarrow> enc x = enc y \<Longrightarrow> x = y"
  using roundtrip by (metis option.inject)

lemma enc_inj_on: "inj_on enc {x. wf x}"
  by (auto intro: inj_onI enc_inj)

end

section \<open>Character ranges\<close>

text \<open>
  A pair of iterators \<^verbatim>\<open>(p, end)\<close> over a buffer is the list of the characters still in front of
  \<^verbatim>\<open>end\<close>; moving \<^verbatim>\<open>p\<close> forward takes a suffix.  \<open>str_range s r\<close> is \<^verbatim>\<open>std::string(p,q)\<close> when \<open>s\<close> is
  the range from \<^verbatim>\<open>p\<close> and its suffix \<open>r\<close> the range from \<^verbatim>\<open>q\<close>.
\<close>

definition str_range :: "string \<Rightarrow> string \<Rightarrow> string" where
  "str_range s r = take (length s - length r) s"

lemma str_range_append [simp]: "str_range (a @ r) r = a"
  by (simp add: str_range_def)

lemma str_range_suffix: "suffix r s \<Longrightarrow> str_range s r @ r = s"
  by (auto simp: suffix_def)

text \<open>What a C string shows of a buffer: the characters in front of the first zero.\<close>

definition cstr :: "string \<Rightarrow> string" where
  "cstr s = takeWhile (\<lambda>c. c \<noteq> ch 0) s"

section \<open>Lists\<close>

lemma list_all_take: "list_all P xs \<Longrightarrow> list_all P (take n xs)"
  by (auto simp: list_all_iff dest: in_set_takeD)

lemma drop_eq_ConsD: "drop n xs = y # ys \<Longrightarrow> n < length xs \<and> xs ! n = y \<and> drop (Suc n) xs = ys"
  by (metis Cons_nth_drop_Suc drop_all linorder_not_less list.distinct(1) list.inject)

end
