(* ===== verification/Cache_Storage.thy ===== *)
theory Cache_Storage
  imports Prelude
begin

text \<open>
  \<^verbatim>\<open>src/cache_storage.cpp\<close>: \<open>mem_cache\<close>, the memory cache with keys, triggers, timeouts and a least
  recently used list.  Its four containers refer to each other by iterators: \<open>primary\<close> maps a key to
  its container, \<open>lru\<close> lists the keys with the most recently used one first, \<open>timeout\<close> is the
  multimap from expiry times to keys, \<open>triggers\<close> maps a trigger to the keys that carry it.  An
  iterator into one of them is modelled by the element it points to, which the invariant shows to be
  unique there, so \<^verbatim>\<open>erase(iterator)\<close> is the removal of that element.  The locks of the code make
  each operation atomic; the model is the sequence of atomic operations.
\<close>

section \<open>State\<close>

record container =
  cdata :: string
  ctriggers :: "string list"
  ctimeout :: time_t
  cgeneration :: "64 word"

record mem_cache =
  primary :: "string \<rightharpoonup> container"
  triggers :: "string \<rightharpoonup> string list"
  timeout :: "(time_t \<times> string) list"
  lru :: "string list"
  limit :: nat
  csize :: nat
  triggers_count :: nat
  refs :: int
  generation :: "64 word"

text \<open>
  The template parameter \<^verbatim>\<open>Setup\<close>.  The process cache asks the shared memory allocator whether memory
  is short, which depends on what the cache holds.
\<close>

record cache_setup =
  not_enough_memory :: "mem_cache \<Rightarrow> bool"
  size_limit :: nat
  process_shared :: bool

definition thread_settings :: cache_setup where
  "thread_settings =
     \<lparr>not_enough_memory = (\<lambda>_. False), size_limit = 2 ^ 64 - 1, process_shared = False\<rparr>"

text \<open>Where, if anywhere, \<^verbatim>\<open>store\<close> meets \<^verbatim>\<open>std::bad_alloc\<close>.\<close>

datatype alloc = Alloc_ok | Bad_alloc_copy | Bad_alloc_insert | Bad_alloc_link

section \<open>Operations\<close>

definition unlink_trigger :: "string \<Rightarrow> string \<Rightarrow> mem_cache \<Rightarrow> mem_cache" where
  "unlink_trigger key t c =
     (let ps = (case triggers c t of None \<Rightarrow> [] | Some ps \<Rightarrow> remove1 key ps) in
      c\<lparr>triggers := (triggers c)(t := if ps = [] then None else Some ps),
        triggers_count := triggers_count c - 1\<rparr>)"

text \<open>\<open>None\<close> would be a dangling iterator; the invariant excludes it.\<close>

definition delete_node :: "string \<Rightarrow> mem_cache \<Rightarrow> mem_cache" where
  "delete_node p c =
     (case primary c p of
        None \<Rightarrow> c\<lparr>csize := csize c - 1\<rparr>
      | Some n \<Rightarrow>
          (let c1 = c\<lparr>lru := remove1 p (lru c), timeout := remove1 (ctimeout n, p) (timeout c)\<rparr>;
               c2 = fold (unlink_trigger p) (ctriggers n) c1
           in c2\<lparr>primary := (primary c2)(p := None), csize := csize c2 - 1\<rparr>))"

definition nl_clear :: "mem_cache \<Rightarrow> mem_cache" where
  "nl_clear c = c\<lparr>timeout := [], lru := [], primary := Map.empty, triggers := Map.empty,
     csize := 0, triggers_count := 0\<rparr>"

definition new_mem_cache :: "nat \<Rightarrow> mem_cache" where
  "new_mem_cache pages = nl_clear
     \<lparr>primary = Map.empty, triggers = Map.empty, timeout = [], lru = [], limit = pages, csize = 0,
      triggers_count = 0, refs = 0, generation = 0\<rparr>"

definition set_size :: "nat \<Rightarrow> mem_cache \<Rightarrow> mem_cache" where
  "set_size l c = nl_clear (c\<lparr>limit := l\<rparr>)"

text \<open>A hit: the data, the triggers, the expiry time and the generation.\<close>

type_synonym hit = "string \<times> string set \<times> time_t \<times> 64 word"

definition hit_of :: "container \<Rightarrow> hit" where
  "hit_of n = (cdata n, set (ctriggers n), ctimeout n, cgeneration n)"

definition fetch :: "time_t \<Rightarrow> string \<Rightarrow> mem_cache \<Rightarrow> hit option \<times> mem_cache" where
  "fetch now key c =
     (case primary c key of
        None \<Rightarrow> (None, c)
      | Some n \<Rightarrow>
          if ctimeout n < now then (None, c)
          else (Some (hit_of n), c\<lparr>lru := key # remove1 key (lru c)\<rparr>))"

definition rise :: "string \<Rightarrow> mem_cache \<Rightarrow> mem_cache" where
  "rise trigger c =
     (case triggers c trigger of None \<Rightarrow> c | Some kill_list \<Rightarrow> fold delete_node kill_list c)"

definition cache_clear :: "mem_cache \<Rightarrow> mem_cache" where
  "cache_clear c = nl_clear c"

definition cache_stats :: "mem_cache \<Rightarrow> nat \<times> nat" where
  "cache_stats c = (csize c, triggers_count c)"

lemma csize_fold_unlink [simp]: "csize (fold (unlink_trigger p) ts c) = csize c"
  by (induction ts arbitrary: c) (auto simp: unlink_trigger_def Let_def)

lemma csize_delete_node [simp]: "csize (delete_node p c) = csize c - 1"
  by (simp add: delete_node_def Let_def split: option.split)

function check_limits :: "cache_setup \<Rightarrow> time_t \<Rightarrow> mem_cache \<Rightarrow> mem_cache" where
  "check_limits st now c =
     (if csize c > 0 \<and> (not_enough_memory st c \<or> (csize c \<ge> limit c \<and> limit c > 0)) then
        (if timeout c \<noteq> [] \<and> fst (hd (timeout c)) < now
         then check_limits st now (delete_node (snd (hd (timeout c))) c)
         else if lru c \<noteq> [] then check_limits st now (delete_node (last (lru c)) c)
         else c)
      else c)"
  by pat_completeness auto
termination
  by (relation "measure (\<lambda>(st, now, c). csize c)") auto

declare check_limits.simps [simp del]

definition cache_remove :: "string \<Rightarrow> mem_cache \<Rightarrow> mem_cache" where
  "cache_remove key c = (case primary c key of None \<Rightarrow> c | Some _ \<Rightarrow> delete_node key c)"

definition add_trigger :: "string \<Rightarrow> string \<Rightarrow> mem_cache \<Rightarrow> mem_cache" where
  "add_trigger p key c =
     (let ps = (case triggers c key of None \<Rightarrow> [] | Some ps \<Rightarrow> ps) in
      c\<lparr>triggers := (triggers c)(key \<mapsto> p # ps),
        primary := (primary c)(p := map_option (\<lambda>n. n\<lparr>ctriggers := ctriggers n @ [key]\<rparr>) (primary c p)),
        triggers_count := triggers_count c + 1\<rparr>)"

text \<open>
  \<open>triggers_in\<close> lists the elements of the \<^verbatim>\<open>std::set\<close> in its order; \<open>gen\<close> is \<open>None\<close> for a null
  pointer.
\<close>

definition store ::
  "cache_setup \<Rightarrow> alloc \<Rightarrow> time_t \<Rightarrow> string \<Rightarrow> string \<Rightarrow> string list \<Rightarrow> time_t \<Rightarrow> 64 word option \<Rightarrow> mem_cache
     \<Rightarrow> mem_cache" where
  "store st oom now key a triggers_in timeout_in gen c =
     (if oom = Bad_alloc_copy then c
      else
        let c1 = (case primary c key of None \<Rightarrow> c | Some _ \<Rightarrow> delete_node key c) in
        if csize c1 > size_limit st then c1
        else
          let c2 = check_limits st now c1 in
          if oom = Bad_alloc_insert then nl_clear c2
          else
            let g = (case gen of None \<Rightarrow> generation c2 | Some g \<Rightarrow> g);
                n = \<lparr>cdata = a, ctriggers = [], ctimeout = timeout_in, cgeneration = g\<rparr>;
                c3 = c2\<lparr>primary := (primary c2)(key \<mapsto> n), csize := csize c2 + 1,
                        generation := (case gen of None \<Rightarrow> generation c2 + 1 | Some _ \<Rightarrow> generation c2)\<rparr>
            in if oom = Bad_alloc_link then nl_clear c3
               else
                 let c4 = c3\<lparr>lru := key # lru c3, timeout := mm_insert timeout_in key (timeout c3)\<rparr>;
                     c5 = (if key \<notin> set triggers_in then add_trigger key key c4 else c4)
                 in fold (add_trigger key) triggers_in c5)"

definition add_ref :: "cache_setup \<Rightarrow> mem_cache \<Rightarrow> mem_cache" where
  "add_ref st c = (if process_shared st then c else c\<lparr>refs := refs c + 1\<rparr>)"

definition del_ref :: "cache_setup \<Rightarrow> mem_cache \<Rightarrow> bool \<times> mem_cache" where
  "del_ref st c =
     (if process_shared st then (False, c)
      else (refs c - 1 = 0, c\<lparr>refs := refs c - 1\<rparr>))"


section \<open>Invariant\<close>

definition keys_of :: "mem_cache \<Rightarrow> string \<Rightarrow> string list" where
  "keys_of c t = (case triggers c t of None \<Rightarrow> [] | Some ps \<Rightarrow> ps)"

definition ntriggers :: "mem_cache \<Rightarrow> string \<Rightarrow> nat" where
  "ntriggers c k = (case primary c k of None \<Rightarrow> 0 | Some n \<Rightarrow> length (ctriggers n))"

definition lru_inv :: "mem_cache \<Rightarrow> bool" where
  "lru_inv c \<longleftrightarrow> distinct (lru c) \<and> set (lru c) = dom (primary c) \<and> csize c = length (lru c)"

definition timeout_inv :: "mem_cache \<Rightarrow> bool" where
  "timeout_inv c \<longleftrightarrow> sorted (map fst (timeout c)) \<and> distinct (map snd (timeout c))
     \<and> (\<forall>t k. (t, k) \<in> set (timeout c) \<longleftrightarrow> (\<exists>n. primary c k = Some n \<and> ctimeout n = t))"

definition trigger_inv :: "mem_cache \<Rightarrow> bool" where
  "trigger_inv c \<longleftrightarrow>
     (\<forall>t. triggers c t \<noteq> Some [] \<and> distinct (keys_of c t)
        \<and> (\<forall>k. k \<in> set (keys_of c t) \<longleftrightarrow> (\<exists>n. primary c k = Some n \<and> t \<in> set (ctriggers n))))
     \<and> (\<forall>k n. primary c k = Some n \<longrightarrow> distinct (ctriggers n) \<and> k \<in> set (ctriggers n))"

definition count_inv :: "mem_cache \<Rightarrow> bool" where
  "count_inv c \<longleftrightarrow> triggers_count c = (\<Sum>k\<leftarrow>lru c. ntriggers c k)"

definition cache_inv :: "mem_cache \<Rightarrow> bool" where
  "cache_inv c \<longleftrightarrow> lru_inv c \<and> timeout_inv c \<and> trigger_inv c \<and> count_inv c"

lemma cache_invD:
  assumes "cache_inv c"
  shows "lru_inv c" "timeout_inv c" "trigger_inv c" "count_inv c"
  using assms by (auto simp: cache_inv_def)

subsection \<open>Removing a node\<close>

definition shrink :: "string \<Rightarrow> string list option \<Rightarrow> string list option" where
  "shrink p ps = (case ps of None \<Rightarrow> None
     | Some ps \<Rightarrow> if remove1 p ps = [] then None else Some (remove1 p ps))"

lemma unlink_trigger_eq:
  "unlink_trigger p t c =
     c\<lparr>triggers := (triggers c)(t := shrink p (triggers c t)), triggers_count := triggers_count c - 1\<rparr>"
  by (simp add: unlink_trigger_def shrink_def Let_def split: option.split)

lemma fold_unlink_eq:
  "distinct ts \<Longrightarrow> fold (unlink_trigger p) ts c =
     c\<lparr>triggers := (\<lambda>t. if t \<in> set ts then shrink p (triggers c t) else triggers c t),
       triggers_count := triggers_count c - length ts\<rparr>"
  by (induction ts arbitrary: c) (auto simp: unlink_trigger_eq fun_eq_iff)

lemma delete_node_eq:
  assumes "primary c p = Some n" "distinct (ctriggers n)"
  shows "delete_node p c = c\<lparr>lru := remove1 p (lru c), timeout := remove1 (ctimeout n, p) (timeout c),
     triggers := (\<lambda>t. if t \<in> set (ctriggers n) then shrink p (triggers c t) else triggers c t),
     triggers_count := triggers_count c - length (ctriggers n),
     primary := (primary c)(p := None), csize := csize c - 1\<rparr>"
  using assms by (simp add: delete_node_def fold_unlink_eq Let_def cong: if_cong)

lemma keys_of_shrink: "(case shrink p ps of None \<Rightarrow> [] | Some ps \<Rightarrow> ps) =
    remove1 p (case ps of None \<Rightarrow> [] | Some ps \<Rightarrow> ps)"
  by (simp add: shrink_def split: option.split)

lemma keys_of_delete:
  assumes "cache_inv c" "primary c p = Some n"
  shows "keys_of (delete_node p c) t = remove1 p (keys_of c t)"
proof -
  have tr: "trigger_inv c" using assms(1) by (rule cache_invD)
  then have d: "distinct (ctriggers n)" using assms(2) by (simp add: trigger_inv_def)
  have "p \<notin> set (keys_of c t)" if "t \<notin> set (ctriggers n)"
    using tr that assms(2) by (auto simp: trigger_inv_def)
  then show ?thesis
    using delete_node_eq [OF assms(2) d]
    by (auto simp: keys_of_def keys_of_shrink remove1_idem)
qed

lemma sum_list_remove1:
  "distinct xs \<Longrightarrow> x \<in> set xs \<Longrightarrow> (\<Sum>k\<leftarrow>xs. f k) = f x + (\<Sum>k\<leftarrow>remove1 x xs. (f k::nat))"
  by (induction xs) auto

lemma delete_node_inv:
  assumes inv: "cache_inv c" and p: "primary c p = Some n"
  shows "cache_inv (delete_node p c)"
proof -
  note I = cache_invD [OF inv]
  have d: "distinct (ctriggers n)" using I(3) p by (simp add: trigger_inv_def)
  note eq = delete_node_eq [OF p d]
  have plru: "p \<in> set (lru c)" using I(1) p by (auto simp: lru_inv_def)
  have "lru_inv (delete_node p c)"
    using I(1) plru by (auto simp: lru_inv_def eq length_remove1)
  moreover have "timeout_inv (delete_node p c)"
  proof -
    have mem: "(ctimeout n, p) \<in> set (timeout c)" and ds: "distinct (map snd (timeout c))"
      using I(2) p by (auto simp: timeout_inv_def)
    from ds have dt: "distinct (timeout c)" by (rule distinct_map [THEN iffD1, THEN conjunct1])
    have "distinct (map snd (remove1 (ctimeout n, p) (timeout c)))"
      using ds mem dt by (simp add: distinct_map set_remove1_eq inj_on_diff)
    moreover have "sorted (map fst (remove1 (ctimeout n, p) (timeout c)))"
      using I(2) by (simp add: timeout_inv_def sorted_map_remove1)
    ultimately show ?thesis
      using I(2) dt p by (auto simp: timeout_inv_def eq)
  qed
  moreover have "trigger_inv (delete_node p c)"
  proof -
    have prim: "primary (delete_node p c) = (primary c)(p := None)" by (simp add: eq)
    have "triggers (delete_node p c) t \<noteq> Some []" for t
      using I(3) by (auto simp: trigger_inv_def eq shrink_def split: option.splits)
    moreover have "distinct (keys_of (delete_node p c) t)" for t
      using I(3) by (simp add: trigger_inv_def keys_of_delete [OF inv p])
    moreover have "k \<in> set (keys_of (delete_node p c) t)
        \<longleftrightarrow> (\<exists>m. primary (delete_node p c) k = Some m \<and> t \<in> set (ctriggers m))" for k t
      using I(3) by (auto simp: trigger_inv_def keys_of_delete [OF inv p] set_remove1_eq prim)
    moreover have "distinct (ctriggers m) \<and> k \<in> set (ctriggers m)"
      if "primary (delete_node p c) k = Some m" for k m
      using I(3) that by (auto simp: trigger_inv_def prim split: if_splits)
    ultimately show ?thesis unfolding trigger_inv_def by blast
  qed
  moreover have "count_inv (delete_node p c)"
  proof -
    have "(\<Sum>k\<leftarrow>remove1 p (lru c). ntriggers (delete_node p c) k) = (\<Sum>k\<leftarrow>remove1 p (lru c). ntriggers c k)"
      using I(1) by (intro arg_cong [where f = sum_list] map_cong)
        (auto simp: ntriggers_def eq lru_inv_def set_remove1_eq)
    then show ?thesis
      using I(4) I(1) sum_list_remove1 [OF _ plru, of "ntriggers c"] p
      by (simp add: count_inv_def eq lru_inv_def ntriggers_def)
  qed
  ultimately show ?thesis by (simp add: cache_inv_def)
qed


text \<open>What a removal does to the other entries: nothing.\<close>

lemma primary_delete: "cache_inv c \<Longrightarrow> primary c p = Some n \<Longrightarrow> primary (delete_node p c) = (primary c)(p := None)"
  using delete_node_eq [of c p n] by (simp add: cache_inv_def trigger_inv_def)

lemma lru_delete: "cache_inv c \<Longrightarrow> primary c p = Some n \<Longrightarrow> lru (delete_node p c) = remove1 p (lru c)"
  using delete_node_eq [of c p n] by (simp add: cache_inv_def trigger_inv_def)

lemma limit_delete [simp]: "limit (delete_node p c) = limit c"
proof -
  have "limit (fold (unlink_trigger p) ts d) = limit d" for ts d
    by (induction ts arbitrary: d) (auto simp: unlink_trigger_def Let_def)
  then show ?thesis by (simp add: delete_node_def Let_def split: option.split)
qed

lemma fold_delete:
  assumes "cache_inv c" "distinct ks" "set ks \<subseteq> dom (primary c)"
  shows "cache_inv (fold delete_node ks c)
    \<and> primary (fold delete_node ks c) = (\<lambda>k. if k \<in> set ks then None else primary c k)
    \<and> limit (fold delete_node ks c) = limit c"
  using assms
proof (induction ks arbitrary: c)
  case (Cons k ks)
  then obtain n where n: "primary c k = Some n" by auto
  note prim = primary_delete [OF Cons.prems(1) n]
  have sub: "set ks \<subseteq> dom (primary (delete_node k c))" using Cons.prems prim by auto
  have "distinct ks" using Cons.prems by simp
  from Cons.IH [OF delete_node_inv [OF Cons.prems(1) n] this sub] show ?case
    by (simp add: prim fun_eq_iff)
qed auto

subsection \<open>The other operations\<close>

lemma nl_clear_inv: "cache_inv (nl_clear c)"
  by (simp add: nl_clear_def cache_inv_def lru_inv_def timeout_inv_def trigger_inv_def count_inv_def
      keys_of_def)

lemma fetch_inv: "cache_inv c \<Longrightarrow> cache_inv (snd (fetch now key c))"
proof -
  assume inv: "cache_inv c"
  have "cache_inv (c\<lparr>lru := key # remove1 key (lru c)\<rparr>)" if "primary c key = Some n" for n
  proof -
    have mem: "key \<in> set (lru c)" using inv that by (auto simp: cache_inv_def lru_inv_def)
    have "(\<Sum>k\<leftarrow>lru c. ntriggers c k) = ntriggers c key + (\<Sum>k\<leftarrow>remove1 key (lru c). ntriggers c k)"
      using inv mem by (intro sum_list_remove1) (auto simp: cache_inv_def lru_inv_def)
    moreover have "ntriggers (c\<lparr>lru := l\<rparr>) = ntriggers c" "keys_of (c\<lparr>lru := l\<rparr>) = keys_of c" for l
      by (simp_all add: ntriggers_def keys_of_def fun_eq_iff)
    ultimately show ?thesis
      using inv mem length_pos_if_in_set [OF mem]
      by (auto simp: cache_inv_def lru_inv_def timeout_inv_def trigger_inv_def count_inv_def
          length_remove1 set_remove1_eq)
  qed
  with inv show ?thesis by (simp add: fetch_def split: option.split)
qed

lemma rise_eq:
  assumes "cache_inv c"
  shows "cache_inv (rise t c) \<and> limit (rise t c) = limit c
    \<and> primary (rise t c) = (\<lambda>k. case primary c k of None \<Rightarrow> None
         | Some n \<Rightarrow> if t \<in> set (ctriggers n) then None else Some n)"
proof (cases "triggers c t")
  case None
  then have "keys_of c t = []" by (simp add: keys_of_def)
  then have "t \<notin> set (ctriggers n)" if "primary c k = Some n" for k n
    using cache_invD(3) [OF assms] that unfolding trigger_inv_def by (metis empty_iff empty_set)
  with None assms show ?thesis by (auto simp: rise_def fun_eq_iff split: option.split)
next
  case (Some ps)
  then have ps: "ps = keys_of c t" by (simp add: keys_of_def)
  have tr: "trigger_inv c" using assms by (rule cache_invD)
  then have "distinct ps" and mem: "k \<in> set ps \<longleftrightarrow> (\<exists>n. primary c k = Some n \<and> t \<in> set (ctriggers n))" for k
    unfolding ps trigger_inv_def by blast+
  moreover from mem have "set ps \<subseteq> dom (primary c)" by auto
  ultimately have "cache_inv (rise t c) \<and> limit (rise t c) = limit c
    \<and> primary (rise t c) = (\<lambda>k. if k \<in> set ps then None else primary c k)"
    using fold_delete [OF assms, of ps] Some by (simp add: rise_def)
  with mem show ?thesis by (auto simp: fun_eq_iff split: option.split)
qed


lemma check_limits_induct [consumes 1, case_names delete stop]:
  assumes "cache_inv c"
    and delete: "\<And>c p n. cache_inv c \<Longrightarrow> primary c p = Some n \<Longrightarrow> csize c > 0 \<Longrightarrow>
      not_enough_memory st c \<or> (csize c \<ge> limit c \<and> limit c > 0) \<Longrightarrow>
      (timeout c \<noteq> [] \<and> fst (hd (timeout c)) < now \<and> p = snd (hd (timeout c)))
        \<or> (\<not> (timeout c \<noteq> [] \<and> fst (hd (timeout c)) < now) \<and> lru c \<noteq> [] \<and> p = last (lru c)) \<Longrightarrow>
      check_limits st now c = check_limits st now (delete_node p c) \<Longrightarrow> P (delete_node p c) \<Longrightarrow> P c"
    and stop: "\<And>c. cache_inv c \<Longrightarrow>
      csize c = 0 \<or> \<not> (not_enough_memory st c \<or> (csize c \<ge> limit c \<and> limit c > 0)) \<Longrightarrow>
      check_limits st now c = c \<Longrightarrow> P c"
  shows "P c"
  using assms(1)
proof (induction "csize c" arbitrary: c rule: less_induct)
  case less
  note I = cache_invD [OF less.prems]
  show ?case
  proof (cases "csize c > 0 \<and> (not_enough_memory st c \<or> (csize c \<ge> limit c \<and> limit c > 0))")
    case False
    then show ?thesis using less.prems by (intro stop) (auto simp: check_limits.simps [of st now c])
  next
    case True
    then have lru: "lru c \<noteq> []" using I(1) by (auto simp: lru_inv_def)
    define p where "p = (if timeout c \<noteq> [] \<and> fst (hd (timeout c)) < now then snd (hd (timeout c)) else last (lru c))"
    have step: "check_limits st now c = check_limits st now (delete_node p c)"
      using True lru by (subst check_limits.simps) (auto simp: p_def)
    have "p \<in> dom (primary c)"
    proof (cases "timeout c \<noteq> [] \<and> fst (hd (timeout c)) < now")
      case True
      then have "(fst (hd (timeout c)), p) \<in> set (timeout c)" by (simp add: p_def)
      then show ?thesis using I(2) by (auto simp: timeout_inv_def)
    next
      case False
      then have "p \<in> set (lru c)" using lru by (auto simp: p_def)
      then show ?thesis using I(1) by (simp add: lru_inv_def)
    qed
    then obtain n where n: "primary c p = Some n" by auto
    have "P (delete_node p c)"
      using True less.prems n by (intro less.hyps) (auto intro: delete_node_inv)
    with True step lru less.prems n show ?thesis
      by (intro delete [of c p n]) (auto simp: p_def)
  qed
qed

lemma check_limits_inv:
  assumes "cache_inv c"
  shows "cache_inv (check_limits st now c) \<and> limit (check_limits st now c) = limit c
    \<and> (limit c > 0 \<longrightarrow> csize (check_limits st now c) < limit c)
    \<and> primary (check_limits st now c) \<subseteq>\<^sub>m primary c"
  using assms
proof (induction rule: check_limits_induct [where st = st and now = now])
  case (delete c p n)
  have "primary (delete_node p c) \<subseteq>\<^sub>m primary c"
    by (simp add: primary_delete [OF delete(1,2)] map_le_def)
  with delete show ?case using map_le_trans by auto
qed auto


lemma fold_add_trigger_eq:
  "distinct ts \<Longrightarrow> primary c p = Some n \<Longrightarrow> fold (add_trigger p) ts c =
     c\<lparr>triggers := (\<lambda>t. if t \<in> set ts then Some (p # keys_of c t) else triggers c t),
       primary := (primary c)(p \<mapsto> n\<lparr>ctriggers := ctriggers n @ ts\<rparr>),
       triggers_count := triggers_count c + length ts\<rparr>"
proof (induction ts arbitrary: c n)
  case (Cons t ts)
  have "add_trigger p t c = c\<lparr>triggers := (triggers c)(t \<mapsto> p # keys_of c t),
       primary := (primary c)(p \<mapsto> n\<lparr>ctriggers := ctriggers n @ [t]\<rparr>),
       triggers_count := triggers_count c + 1\<rparr>"
    using Cons.prems by (simp add: add_trigger_def keys_of_def Let_def)
  with Cons.prems Cons.IH [of "add_trigger p t c" "n\<lparr>ctriggers := ctriggers n @ [t]\<rparr>"] show ?case
    by (auto simp: keys_of_def fun_eq_iff)
qed (auto simp: fun_upd_idem)

text \<open>The insertion part of \<^verbatim>\<open>store\<close>: a new node with its final list of triggers.\<close>

definition insert_node :: "string \<Rightarrow> container \<Rightarrow> mem_cache \<Rightarrow> mem_cache" where
  "insert_node key n c = c\<lparr>primary := (primary c)(key \<mapsto> n), csize := csize c + 1,
     lru := key # lru c, timeout := mm_insert (ctimeout n) key (timeout c),
     triggers := (\<lambda>t. if t \<in> set (ctriggers n) then Some (key # keys_of c t) else triggers c t),
     triggers_count := triggers_count c + length (ctriggers n)\<rparr>"

lemma insert_node_inv:
  assumes inv: "cache_inv c" and new: "primary c key = None"
    and ts: "distinct (ctriggers n)" "key \<in> set (ctriggers n)"
  shows "cache_inv (insert_node key n c)"
proof -
  note I = cache_invD [OF inv]
  let ?c = "insert_node key n c"
  have prim: "primary ?c = (primary c)(key \<mapsto> n)" by (simp add: insert_node_def)
  have keys: "keys_of ?c t = (if t \<in> set (ctriggers n) then key # keys_of c t else keys_of c t)" for t
    by (simp add: keys_of_def insert_node_def)
  have fresh: "key \<notin> set (lru c)" "key \<notin> set (keys_of c t)" "(x, key) \<notin> set (timeout c)" for t x
    using I new by (auto simp: lru_inv_def trigger_inv_def timeout_inv_def)
  have "lru_inv ?c" using I(1) fresh by (auto simp: lru_inv_def insert_node_def)
  moreover have "timeout_inv ?c"
    using I(2) fresh new
    by (auto simp: timeout_inv_def insert_node_def set_mm_insert sorted_mm_insert distinct_mm_insert)
  moreover have "trigger_inv ?c"
  proof -
    have "triggers ?c t \<noteq> Some []" for t
      using I(3) by (auto simp: trigger_inv_def insert_node_def)
    moreover have "distinct (keys_of ?c t)" for t
      using I(3) fresh(2) [of t] unfolding keys trigger_inv_def by simp
    moreover have "k \<in> set (keys_of ?c t) \<longleftrightarrow> (\<exists>m. primary ?c k = Some m \<and> t \<in> set (ctriggers m))" for k t
      using I(3) fresh new by (auto simp: keys prim trigger_inv_def)
    moreover have "distinct (ctriggers m) \<and> k \<in> set (ctriggers m)" if "primary ?c k = Some m" for k m
      using I(3) ts that by (auto simp: prim trigger_inv_def split: if_splits)
    ultimately show ?thesis unfolding trigger_inv_def by blast
  qed
  moreover have "count_inv ?c"
  proof -
    have "(\<Sum>k\<leftarrow>lru c. ntriggers ?c k) = (\<Sum>k\<leftarrow>lru c. ntriggers c k)"
      using fresh(1) by (intro arg_cong [where f = sum_list] map_cong) (auto simp: ntriggers_def prim)
    moreover have "ntriggers ?c key = length (ctriggers n)" by (simp add: ntriggers_def prim)
    ultimately show ?thesis using I(4) by (simp add: count_inv_def insert_node_def)
  qed
  ultimately show ?thesis by (simp add: cache_inv_def)
qed

text \<open>
  The successful path of \<^verbatim>\<open>store\<close> in three stages: drop the old node, make room, insert.
\<close>

definition drop_old :: "string \<Rightarrow> mem_cache \<Rightarrow> mem_cache" where
  "drop_old key c = (case primary c key of None \<Rightarrow> c | Some _ \<Rightarrow> delete_node key c)"

definition own_triggers :: "string \<Rightarrow> string list \<Rightarrow> string list" where
  "own_triggers key ts = (if key \<notin> set ts then key # ts else ts)"

lemma drop_old_inv:
  "cache_inv c \<Longrightarrow> cache_inv (drop_old key c) \<and> limit (drop_old key c) = limit c
     \<and> primary (drop_old key c) = (primary c)(key := None) \<and> csize (drop_old key c) \<le> csize c"
  by (auto simp: drop_old_def delete_node_inv primary_delete fun_upd_idem split: option.split)

definition new_node :: "string \<Rightarrow> string \<Rightarrow> string list \<Rightarrow> time_t \<Rightarrow> 64 word option \<Rightarrow> mem_cache \<Rightarrow> container" where
  "new_node key a ts t gen c = \<lparr>cdata = a, ctriggers = own_triggers key ts, ctimeout = t,
     cgeneration = (case gen of None \<Rightarrow> generation c | Some g \<Rightarrow> g)\<rparr>"

definition next_generation :: "64 word option \<Rightarrow> mem_cache \<Rightarrow> mem_cache" where
  "next_generation gen c = (case gen of None \<Rightarrow> c\<lparr>generation := generation c + 1\<rparr> | Some _ \<Rightarrow> c)"

lemma store_eq:
  assumes "distinct ts" "csize (drop_old key c) \<le> size_limit st"
  shows "store st Alloc_ok now key a ts t gen c =
    (let c2 = check_limits st now (drop_old key c) in
     next_generation gen (insert_node key (new_node key a ts t gen c2) c2))"
proof -
  define c2 where "c2 = check_limits st now (drop_old key c)"
  define n where "n = \<lparr>cdata = a, ctriggers = [], ctimeout = t,
    cgeneration = (case gen of None \<Rightarrow> generation c2 | Some g \<Rightarrow> g)\<rparr>"
  define c4 where "c4 = c2\<lparr>primary := (primary c2)(key \<mapsto> n), csize := csize c2 + 1,
     generation := (case gen of None \<Rightarrow> generation c2 + 1 | Some _ \<Rightarrow> generation c2),
     lru := key # lru c2, timeout := mm_insert t key (timeout c2)\<rparr>"
  have "store st Alloc_ok now key a ts t gen c = fold (add_trigger key) (own_triggers key ts) c4"
    using assms(2)
    by (simp add: store_def drop_old_def [symmetric] c2_def [symmetric] n_def [symmetric] Let_def
        own_triggers_def c4_def)
  also have "\<dots> = c4\<lparr>triggers := (\<lambda>x. if x \<in> set (own_triggers key ts) then Some (key # keys_of c4 x) else triggers c4 x),
       primary := (primary c4)(key \<mapsto> n\<lparr>ctriggers := ctriggers n @ own_triggers key ts\<rparr>),
       triggers_count := triggers_count c4 + length (own_triggers key ts)\<rparr>"
    using assms(1) by (intro fold_add_trigger_eq) (auto simp: own_triggers_def c4_def)
  also have "\<dots> = next_generation gen (insert_node key (new_node key a ts t gen c2) c2)"
    by (simp add: c4_def n_def insert_node_def new_node_def next_generation_def keys_of_def
        split: option.split cong: if_cong)
  finally show ?thesis by (simp add: c2_def Let_def)
qed


text \<open>
  What \<^verbatim>\<open>store\<close> does in every case: nothing when the copy of the data fails, an empty cache when
  memory runs out later, no entry for the key when the size test turns it away, and otherwise the
  new entry.
\<close>

lemma next_generation_simps [simp]:
  "primary (next_generation g c) = primary c" "limit (next_generation g c) = limit c"
  "csize (next_generation g c) = csize c" "lru (next_generation g c) = lru c"
  "cache_inv (next_generation g c) = cache_inv c"
  by (simp_all add: next_generation_def cache_inv_def lru_inv_def timeout_inv_def trigger_inv_def
      count_inv_def keys_of_def ntriggers_def split: option.split)

lemma store_cases:
  assumes "cache_inv c" "distinct ts"
  obtains (copy) "oom = Bad_alloc_copy" "store st oom now key a ts t gen c = c"
  | (full) "oom \<noteq> Bad_alloc_copy" "csize (drop_old key c) > size_limit st"
      "store st oom now key a ts t gen c = drop_old key c"
  | (oom) d where "oom = Bad_alloc_insert \<or> oom = Bad_alloc_link"
      "store st oom now key a ts t gen c = nl_clear d" "limit d = limit c"
  | (stored) c2 where "oom = Alloc_ok" "csize (drop_old key c) \<le> size_limit st"
      "c2 = check_limits st now (drop_old key c)" "cache_inv c2" "primary c2 key = None"
      "store st oom now key a ts t gen c = next_generation gen (insert_node key (new_node key a ts t gen c2) c2)"
proof -
  note D = drop_old_inv [OF assms(1), of key]
  note C = check_limits_inv [of "drop_old key c" st now]
  let ?c2 = "check_limits st now (drop_old key c)"
  have lim: "limit ?c2 = limit c" and new: "primary ?c2 key = None" and inv: "cache_inv ?c2"
    using C D by (auto simp: map_le_def dom_def)
  have early: "store st oom now key a ts t gen c = drop_old key c"
    if "oom \<noteq> Bad_alloc_copy" "csize (drop_old key c) > size_limit st"
    using that by (simp add: store_def drop_old_def Let_def)
  have late: "\<exists>d. store st oom now key a ts t gen c = nl_clear d \<and> limit d = limit c"
    if "oom = Bad_alloc_insert \<or> oom = Bad_alloc_link" "csize (drop_old key c) \<le> size_limit st"
    using that lim by (auto simp: store_def drop_old_def [symmetric] Let_def)
  show ?thesis
  proof (cases "oom = Bad_alloc_copy")
    case True
    then show ?thesis by (intro copy) (simp_all add: store_def)
  next
    case False
    show ?thesis
    proof (cases "csize (drop_old key c) > size_limit st")
      case True
      with False early show ?thesis by (intro full) simp_all
    next
      case fits: False
      show ?thesis
      proof (cases "oom = Alloc_ok")
        case True
        show ?thesis
          using True fits inv new store_eq [OF assms(2), of key c st now a t gen]
          by (intro stored [of ?c2]) (simp_all add: Let_def)
      next
        case bad: False
        with False have bad: "oom = Bad_alloc_insert \<or> oom = Bad_alloc_link" by (cases oom) auto
        with late fits obtain d where "store st oom now key a ts t gen c = nl_clear d" "limit d = limit c"
          by auto
        with bad show ?thesis by (intro oom [of d]) simp_all
      qed
    qed
  qed
qed

lemma new_node_triggers: "distinct ts \<Longrightarrow> distinct (ctriggers (new_node key a ts t gen c))
    \<and> set (ctriggers (new_node key a ts t gen c)) = insert key (set ts)"
  by (auto simp: new_node_def own_triggers_def)

lemma insert_node_simps [simp]:
  "primary (insert_node key n c) = (primary c)(key \<mapsto> n)" "limit (insert_node key n c) = limit c"
  "csize (insert_node key n c) = csize c + 1" "lru (insert_node key n c) = key # lru c"
  by (simp_all add: insert_node_def)

definition within_limit :: "mem_cache \<Rightarrow> bool" where
  "within_limit c \<longleftrightarrow> (limit c > 0 \<longrightarrow> csize c \<le> limit c)"

lemma store_inv:
  assumes "cache_inv c" "distinct ts" "within_limit c"
  shows "cache_inv (store st oom now key a ts t gen c) \<and> within_limit (store st oom now key a ts t gen c)"
  using assms(1,2)
proof (cases rule: store_cases [where st = st and oom = oom and now = now and key = key and a = a and t = t and gen = gen])
  case copy
  then show ?thesis using assms by simp
next
  case full
  then show ?thesis using assms drop_old_inv [OF assms(1), of key] by (auto simp: within_limit_def)
next
  case (oom d)
  then show ?thesis using nl_clear_inv [of d] by (simp add: within_limit_def nl_clear_def)
next
  case (stored c2)
  have "cache_inv (insert_node key (new_node key a ts t gen c2) c2)"
    using stored new_node_triggers [OF assms(2), of key a t gen c2] by (intro insert_node_inv) auto
  moreover have "limit c2 > 0 \<longrightarrow> csize c2 < limit c2"
    using stored(3) check_limits_inv [of "drop_old key c" st now] drop_old_inv [OF assms(1), of key] by simp
  ultimately show ?thesis using stored by (auto simp: within_limit_def)
qed


section \<open>The cache contract\<close>

text \<open>
  What the users of \<^verbatim>\<open>base_cache\<close> rely on.  \<open>lookup\<close> is the abstract content: data, triggers and
  expiry time.  A cache may forget an entry at any \<open>store\<close>, but it never alters or invents one.  The
  argument \<open>e\<close> of \<open>store\<close> stands for what the call meets in its environment (clock, memory); for
  some of it (\<open>rejects\<close>) the call gives up before it touches the cache.
\<close>

type_synonym item = "string \<times> string set \<times> time_t"

datatype 'e cache_op =
    Op_fetch time_t string
  | Op_store 'e string string "string list" time_t
  | Op_rise string
  | Op_remove string
  | Op_clear

text \<open>A cache that never forgets, the reference for what a hit may return.\<close>

fun ideal_op :: "('e \<Rightarrow> bool) \<Rightarrow> 'e cache_op \<Rightarrow> (string \<rightharpoonup> item) \<Rightarrow> (string \<rightharpoonup> item)" where
  "ideal_op rejects (Op_fetch now k) m = m"
| "ideal_op rejects (Op_store e k a ts t) m =
     (if rejects e then m else m(k \<mapsto> (a, insert k (set ts), t)))"
| "ideal_op rejects (Op_rise tr) m =
     (\<lambda>k. case m k of None \<Rightarrow> None | Some (a, ts, t) \<Rightarrow> if tr \<in> ts then None else Some (a, ts, t))"
| "ideal_op rejects (Op_remove k) m = m(k := None)"
| "ideal_op rejects Op_clear m = Map.empty"

fun op_ok :: "'e cache_op \<Rightarrow> bool" where
  "op_ok (Op_store e k a ts t) = distinct ts"
| "op_ok _ = True"

lemma ideal_op_mono: "m \<subseteq>\<^sub>m m' \<Longrightarrow> ideal_op r op m \<subseteq>\<^sub>m ideal_op r op m'"
  by (cases op) (auto simp: map_le_def dom_def split: option.splits if_splits)

fun run_cache_op ::
  "(time_t \<Rightarrow> string \<Rightarrow> 'c \<Rightarrow> 'h \<times> 'c) \<Rightarrow> ('e \<Rightarrow> string \<Rightarrow> string \<Rightarrow> string list \<Rightarrow> time_t \<Rightarrow> 'c \<Rightarrow> 'c)
     \<Rightarrow> (string \<Rightarrow> 'c \<Rightarrow> 'c) \<Rightarrow> (string \<Rightarrow> 'c \<Rightarrow> 'c) \<Rightarrow> ('c \<Rightarrow> 'c) \<Rightarrow> 'e cache_op \<Rightarrow> 'c \<Rightarrow> 'c" where
  "run_cache_op ft sr rs rm cl (Op_fetch now k) c = snd (ft now k c)"
| "run_cache_op ft sr rs rm cl (Op_store e k a ts t) c = sr e k a ts t c"
| "run_cache_op ft sr rs rm cl (Op_rise tr) c = rs tr c"
| "run_cache_op ft sr rs rm cl (Op_remove k) c = rm k c"
| "run_cache_op ft sr rs rm cl Op_clear c = cl c"

locale base_cache =
  fixes fetch :: "time_t \<Rightarrow> string \<Rightarrow> 'c \<Rightarrow> item option \<times> 'c"
    and store :: "'e \<Rightarrow> string \<Rightarrow> string \<Rightarrow> string list \<Rightarrow> time_t \<Rightarrow> 'c \<Rightarrow> 'c"
    and rise :: "string \<Rightarrow> 'c \<Rightarrow> 'c"
    and remove :: "string \<Rightarrow> 'c \<Rightarrow> 'c"
    and clear :: "'c \<Rightarrow> 'c"
    and inv :: "'c \<Rightarrow> bool"
    and lookup :: "'c \<Rightarrow> (string \<rightharpoonup> item)"
    and rejects :: "'e \<Rightarrow> bool"
  assumes fetch_item: "inv c \<Longrightarrow> fst (fetch now k c) =
      (case lookup c k of None \<Rightarrow> None | Some (a, ts, t) \<Rightarrow> if t < now then None else Some (a, ts, t))"
    and lookup_fetch: "inv c \<Longrightarrow> lookup (snd (fetch now k c)) = lookup c"
    and lookup_store: "inv c \<Longrightarrow> distinct ts \<Longrightarrow>
      lookup (store e k a ts t c) \<subseteq>\<^sub>m ideal_op rejects (Op_store e k a ts t) (lookup c)"
    and lookup_rise: "inv c \<Longrightarrow> lookup (rise tr c) = ideal_op rejects (Op_rise tr) (lookup c)"
    and lookup_remove: "inv c \<Longrightarrow> lookup (remove k c) = (lookup c)(k := None)"
    and lookup_clear: "lookup (clear c) = Map.empty"
    and inv_fetch: "inv c \<Longrightarrow> inv (snd (fetch now k c))"
    and inv_store: "inv c \<Longrightarrow> distinct ts \<Longrightarrow> inv (store e k a ts t c)"
    and inv_rise: "inv c \<Longrightarrow> inv (rise tr c)"
    and inv_remove: "inv c \<Longrightarrow> inv (remove k c)"
    and inv_clear: "inv c \<Longrightarrow> inv (clear c)"
begin

abbreviation "run_op \<equiv> run_cache_op fetch store rise remove clear"

lemma run_op_sound:
  assumes "inv c" "op_ok op"
  shows "inv (run_op op c) \<and> lookup (run_op op c) \<subseteq>\<^sub>m ideal_op rejects op (lookup c)"
proof (cases op)
  case (Op_store e k a ts t)
  with assms lookup_store [of c ts e k a t] inv_store [of c ts e k a t] show ?thesis by simp
next
  case (Op_rise tr)
  with assms lookup_rise [of c tr] inv_rise [of c tr] show ?thesis by simp
qed (use assms in \<open>simp_all add: lookup_fetch lookup_remove lookup_clear inv_fetch inv_remove inv_clear\<close>)

lemma run_sound:
  assumes "inv c" "list_all op_ok ops" "lookup c \<subseteq>\<^sub>m m"
  shows "inv (fold run_op ops c) \<and> lookup (fold run_op ops c) \<subseteq>\<^sub>m fold (ideal_op rejects) ops m"
  using assms
proof (induction ops arbitrary: c m)
  case (Cons op ops)
  then have "inv (run_op op c)" and "lookup (run_op op c) \<subseteq>\<^sub>m ideal_op rejects op m"
    using run_op_sound [of c op] map_le_trans [OF _ ideal_op_mono, of _ rejects op "lookup c" m]
    by simp_all
  with Cons.IH Cons.prems show ?case by simp
qed simp

lemma hit_is_current:
  assumes "inv c" "lookup c = Map.empty" "list_all op_ok ops"
    and "fst (fetch now k (fold run_op ops c)) = Some (a, ts, t)"
  shows "fold (ideal_op rejects) ops Map.empty k = Some (a, ts, t) \<and> now \<le> t"
proof -
  define d where "d = fold run_op ops c"
  have le0: "lookup c \<subseteq>\<^sub>m Map.empty" using assms(2) by simp
  have inv: "inv d" and le: "lookup d \<subseteq>\<^sub>m fold (ideal_op rejects) ops Map.empty"
    using run_sound [OF assms(1,3) le0] unfolding d_def by blast+
  have "lookup d k = Some (a, ts, t) \<and> now \<le> t"
    using assms(4) fetch_item [OF inv, of now k] unfolding d_def [symmetric]
    by (cases "lookup d k") (auto split: if_splits)
  with le show ?thesis unfolding map_le_def by (metis domI)
qed

end


section \<open>The memory cache meets the contract\<close>

definition item_of :: "container \<Rightarrow> item" where
  "item_of n = (cdata n, set (ctriggers n), ctimeout n)"

definition cache_items :: "mem_cache \<Rightarrow> (string \<rightharpoonup> item)" where
  "cache_items c k = map_option item_of (primary c k)"

text \<open>\<^verbatim>\<open>fetch\<close> with the generation left out, and \<^verbatim>\<open>store\<close> with its environment as one argument.\<close>

definition fetch_item :: "time_t \<Rightarrow> string \<Rightarrow> mem_cache \<Rightarrow> item option \<times> mem_cache" where
  "fetch_item now k c =
     (case fetch now k c of (h, c') \<Rightarrow> (map_option (\<lambda>(a, ts, t, g). (a, ts, t)) h, c'))"

definition store_env ::
  "cache_setup \<Rightarrow> alloc \<times> time_t \<times> 64 word option \<Rightarrow> string \<Rightarrow> string \<Rightarrow> string list \<Rightarrow> time_t
     \<Rightarrow> mem_cache \<Rightarrow> mem_cache" where
  "store_env st e k a ts t c = (case e of (oom, now, gen) \<Rightarrow> store st oom now k a ts t gen c)"

definition store_rejects :: "alloc \<times> time_t \<times> 64 word option \<Rightarrow> bool" where
  "store_rejects e \<longleftrightarrow> fst e = Bad_alloc_copy"

definition cache_ok :: "mem_cache \<Rightarrow> bool" where
  "cache_ok c \<longleftrightarrow> cache_inv c \<and> within_limit c"

lemma cache_items_new_node:
  "distinct ts \<Longrightarrow> item_of (new_node k a ts t gen c) = (a, insert k (set ts), t)"
  using new_node_triggers [of ts k a t gen c] by (simp add: item_of_def) (simp add: new_node_def)

lemma cache_items_mono: "primary c \<subseteq>\<^sub>m primary d \<Longrightarrow> cache_items c \<subseteq>\<^sub>m cache_items d"
  by (auto simp: map_le_def cache_items_def dom_def)

lemma store_items:
  assumes "cache_inv c" "distinct ts"
  shows "cache_items (store st oom now k a ts t gen c)
    \<subseteq>\<^sub>m ideal_op store_rejects (Op_store (oom, now, gen) k a ts t) (cache_items c)"
  using assms
proof (cases rule: store_cases [where st = st and oom = oom and now = now and key = k and a = a and t = t and gen = gen])
  case copy
  then show ?thesis by (simp add: store_rejects_def)
next
  case full
  then show ?thesis using drop_old_inv [OF assms(1), of k]
    by (auto simp: store_rejects_def cache_items_def map_le_def)
next
  case (oom d)
  then have "cache_items (store st oom now k a ts t gen c) = Map.empty"
    by (simp add: cache_items_def nl_clear_def fun_eq_iff)
  then show ?thesis by simp
next
  case (stored c2)
  have "primary c2 \<subseteq>\<^sub>m primary (drop_old k c)"
    using stored(3) check_limits_inv drop_old_inv [OF assms(1), of k] by blast
  then have "cache_items c2 \<subseteq>\<^sub>m cache_items (drop_old k c)" by (rule cache_items_mono)
  also have "cache_items (drop_old k c) = (cache_items c)(k := None)"
    using drop_old_inv [OF assms(1), of k] by (auto simp: cache_items_def fun_eq_iff)
  finally have "(cache_items c2)(k \<mapsto> x) \<subseteq>\<^sub>m (cache_items c)(k \<mapsto> x)" for x
    by (auto simp: map_le_def split: if_splits)
  moreover have "cache_items (store st oom now k a ts t gen c) = (cache_items c2)(k \<mapsto> (a, insert k (set ts), t))"
    using stored(6) cache_items_new_node [OF assms(2), of k a t gen c2] by (auto simp: cache_items_def fun_eq_iff)
  ultimately show ?thesis using stored(1) by (simp add: store_rejects_def)
qed

lemma cache_remove_eq:
  "cache_inv c \<Longrightarrow> cache_inv (cache_remove k c) \<and> primary (cache_remove k c) = (primary c)(k := None)
     \<and> limit (cache_remove k c) = limit c \<and> csize (cache_remove k c) \<le> csize c"
  using drop_old_inv [of c k] by (simp add: cache_remove_def drop_old_def)

lemma csize_card: "cache_inv c \<Longrightarrow> csize c = card (dom (primary c))"
  by (metis cache_invD(1) distinct_card lru_inv_def)

lemma csize_mono: "cache_inv c \<Longrightarrow> cache_inv d \<Longrightarrow> primary d \<subseteq>\<^sub>m primary c \<Longrightarrow> csize d \<le> csize c"
  unfolding csize_card
  by (rule card_mono) (auto simp: map_le_implies_dom_le, metis List.finite_set cache_invD(1) lru_inv_def)

lemma cache_ok_intro:
  "cache_inv d \<Longrightarrow> cache_ok c \<Longrightarrow> primary d \<subseteq>\<^sub>m primary c \<Longrightarrow> limit d = limit c \<Longrightarrow> cache_ok d"
  using csize_mono [of c d] by (auto simp: cache_ok_def within_limit_def)

lemma cache_ok_rise: "cache_ok c \<Longrightarrow> cache_ok (rise tr c)"
  using rise_eq [of c tr] cache_ok_intro [of "rise tr c" c]
  by (auto simp: cache_ok_def map_le_def dom_def split: option.splits if_splits)

lemma cache_ok_remove: "cache_ok c \<Longrightarrow> cache_ok (cache_remove k c)"
  using cache_remove_eq [of c k] cache_ok_intro [of "cache_remove k c" c]
  by (auto simp: cache_ok_def map_le_def)

lemma cache_ok_fetch: "cache_ok c \<Longrightarrow> cache_ok (snd (fetch now k c))"
  using fetch_inv [of c now k]
  by (auto simp: cache_ok_def within_limit_def fetch_def split: option.splits)

lemma cache_ok_clear: "cache_ok (nl_clear c)"
  using nl_clear_inv [of c] by (simp add: cache_ok_def within_limit_def nl_clear_def)

interpretation mem: base_cache fetch_item "store_env st" rise cache_remove cache_clear cache_ok
  cache_items store_rejects for st
proof unfold_locales
  fix c now k
  show "fst (fetch_item now k c) = (case cache_items c k of None \<Rightarrow> None
     | Some (a, ts, t) \<Rightarrow> if t < now then None else Some (a, ts, t))"
    by (simp add: fetch_item_def fetch_def cache_items_def hit_of_def item_of_def split: option.split)
  show "cache_items (snd (fetch_item now k c)) = cache_items c"
    by (simp add: fetch_item_def fetch_def cache_items_def fun_eq_iff split: option.split)
  show "cache_ok (snd (fetch_item now k c))" if "cache_ok c"
    using cache_ok_fetch [OF that, of now k] by (auto simp: fetch_item_def split: prod.splits)
next
  fix c e k a t and ts :: "string list"
  assume "cache_ok c" "distinct ts"
  then show "cache_items (store_env st e k a ts t c) \<subseteq>\<^sub>m ideal_op store_rejects (Op_store e k a ts t) (cache_items c)"
    and "cache_ok (store_env st e k a ts t c)"
    using store_items [of c ts st "fst e" "fst (snd e)" k a t "snd (snd e)"] store_inv [of c ts]
    by (auto simp: store_env_def cache_ok_def split: prod.splits)
next
  fix c tr
  assume "cache_ok c"
  then show "cache_items (rise tr c) = ideal_op store_rejects (Op_rise tr) (cache_items c)"
    using rise_eq [of c tr] by (auto simp: cache_ok_def cache_items_def item_of_def fun_eq_iff split: option.split)
next
  fix c k
  assume "cache_ok c"
  then show "cache_items (cache_remove k c) = (cache_items c)(k := None)"
    using cache_remove_eq [of c k] by (auto simp: cache_ok_def cache_items_def fun_eq_iff)
next
  fix c
  show "cache_items (cache_clear c) = Map.empty"
    by (simp add: cache_clear_def nl_clear_def cache_items_def fun_eq_iff)
qed (auto intro: cache_ok_rise cache_ok_remove simp: cache_clear_def cache_ok_clear)


definition mem_run_op ::
  "cache_setup \<Rightarrow> (alloc \<times> time_t \<times> 64 word option) cache_op \<Rightarrow> mem_cache \<Rightarrow> mem_cache" where
  "mem_run_op st = run_cache_op fetch_item (store_env st) rise cache_remove cache_clear"

section \<open>Reachable states\<close>

inductive cache_step :: "cache_setup \<Rightarrow> mem_cache \<Rightarrow> mem_cache \<Rightarrow> bool" for st where
  fetch: "cache_step st c (snd (fetch now k c))"
| store: "distinct ts \<Longrightarrow> cache_step st c (store st oom now k a ts t gen c)"
| rise: "cache_step st c (rise tr c)"
| remove: "cache_step st c (cache_remove k c)"
| clear: "cache_step st c (cache_clear c)"
| set_size: "cache_step st c (set_size l c)"
| add_ref: "cache_step st c (add_ref st c)"
| del_ref: "cache_step st c (snd (del_ref st c))"

inductive cache_reachable :: "cache_setup \<Rightarrow> mem_cache \<Rightarrow> bool" for st where
  init: "cache_reachable st (new_mem_cache pages)"
| step: "cache_reachable st c \<Longrightarrow> cache_step st c d \<Longrightarrow> cache_reachable st d"

lemma refs_irrelevant [simp]: "cache_ok (c\<lparr>refs := r\<rparr>) = cache_ok c"
  by (simp add: cache_ok_def within_limit_def cache_inv_def lru_inv_def timeout_inv_def
      trigger_inv_def count_inv_def keys_of_def ntriggers_def)

lemma cache_step_ok: "cache_step st c d \<Longrightarrow> cache_ok c \<Longrightarrow> cache_ok d"
proof (induction rule: cache_step.induct)
  case (store ts c oom now k a t gen)
  then show ?case using store_inv [of c ts st oom now k a t gen] by (auto simp: cache_ok_def)
qed (auto simp: cache_ok_fetch cache_ok_rise cache_ok_remove cache_clear_def cache_ok_clear
    set_size_def add_ref_def del_ref_def)

lemma reachable_ok: "cache_reachable st c \<Longrightarrow> cache_ok c"
  by (induction rule: cache_reachable.induct)
    (auto simp: new_mem_cache_def cache_ok_clear intro: cache_step_ok)

section \<open>Main properties\<close>


text \<open>A one-entry cache with one value, for the examples.\<close>

definition demo_cache :: mem_cache where
  "demo_cache = store thread_settings Alloc_ok 0 ''k'' ''v'' [''t''] 9 None (new_mem_cache 1)"

lemma demo_reachable: "cache_reachable thread_settings demo_cache"
proof -
  have "distinct [''t'']" by simp
  then have "cache_step thread_settings (new_mem_cache 1) demo_cache"
    unfolding demo_cache_def by (rule cache_step.store)
  with cache_reachable.init show ?thesis by (rule cache_reachable.step)
qed

lemmas demo_eval = demo_cache_def store_def new_mem_cache_def nl_clear_def check_limits.simps
  delete_node_def Let_def add_trigger_def thread_settings_def

lemma demo_primary: "primary demo_cache =
    [''k'' \<mapsto> \<lparr>cdata = ''v'', ctriggers = [''k'', ''t''], ctimeout = 9, cgeneration = 0\<rparr>]"
  by (simp add: demo_eval)

lemma demo_simps: "csize demo_cache = 1" "limit demo_cache = 1" "lru demo_cache = [''k'']"
  by (simp_all add: demo_eval)


text \<open>
  C15. A hit is never stale.  Whatever sequence of operations a cache has gone through, an entry that
  \<^verbatim>\<open>fetch\<close> returns is the last one stored under that key, none of its triggers has been raised and it
  has not been removed since, its time has not run out, and its triggers are those given to \<^verbatim>\<open>store\<close>
  together with the key itself.  (The reference \<open>ideal_op\<close> is the cache that never forgets; a store
  whose copy of the data failed counts as not made.)
\<close>

theorem cache_hit_is_current:
  assumes "list_all op_ok ops"
    and "fst (fetch_item now k (fold (mem_run_op st) ops (new_mem_cache pages))) = Some (a, ts, t)"
  shows "fold (ideal_op store_rejects) ops Map.empty k = Some (a, ts, t) \<and> now \<le> t"
proof -
  have "cache_ok (new_mem_cache pages)" "cache_items (new_mem_cache pages) = Map.empty"
    by (simp_all add: new_mem_cache_def cache_ok_clear del: fun_upd_apply)
      (simp add: nl_clear_def cache_items_def fun_eq_iff)
  then show ?thesis
    using assms by (intro mem.hit_is_current) (simp_all add: mem_run_op_def)
qed

theorem cache_hit_is_current_witness:
  "fold (ideal_op store_rejects)
     [Op_store (Alloc_ok, 0, None) ''k'' ''v'' [''t''] 9, Op_rise ''u''] Map.empty ''k''
     = Some (''v'', {''k'', ''t''}, 9) \<and> (3::time_t) \<le> 9"
proof -
  let ?ops = "[Op_store (Alloc_ok, 0, None) ''k'' ''v'' [''t''] 9, Op_rise ''u'']"
  have "fold (mem_run_op thread_settings) ?ops (new_mem_cache 1) = rise ''u'' demo_cache"
    by (simp add: mem_run_op_def store_env_def demo_cache_def)
  moreover have "rise ''u'' demo_cache = demo_cache" by (simp add: rise_def demo_eval)
  ultimately have "fst (fetch_item 3 ''k'' (fold (mem_run_op thread_settings) ?ops (new_mem_cache 1)))
      = Some (''v'', {''k'', ''t''}, 9)"
    by (simp add: fetch_item_def fetch_def demo_primary hit_of_def)
  then show ?thesis by (intro cache_hit_is_current) simp_all
qed

text \<open>
  A stored value can be fetched: after a \<^verbatim>\<open>store\<close> that meets no memory shortage and passes the
  size test, \<^verbatim>\<open>fetch\<close> of the key returns the data, the triggers with the key added, the expiry time
  and the given generation, as long as the time has not run out.
\<close>

theorem cache_store_fetch:
  assumes "cache_reachable st c" and "distinct ts" and "csize c \<le> size_limit st" and "now' \<le> t"
  shows "\<exists>g. fst (fetch now' k (store st Alloc_ok now k a ts t gen c)) = Some (a, insert k (set ts), t, g)
    \<and> (\<forall>g'. gen = Some g' \<longrightarrow> g = g')"
proof -
  have inv: "cache_inv c" using reachable_ok [OF assms(1)] by (simp add: cache_ok_def)
  define c2 where "c2 = check_limits st now (drop_old k c)"
  have "csize (drop_old k c) \<le> size_limit st" using drop_old_inv [OF inv, of k] assms(3) by simp
  then have eq: "store st Alloc_ok now k a ts t gen c =
      next_generation gen (insert_node k (new_node k a ts t gen c2) c2)"
    using store_eq [OF assms(2)] by (simp add: c2_def Let_def)
  have "ctimeout (new_node k a ts t gen c2) = t" "cdata (new_node k a ts t gen c2) = a"
    "cgeneration (new_node k a ts t gen c2) = (case gen of None \<Rightarrow> generation c2 | Some g \<Rightarrow> g)"
    by (simp_all add: new_node_def)
  then show ?thesis
    using assms(4) new_node_triggers [OF assms(2), of k a t gen c2]
    by (simp add: eq fetch_def hit_of_def split: option.split)
qed


theorem cache_store_fetch_witness:
  "\<exists>g. fst (fetch 5 ''p'' (store thread_settings Alloc_ok 0 ''p'' ''page'' [''x''] 7 (Some 4) demo_cache))
     = Some (''page'', {''p'', ''x''}, 7, g) \<and> (\<forall>g'. Some (4 :: 64 word) = Some g' \<longrightarrow> g = g')"
  using cache_store_fetch [OF demo_reachable, of "[''x'']" 5 7 "''p''" 0 "''page''" "Some 4"]
  by (simp add: demo_simps thread_settings_def)

text \<open>
  Raising a trigger removes exactly the entries that carry it; every other entry stays as it was.
\<close>

theorem cache_rise_exact:
  assumes "cache_reachable st c"
  shows "primary (rise tr c) k =
    (case primary c k of None \<Rightarrow> None | Some n \<Rightarrow> if tr \<in> set (ctriggers n) then None else Some n)"
  using rise_eq [of c tr] reachable_ok [OF assms] by (simp add: cache_ok_def)

theorem cache_rise_exact_witness: "primary (rise ''t'' demo_cache) ''k'' = None"
  using cache_rise_exact [OF demo_reachable, of "''t''" "''k''"] by (simp add: demo_primary)

lemma timeout_hd_least:
  assumes "cache_inv c" "timeout c \<noteq> []"
  shows "\<exists>n. primary c (snd (hd (timeout c))) = Some n \<and> ctimeout n = fst (hd (timeout c))
    \<and> (\<forall>k m. primary c k = Some m \<longrightarrow> ctimeout n \<le> ctimeout m)"
proof -
  have T: "timeout_inv c" using assms(1) by (rule cache_invD)
  then have "(fst (hd (timeout c)), snd (hd (timeout c))) \<in> set (timeout c)" using assms(2) by simp
  then obtain n where n: "primary c (snd (hd (timeout c))) = Some n" "ctimeout n = fst (hd (timeout c))"
    using T unfolding timeout_inv_def by blast
  have "ctimeout n \<le> ctimeout m" if "primary c k = Some m" for k m
  proof -
    have "(ctimeout m, k) \<in> set (timeout c)" using T that unfolding timeout_inv_def by blast
    moreover have "sorted (map fst (timeout c))" using T by (simp add: timeout_inv_def)
    ultimately show ?thesis using n(2) assms(2) by (cases "timeout c") auto
  qed
  with n show ?thesis by blast
qed





end
