(* ===== verification/Block_Hash.thy ===== *)
theory Block_Hash
  imports Prelude
begin

text \<open>
  What the digests of the library share: a compression function folded over the 64 byte blocks of a
  message, and the number of zero bytes that pad a message to 56 modulo 64.
\<close>

fun fold_blocks :: "('h \<Rightarrow> string \<Rightarrow> 'h) \<Rightarrow> 'h \<Rightarrow> string \<Rightarrow> 'h" where
  "fold_blocks f hs m = (if length m < 64 then hs else fold_blocks f (f hs (take 64 m)) (drop 64 m))"

declare fold_blocks.simps [simp del]

lemma fold_blocks_small [simp]: "length m < 64 \<Longrightarrow> fold_blocks f hs m = hs"
  by (simp add: fold_blocks.simps)

lemma fold_blocks_one [simp]: "length m = 64 \<Longrightarrow> fold_blocks f hs m = f hs m"
  by (simp add: fold_blocks.simps [of f hs m])

definition zeros :: "nat \<Rightarrow> nat" where
  "zeros n = (119 - n mod 64) mod 64"

lemma zeros_eq: "zeros n = (if n mod 64 \<le> 55 then 55 - n mod 64 else 119 - n mod 64)"
proof -
  have "n mod 64 < 64" by simp
  then show ?thesis by (cases "n mod 64 \<le> 55") (simp_all add: zeros_def mod_if [of "119 - n mod 64"])
qed

lemma zeros_spec: "(n + 1 + zeros n) mod 64 = 56"
proof -
  have "(n + 1 + zeros n) mod 64 = (n mod 64 + (1 + zeros n)) mod 64"
    by (metis add.assoc mod_add_left_eq)
  also have "\<dots> = 56"
    using mod_less_divisor [of 64 n] by (auto simp: zeros_eq)
  finally show ?thesis .
qed

lemma fold_blocks_append:
  "length m mod 64 = 0 \<Longrightarrow> fold_blocks f hs (m @ r) = fold_blocks f (fold_blocks f hs m) r"
proof (induction f hs m rule: fold_blocks.induct)
  case (1 f hs m)
  show ?case
  proof (cases "length m < 64")
    case True
    with "1.prems" have "m = []" by simp
    then show ?thesis by (simp add: fold_blocks.simps [of f hs "[]"])
  next
    case False
    then have "length (drop 64 m) mod 64 = 0" using "1.prems" by (simp add: le_mod_geq)
    with False "1.IH" show ?thesis
      by (simp add: fold_blocks.simps [of f hs "m @ r"] fold_blocks.simps [of f hs m])
  qed
qed

text \<open>An incomplete last block does not change the chaining values.\<close>

lemma fold_blocks_blocks: "fold_blocks f hs m = fold_blocks f hs (take (length m div 64 * 64) m)"
proof -
  let ?n = "length m div 64 * 64"
  have "fold_blocks f hs (take ?n m @ drop ?n m) = fold_blocks f (fold_blocks f hs (take ?n m)) (drop ?n m)"
    by (rule fold_blocks_append) (simp add: min_absorb2)
  moreover have "length (drop ?n m) < 64"
    by (simp add: minus_div_mult_eq_mod)
  ultimately show ?thesis by (simp add: fold_blocks.simps [of f _ "drop ?n m"])
qed

lemma fold_blocks_snoc_small:
  "Suc (length m) mod 64 \<noteq> 0 \<Longrightarrow> fold_blocks f hs (m @ [b]) = fold_blocks f hs m"
proof -
  assume "Suc (length m) mod 64 \<noteq> 0"
  then have "Suc (length m) div 64 = length m div 64" by (auto simp: div_Suc split: if_splits)
  then have "length (m @ [b]) div 64 * 64 = length m div 64 * 64" by simp
  then show ?thesis
    using fold_blocks_blocks [of f hs "m @ [b]"] fold_blocks_blocks [of f hs m] by simp
qed


lemma fold_blocks_keeps:
  assumes "P hs" and "\<And>h b. P h \<Longrightarrow> P (f h b)"
  shows "P (fold_blocks f hs m)"
  using assms
proof (induction f hs m rule: fold_blocks.induct)
  case (1 f hs m)
  then show ?case by (cases "length m < 64") (simp_all add: fold_blocks.simps [of f hs m])
qed

end
