(* ===== verification/Sha1.thy ===== *)
theory Sha1
  imports Block_Hash
begin

text \<open>
  \<^verbatim>\<open>private/sha1.h\<close>: the SHA-1 digest, fed byte by byte through a 64 byte block buffer.  Shown here:
  the streaming computation gives the digest of the concatenated input whatever the block buffer held
  before and however the input was cut into pieces, equal to the compression function folded over the
  padded message, and for messages below 512 MB the padding is the one of FIPS 180, with the bit
  length as a 64 bit big-endian number.
\<close>

section \<open>The digest object\<close>

record sha1 =
  sha_h :: "32 word list"
  sha_block :: string
  block_byte_index :: nat
  byte_count :: nat

definition left_rotate :: "32 word \<Rightarrow> nat \<Rightarrow> 32 word" where
  "left_rotate x n = push_bit n x XOR drop_bit (32 - n) x"

definition sha1_iv :: "32 word list" where
  "sha1_iv = [0x67452301, 0xEFCDAB89, 0x98BADCFE, 0x10325476, 0xC3D2E1F0]"

definition sha1_reset :: "sha1 \<Rightarrow> sha1" where
  "sha1_reset s = s\<lparr>sha_h := sha1_iv, block_byte_index := 0, byte_count := 0\<rparr>"

definition byte_w :: "char \<Rightarrow> 32 word" where
  "byte_w c = of_nat (uc c)"

definition load_word :: "string \<Rightarrow> nat \<Rightarrow> 32 word" where
  "load_word blk i =
     push_bit 24 (byte_w (blk ! (i * 4 + 0))) OR push_bit 16 (byte_w (blk ! (i * 4 + 1)))
     OR push_bit 8 (byte_w (blk ! (i * 4 + 2))) OR byte_w (blk ! (i * 4 + 3))"

definition schedule_step :: "32 word list \<Rightarrow> 32 word list" where
  "schedule_step w =
     (let i = length w in
      w @ [left_rotate (w ! (i - 3) XOR w ! (i - 8) XOR w ! (i - 14) XOR w ! (i - 16)) 1])"

definition schedule :: "string \<Rightarrow> 32 word list" where
  "schedule blk = (schedule_step ^^ 64) (map (load_word blk) [0..<16])"

definition sha1_round :: "32 word list \<Rightarrow> nat
    \<Rightarrow> 32 word \<times> 32 word \<times> 32 word \<times> 32 word \<times> 32 word \<Rightarrow> 32 word \<times> 32 word \<times> 32 word \<times> 32 word \<times> 32 word" where
  "sha1_round w i = (\<lambda>(a, b, c, d, e).
     let (f, k) =
       (if i < 20 then ((b AND c) OR (NOT b AND d), 0x5A827999)
        else if i < 40 then (b XOR c XOR d, 0x6ED9EBA1)
        else if i < 60 then ((b AND c) OR (b AND d) OR (c AND d), 0x8F1BBCDC)
        else (b XOR c XOR d, 0xCA62C1D6));
       temp = left_rotate a 5 + f + e + k + w ! i
     in (temp, a, left_rotate b 30, c, d))"

text \<open>\<^verbatim>\<open>process_block()\<close>: the new chaining values from the old ones and a full block.\<close>

definition compress :: "32 word list \<Rightarrow> string \<Rightarrow> 32 word list" where
  "compress hs blk =
     (let w = schedule blk;
          (a, b, c, d, e) = fold (sha1_round w) [0..<80] (hs ! 0, hs ! 1, hs ! 2, hs ! 3, hs ! 4)
      in [hs ! 0 + a, hs ! 1 + b, hs ! 2 + c, hs ! 3 + d, hs ! 4 + e])"

definition process_byte :: "char \<Rightarrow> sha1 \<Rightarrow> sha1" where
  "process_byte b s =
     (let blk = (sha_block s)[block_byte_index s := b];
          i = Suc (block_byte_index s);
          s' = s\<lparr>sha_block := blk, block_byte_index := i, byte_count := Suc (byte_count s)\<rparr>
      in if i = 64 then s'\<lparr>block_byte_index := 0, sha_h := compress (sha_h s) blk\<rparr> else s')"

definition process_bytes :: "string \<Rightarrow> sha1 \<Rightarrow> sha1" where
  "process_bytes buffer s = fold process_byte buffer s"

text \<open>
  The padding loops run until the index reaches 0 or 56; each turn moves it on by one, so 64 turns
  are always enough.
\<close>

fun pad_while :: "nat \<Rightarrow> (nat \<Rightarrow> bool) \<Rightarrow> sha1 \<Rightarrow> sha1" where
  "pad_while 0 go s = s"
| "pad_while (Suc n) go s =
     (if go (block_byte_index s) then pad_while n go (process_byte (ch 0) s) else s)"

definition be32 :: "nat \<Rightarrow> string" where
  "be32 n = map (\<lambda>k. ch (drop_bit k n AND 0xFF)) [24, 16, 8, 0]"

definition get_digest :: "sha1 \<Rightarrow> 32 word list \<times> sha1" where
  "get_digest s =
     (let bit_count = byte_count s * 8;
          s1 = process_byte (ch 0x80) s;
          s2 = (if block_byte_index s1 > 56
                then pad_while 64 (\<lambda>i. i < 56) (pad_while 64 (\<lambda>i. i \<noteq> 0) s1)
                else pad_while 64 (\<lambda>i. i < 56) s1);
          s3 = process_bytes (replicate 4 (ch 0) @ be32 bit_count) s2
      in (sha_h s3, s3))"

text \<open>\<^verbatim>\<open>sha1_digets::readout\<close> of \<^verbatim>\<open>src/crypto.cpp\<close>: the five words as big-endian bytes, then a reset.\<close>

definition word_bytes :: "32 word \<Rightarrow> string" where
  "word_bytes w = map (\<lambda>k. ch (unat (drop_bit k w AND 0xFF))) [24, 16, 8, 0]"

definition sha1_readout :: "sha1 \<Rightarrow> string \<times> sha1" where
  "sha1_readout s = (let (ds, s') = get_digest s in (concat (map word_bytes ds), sha1_reset s'))"

definition sha1_new :: sha1 where
  "sha1_new = sha1_reset \<lparr>sha_h = [], sha_block = replicate 64 (ch 0), block_byte_index = 0, byte_count = 0\<rparr>"

section \<open>Reference\<close>

abbreviation compress_all :: "32 word list \<Rightarrow> string \<Rightarrow> 32 word list" where
  "compress_all \<equiv> fold_blocks compress"

definition sha1_pad :: "string \<Rightarrow> string" where
  "sha1_pad m = m @ [ch 0x80] @ replicate (zeros (length m)) (ch 0) @ replicate 4 (ch 0) @ be32 (length m * 8)"

definition sha1_hash :: "string \<Rightarrow> string" where
  "sha1_hash m = concat (map word_bytes (compress_all sha1_iv (sha1_pad m)))"

text \<open>The padding of FIPS 180: the bit length as a 64 bit big-endian number.\<close>

definition be64 :: "nat \<Rightarrow> string" where
  "be64 n = map (\<lambda>k. ch (drop_bit k n AND 0xFF)) [56, 48, 40, 32, 24, 16, 8, 0]"

definition fips_pad :: "string \<Rightarrow> string" where
  "fips_pad m = m @ [ch 0x80] @ replicate (zeros (length m)) (ch 0) @ be64 (length m * 8)"

section \<open>Streaming\<close>

text \<open>
  \<open>absorbed s m\<close>: the object has absorbed exactly \<open>m\<close> since its last reset.  The full blocks of
  \<open>m\<close> are compressed into \<open>sha_h\<close>, the rest is at the start of the block buffer.
\<close>

definition absorbed :: "sha1 \<Rightarrow> string \<Rightarrow> bool" where
  "absorbed s m \<longleftrightarrow> length (sha_block s) = 64 \<and> byte_count s = length m
     \<and> block_byte_index s = length m mod 64
     \<and> take (length m mod 64) (sha_block s) = drop (length m div 64 * 64) m
     \<and> sha_h s = compress_all sha1_iv m"

lemma absorbed_reset: "length (sha_block s) = 64 \<Longrightarrow> absorbed (sha1_reset s) []"
  by (simp add: absorbed_def sha1_reset_def fold_blocks.simps)

lemma absorbed_new: "absorbed sha1_new []"
  unfolding sha1_new_def by (rule absorbed_reset) simp

text \<open>One byte: either it goes into the buffer, or it completes the block and the block is compressed.\<close>

lemma absorbed_process_byte:
  assumes "absorbed s m"
  shows "absorbed (process_byte b s) (m @ [b])"
proof -
  let ?r = "length m mod 64" and ?q = "length m div 64 * 64"
  have len: "length (sha_block s) = 64" and idx: "block_byte_index s = ?r"
    and buf: "take ?r (sha_block s) = drop ?q m" and hs: "sha_h s = compress_all sha1_iv m"
    and cnt: "byte_count s = length m"
    using assms by (auto simp: absorbed_def)
  have r: "?r < 64" by simp
  have buf': "take (Suc ?r) ((sha_block s)[?r := b]) = drop ?q m @ [b]"
    using buf r len by (simp add: take_Suc_conv_app_nth)
  have drop': "drop ?q (m @ [b]) = drop ?q m @ [b]" by simp
  show ?thesis
  proof (cases "Suc ?r = 64")
    case True
    then have full: "Suc (length m) mod 64 = 0" by (simp add: mod_Suc)
    then have q': "Suc (length m) div 64 * 64 = Suc (length m)" by auto
    have blk: "(sha_block s)[?r := b] = drop ?q (m @ [b])"
      using buf' True len by simp
    have "compress_all sha1_iv (m @ [b])
        = compress_all (compress_all sha1_iv (take ?q m)) (drop ?q m @ [b])"
      using fold_blocks_append [of "take ?q m" compress sha1_iv "drop ?q m @ [b]"]
      by (simp add: min_absorb2 append_assoc [symmetric] del: append_assoc)
    also have "\<dots> = compress (compress_all sha1_iv m) ((sha_block s)[?r := b])"
    proof -
      have "length (drop ?q m @ [b]) = 64"
        using True by (simp add: minus_div_mult_eq_mod)
      then show ?thesis
        using fold_blocks_blocks [of compress sha1_iv m] blk
        by (simp add: fold_blocks.simps [of compress _ "drop ?q m @ [b]"] fold_blocks.simps [of compress _ "[]"])
    qed
    finally show ?thesis
      using True idx len cnt hs q' full by (simp add: absorbed_def process_byte_def Let_def)
  next
    case False
    then have small: "Suc (length m) mod 64 = Suc ?r" "Suc (length m) mod 64 \<noteq> 0"
      by (simp_all add: mod_Suc)
    moreover have "Suc (length m) div 64 * 64 = ?q"
      using small by (auto simp: div_Suc)
    ultimately show ?thesis
      using False idx len cnt hs buf' fold_blocks_snoc_small [of m compress sha1_iv b]
      by (simp add: absorbed_def process_byte_def Let_def)
  qed
qed

lemma absorbed_process_bytes: "absorbed s m \<Longrightarrow> absorbed (process_bytes p s) (m @ p)"
  unfolding process_bytes_def
proof (induction p arbitrary: s m)
  case (Cons b p)
  from Cons.IH [OF absorbed_process_byte [OF Cons.prems, of b]] show ?case by simp
qed simp


section \<open>Padding\<close>

lemma absorbed_index: "absorbed s m \<Longrightarrow> block_byte_index s = length m mod 64"
  by (simp add: absorbed_def)

lemma pad_to_56:
  assumes "absorbed s m" "length m mod 64 \<le> 56" "56 - length m mod 64 \<le> n"
  shows "absorbed (pad_while n (\<lambda>i. i < 56) s) (m @ replicate (56 - length m mod 64) (ch 0))"
  using assms
proof (induction n arbitrary: s m)
  case (Suc n)
  show ?case
  proof (cases "length m mod 64 < 56")
    case True
    then have m': "length (m @ [ch 0]) mod 64 = Suc (length m mod 64)" by (simp add: mod_Suc)
    with True Suc.prems have "absorbed (pad_while n (\<lambda>i. i < 56) (process_byte (ch 0) s))
        ((m @ [ch 0]) @ replicate (56 - length (m @ [ch 0]) mod 64) (ch 0))"
      by (intro Suc.IH absorbed_process_byte) simp_all
    moreover have "56 - length m mod 64 = Suc (56 - length (m @ [ch 0]) mod 64)" using True m' by simp
    ultimately show ?thesis using True Suc.prems(1) by (simp add: absorbed_index)
  next
    case False
    then show ?thesis using Suc.prems by (simp add: absorbed_index)
  qed
qed simp

lemma pad_to_block:
  assumes "absorbed s m" "length m mod 64 \<noteq> 0" "64 - length m mod 64 \<le> n"
  shows "absorbed (pad_while n (\<lambda>i. i \<noteq> 0) s) (m @ replicate (64 - length m mod 64) (ch 0))"
  using assms
proof (induction n arbitrary: s m)
  case (Suc n)
  let ?s = "process_byte (ch 0) s" and ?m = "m @ [ch 0]"
  have s': "absorbed ?s ?m" using Suc.prems(1) by (rule absorbed_process_byte)
  have go: "pad_while (Suc n) (\<lambda>i. i \<noteq> 0) s = pad_while n (\<lambda>i. i \<noteq> 0) ?s"
    using Suc.prems by (simp add: absorbed_index)
  show ?case
  proof (cases "Suc (length m mod 64) = 64")
    case True
    then have "length ?m mod 64 = 0" by (simp add: mod_Suc)
    then have "pad_while n (\<lambda>i. i \<noteq> 0) ?s = ?s" using s' by (cases n) (simp_all add: absorbed_index)
    then show ?thesis using go True s' by simp
  next
    case False
    then have m': "length ?m mod 64 = Suc (length m mod 64)" by (simp add: mod_Suc)
    with Suc.prems have "absorbed (pad_while n (\<lambda>i. i \<noteq> 0) ?s)
        (?m @ replicate (64 - length ?m mod 64) (ch 0))"
      by (intro Suc.IH s') simp_all
    moreover have "64 - length m mod 64 = Suc (64 - length ?m mod 64)"
      using m' mod_less_divisor [of 64 "length m"] by simp
    ultimately show ?thesis using go by simp
  qed
next
  case 0
  then show ?case using mod_less_divisor [of 64 "length m"] by simp
qed

lemma absorbed_padded:
  assumes "absorbed s m"
  defines "s1 \<equiv> process_byte (ch 0x80) s"
  shows "absorbed (if block_byte_index s1 > 56
      then pad_while 64 (\<lambda>i. i < 56) (pad_while 64 (\<lambda>i. i \<noteq> 0) s1)
      else pad_while 64 (\<lambda>i. i < 56) s1)
    (m @ [ch 0x80] @ replicate (zeros (length m)) (ch 0))"
proof -
  let ?m = "m @ [ch 0x80]" and ?r = "length m mod 64"
  have s1: "absorbed s1 ?m" unfolding s1_def using assms(1) by (rule absorbed_process_byte)
  have r: "?r < 64" by simp
  show ?thesis
  proof (cases "length ?m mod 64 > 56")
    case True
    then have r': "length ?m mod 64 = Suc ?r" by (simp add: mod_Suc split: if_splits)
    let ?m2 = "?m @ replicate (64 - length ?m mod 64) (ch 0)"
    have s2: "absorbed (pad_while 64 (\<lambda>i. i \<noteq> 0) s1) ?m2"
      using s1 True by (intro pad_to_block) simp_all
    have "length ?m2 mod 64 = 0"
    proof -
      have "length ?m2 mod 64 = (length ?m mod 64 + (64 - length ?m mod 64)) mod 64"
        by (simp only: length_append length_replicate mod_add_left_eq)
      also have "length ?m mod 64 + (64 - length ?m mod 64) = 64"
        by (rule le_add_diff_inverse) (simp add: less_imp_le)
      finally show ?thesis by simp
    qed
    with s2 have "absorbed (pad_while 64 (\<lambda>i. i < 56) (pad_while 64 (\<lambda>i. i \<noteq> 0) s1))
        (?m2 @ replicate 56 (ch 0))"
      using pad_to_56 [OF s2, of 64] by simp
    moreover have "64 - length ?m mod 64 + 56 = zeros (length m)"
      using True r r' by (simp add: zeros_eq)
    ultimately show ?thesis
      using True s1 by (simp add: absorbed_index replicate_add [symmetric])
  next
    case False
    have "56 - length ?m mod 64 = zeros (length m)"
    proof (cases "Suc ?r = 64")
      case True
      then show ?thesis by (simp add: mod_Suc zeros_eq)
    next
      case f: False
      then have "length ?m mod 64 = Suc ?r" by (simp add: mod_Suc)
      with False show ?thesis by (simp add: zeros_eq)
    qed
    with False s1 show ?thesis
      using pad_to_56 [OF s1, of 64] by (simp add: absorbed_index)
  qed
qed

lemma get_digest_eq:
  assumes "absorbed s m"
  shows "fst (get_digest s) = compress_all sha1_iv (sha1_pad m)" and "length (sha_block (snd (get_digest s))) = 64"
proof -
  have "absorbed (snd (get_digest s)) (sha1_pad m)"
    using absorbed_process_bytes [OF absorbed_padded [OF assms], of "replicate 4 (ch 0) @ be32 (length m * 8)"]
      assms
    by (simp add: get_digest_def Let_def sha1_pad_def absorbed_def [of s m])
  then show "fst (get_digest s) = compress_all sha1_iv (sha1_pad m)" "length (sha_block (snd (get_digest s))) = 64"
    by (simp_all add: absorbed_def get_digest_def Let_def)
qed

lemma sha1_readout_eq:
  assumes "absorbed s m"
  shows "fst (sha1_readout s) = sha1_hash m" and "absorbed (snd (sha1_readout s)) []"
  using get_digest_eq [OF assms]
  by (auto simp: sha1_readout_def sha1_hash_def intro!: absorbed_reset split: prod.split)

lemma length_compress: "length (compress hs b) = 5"
  by (simp add: compress_def Let_def split: prod.split)

lemma length_compress_all: "length hs = 5 \<Longrightarrow> length (compress_all hs m) = 5"
  by (rule fold_blocks_keeps [where P = "\<lambda>hs. length hs = 5"]) (simp_all add: length_compress)

lemma sha1_hash_length: "length (sha1_hash m) = 20"
proof -
  have "length ws = 5 \<Longrightarrow> length (concat (map word_bytes ws)) = 20" for ws
    by (simp add: length_concat word_bytes_def sum_list_triv comp_def)
  then show ?thesis unfolding sha1_hash_def by (simp add: length_compress_all sha1_iv_def)
qed

lemma absorbed_pieces: "absorbed s m \<Longrightarrow> absorbed (fold process_bytes ps s) (m @ concat ps)"
proof (induction ps arbitrary: s m)
  case (Cons p ps)
  from Cons.IH [OF absorbed_process_bytes [OF Cons.prems, of p]] show ?case by simp
qed simp

lemma be64_small:
  assumes "n < 2 ^ 32"
  shows "be64 n = replicate 4 (ch 0) @ be32 n"
proof -
  have z: "drop_bit k n = 0" if "32 \<le> k" for k
    using assms power_increasing [OF that, of "2::nat"] by (simp add: drop_bit_eq_div)
  have r: "replicate 4 x = [x, x, x, x]" for x :: char by (simp add: numeral_eq_Suc)
  show ?thesis unfolding be64_def be32_def r using z [of 56] z [of 48] z [of 40] z [of 32] by simp
qed

text \<open>
  C20. The SHA-1 object computes the digest of everything it was given since its last reset,
  whatever the pieces the data came in and whatever an earlier computation left in its buffer:
  feeding a list of pieces and reading the digest out gives the compression function folded over the
  padded concatenation, twenty bytes, and for less than 512 MB of data the padding is the one of the
  standard.
\<close>

theorem sha1_streaming:
  assumes "length (concat pieces) < 2 ^ 29"
    and "fst (sha1_readout (fold process_bytes pieces (snd (sha1_readout (process_bytes old sha1_new))))) = d"
  shows "d = concat (map word_bytes (compress_all sha1_iv (fips_pad (concat pieces)))) \<and> length d = 20"
proof -
  have "absorbed (snd (sha1_readout (process_bytes old sha1_new))) []"
    using sha1_readout_eq(2) [OF absorbed_process_bytes [OF absorbed_new]] by simp
  then have "absorbed (fold process_bytes pieces (snd (sha1_readout (process_bytes old sha1_new)))) (concat pieces)"
    using absorbed_pieces by fastforce
  then have "d = sha1_hash (concat pieces)" using assms(2) sha1_readout_eq(1) by blast
  moreover have "sha1_pad (concat pieces) = fips_pad (concat pieces)"
    using be64_small [of "length (concat pieces) * 8"] assms(1)
    unfolding sha1_pad_def fips_pad_def by simp
  ultimately show ?thesis
    using sha1_hash_length [of "concat pieces"] by (simp add: sha1_hash_def)
qed

theorem sha1_streaming_witness:
  "let d = fst (sha1_readout (fold process_bytes [''ab'', ''c''] (snd (sha1_readout (process_bytes ''x'' sha1_new)))))
   in d = concat (map word_bytes (compress_all sha1_iv (fips_pad ''abc''))) \<and> length d = 20"
  using sha1_streaming [of "[''ab'', ''c'']" "''x''", OF _ refl]
  unfolding Let_def by fastforce

end
