(* ===== verification/Md5.thy ===== *)
theory Md5
  imports Block_Hash
begin

text \<open>
  \<^verbatim>\<open>src/md5.cpp\<close>: the MD5 digest, fed in pieces.  Unlike the SHA-1 object it takes whole blocks straight
  from the caller's buffer and copies only the incomplete ones, and it keeps the bit length in two
  32 bit words with a carry.  Shown here: the streaming computation gives the compression function
  folded over the padded concatenation of the pieces, with the padding of RFC 1321.
\<close>

section \<open>The digest object\<close>

record md5_state =
  count0 :: "32 word"
  count1 :: "32 word"
  abcd :: "32 word list"
  buf :: string

text \<open>\<^verbatim>\<open>T_MASK ^ x\<close>, the way the table spells its constants above \<^verbatim>\<open>0x80000000\<close>.\<close>

definition md5_mask :: "32 word \<Rightarrow> 32 word" where
  "md5_mask x = 0xFFFFFFFF XOR x"

definition md5_T :: "32 word list" where
  "md5_T =
     [md5_mask 0x28955b87, md5_mask 0x173848a9, 0x242070db, md5_mask 0x3e423111,
      md5_mask 0x0a83f050, 0x4787c62a, md5_mask 0x57cfb9ec, md5_mask 0x02b96afe,
      0x698098d8, md5_mask 0x74bb0850, md5_mask 0x0000a44e, md5_mask 0x76a32841,
      0x6b901122, md5_mask 0x02678e6c, md5_mask 0x5986bc71, 0x49b40821,
      md5_mask 0x09e1da9d, md5_mask 0x3fbf4cbf, 0x265e5a51, md5_mask 0x16493855,
      md5_mask 0x29d0efa2, 0x02441453, md5_mask 0x275e197e, md5_mask 0x182c0437,
      0x21e1cde6, md5_mask 0x3cc8f829, md5_mask 0x0b2af278, 0x455a14ed,
      md5_mask 0x561c16fa, md5_mask 0x03105c07, 0x676f02d9, md5_mask 0x72d5b375,
      md5_mask 0x0005c6bd, md5_mask 0x788e097e, 0x6d9d6122, md5_mask 0x021ac7f3,
      md5_mask 0x5b4115bb, 0x4bdecfa9, md5_mask 0x0944b49f, md5_mask 0x4140438f,
      0x289b7ec6, md5_mask 0x155ed805, md5_mask 0x2b10cf7a, 0x04881d05,
      md5_mask 0x262b2fc6, md5_mask 0x1924661a, 0x1fa27cf8, md5_mask 0x3b53a99a,
      md5_mask 0x0bd6ddbb, 0x432aff97, md5_mask 0x546bdc58, md5_mask 0x036c5fc6,
      0x655b59c3, md5_mask 0x70f3336d, md5_mask 0x00100b82, md5_mask 0x7a7ba22e,
      0x6fa87e4f, md5_mask 0x01d3191f, md5_mask 0x5cfebceb, 0x4e0811a1,
      md5_mask 0x08ac817d, md5_mask 0x42c50dca, 0x2ad7d2bb, md5_mask 0x14792c6e]"

definition md5_round1 :: "(nat \<times> nat) list" where
  "md5_round1 =
     [(0, 7), (1, 12), (2, 17), (3, 22), (4, 7), (5, 12), (6, 17), (7, 22),
      (8, 7), (9, 12), (10, 17), (11, 22), (12, 7), (13, 12), (14, 17), (15, 22)]"

definition md5_round2 :: "(nat \<times> nat) list" where
  "md5_round2 =
     [(1, 5), (6, 9), (11, 14), (0, 20), (5, 5), (10, 9), (15, 14), (4, 20),
      (9, 5), (14, 9), (3, 14), (8, 20), (13, 5), (2, 9), (7, 14), (12, 20)]"

definition md5_round3 :: "(nat \<times> nat) list" where
  "md5_round3 =
     [(5, 4), (8, 11), (11, 16), (14, 23), (1, 4), (4, 11), (7, 16), (10, 23),
      (13, 4), (0, 11), (3, 16), (6, 23), (9, 4), (12, 11), (15, 16), (2, 23)]"

definition md5_round4 :: "(nat \<times> nat) list" where
  "md5_round4 =
     [(0, 6), (7, 10), (14, 15), (5, 21), (12, 6), (3, 10), (10, 15), (1, 21),
      (8, 6), (15, 10), (6, 15), (13, 21), (4, 6), (11, 10), (2, 15), (9, 21)]"

definition ROTATE_LEFT :: "32 word \<Rightarrow> nat \<Rightarrow> 32 word" where
  "ROTATE_LEFT x n = push_bit n x OR drop_bit (32 - n) x"

definition md5_F :: "32 word \<Rightarrow> 32 word \<Rightarrow> 32 word \<Rightarrow> 32 word" where
  "md5_F x y z = (x AND y) OR (NOT x AND z)"

definition md5_G :: "32 word \<Rightarrow> 32 word \<Rightarrow> 32 word \<Rightarrow> 32 word" where
  "md5_G x y z = (x AND z) OR (y AND NOT z)"

definition md5_H :: "32 word \<Rightarrow> 32 word \<Rightarrow> 32 word \<Rightarrow> 32 word" where
  "md5_H x y z = x XOR y XOR z"

definition md5_I :: "32 word \<Rightarrow> 32 word \<Rightarrow> 32 word \<Rightarrow> 32 word" where
  "md5_I x y z = y XOR (x OR NOT z)"

text \<open>
  The block as little-endian words, the way the big-endian branch of \<^verbatim>\<open>md5_process\<close> spells it out
  (the little-endian one reads the same words from memory).
\<close>

definition md5_X :: "string \<Rightarrow> nat \<Rightarrow> 32 word" where
  "md5_X data i =
     of_nat (uc (data ! (4 * i))) + push_bit 8 (of_nat (uc (data ! (4 * i + 1))))
     + push_bit 16 (of_nat (uc (data ! (4 * i + 2)))) + push_bit 24 (of_nat (uc (data ! (4 * i + 3))))"

text \<open>
  One \<^verbatim>\<open>SET(a, b, c, d, k, s, Ti)\<close>; the next one of the list has the registers turned by one place,
  which is the order of the result.
\<close>

definition md5_SET :: "(32 word \<Rightarrow> 32 word \<Rightarrow> 32 word \<Rightarrow> 32 word) \<Rightarrow> string
    \<Rightarrow> (nat \<times> nat) \<times> 32 word \<Rightarrow> 32 word \<times> 32 word \<times> 32 word \<times> 32 word
    \<Rightarrow> 32 word \<times> 32 word \<times> 32 word \<times> 32 word" where
  "md5_SET f data = (\<lambda>((k, s), Ti) (a, b, c, d).
     let t = a + f b c d + md5_X data k + Ti in (d, ROTATE_LEFT t s + b, b, c))"

definition md5_process :: "32 word list \<Rightarrow> string \<Rightarrow> 32 word list" where
  "md5_process r data =
     (let st0 = (r ! 0, r ! 1, r ! 2, r ! 3);
          st1 = fold (md5_SET md5_F data) (zip md5_round1 (take 16 md5_T)) st0;
          st2 = fold (md5_SET md5_G data) (zip md5_round2 (take 16 (drop 16 md5_T))) st1;
          st3 = fold (md5_SET md5_H data) (zip md5_round3 (take 16 (drop 32 md5_T))) st2;
          (a, b, c, d) = fold (md5_SET md5_I data) (zip md5_round4 (drop 48 md5_T)) st3
      in [r ! 0 + a, r ! 1 + b, r ! 2 + c, r ! 3 + d])"

definition md5_iv :: "32 word list" where
  "md5_iv = [0x67452301, md5_mask 0x10325476, md5_mask 0x67452301, 0x10325476]"

definition md5_init :: "md5_state \<Rightarrow> md5_state" where
  "md5_init s = s\<lparr>count0 := 0, count1 := 0, abcd := md5_iv\<rparr>"

text \<open>\<^verbatim>\<open>memcpy(b + offset, p, strlen(p))\<close>.\<close>

definition copy_at :: "nat \<Rightarrow> string \<Rightarrow> string \<Rightarrow> string" where
  "copy_at offset p b = take offset b @ p @ drop (offset + length p) b"

text \<open>The loop over full blocks: the registers after it and what is left of the data.\<close>

fun md5_blocks :: "32 word list \<Rightarrow> string \<Rightarrow> 32 word list \<times> string" where
  "md5_blocks r p = (if 64 \<le> length p then md5_blocks (md5_process r (take 64 p)) (drop 64 p) else (r, p))"

declare md5_blocks.simps [simp del]

definition md5_tail :: "string \<Rightarrow> md5_state \<Rightarrow> md5_state" where
  "md5_tail p s =
     (let (r, left) = md5_blocks (abcd s) p
      in s\<lparr>abcd := r, buf := (if left \<noteq> [] then copy_at 0 left (buf s) else buf s)\<rparr>)"

text \<open>The length is the caller's \<^verbatim>\<open>size_t\<close> converted to \<^verbatim>\<open>int\<close>.\<close>

definition md5_append :: "string \<Rightarrow> md5_state \<Rightarrow> md5_state" where
  "md5_append data s =
     (let nbytes = to_int32 (length data);
          offset = unat (drop_bit 3 (count0 s) AND 63);
          nbits = word_of_int (nbytes * 8) :: 32 word
      in if nbytes \<le> 0 then s
         else
           (let p = take (nat nbytes) data;
                c0 = count0 s + nbits;
                c1 = count1 s + of_int (drop_bit 29 nbytes) + (if c0 < nbits then 1 else 0);
                s1 = s\<lparr>count0 := c0, count1 := c1\<rparr>
            in if offset \<noteq> 0
               then
                 (let copy = (if offset + nat nbytes > 64 then 64 - offset else nat nbytes);
                      s2 = s1\<lparr>buf := copy_at offset (take copy p) (buf s)\<rparr>
                  in if offset + copy < 64 then s2
                     else md5_tail (drop copy p) (s2\<lparr>abcd := md5_process (abcd s2) (buf s2)\<rparr>))
               else md5_tail p s1))"

text \<open>Byte \<open>i\<close> of the little-endian image of the words.\<close>

definition le_byte :: "32 word list \<Rightarrow> nat \<Rightarrow> char" where
  "le_byte ws i = ch (unat (drop_bit (8 * (i mod 4)) (ws ! (i div 4)) AND 0xFF))"

definition md5_pad :: string where
  "md5_pad = ch 0x80 # replicate 63 (ch 0)"

definition md5_finish :: "md5_state \<Rightarrow> string \<times> md5_state" where
  "md5_finish s =
     (let data = map (le_byte [count0 s, count1 s]) [0..<8];
          n = unat ((55 - drop_bit 3 (count0 s)) AND 63) + 1;
          s1 = md5_append (take n md5_pad) s;
          s2 = md5_append data s1
      in (map (le_byte (abcd s2)) [0..<16], s2))"

text \<open>\<^verbatim>\<open>md5_digets::readout\<close> of \<^verbatim>\<open>src/crypto.cpp\<close>.\<close>

definition md5_readout :: "md5_state \<Rightarrow> string \<times> md5_state" where
  "md5_readout s = (let (d, s') = md5_finish s in (d, md5_init s'))"

definition md5_new :: md5_state where
  "md5_new = md5_init \<lparr>count0 = 0, count1 = 0, abcd = [], buf = replicate 64 (ch 0)\<rparr>"

section \<open>Reference\<close>

definition rfc1321_pad :: "string \<Rightarrow> string" where
  "rfc1321_pad m = m @ [ch 0x80] @ replicate (zeros (length m)) (ch 0) @ le_bytes 8 (8 * length m)"

definition md5_hash :: "string \<Rightarrow> string" where
  "md5_hash m = map (le_byte (fold_blocks md5_process md5_iv (rfc1321_pad m))) [0..<16]"

section \<open>Streaming\<close>

lemma md5_blocks_eq: "md5_blocks r p = (fold_blocks md5_process r p, drop (length p div 64 * 64) p)"
proof (induction r p rule: md5_blocks.induct)
  case (1 r p)
  show ?case
  proof (cases "64 \<le> length p")
    case True
    then have "length p div 64 * 64 = (length p - 64) div 64 * 64 + 64"
      by (simp add: le_div_geq)
    with 1 True show ?thesis
      by (simp add: md5_blocks.simps [of r p] fold_blocks.simps [of _ r p])
  next
    case False
    then show ?thesis by (simp add: md5_blocks.simps [of r p])
  qed
qed

text \<open>
  \<open>held r b m\<close>: the registers hold the full blocks of \<open>m\<close> and the buffer starts with the rest.
\<close>

definition held :: "32 word list \<Rightarrow> string \<Rightarrow> string \<Rightarrow> bool" where
  "held r b m \<longleftrightarrow> length b = 64 \<and> r = fold_blocks md5_process md5_iv m
     \<and> take (length m mod 64) b = drop (length m div 64 * 64) m"

definition md5_absorbed :: "md5_state \<Rightarrow> string \<Rightarrow> bool" where
  "md5_absorbed s m \<longleftrightarrow> held (abcd s) (buf s) m
     \<and> unat (count0 s) = 8 * length m mod 2 ^ 32
     \<and> unat (count1 s) = 8 * length m div 2 ^ 32 mod 2 ^ 32"

lemma md5_absorbed_init: "length (buf s) = 64 \<Longrightarrow> md5_absorbed (md5_init s) []"
  by (simp add: md5_absorbed_def held_def md5_init_def)

lemma md5_absorbed_new: "md5_absorbed md5_new []"
  unfolding md5_new_def by (rule md5_absorbed_init) simp

lemma held_tail:
  assumes "length m mod 64 = 0" "abcd s = fold_blocks md5_process md5_iv m" "length (buf s) = 64"
  shows "held (abcd (md5_tail p s)) (buf (md5_tail p s)) (m @ p)"
proof -
  let ?r = "drop (length p div 64 * 64) p"
  have q: "length m div 64 * 64 = length m" using assms(1) by auto
  have len: "length ?r = length p mod 64" by (simp add: minus_div_mult_eq_mod)
  have m: "length (m @ p) mod 64 = length p mod 64" using assms(1) by (simp add: mod_add_eq [symmetric])
  have d: "length (m @ p) div 64 * 64 = length m + length p div 64 * 64"
    using assms(1) q by (simp add: div_add1_eq add_mult_distrib)
  have "take (length p mod 64) (if ?r \<noteq> [] then copy_at 0 ?r (buf s) else buf s) = ?r"
    using len by (cases "?r = []") (simp_all add: copy_at_def)
  then show ?thesis
    using assms m d len mod_less_divisor [of 64 "length p"]
    by (simp add: held_def md5_tail_def md5_blocks_eq fold_blocks_append copy_at_def del: mod_less_divisor)
qed

lemma held_buffer:
  assumes "held r b m" "length m mod 64 + length p < 64"
  shows "held r (copy_at (length m mod 64) p b) (m @ p)"
proof -
  let ?o = "length m mod 64"
  have "(length m + length p) div 64 = length m div 64"
    using assms(2) by (simp add: div_add1_eq [of "length m"])
  then have d: "length (m @ p) div 64 * 64 = length m div 64 * 64" by simp
  have e: "length (m @ p) mod 64 = ?o + length p"
    using assms(2) by (metis length_append mod_add_left_eq mod_less)
  have "fold_blocks md5_process md5_iv (m @ p) = fold_blocks md5_process md5_iv m"
    using fold_blocks_blocks [of md5_process md5_iv "m @ p"] fold_blocks_blocks [of md5_process md5_iv m] d
    by simp
  then show ?thesis
    using assms d e by (simp add: held_def copy_at_def minus_div_mult_eq_mod)
qed

lemma held_fill:
  assumes "held r b m" "length m mod 64 + length p = 64"
  shows "md5_process r (copy_at (length m mod 64) p b) = fold_blocks md5_process md5_iv (m @ p)"
    and "length (m @ p) mod 64 = 0"
proof -
  let ?q = "length m div 64 * 64"
  have blk: "copy_at (length m mod 64) p b = drop ?q m @ p"
    using assms by (simp add: held_def copy_at_def)
  have l: "length (drop ?q m @ p) = 64" using assms(2) by (simp add: minus_div_mult_eq_mod)
  have "fold_blocks md5_process md5_iv (take ?q m @ (drop ?q m @ p))
      = fold_blocks md5_process (fold_blocks md5_process md5_iv (take ?q m)) (drop ?q m @ p)"
    by (rule fold_blocks_append) (simp add: min_absorb2)
  with assms(1) blk l show "md5_process r (copy_at (length m mod 64) p b) = fold_blocks md5_process md5_iv (m @ p)"
    using fold_blocks_blocks [of md5_process md5_iv m]
    by (simp add: held_def append_assoc [symmetric] del: append_assoc)
  show "length (m @ p) mod 64 = 0"
    using assms(2) by (metis length_append mod_add_left_eq mod_self)
qed

text \<open>The two counter words: bits modulo \<open>2 ^ 64\<close>, with the carry found by comparing the sum.\<close>

lemma unat_and_63: "unat (w AND 63) = unat (w :: 32 word) mod 64"
proof -
  have "w AND 63 = take_bit 6 w" by (simp add: take_bit_eq_mask mask_eq_exp_minus_1)
  then have "unat (w AND 63) = take_bit 6 (unat w)" by (simp only: unsigned_take_bit_eq)
  then show ?thesis by (simp add: take_bit_eq_mod)
qed

lemma md5_offset:
  assumes "unat (count0 s) = 8 * n mod 2 ^ 32"
  shows "unat (drop_bit 3 (count0 s)) = n mod 2 ^ 29" and "unat (drop_bit 3 (count0 s) AND 63) = n mod 64"
proof -
  have "8 * n mod 2 ^ 32 = 8 * (n mod 2 ^ 29)" using mult_mod_right [of 8 n "2 ^ 29"] by simp
  then show *: "unat (drop_bit 3 (count0 s)) = n mod 2 ^ 29"
    using assms unfolding unat_drop_bit_eq by (simp add: drop_bit_eq_div)
  have "unat (drop_bit 3 (count0 s) AND 63) = n mod 2 ^ 29 mod 64"
    unfolding unat_and_63 * ..
  also have "\<dots> = n mod 64" by (rule mod_mod_cancel) simp
  finally show "unat (drop_bit 3 (count0 s) AND 63) = n mod 64" .
qed

lemma carry_div: "N < W \<Longrightarrow> (L + N) div W = L div W + (L mod W + N) div (W :: nat)"
  using div_add1_eq [of L N W] by simp

lemma carry_detect:
  fixes c n :: "32 word"
  shows "(unat c + unat n) div 2 ^ 32 = (if c + n < n then 1 else 0)"
proof (cases "unat c + unat n < 2 ^ 32")
  case True
  then show ?thesis by (simp add: word_less_nat_alt unat_word_ariths)
next
  case False
  have lt: "unat c < 2 ^ 32" "unat n < 2 ^ 32"
    using unsigned_less [of c] unsigned_less [of n] by simp_all
  have "unat (c + n) = unat c + unat n - 2 ^ 32" using False by (simp add: unat_plus_if')
  with False lt have "c + n < n" by (simp add: word_less_nat_alt)
  moreover have "(unat c + unat n) div 2 ^ 32 = 1"
    using False lt by (intro div_nat_eqI) simp_all
  ultimately show ?thesis by simp
qed

lemma md5_count:
  fixes c0 c1 nbits :: "32 word"
  assumes "unat c0 = 8 * l mod 2 ^ 32" "unat c1 = 8 * l div 2 ^ 32 mod 2 ^ 32" "n < 2 ^ 28"
    and "nbits = word_of_int (int n * 8)"
  shows "unat (c0 + nbits) = 8 * (l + n) mod 2 ^ 32"
    and "unat (c1 + of_int (drop_bit 29 (int n)) + (if c0 + nbits < nbits then 1 else 0))
      = 8 * (l + n) div 2 ^ 32 mod 2 ^ 32"
proof -
  have lt: "8 * n < 2 ^ 32" using assms(3) by simp
  have "nbits = word_of_nat (8 * n)" using assms(4) by (simp add: mult.commute)
  then have nb: "unat nbits = 8 * n" using lt unat_of_nat [of "8 * n", where 'a = 32] by simp
  show lo: "unat (c0 + nbits) = 8 * (l + n) mod 2 ^ 32"
    using assms(1) nb by (simp add: unat_word_ariths mod_add_left_eq distrib_left)
  have hi: "drop_bit 29 (int n) = 0" using assms(3) by (simp add: drop_bit_eq_div)
  have "8 * (l + n) div 2 ^ 32 = 8 * l div 2 ^ 32 + (if c0 + nbits < nbits then 1 else 0)"
    using carry_div [OF lt, of "8 * l"] carry_detect [of c0 nbits] assms(1) nb
    by (simp only: distrib_left)
  then show "unat (c1 + of_int (drop_bit 29 (int n)) + (if c0 + nbits < nbits then 1 else 0))
      = 8 * (l + n) div 2 ^ 32 mod 2 ^ 32"
    unfolding hi using assms(2) by (cases "c0 + nbits < nbits") (simp_all add: unat_word_ariths mod_Suc_eq)
qed

lemma md5_absorbed_append:
  assumes "md5_absorbed s m" "length p < 2 ^ 28"
  shows "md5_absorbed (md5_append p s) (m @ p)"
proof (cases "p = []")
  case True
  then show ?thesis using assms(1) by (simp add: md5_append_def)
next
  case False
  define s1 where "s1 = s\<lparr>count0 := count0 s + word_of_int (int (length p) * 8),
    count1 := count1 s + of_int (drop_bit 29 (int (length p)))
      + (if count0 s + word_of_int (int (length p) * 8) < word_of_int (int (length p) * 8) then 1 else 0)\<rparr>"
  let ?o = "length m mod 64"
  let ?s = "s1\<lparr>buf := copy_at ?o (take (64 - ?o) p) (buf s)\<rparr>"
  have held: "held (abcd s) (buf s) m" and c0: "unat (count0 s) = 8 * length m mod 2 ^ 32"
    and c1: "unat (count1 s) = 8 * length m div 2 ^ 32 mod 2 ^ 32"
    using assms(1) by (auto simp: md5_absorbed_def)
  have counts: "unat (count0 s1) = 8 * length (m @ p) mod 2 ^ 32"
    "unat (count1 s1) = 8 * length (m @ p) div 2 ^ 32 mod 2 ^ 32"
    using md5_count [OF c0 c1 assms(2) refl] by (simp_all add: s1_def)
  have n: "to_int32 (length p) = int (length p)" using assms(2) by simp
  have app: "md5_append p s =
      (if ?o = 0 then md5_tail p s1
       else if ?o + length p < 64 then s1\<lparr>buf := copy_at ?o p (buf s)\<rparr>
       else md5_tail (drop (64 - ?o) p) (?s\<lparr>abcd := md5_process (abcd s) (buf ?s)\<rparr>))"
    using False mod_less_divisor [of 64 "length m"]
    by (auto simp: md5_append_def Let_def n md5_offset [OF c0] s1_def)
  have tail_counts: "count0 (md5_tail q t) = count0 t" "count1 (md5_tail q t) = count1 t" for q t
    by (simp_all add: md5_tail_def split: prod.split)
  have fin: "held (abcd t) (buf t) (m @ p) \<Longrightarrow> count0 t = count0 s1 \<Longrightarrow> count1 t = count1 s1
      \<Longrightarrow> md5_absorbed t (m @ p)" for t
    using counts by (simp add: md5_absorbed_def)
  consider "?o = 0" | "?o \<noteq> 0" "?o + length p < 64" | "?o \<noteq> 0" "64 \<le> ?o + length p" by linarith
  then show ?thesis
  proof cases
    case 1
    then have "held (abcd (md5_tail p s1)) (buf (md5_tail p s1)) (m @ p)"
      using held by (intro held_tail) (simp_all add: held_def s1_def)
    with 1 show ?thesis unfolding app by (intro fin) (simp_all add: tail_counts)
  next
    case 2
    then show ?thesis unfolding app using held_buffer [OF held 2(2)]
      by (intro fin) (simp_all add: s1_def)
  next
    case 3
    let ?c = "take (64 - ?o) p"
    have l: "?o + length ?c = 64" using 3 mod_less_divisor [of 64 "length m"] by simp
    let ?t = "?s\<lparr>abcd := md5_process (abcd s) (buf ?s)\<rparr>"
    have "held (abcd (md5_tail (drop (64 - ?o) p) ?t)) (buf (md5_tail (drop (64 - ?o) p) ?t))
        ((m @ ?c) @ drop (64 - ?o) p)"
      using held_fill [OF held l] held l
      by (intro held_tail) (simp_all add: held_def copy_at_def)
    with 3 show ?thesis unfolding app by (intro fin) (simp_all add: tail_counts)
  qed
qed

section \<open>The digest\<close>

lemma ch_take_bit: "ch (take_bit 8 n) = ch n"
  by (simp add: take_bit_eq_mod flip: uc_inject)

lemma le_byte_nat:
  "le_byte ws i = ch (drop_bit (8 * (i mod 4)) (unat (ws ! (i div 4))))"
proof -
  have m: "w AND 0xFF = take_bit 8 w" for w :: "32 word"
    by (simp add: take_bit_eq_mask mask_eq_exp_minus_1)
  show ?thesis
    unfolding le_byte_def m unsigned_take_bit_eq unat_drop_bit_eq ch_take_bit ..
qed

lemma le_bytes_count:
  assumes "unat c0 = L mod 2 ^ 32" "unat c1 = L div 2 ^ 32 mod 2 ^ 32"
  shows "map (le_byte [c0, c1]) [0..<8] = le_bytes 8 L"
proof -
  have t: "ch (drop_bit k (take_bit 32 n)) = ch (drop_bit k n)" if "k \<le> 24" for k n
  proof -
    have "min 8 (32 - k) = 8" using that by simp
    then have "ch (take_bit 8 (take_bit (32 - k) (drop_bit k n))) = ch (take_bit 8 (drop_bit k n))"
      by (simp only: take_bit_take_bit)
    then show ?thesis by (simp only: ch_take_bit drop_bit_take_bit)
  qed
  have "le_byte [c0, c1] i = ch (drop_bit (8 * i) L)" if i: "i < 8" for i
  proof (cases "i < 4")
    case True
    then show ?thesis using assms(1) t [of "8 * i" L] by (simp add: le_byte_nat take_bit_eq_mod)
  next
    case False
    then have d: "i div 4 = 1" "i mod 4 = i - 4" using i by (simp_all add: div_nat_eqI mod_if)
    have "unat c1 = take_bit 32 (drop_bit 32 L)"
      using assms(2) by (simp add: take_bit_eq_mod drop_bit_eq_div)
    moreover have "8 * (i - 4) + 32 = 8 * i" using False by simp
    ultimately show ?thesis
      using i d t [of "8 * (i - 4)" "drop_bit 32 L"] by (simp add: le_byte_nat)
  qed
  then show ?thesis by (simp add: le_bytes_def)
qed

lemma md5_pad_count:
  assumes "unat (count0 s) = 8 * n mod 2 ^ 32"
  shows "unat ((55 - drop_bit 3 (count0 s)) AND 63) = zeros n"
proof -
  define X where "X = drop_bit 3 (count0 s)"
  have "int (unat X) = int (n mod 2 ^ 29)" unfolding X_def md5_offset(1) [OF assms] ..
  then have x: "uint X = int n mod 2 ^ 29" by (simp only: uint_nat zmod_int) simp
  have "uint (55 - X) mod 64 = (55 - uint X) mod 2 ^ 32 mod 64"
    by (simp add: uint_word_ariths)
  also have "\<dots> = (55 - uint X) mod 64" by (rule mod_mod_cancel) simp
  also have "\<dots> = (55 - (int n mod 2 ^ 29) mod 64) mod 64" unfolding x by (simp only: mod_diff_right_eq)
  also have "(int n mod 2 ^ 29) mod 64 = int n mod 64" by (rule mod_mod_cancel) simp
  finally have "uint (55 - X) mod 64 = (55 - int n mod 64) mod 64" .
  moreover have "int (unat ((55 - X) AND 63)) = uint (55 - X) mod 64"
    unfolding unat_and_63 by (simp only: zmod_int uint_nat) simp
  moreover have "int (zeros n) = (55 - int n mod 64) mod 64"
  proof -
    have "int (119 - n mod 64) = (55 - int n mod 64) + 64"
      using mod_less_divisor [of 64 n] by (simp add: of_nat_diff zmod_int del: mod_less_divisor)
    then show ?thesis unfolding zeros_def zmod_int by (simp only: of_nat_numeral mod_add_self2)
  qed
  ultimately have "int (unat ((55 - X) AND 63)) = int (zeros n)" by (simp only:)
  then show ?thesis unfolding X_def by (simp only: of_nat_eq_iff)
qed

lemma md5_finish_eq:
  assumes "md5_absorbed s m"
  shows "fst (md5_finish s) = md5_hash m" and "md5_absorbed (snd (md5_finish s)) (rfc1321_pad m)"
proof -
  have c: "unat (count0 s) = 8 * length m mod 2 ^ 32" "unat (count1 s) = 8 * length m div 2 ^ 32 mod 2 ^ 32"
    using assms by (auto simp: md5_absorbed_def)
  have z: "zeros (length m) \<le> 63" by (simp add: zeros_def less_Suc_eq_le [symmetric])
  let ?s1 = "md5_append (take (zeros (length m) + 1) md5_pad) s"
  have "md5_absorbed (md5_append (le_bytes 8 (8 * length m)) ?s1)
      ((m @ take (zeros (length m) + 1) md5_pad) @ le_bytes 8 (8 * length m))"
    using z by (intro md5_absorbed_append assms) (simp_all add: md5_pad_def le_bytes_def)
  then have "md5_absorbed (md5_append (le_bytes 8 (8 * length m)) ?s1) (rfc1321_pad m)"
    using z by (simp add: rfc1321_pad_def md5_pad_def min_absorb1)
  moreover have "md5_finish s = (map (le_byte (abcd (md5_append (le_bytes 8 (8 * length m)) ?s1))) [0..<16],
      md5_append (le_bytes 8 (8 * length m)) ?s1)"
    unfolding md5_finish_def Let_def le_bytes_count [OF c] md5_pad_count [OF c(1)] ..
  ultimately show "fst (md5_finish s) = md5_hash m" "md5_absorbed (snd (md5_finish s)) (rfc1321_pad m)"
    by (simp_all add: md5_absorbed_def held_def md5_hash_def)
qed

lemma md5_readout_eq:
  assumes "md5_absorbed s m"
  shows "fst (md5_readout s) = md5_hash m" and "md5_absorbed (snd (md5_readout s)) []"
  using md5_finish_eq [OF assms] md5_absorbed_init [of "snd (md5_finish s)"]
  by (simp_all add: md5_readout_def case_prod_unfold md5_absorbed_def [of "snd (md5_finish s)"] held_def)

lemma md5_hash_length: "length (md5_hash m) = 16"
  by (simp add: md5_hash_def)

lemma md5_absorbed_pieces:
  "md5_absorbed s m \<Longrightarrow> \<forall>p \<in> set ps. length p < 2 ^ 28 \<Longrightarrow> md5_absorbed (fold md5_append ps s) (m @ concat ps)"
proof (induction ps arbitrary: s m)
  case (Cons p ps)
  then have "md5_absorbed (md5_append p s) (m @ p)" by (intro md5_absorbed_append) simp_all
  from Cons.IH [OF this] Cons.prems show ?case by simp
qed simp

text \<open>
  C21. The MD5 object, which compresses whole blocks straight out of the caller's buffer and counts
  bits in two 32 bit words, computes the digest of everything it was given since it was last
  initialised, however the data was cut into pieces (each below 256 MB) and whatever an earlier
  computation left behind: the compression function folded over the message padded as RFC 1321 says.
\<close>

theorem md5_streaming:
  assumes "\<forall>p \<in> set pieces. length p < 2 ^ 28" "length old < 2 ^ 28"
    and "fst (md5_readout (fold md5_append pieces (snd (md5_readout (md5_append old md5_new))))) = d"
  shows "d = map (le_byte (fold_blocks md5_process md5_iv (rfc1321_pad (concat pieces)))) [0..<16]"
proof -
  have "md5_absorbed (snd (md5_readout (md5_append old md5_new))) []"
    using md5_readout_eq(2) [OF md5_absorbed_append [OF md5_absorbed_new assms(2)]] .
  from md5_absorbed_pieces [OF this assms(1)]
  have "md5_absorbed (fold md5_append pieces (snd (md5_readout (md5_append old md5_new)))) (concat pieces)"
    by simp
  from md5_readout_eq(1) [OF this] assms(3) show ?thesis unfolding md5_hash_def by (simp only:)
qed

theorem md5_streaming_witness:
  "fst (md5_readout (fold md5_append [''ab'', ''c''] (snd (md5_readout (md5_append ''x'' md5_new)))))
   = map (le_byte (fold_blocks md5_process md5_iv (rfc1321_pad ''abc''))) [0..<16]"
  using md5_streaming [of "[''ab'', ''c'']" "''x''", OF _ _ refl] by simp

end
