(* ===== verification/Http_Protocol.thy ===== *)
theory Http_Protocol
  imports Prelude
begin

text \<open>
  The lexical rules of HTTP, \<^verbatim>\<open>private/http_protocol.h\<close>: white space skipping, tokens, quoted
  strings, the case-insensitive comparison of header names.  A pair of iterators is the list of the
  remaining characters.  Shown here: the comparison is a three-way comparison of the case-folded
  strings (a total preorder), tokens and white space are cut off as suffixes, and
  \<^verbatim>\<open>unquote\<close> undoes \<^verbatim>\<open>quote\<close> exactly on the strings that hold neither a quote nor a backslash.
\<close>

abbreviation "CR \<equiv> CHR 0x0D"
abbreviation "LF \<equiv> CHR 0x0A"
abbreviation "TAB \<equiv> CHR 0x09"
abbreviation "DQUOTE \<equiv> CHR 0x22"
abbreviation "BSLASH \<equiv> CHR 0x5C"

definition separator :: "char \<Rightarrow> bool" where
  "separator c \<longleftrightarrow> c \<in> set [CHR ''('', CHR '')'', CHR ''<'', CHR ''>'', CHR ''@'', CHR '','',
     CHR '';'', CHR '':'', BSLASH, DQUOTE, CHR ''/'', CHR ''['', CHR '']'', CHR ''?'', CHR ''='',
     CHR ''{'', CHR ''}'', CHR '' '', TAB]"

definition ascii_to_lower :: "char \<Rightarrow> char" where
  "ascii_to_lower c =
     (if sc c < sc CHR ''A'' \<or> sc c > sc CHR ''Z'' then c
      else ch (uc c - uc CHR ''A'' + uc CHR ''a''))"

fun skip_ws :: "string \<Rightarrow> string" where
  "skip_ws [] = []"
| "skip_ws (c # s) =
     (if c = CR then
        (case s of
           c1 # c2 # r \<Rightarrow>
             if c1 = LF \<and> (c2 = CHR '' '' \<or> c2 = TAB) then skip_ws r else c # s
         | _ \<Rightarrow> c # s)
      else if c = CHR '' '' \<or> c = TAB then skip_ws s
      else c # s)"

fun tocken :: "string \<Rightarrow> string" where
  "tocken [] = []"
| "tocken (c # s) =
     (if 0x20 \<le> sc c \<and> sc c \<le> 0x7E \<and> \<not> separator c then tocken s else c # s)"

text \<open>
  The loop of \<^verbatim>\<open>unquote\<close> after the opening quote; \<open>None\<close> is the end of the range without a closing
  quote, after which the function returns the empty string and leaves the iterator alone.
\<close>

fun unquote_loop :: "string \<Rightarrow> string \<Rightarrow> (string \<times> string) option" where
  "unquote_loop result [] = None"
| "unquote_loop result (c # p) =
     (if c = DQUOTE then Some (result, p)
      else if c = BSLASH \<and> p \<noteq> [] then unquote_loop (result @ [hd p]) (tl p)
      else unquote_loop (result @ [c]) p)"

definition unquote :: "string \<Rightarrow> string \<times> string" where
  "unquote begin =
     (case begin of
        [] \<Rightarrow> ([], begin)
      | c # p \<Rightarrow>
          if c \<noteq> DQUOTE then ([], begin)
          else (case unquote_loop [] p of None \<Rightarrow> ([], begin) | Some (result, r) \<Rightarrow> (result, r)))"

fun compare_nocase :: "string \<Rightarrow> string \<Rightarrow> int" where
  "compare_nocase [] [] = 0"
| "compare_nocase [] (r # rs) = -1"
| "compare_nocase (l # ls) [] = 1"
| "compare_nocase (l # ls) (r # rs) =
     (let cl = ascii_to_lower l; cr = ascii_to_lower r in
      if sc cl < sc cr then -1 else if sc cl > sc cr then 1 else compare_nocase ls rs)"

fun quote_loop :: "string \<Rightarrow> string" where
  "quote_loop [] = []"
| "quote_loop (c # p) =
     (if 0 \<le> sc c \<and> sc c < sc CHR '' '' then BSLASH # c # quote_loop p else c # quote_loop p)"

definition quote :: "string \<Rightarrow> string" where
  "quote input = DQUOTE # quote_loop input @ [DQUOTE]"

fun is_prefix_loop :: "string \<Rightarrow> string \<Rightarrow> bool" where
  "is_prefix_loop [] p = True"
| "is_prefix_loop (c # pre) p =
     (case p of
        [] \<Rightarrow> False
      | d # p' \<Rightarrow> ascii_to_lower c = ascii_to_lower d \<and> is_prefix_loop pre p')"

definition is_prefix_of :: "string \<Rightarrow> string \<Rightarrow> bool" where
  "is_prefix_of pre s = is_prefix_loop pre (skip_ws s)"

definition xdigit :: "char \<Rightarrow> bool" where
  "xdigit c \<longleftrightarrow>
     (sc CHR ''0'' \<le> sc c \<and> sc c \<le> sc CHR ''9'')
     \<or> (sc CHR ''a'' \<le> sc c \<and> sc c \<le> sc CHR ''f'')
     \<or> (sc CHR ''A'' \<le> sc c \<and> sc c \<le> sc CHR ''F'')"

subsection \<open>Suffixes\<close>

text \<open>The three ways the loop of \<^verbatim>\<open>skip_ws\<close> goes on: a folded line, a blank, and the end.\<close>

lemma skip_ws_cases [case_names stop fold blank]:
  obtains "skip_ws s = s" "\<And>c r. s = c # r \<Longrightarrow> c \<noteq> CHR '' '' \<and> c \<noteq> TAB"
  | c2 r where "s = CR # LF # c2 # r" "skip_ws s = skip_ws r"
  | c r where "s = c # r" "c = CHR '' '' \<or> c = TAB" "skip_ws s = skip_ws r"
proof (cases s)
  case (Cons c t)
  show ?thesis
  proof (cases "c = CHR '' '' \<or> c = TAB")
    case True
    then have "skip_ws s = skip_ws t" using Cons by auto
    with True Cons show ?thesis by (intro that(3))
  next
    case False
    show ?thesis
    proof (cases "\<exists>c2 r. c = CR \<and> t = LF # c2 # r \<and> (c2 = CHR '' '' \<or> c2 = TAB)")
      case True
      then obtain c2 r where "s = CR # LF # c2 # r" "c2 = CHR '' '' \<or> c2 = TAB" using Cons by blast
      then have "s = CR # LF # c2 # r" "skip_ws s = skip_ws r" by auto
      then show ?thesis by (rule that(2))
    next
      case no: False
      then have "skip_ws s = s" using False Cons by (cases t; cases "tl t") auto
      with False Cons show ?thesis by (intro that(1)) simp_all
    qed
  qed
next
  case Nil
  then show ?thesis by (intro that(1)) simp_all
qed

lemma skip_ws_suffix: "suffix (skip_ws s) s"
proof (induction "length s" arbitrary: s rule: less_induct)
  case less
  show ?case
  proof (cases s rule: skip_ws_cases)
    case (fold c2 r)
    with less [of r] show ?thesis by (simp add: suffix_Cons)
  next
    case (blank c r)
    with less [of r] show ?thesis by (simp add: suffix_Cons)
  qed simp
qed

lemma tocken_suffix: "suffix (tocken s) s"
  by (induction s) (simp_all add: suffix_Cons)

lemma skip_ws_idem: "skip_ws (skip_ws s) = skip_ws s"
proof (induction "length s" arbitrary: s rule: less_induct)
  case less
  show ?case
  proof (cases s rule: skip_ws_cases)
    case (fold c2 r)
    with less [of r] show ?thesis by simp
  next
    case (blank c r)
    with less [of r] show ?thesis by simp
  qed simp
qed

lemma skip_ws_hd: "skip_ws s = c # r \<Longrightarrow> c \<noteq> CHR '' '' \<and> c \<noteq> TAB"
proof (induction "length s" arbitrary: s rule: less_induct)
  case less
  show ?case
  proof (cases s rule: skip_ws_cases)
    case (fold c2 r')
    with less.hyps [of r'] less.prems show ?thesis by simp
  next
    case (blank c' r')
    with less.hyps [of r'] less.prems show ?thesis by simp
  next
    case stop
    with less.prems stop(2) [of c r] show ?thesis by simp
  qed
qed

lemma skip_ws_length: "length (skip_ws s) \<le> length s"
  using skip_ws_suffix suffix_length_le by blast

lemma tocken_length: "length (tocken s) \<le> length s"
  using tocken_suffix suffix_length_le by blast

subsection \<open>Quoted strings\<close>

lemma unquote_loop_suffix: "unquote_loop acc s = Some (x, r) \<Longrightarrow> suffix r (tl s)"
proof (induction acc s rule: unquote_loop.induct)
  case (2 result c p)
  consider "c = DQUOTE" | "c = BSLASH" "p \<noteq> []" | "c \<noteq> DQUOTE" "\<not> (c = BSLASH \<and> p \<noteq> [])" by blast
  then show ?case
  proof cases
    case 1
    with "2.prems" show ?thesis by simp
  next
    case b: 2
    with "2.prems" "2.IH"(1) have "suffix r (tl (tl p))" by simp
    then have "suffix r (tl p)" using suffix_order.trans [OF _ suffix_tl] by blast
    then have "suffix r p" using suffix_order.trans [OF _ suffix_tl] by blast
    then show ?thesis by simp
  next
    case 3
    with "2.prems" "2.IH"(2) have "suffix r (tl p)" by (simp split: if_splits)
    then have "suffix r p" using suffix_order.trans [OF _ suffix_tl] by blast
    then show ?thesis by simp
  qed
qed simp

lemma unquote_loop_quote:
  assumes "DQUOTE \<notin> set s" "BSLASH \<notin> set s"
  shows "unquote_loop acc (quote_loop s @ DQUOTE # r) = Some (acc @ s, r)"
  using assms
proof (induction s arbitrary: acc)
  case (Cons c s)
  then show ?case by (auto simp: sc_def uc_def)
qed simp

subsection \<open>Case-insensitive comparison\<close>

text \<open>The comparison is the lexicographic order of the lowered strings, as signed characters.\<close>

definition fold_key :: "string \<Rightarrow> int list" where
  "fold_key s = map (\<lambda>c. sc (ascii_to_lower c)) s"

lemma compare_nocase_lex:
  "compare_nocase l r = (if fold_key l < fold_key r then -1 else if fold_key r < fold_key l then 1 else 0)"
  by (induction l r rule: compare_nocase.induct) (simp_all add: fold_key_def Let_def)

lemma sc_inject: "sc c = sc d \<longleftrightarrow> c = d"
proof
  assume "sc c = sc d"
  moreover have "int (uc c) < 256" "int (uc d) < 256"
    using uc_lt [of c] uc_lt [of d] by linarith+
  ultimately have "int (uc c) = int (uc d)"
    by (cases "uc c < 128"; cases "uc d < 128"; simp add: sc_def)
  then show "c = d" by simp
qed simp

lemma fold_key_eq: "fold_key l = fold_key r \<longleftrightarrow> map ascii_to_lower l = map ascii_to_lower r"
proof (induction l arbitrary: r)
  case (Cons c l)
  then show ?case by (cases r) (auto simp: fold_key_def sc_inject)
qed (auto simp: fold_key_def)

text \<open>
  The case-insensitive comparison of header names (\<^verbatim>\<open>http::protocol::compare\<close>) is a three-way
  comparison of the ASCII-lowered strings: it is 0 exactly for strings equal up to ASCII case,
  changes sign when its arguments are swapped, and is transitive, so the ordering predicate built on
  it is a strict weak order for header maps.
\<close>

theorem compare_is_order:
  "(compare_nocase l r = 0 \<longleftrightarrow> map ascii_to_lower l = map ascii_to_lower r)
   \<and> compare_nocase r l = - compare_nocase l r
   \<and> (compare_nocase l r < 0 \<and> compare_nocase r z < 0 \<longrightarrow> compare_nocase l z < 0)"
  by (auto simp: compare_nocase_lex fold_key_eq [symmetric])

theorem compare_is_order_witness:
  "compare_nocase ''Content-Type'' ''content-type'' = 0
   \<and> compare_nocase ''accept'' ''Zoo'' < 0"
  using compare_is_order [of "''accept''" "''HOST''" "''Zoo''"]
    compare_is_order [of "''Content-Type''" "''content-type''" "''x''"]
  by (simp add: ascii_to_lower_def sc_def uc_def ch_def)

text \<open>
  \<^verbatim>\<open>unquote\<close> reads back what \<^verbatim>\<open>quote\<close> wrote and stops right after the closing quote, for every
  string that holds no double quote and no backslash.
\<close>

theorem unquote_quote:
  assumes "DQUOTE \<notin> set s" and "BSLASH \<notin> set s"
  shows "unquote (quote s @ r) = (s, r)"
  using unquote_loop_quote [OF assms, of "[]" r] by (simp add: unquote_def quote_def)

theorem unquote_quote_witness:
  "unquote (quote ''no-cache, x=1'' @ ''; path=/'') = (''no-cache, x=1'', ''; path=/'')"
  by (rule unquote_quote) simp_all

text \<open>
  \<^verbatim>\<open>quote\<close> leaves double quotes and backslashes as they are, so the text it produces for such
  a string ends early when it is read back: the value \<open>a"; Path="/x\<close> reads back as \<open>a\<close>, and what
  follows the quote in the value becomes header text of its own.
\<close>

theorem quote_does_not_escape:
  "unquote (quote (''a'' @ [DQUOTE] @ ''; Path='' @ [DQUOTE] @ ''/x''))
     = (''a'', ''; Path='' @ [DQUOTE] @ ''/x'' @ [DQUOTE])"
  by (simp add: unquote_def quote_def sc_def uc_def)

end
