(* ===== verification/Util_Codec.thy ===== *)
theory Util_Codec
  imports Http_Protocol
begin

text \<open>
  \<^verbatim>\<open>src/util.cpp\<close> and \<^verbatim>\<open>private/tohex.h\<close>: HTML escaping, URL encoding and hexadecimal output.
  Shown here: URL decoding undoes URL encoding on every byte string and the encoded text uses only
  unreserved characters and \<open>%\<close>; HTML escaping leaves no markup character behind and loses nothing;
  the \<^verbatim>\<open>streambuf\<close> variants write the same text, cut at the room the buffer has, and report exactly
  whether it fitted.
\<close>

section \<open>HTML escaping\<close>

definition escape_char :: "char \<Rightarrow> string" where
  "escape_char c =
     (if c = CHR ''<'' then ''&lt;''
      else if c = CHR ''>'' then ''&gt;''
      else if c = CHR ''&'' then ''&amp;''
      else if c = DQUOTE then ''&quot;''
      else if c = CHR 0x27 then ''&#39;''
      else [c])"

text \<open>The length is kept in an \<^verbatim>\<open>unsigned\<close>, so the loop runs over the first \<open>size mod 2 ^ 32\<close> bytes.\<close>

definition escape :: "string \<Rightarrow> string" where
  "escape s = concat (map escape_char (take (length s mod 2 ^ 32) s))"

text \<open>
  A \<^verbatim>\<open>std::streambuf\<close> over a buffer with room for \<open>room\<close> more characters: \<^verbatim>\<open>sputn\<close> stores what fits
  and returns how many characters it stored.
\<close>

record streambuf =
  written :: string
  room :: nat

definition sputn :: "string \<Rightarrow> streambuf \<Rightarrow> nat \<times> streambuf" where
  "sputn s b = (min (length s) (room b),
     b\<lparr>written := written b @ take (room b) s, room := room b - length s\<rparr>)"

fun escape_streambuf :: "string \<Rightarrow> streambuf \<Rightarrow> int \<times> streambuf" where
  "escape_streambuf [] output = (0, output)"
| "escape_streambuf (c # begin) output =
     (let (n, output') = sputn (escape_char c) output; ok = (n = length (escape_char c)) in
      if \<not> ok then (-1, output') else escape_streambuf begin output')"

section \<open>URL encoding\<close>

definition hex_digits :: string where
  "hex_digits = ''0123456789abcdef''"

definition url_safe :: "char \<Rightarrow> bool" where
  "url_safe c \<longleftrightarrow>
     (sc CHR ''a'' \<le> sc c \<and> sc c \<le> sc CHR ''z'')
     \<or> (sc CHR ''A'' \<le> sc c \<and> sc c \<le> sc CHR ''Z'')
     \<or> (sc CHR ''0'' \<le> sc c \<and> sc c \<le> sc CHR ''9'')
     \<or> c \<in> set ''-_.~''"

definition hex_byte :: "char \<Rightarrow> string" where
  "hex_byte c = [hex_digits ! (drop_bit 4 (uc c) AND 0xF), hex_digits ! (uc c AND 0xF)]"

fun urlencode :: "string \<Rightarrow> string" where
  "urlencode [] = []"
| "urlencode (c # b) =
     (if url_safe c then c # urlencode b else CHR ''%'' # hex_byte c @ urlencode b)"

text \<open>\<^verbatim>\<open>sscanf(buf,"%x",&value)\<close> on two hexadecimal digits.\<close>

definition xdigit_value :: "char \<Rightarrow> nat" where
  "xdigit_value c =
     (if uc c \<le> uc CHR ''9'' then uc c - uc CHR ''0''
      else if uc c \<le> uc CHR ''F'' then uc c - uc CHR ''A'' + 10
      else uc c - uc CHR ''a'' + 10)"

definition scan_hex2 :: "char \<Rightarrow> char \<Rightarrow> nat" where
  "scan_hex2 a b = 16 * xdigit_value a + xdigit_value b"

fun urldecode :: "string \<Rightarrow> string" where
  "urldecode [] = []"
| "urldecode (c # begin) =
     (if c = CHR ''+'' then CHR '' '' # urldecode begin
      else if c = CHR ''%'' then
        (case begin of
           h # l # rest \<Rightarrow>
             if xdigit h \<and> xdigit l then ch (scan_hex2 h l) # urldecode rest else urldecode begin
         | _ \<Rightarrow> urldecode begin)
      else c # urldecode begin)"

section \<open>Hexadecimal output\<close>

fun tohex :: "string \<Rightarrow> string" where
  "tohex [] = []"
| "tohex (v # p) = hex_byte v @ tohex p"

section \<open>Correctness\<close>

definition low_xdigit :: "char \<Rightarrow> bool" where
  "low_xdigit c \<longleftrightarrow>
     (sc CHR ''0'' \<le> sc c \<and> sc c \<le> sc CHR ''9'') \<or> (sc CHR ''a'' \<le> sc c \<and> sc c \<le> sc CHR ''f'')"

lemma hex_digit_ok:
  "n < 16 \<Longrightarrow> low_xdigit (hex_digits ! n) \<and> xdigit (hex_digits ! n) \<and> xdigit_value (hex_digits ! n) = n
     \<and> url_safe (hex_digits ! n)"
proof -
  have "\<forall>n \<in> set [0..<16]. low_xdigit (hex_digits ! n) \<and> xdigit (hex_digits ! n)
     \<and> xdigit_value (hex_digits ! n) = n \<and> url_safe (hex_digits ! n)"
    by code_simp
  then show "n < 16 \<Longrightarrow> ?thesis" by simp
qed

lemma hex_byte_eq: "hex_byte c = [hex_digits ! (uc c div 16), hex_digits ! (uc c mod 16)]"
  by (simp add: hex_byte_def codec_simps)

lemma hex_byte_ok:
  "hex_byte c = [h, l] \<Longrightarrow> xdigit h \<and> xdigit l \<and> low_xdigit h \<and> low_xdigit l
     \<and> url_safe h \<and> url_safe l \<and> ch (scan_hex2 h l) = c"
  using hex_digit_ok [of "uc c div 16"] hex_digit_ok [of "uc c mod 16"]
  by (auto simp: hex_byte_eq scan_hex2_def)

lemma hex_byte_cases: obtains h l where "hex_byte c = [h, l]"
  by (simp add: hex_byte_eq)

lemma url_safe_not_special: "url_safe c \<Longrightarrow> c \<noteq> CHR ''+'' \<and> c \<noteq> CHR ''%''"
  by (auto simp: url_safe_def sc_def uc_def)

lemma urldecode_urlencode [simp]: "urldecode (urlencode s) = s"
proof (induction s)
  case (Cons c s)
  obtain h l where hl: "hex_byte c = [h, l]" by (rule hex_byte_cases)
  with hex_byte_ok [OF hl] Cons show ?case by (auto dest: url_safe_not_special)
qed simp

lemma urlencode_chars: "c \<in> set (urlencode s) \<Longrightarrow> url_safe c \<or> c = CHR ''%''"
proof (induction s)
  case (Cons d s)
  obtain h l where hl: "hex_byte d = [h, l]" by (rule hex_byte_cases)
  with hex_byte_ok [OF hl] Cons show ?case by (auto split: if_splits)
qed simp

lemma urlencode_length: "length (urlencode s) \<le> 3 * length s"
  by (induction s) (auto simp: hex_byte_eq)

interpretation url: codec urlencode "\<lambda>s. Some (urldecode s)" "\<lambda>_. True"
  by unfold_locales simp

text \<open>
  C18. URL decoding undoes URL encoding on every byte string, and the encoded text consists of
  letters, digits, \<open>-\<close>, \<open>_\<close>, \<open>.\<close>, \<open>~\<close> and \<open>%\<close> only and fits the buffer of three times the input
  that \<^verbatim>\<open>urlencode\<close> reserves.
\<close>

theorem urlencode_correct:
  "urldecode (urlencode s) = s
   \<and> list_all (\<lambda>c. url_safe c \<or> c = CHR ''%'') (urlencode s)
   \<and> length (urlencode s) \<le> 3 * length s"
  using urlencode_chars urlencode_length by (auto simp: list_all_iff)

lemma tohex_length [simp]: "length (tohex s) = 2 * length s"
  by (induction s) (auto simp: hex_byte_eq)

lemma tohex_low: "c \<in> set (tohex s) \<Longrightarrow> low_xdigit c"
proof (induction s)
  case (Cons d s)
  obtain h l where hl: "hex_byte d = [h, l]" by (rule hex_byte_cases)
  with hex_byte_ok [OF hl] Cons show ?case by auto
qed simp

fun fromhex :: "string \<Rightarrow> string" where
  "fromhex (h # l # s) = ch (scan_hex2 h l) # fromhex s"
| "fromhex _ = []"

lemma fromhex_tohex: "fromhex (tohex s) = s"
proof (induction s)
  case (Cons d s)
  obtain h l where hl: "hex_byte d = [h, l]" by (rule hex_byte_cases)
  with hex_byte_ok [OF hl] Cons show ?case by simp
qed simp

interpretation hex: codec tohex "\<lambda>s. Some (fromhex s)" "\<lambda>_. True"
  by unfold_locales (simp add: fromhex_tohex)

subsection \<open>Escaping\<close>

text \<open>What an HTML reader does with the five entities.\<close>

fun unescape :: "string \<Rightarrow> string" where
  "unescape [] = []"
| "unescape (c # s) =
     (if c = CHR ''&'' then
        (if take 3 s = ''lt;'' then CHR ''<'' # unescape (drop 3 s)
         else if take 3 s = ''gt;'' then CHR ''>'' # unescape (drop 3 s)
         else if take 4 s = ''amp;'' then CHR ''&'' # unescape (drop 4 s)
         else if take 5 s = ''quot;'' then DQUOTE # unescape (drop 5 s)
         else if take 4 s = ''#39;'' then CHR 0x27 # unescape (drop 4 s)
         else c # unescape s)
      else c # unescape s)"

definition markup :: "char \<Rightarrow> bool" where
  "markup c \<longleftrightarrow> c \<in> {CHR ''<'', CHR ''>'', DQUOTE, CHR 0x27}"

lemma unescape_escape_char: "unescape (escape_char c @ s) = c # unescape s"
  by (simp add: escape_char_def)

lemma escape_char_no_markup: "d \<in> set (escape_char c) \<Longrightarrow> \<not> markup d"
  by (auto simp: escape_char_def markup_def split: if_splits)

lemma unescape_concat: "unescape (concat (map escape_char s)) = s"
  by (induction s) (simp_all add: unescape_escape_char)

lemma escape_short: "length s < 2 ^ 32 \<Longrightarrow> escape s = concat (map escape_char s)"
  by (simp add: escape_def)

text \<open>
  HTML escaping is safe and loses nothing: the escaped text of any string shorter than 4 GB has
  no \<open><\<close>, \<open>>\<close>, quote or apostrophe, and reading its entities back gives the original string.
\<close>

theorem escape_safe:
  assumes "length s < 2 ^ 32"
  shows "list_all (\<lambda>c. \<not> markup c) (escape s) \<and> unescape (escape s) = s"
  using escape_char_no_markup by (auto simp: escape_short [OF assms] unescape_concat list_all_iff)

theorem escape_safe_witness:
  "list_all (\<lambda>c. \<not> markup c) (escape ''<a href=1>'') \<and> unescape (escape ''<a href=1>'') = ''<a href=1>''"
  using escape_safe [of "''<a href=1>''"] by simp

text \<open>
  The \<^verbatim>\<open>streambuf\<close> variant of \<^verbatim>\<open>escape\<close> appends the escaped text as far as the buffer has room
  and returns 0 exactly when all of it fitted, -1 otherwise.
\<close>

theorem escape_streambuf_correct:
  "escape_streambuf s b =
     (if length (concat (map escape_char s)) \<le> room b then 0 else -1,
      b\<lparr>written := written b @ take (room b) (concat (map escape_char s)),
        room := room b - length (concat (map escape_char s))\<rparr>)"
proof (induction s arbitrary: b)
  case (Cons c s)
  show ?case
  proof (cases "length (escape_char c) \<le> room b")
    case True
    then have "length t \<le> room b - length (escape_char c) \<longleftrightarrow> length (escape_char c) + length t \<le> room b"
      for t :: string by linarith
    with True show ?thesis by (simp add: Cons sputn_def Let_def)
  next
    case False
    then show ?thesis by (simp add: sputn_def Let_def)
  qed
qed simp

end
