(* ===== verification/Crypto_Hmac.thy ===== *)
theory Crypto_Hmac
  imports Sha1 Md5 Util_Codec
begin

text \<open>
  \<^verbatim>\<open>src/crypto.cpp\<close>: the interface of message digests with the two digests the library carries itself,
  hexadecimal keys and HMAC.  The digests of gcrypt and OpenSSL are a parameter of
  \<open>create_by_name\<close>.  The locale \<open>digest_laws\<close> is the contract of the interface; it is interpreted on
  the MD5 and the SHA-1 objects, and HMAC is proved against RFC 2104 once, inside it.
\<close>

datatype crypto_error =
    Odd_hex_length | Invalid_hex | No_such_digest | Key_too_short | No_such_cipher | Invalid_key_size
  | Invalid_iv_size | No_key_set | No_iv_set | Digest_null

section \<open>Message digests\<close>

text \<open>The virtual functions of \<^verbatim>\<open>message_digest\<close>; \<open>md_new\<close> is the object \<^verbatim>\<open>clone()\<close> returns.\<close>

record 'd message_digest =
  md_digest_size :: nat
  md_block_size :: nat
  md_new :: 'd
  md_append :: "string \<Rightarrow> 'd \<Rightarrow> 'd"
  md_readout :: "'d \<Rightarrow> string \<times> 'd"

definition md5_digets :: "md5_state message_digest" where
  "md5_digets = \<lparr>md_digest_size = 16, md_block_size = 64, md_new = md5_new,
     md_append = md5_append, md_readout = md5_readout\<rparr>"

definition sha1_digets :: "sha1 message_digest" where
  "sha1_digets = \<lparr>md_digest_size = 20, md_block_size = 64, md_new = sha1_new,
     md_append = process_bytes, md_readout = sha1_readout\<rparr>"

text \<open>
  The contract: \<open>rep d m\<close> says that the object has been given \<open>m\<close> since it was created or last read
  out.  A piece is below 256 MB, where the \<^verbatim>\<open>int\<close> arithmetic of the MD5 object is defined.
\<close>

locale digest_laws =
  fixes md :: "'d message_digest" and hash :: "string \<Rightarrow> string" and rep :: "'d \<Rightarrow> string \<Rightarrow> bool"
  assumes rep_new: "rep (md_new md) []"
    and rep_append: "rep d m \<Longrightarrow> length p < 2 ^ 28 \<Longrightarrow> rep (md_append md p d) (m @ p)"
    and readout_hash: "rep d m \<Longrightarrow> fst (md_readout md d) = hash m"
    and rep_readout: "rep d m \<Longrightarrow> rep (snd (md_readout md d)) []"
    and hash_length: "length (hash m) = md_digest_size md"
    and sizes: "0 < md_digest_size md" "md_digest_size md \<le> md_block_size md" "md_block_size md \<le> 128"
begin

lemma rep_pieces:
  "rep d m \<Longrightarrow> \<forall>p \<in> set ps. length p < 2 ^ 28 \<Longrightarrow> rep (fold (md_append md) ps d) (m @ concat ps)"
proof (induction ps arbitrary: d m)
  case (Cons p ps)
  then have "rep (md_append md p d) (m @ p)" by (intro rep_append) simp_all
  from Cons.IH [OF this] Cons.prems show ?case by simp
qed simp

end

interpretation md5: digest_laws md5_digets md5_hash md5_absorbed
proof unfold_locales
  show "\<And>d m. md5_absorbed d m \<Longrightarrow> fst (md_readout md5_digets d) = md5_hash m"
    "\<And>d m. md5_absorbed d m \<Longrightarrow> md5_absorbed (snd (md_readout md5_digets d)) []"
    using md5_readout_eq by (simp_all add: md5_digets_def)
qed (simp_all add: md5_digets_def md5_absorbed_new md5_absorbed_append md5_hash_length)

interpretation sha1: digest_laws sha1_digets sha1_hash absorbed
proof unfold_locales
  show "\<And>d m. absorbed d m \<Longrightarrow> fst (md_readout sha1_digets d) = sha1_hash m"
    "\<And>d m. absorbed d m \<Longrightarrow> absorbed (snd (md_readout sha1_digets d)) []"
    using sha1_readout_eq by (simp_all add: sha1_digets_def)
qed (simp_all add: sha1_digets_def absorbed_new absorbed_process_bytes sha1_hash_length)

text \<open>
  An object behind the abstract class: one of the two digests of the library or one of the linked
  cryptographic library.
\<close>

datatype 'e any_digest = Md5_object (the_md5: md5_state) | Sha1_object (the_sha1: sha1) | Lib_object (the_lib: 'e)

definition wrap_digest :: "('d \<Rightarrow> 'a) \<Rightarrow> ('a \<Rightarrow> 'd) \<Rightarrow> 'd message_digest \<Rightarrow> 'a message_digest" where
  "wrap_digest con des md =
     \<lparr>md_digest_size = md_digest_size md, md_block_size = md_block_size md, md_new = con (md_new md),
      md_append = (\<lambda>p a. con (md_append md p (des a))),
      md_readout = (\<lambda>a. let (r, d) = md_readout md (des a) in (r, con d))\<rparr>"

definition lower_name :: "string \<Rightarrow> string" where
  "lower_name s =
     map (\<lambda>c. if char_in (CHR ''A'') (CHR ''Z'') c then ch (uc c - uc (CHR ''A'') + uc (CHR ''a'')) else c) s"

definition create_by_name :: "(string \<Rightarrow> 'e message_digest option) \<Rightarrow> string \<Rightarrow> 'e any_digest message_digest option" where
  "create_by_name lib namein =
     (let name = lower_name namein
      in if name = ''md5'' then Some (wrap_digest Md5_object the_md5 md5_digets)
         else if name = ''sha1'' then Some (wrap_digest Sha1_object the_sha1 sha1_digets)
         else if name \<in> {''sha224'', ''sha256'', ''sha384'', ''sha512''}
         then map_option (wrap_digest Lib_object the_lib) (lib name)
         else None)"

lemma wrap_digest_laws:
  assumes "digest_laws md hash rep" and "\<And>d. des (con d) = d"
  shows "digest_laws (wrap_digest con des md) hash (\<lambda>a m. \<exists>d. a = con d \<and> rep d m)"
proof -
  note l = digest_laws.rep_new [OF assms(1)] digest_laws.rep_append [OF assms(1)]
    digest_laws.readout_hash [OF assms(1)] digest_laws.rep_readout [OF assms(1)]
    digest_laws.hash_length [OF assms(1)] digest_laws.sizes [OF assms(1)]
  show ?thesis
    by unfold_locales (auto simp: wrap_digest_def assms(2) l case_prod_unfold)
qed

section \<open>Keys\<close>

definition is_hex :: "char \<Rightarrow> bool" where
  "is_hex c \<longleftrightarrow> char_in (CHR ''0'') (CHR ''9'') c \<or> char_in (CHR ''a'') (CHR ''f'') c \<or> char_in (CHR ''A'') (CHR ''F'') c"

definition from_hex :: "char \<Rightarrow> nat" where
  "from_hex c =
     (if char_in (CHR ''0'') (CHR ''9'') c then uc c - uc (CHR ''0'')
      else if char_in (CHR ''a'') (CHR ''f'') c then uc c - uc (CHR ''a'') + 10
      else if char_in (CHR ''A'') (CHR ''F'') c then uc c - uc (CHR ''A'') + 10
      else 0)"

fun hex_pairs :: "string \<Rightarrow> string" where
  "hex_pairs (a # b # r) = ch (push_bit 4 (from_hex a) + from_hex b) # hex_pairs r"
| "hex_pairs _ = []"

text \<open>The bytes of a key; an error is the exception.\<close>

definition set_hex :: "string \<Rightarrow> crypto_error + string" where
  "set_hex s =
     (if s = [] then Inr []
      else if length s mod 2 \<noteq> 0 then Inl Odd_hex_length
      else if \<not> list_all is_hex s then Inl Invalid_hex
      else Inr (hex_pairs s))"

text \<open>
  \<^verbatim>\<open>read_from_file\<close> on the contents of the file (a missing, empty or unreadable file throws before):
  blanks and line ends at the end are dropped.
\<close>

definition key_from_file :: "string \<Rightarrow> crypto_error + string" where
  "key_from_file contents =
     set_hex (rev (dropWhile (\<lambda>c. c = CHR '' '' \<or> c = ch 10 \<or> c = ch 13 \<or> c = ch 9) (rev contents)))"

section \<open>HMAC\<close>

record 'd hmac =
  hm_md :: 'd
  hm_md_opad :: 'd
  hm_key :: string

definition xor_bytes :: "nat \<Rightarrow> string \<Rightarrow> string" where
  "xor_bytes x s = map (\<lambda>c. ch (uc c XOR x)) s"

definition hmac_init :: "'d message_digest \<Rightarrow> 'd hmac \<Rightarrow> 'd hmac" where
  "hmac_init md s =
     (let block_size = md_block_size md;
          ipad0 = replicate block_size (ch 0);
          opad0 = replicate block_size (ch 0);
          (ipad, opad, m) =
            (if length (hm_key s) > block_size
             then (let (dig, m) = md_readout md (md_append md (hm_key s) (hm_md s));
                       ip = copy_at 0 dig ipad0
                   in (ip, copy_at 0 (take (md_digest_size md) ip) opad0, m))
             else (copy_at 0 (hm_key s) ipad0, copy_at 0 (hm_key s) opad0, hm_md s))
      in s\<lparr>hm_md_opad := md_append md (xor_bytes 0x5c opad) (hm_md_opad s),
           hm_md := md_append md (xor_bytes 0x36 ipad) m\<rparr>)"

definition hmac_new :: "'d message_digest \<Rightarrow> string \<Rightarrow> 'd hmac" where
  "hmac_new md k = hmac_init md \<lparr>hm_md = md_new md, hm_md_opad = md_new md, hm_key = k\<rparr>"

definition hmac_append :: "'d message_digest \<Rightarrow> string \<Rightarrow> 'd hmac \<Rightarrow> 'd hmac" where
  "hmac_append md p s = s\<lparr>hm_md := md_append md p (hm_md s)\<rparr>"

definition hmac_readout :: "'d message_digest \<Rightarrow> 'd hmac \<Rightarrow> string \<times> 'd hmac" where
  "hmac_readout md s =
     (let (inner, m) = md_readout md (hm_md s);
          digest = copy_at 0 inner (replicate (md_digest_size md) (ch 0));
          (out, o') = md_readout md (md_append md (take (md_digest_size md) digest) (hm_md_opad s))
      in (out, hmac_init md (s\<lparr>hm_md := m, hm_md_opad := o'\<rparr>)))"

text \<open>RFC 2104.\<close>

definition hmac_key_block :: "nat \<Rightarrow> (string \<Rightarrow> string) \<Rightarrow> string \<Rightarrow> string" where
  "hmac_key_block b hash k = (let k' = (if length k > b then hash k else k) in k' @ replicate (b - length k') (ch 0))"

definition rfc2104 :: "nat \<Rightarrow> (string \<Rightarrow> string) \<Rightarrow> string \<Rightarrow> string \<Rightarrow> string" where
  "rfc2104 b hash k m =
     hash (xor_bytes 0x5c (hmac_key_block b hash k) @ hash (xor_bytes 0x36 (hmac_key_block b hash k) @ m))"

text \<open>Several messages authenticated one after the other with one object, each given in pieces.\<close>

fun hmac_run :: "'d message_digest \<Rightarrow> string list list \<Rightarrow> 'd hmac \<Rightarrow> string list" where
  "hmac_run md [] s = []"
| "hmac_run md (pieces # ms) s =
     (let (mac, s') = hmac_readout md (fold (hmac_append md) pieces s) in mac # hmac_run md ms s')"

context digest_laws
begin

text \<open>\<open>hmac_rep k s m\<close>: the object was made with key \<open>k\<close> and given \<open>m\<close> since.\<close>

definition hmac_rep :: "string \<Rightarrow> 'd hmac \<Rightarrow> string \<Rightarrow> bool" where
  "hmac_rep k s m \<longleftrightarrow> hm_key s = k
     \<and> rep (hm_md s) (xor_bytes 0x36 (hmac_key_block (md_block_size md) hash k) @ m)
     \<and> rep (hm_md_opad s) (xor_bytes 0x5c (hmac_key_block (md_block_size md) hash k))"

lemma hmac_init_rep:
  assumes "rep (hm_md s) []" "rep (hm_md_opad s) []" "length (hm_key s) < 2 ^ 28"
  shows "hmac_rep (hm_key s) (hmac_init md s) []"
proof -
  let ?k = "hm_key s" and ?b = "md_block_size md"
  have key: "rep (md_append md ?k (hm_md s)) ?k"
    using rep_append [OF assms(1,3)] by simp
  have kb: "length (hmac_key_block ?b hash ?k) = ?b"
    using hash_length sizes by (simp add: hmac_key_block_def Let_def)
  then have pad: "rep d [] \<Longrightarrow> rep (md_append md (xor_bytes x (hmac_key_block ?b hash ?k)) d)
      (xor_bytes x (hmac_key_block ?b hash ?k))" for x d
    using rep_append [of d "[]"] sizes by (simp add: xor_bytes_def)
  show ?thesis
  proof (cases "length ?k > ?b")
    case True
    obtain dig m where r: "md_readout md (md_append md ?k (hm_md s)) = (dig, m)" by (cases "md_readout md (md_append md ?k (hm_md s))")
    then have "dig = hash ?k" "rep m []"
      using readout_hash [OF key] rep_readout [OF key] by simp_all
    moreover have "copy_at 0 (hash ?k) (replicate ?b (ch 0)) = hmac_key_block ?b hash ?k"
      using True by (simp add: hmac_key_block_def copy_at_def Let_def)
    moreover have "copy_at 0 (take (md_digest_size md) (hmac_key_block ?b hash ?k)) (replicate ?b (ch 0))
        = hmac_key_block ?b hash ?k"
      using True hash_length sizes by (simp add: hmac_key_block_def copy_at_def Let_def)
    ultimately show ?thesis
      using True r pad assms(2) by (simp add: hmac_rep_def hmac_init_def Let_def)
  next
    case False
    then have "copy_at 0 ?k (replicate ?b (ch 0)) = hmac_key_block ?b hash ?k"
      by (simp add: hmac_key_block_def copy_at_def Let_def)
    then show ?thesis
      using False pad assms by (simp add: hmac_rep_def hmac_init_def Let_def)
  qed
qed

lemma hmac_new_rep: "length k < 2 ^ 28 \<Longrightarrow> hmac_rep k (hmac_new md k) []"
  using hmac_init_rep [of "\<lparr>hm_md = md_new md, hm_md_opad = md_new md, hm_key = k\<rparr>"] rep_new
  by (simp add: hmac_new_def)

lemma hmac_append_rep: "hmac_rep k s m \<Longrightarrow> length p < 2 ^ 28 \<Longrightarrow> hmac_rep k (hmac_append md p s) (m @ p)"
  unfolding hmac_rep_def hmac_append_def using rep_append by (simp add: append_assoc [symmetric] del: append_assoc)

lemma hmac_readout_eq:
  assumes "hmac_rep k s m" "length k < 2 ^ 28"
  shows "fst (hmac_readout md s) = rfc2104 (md_block_size md) hash k m"
    and "hmac_rep k (snd (hmac_readout md s)) []"
proof -
  let ?K = "hmac_key_block (md_block_size md) hash k"
  have i: "rep (hm_md s) (xor_bytes 0x36 ?K @ m)" and o: "rep (hm_md_opad s) (xor_bytes 0x5c ?K)" and k: "hm_key s = k"
    using assms(1) by (simp_all add: hmac_rep_def)
  let ?inner = "hash (xor_bytes 0x36 ?K @ m)"
  have "md_digest_size md < 2 ^ 28" using sizes by simp
  then have o': "rep (md_append md ?inner (hm_md_opad s)) (xor_bytes 0x5c ?K @ ?inner)"
    using rep_append [OF o] hash_length by simp
  have inner: "fst (md_readout md (hm_md s)) = ?inner" "rep (snd (md_readout md (hm_md s))) []"
    using readout_hash [OF i] rep_readout [OF i] by simp_all
  have out: "hmac_readout md s = (fst (md_readout md (md_append md ?inner (hm_md_opad s))),
      hmac_init md (s\<lparr>hm_md := snd (md_readout md (hm_md s)),
        hm_md_opad := snd (md_readout md (md_append md ?inner (hm_md_opad s)))\<rparr>))"
    using inner(1) hash_length by (simp add: hmac_readout_def case_prod_unfold Let_def copy_at_def)
  show "fst (hmac_readout md s) = rfc2104 (md_block_size md) hash k m"
    unfolding out using readout_hash [OF o'] by (simp add: rfc2104_def)
  show "hmac_rep k (snd (hmac_readout md s)) []"
    unfolding out using hmac_init_rep [of "s\<lparr>hm_md := snd (md_readout md (hm_md s)),
        hm_md_opad := snd (md_readout md (md_append md ?inner (hm_md_opad s)))\<rparr>"]
      inner(2) rep_readout [OF o'] k assms(2) by simp
qed

lemma hmac_pieces:
  "hmac_rep k s m \<Longrightarrow> \<forall>p \<in> set ps. length p < 2 ^ 28 \<Longrightarrow> hmac_rep k (fold (hmac_append md) ps s) (m @ concat ps)"
proof (induction ps arbitrary: s m)
  case (Cons p ps)
  then have "hmac_rep k (hmac_append md p s) (m @ p)" by (intro hmac_append_rep) simp_all
  from Cons.IH [OF this] Cons.prems show ?case by simp
qed simp

lemma hmac_run_eq:
  assumes "length k < 2 ^ 28" "\<forall>m \<in> set ms. \<forall>p \<in> set m. length p < 2 ^ 28" "hmac_rep k s []"
  shows "hmac_run md ms s = map (\<lambda>m. rfc2104 (md_block_size md) hash k (concat m)) ms"
  using assms(2,3)
proof (induction ms arbitrary: s)
  case (Cons m ms)
  then have r: "hmac_rep k (fold (hmac_append md) m s) (concat m)"
    using hmac_pieces [of k s "[]" m] by simp
  show ?case
    using Cons.IH hmac_readout_eq [OF r assms(1)] Cons.prems(1)
    by (simp add: case_prod_unfold)
qed simp

lemma rfc2104_length: "length (rfc2104 b hash k m) = md_digest_size md"
  by (simp add: rfc2104_def hash_length)

end

text \<open>
  C22. HMAC: one object authenticates any sequence of messages, each given in any pieces, and every
  code it returns is the one RFC 2104 defines for its key and that message alone; reading a code out
  prepares the object for the next message.  This holds for both digests the library carries, and for
  keys longer than a block, which are hashed first.
\<close>

theorem hmac_correct:
  assumes "length k < 2 ^ 28" "\<forall>m \<in> set ms. \<forall>p \<in> set m. length p < 2 ^ 28"
  shows "hmac_run sha1_digets ms (hmac_new sha1_digets k) = map (\<lambda>m. rfc2104 64 sha1_hash k (concat m)) ms
    \<and> hmac_run md5_digets ms (hmac_new md5_digets k) = map (\<lambda>m. rfc2104 64 md5_hash k (concat m)) ms"
  using sha1.hmac_run_eq [OF assms sha1.hmac_new_rep [OF assms(1)]]
    md5.hmac_run_eq [OF assms md5.hmac_new_rep [OF assms(1)]]
  by (simp add: sha1_digets_def md5_digets_def)

theorem hmac_correct_witness:
  "hmac_run sha1_digets [[''a'', ''bc''], [''d'']] (hmac_new sha1_digets ''k'')
     = [rfc2104 64 sha1_hash ''k'' ''abc'', rfc2104 64 sha1_hash ''k'' ''d'']"
  using hmac_correct [of "''k''" "[[''a'', ''bc''], [''d'']]"] by (simp del: hmac_run.simps)

lemma from_hex_digit: "n < 16 \<Longrightarrow> from_hex (hex_digits ! n) = n \<and> is_hex (hex_digits ! n)"
proof -
  have "map from_hex hex_digits = [0..<16] \<and> list_all is_hex hex_digits" by code_simp
  moreover have "length hex_digits = 16" by code_simp
  ultimately show "n < 16 \<Longrightarrow> from_hex (hex_digits ! n) = n \<and> is_hex (hex_digits ! n)"
    by (metis add_0 list_all_length nth_map nth_upt)
qed

lemma hex_pairs_tohex: "hex_pairs (tohex s) = s \<and> list_all is_hex (tohex s)"
proof (induction s)
  case (Cons c s)
  then show ?case
    using from_hex_digit [of "uc c div 16"] from_hex_digit [of "uc c mod 16"]
    by (simp add: hex_byte_eq codec_simps)
qed simp

lemma hex_pairs_length: "length (hex_pairs s) = length s div 2"
  by (induction s rule: hex_pairs.induct) auto

text \<open>
  Hexadecimal keys: reading the hexadecimal text of a key gives the key, also when the file it
  stands in ends in blanks and line ends; a text is accepted exactly when it has an even number of
  characters, all of them hexadecimal digits, and then gives half as many bytes.
\<close>

theorem key_hex:
  assumes "\<forall>c \<in> set blanks. c \<in> {CHR '' '', ch 10, ch 13, ch 9}"
  shows "key_from_file (tohex k @ blanks) = Inr k
    \<and> (set_hex s = Inr b \<longleftrightarrow> even (length s) \<and> list_all is_hex s \<and> b = hex_pairs s)
    \<and> length (hex_pairs s) = length s div 2"
proof -
  let ?P = "\<lambda>c. c = CHR '' '' \<or> c = ch 10 \<or> c = ch 13 \<or> c = ch 9"
  have hex: "\<not> ?P c" if "c \<in> set (tohex k)" for c
  proof -
    have "is_hex c" using that hex_pairs_tohex [of k] by (simp add: list_all_iff)
    moreover have "\<not> is_hex (CHR '' '')" "\<not> is_hex (ch 10)" "\<not> is_hex (ch 13)" "\<not> is_hex (ch 9)"
      by code_simp+
    ultimately show ?thesis by metis
  qed
  have "dropWhile ?P (rev blanks @ rev (tohex k)) = rev (tohex k)"
    using assms hex [OF last_in_set] dropWhile_append2 [of "rev blanks" ?P "rev (tohex k)"]
    by (cases "tohex k = []") (simp_all add: dropWhile_eq_self_iff hd_rev)
  moreover have "tohex k = [] \<longleftrightarrow> k = []" by (cases k) (simp_all add: hex_byte_eq)
  ultimately have "key_from_file (tohex k @ blanks) = Inr k"
    using hex_pairs_tohex [of k] by (cases "k = []") (simp_all add: key_from_file_def set_hex_def)
  moreover have "set_hex s = Inr b \<longleftrightarrow> even (length s) \<and> list_all is_hex s \<and> b = hex_pairs s"
    unfolding set_hex_def even_iff_mod_2_eq_zero by (cases "s = []") (simp_all add: eq_commute [of b])
  ultimately show ?thesis by (simp add: hex_pairs_length)
qed

theorem key_hex_witness:
  "key_from_file (tohex [ch 0xAB, ch 1] @ [ch 13, ch 10]) = Inr [ch 0xAB, ch 1]"
  using key_hex [of "[ch 13, ch 10]" "[ch 0xAB, ch 1]"] by simp

end
