(* ===== verification/Encryptors.thy ===== *)
theory Encryptors
  imports Crypto_Hmac
begin

text \<open>
  The encryptors of client side sessions: \<^verbatim>\<open>src/hmac_encryptor.cpp\<close> signs, \<^verbatim>\<open>src/aes_encryptor.cpp\<close>
  encrypts and signs, on top of the CBC object of \<^verbatim>\<open>src/aes.cpp\<close>.  The AES functions of OpenSSL are
  a parameter, \<open>aes_lib\<close>.  The locale \<open>encryptor_laws\<close> is what the session code relies on: an
  encrypted text is read back by every object with the same key, decryption always returns, and what
  it accepts carries the right authentication code.
\<close>

section \<open>The interface\<close>

text \<open>
  The virtual functions of \<^verbatim>\<open>encryptor\<close>.  An object may change with a call, also with one that throws;
  the first argument is what the operating system's random device returns during the call.
  A refused text is \<open>None\<close>.
\<close>

record 'e encryptor =
  enc_encrypt :: "string \<Rightarrow> string \<Rightarrow> 'e \<Rightarrow> (crypto_error + string) \<times> 'e"
  enc_decrypt :: "string \<Rightarrow> string \<Rightarrow> 'e \<Rightarrow> (crypto_error + string option) \<times> 'e"

text \<open>
  \<open>ok e\<close> is the invariant of the objects that share one key, \<open>tag\<close> the authentication code under that
  key, and a text is below 128 MB.
\<close>

locale encryptor_laws =
  fixes enc :: "'e encryptor" and ok :: "'e \<Rightarrow> bool" and tag :: "string \<Rightarrow> string"
  assumes encrypt_ok: "ok e \<Longrightarrow> length p < 2 ^ 27 \<Longrightarrow> 32 \<le> length rnd
      \<Longrightarrow> \<exists>c e'. enc_encrypt enc rnd p e = (Inr c, e') \<and> ok e' \<and> length c \<le> length p + 64"
    and decrypt_encrypt: "ok e \<Longrightarrow> ok e1 \<Longrightarrow> length p < 2 ^ 27 \<Longrightarrow> 32 \<le> length rnd \<Longrightarrow> 32 \<le> length rnd1
      \<Longrightarrow> enc_encrypt enc rnd p e = (Inr c, e')
      \<Longrightarrow> \<exists>e1'. enc_decrypt enc rnd1 c e1 = (Inr (Some p), e1') \<and> ok e1'"
    and decrypt_total: "ok e \<Longrightarrow> 32 \<le> length rnd \<Longrightarrow> length c < 2 ^ 27
      \<Longrightarrow> \<exists>r e'. enc_decrypt enc rnd c e = (Inr r, e') \<and> ok e'"
    and decrypt_authentic: "ok e \<Longrightarrow> 32 \<le> length rnd \<Longrightarrow> length c < 2 ^ 27
      \<Longrightarrow> enc_decrypt enc rnd c e = (Inr (Some p), e') \<Longrightarrow> \<exists>b. c = b @ tag b"
begin

lemma decrypt_encrypted:
  assumes "ok e" "ok e1" "length p < 2 ^ 27" "32 \<le> length rnd" "32 \<le> length rnd1"
    and "enc_encrypt enc rnd p e = (r, e')"
  obtains c e1' where "r = Inr c" "ok e'" "length c \<le> length p + 64"
    "enc_decrypt enc rnd1 c e1 = (Inr (Some p), e1')" "ok e1'"
  using encrypt_ok [OF assms(1,3,4)] decrypt_encrypt [OF assms(1-5)] assms(6) by fastforce

end

section \<open>Signed text: \<^verbatim>\<open>hmac_cipher\<close>\<close>

record hmac_cipher =
  hc_key :: string
  hc_hash :: string

definition hmac_cipher_new :: "string \<Rightarrow> string \<Rightarrow> crypto_error + hmac_cipher" where
  "hmac_cipher_new hash_name k =
     (if length k < 16 then Inl Key_too_short else Inr \<lparr>hc_key = k, hc_hash = hash_name\<rparr>)"

definition hmac_encrypt :: "(string \<Rightarrow> 'd message_digest option) \<Rightarrow> hmac_cipher \<Rightarrow> string \<Rightarrow> crypto_error + string" where
  "hmac_encrypt by_name hc plain =
     (case by_name (hc_hash hc) of
        None \<Rightarrow> Inl No_such_digest
      | Some md \<Rightarrow>
          (let m0 = hmac_new md (hc_key hc);
               message_size = length plain;
               digest_size = md_digest_size md;
               cipher_size = message_size + digest_size;
               data = replicate cipher_size (ch 0);
               m1 = hmac_append md plain m0;
               data1 = copy_at 0 plain data;
               (mac, _) = hmac_readout md m1
           in Inr (copy_at message_size mac data1)))"

definition mac_equal :: "string \<Rightarrow> string \<Rightarrow> nat \<Rightarrow> bool" where
  "mac_equal a b n = (fold (\<lambda>i diff. if a ! i \<noteq> b ! i then Suc diff else diff) [0..<n] 0 = 0)"

definition hmac_decrypt :: "(string \<Rightarrow> 'd message_digest option) \<Rightarrow> hmac_cipher \<Rightarrow> string \<Rightarrow> crypto_error + string option" where
  "hmac_decrypt by_name hc cipher =
     (case by_name (hc_hash hc) of
        None \<Rightarrow> Inl No_such_digest
      | Some md \<Rightarrow>
          (let m0 = hmac_new md (hc_key hc);
               cipher_size = length cipher;
               digest_size = md_digest_size md
           in if cipher_size < digest_size then Inr None
              else
                (let message_size = cipher_size - digest_size;
                     m1 = hmac_append md (take message_size cipher) m0;
                     (mac, _) = hmac_readout md m1
                 in if mac_equal mac (drop message_size cipher) digest_size
                    then Inr (Some (take message_size cipher))
                    else Inr None)))"

definition hmac_encryptor :: "(string \<Rightarrow> 'd message_digest option) \<Rightarrow> hmac_cipher encryptor" where
  "hmac_encryptor by_name =
     \<lparr>enc_encrypt = (\<lambda>_ p e. (hmac_encrypt by_name e p, e)),
      enc_decrypt = (\<lambda>_ c e. (hmac_decrypt by_name e c, e))\<rparr>"

lemma fold_diff_eq_0:
  "(fold (\<lambda>i diff. if P i then Suc diff else diff) xs n = 0) \<longleftrightarrow> n = 0 \<and> (\<forall>i \<in> set xs. \<not> P i)"
  by (induction xs arbitrary: n) auto

lemma mac_equal_iff: "length a = n \<Longrightarrow> length b = n \<Longrightarrow> mac_equal a b n \<longleftrightarrow> a = b"
  by (simp add: mac_equal_def fold_diff_eq_0 list_eq_iff_nth_eq Ball_def)

context digest_laws
begin

abbreviation mac :: "string \<Rightarrow> string \<Rightarrow> string" where
  "mac k m \<equiv> rfc2104 (md_block_size md) hash k m"

lemma hmac_one:
  assumes "length k < 2 ^ 28" "length p < 2 ^ 28"
  shows "fst (hmac_readout md (hmac_append md p (hmac_new md k))) = mac k p"
  using hmac_readout_eq(1) [OF hmac_append_rep [OF hmac_new_rep [OF assms(1)] assms(2)] assms(1)] by simp

lemma hmac_encrypt_eq:
  assumes "by_name (hc_hash hc) = Some md" "length (hc_key hc) < 2 ^ 28" "length p < 2 ^ 28"
  shows "hmac_encrypt by_name hc p = Inr (p @ mac (hc_key hc) p)"
  using hmac_one [OF assms(2,3)] rfc2104_length
  by (simp add: hmac_encrypt_def assms(1) case_prod_unfold Let_def copy_at_def)

lemma hmac_decrypt_eq:
  assumes "by_name (hc_hash hc) = Some md" "length (hc_key hc) < 2 ^ 28" "length c < 2 ^ 28"
  shows "hmac_decrypt by_name hc c = Inr (Some p) \<longleftrightarrow> c = p @ mac (hc_key hc) p"
    and "\<exists>r. hmac_decrypt by_name hc c = Inr r"
proof -
  let ?n = "length c - md_digest_size md"
  have one: "fst (hmac_readout md (hmac_append md (take ?n c) (hmac_new md (hc_key hc)))) = mac (hc_key hc) (take ?n c)"
    using assms(3) by (intro hmac_one assms(2)) simp
  have eq: "mac_equal (mac (hc_key hc) (take ?n c)) (drop ?n c) (md_digest_size md)
      \<longleftrightarrow> mac (hc_key hc) (take ?n c) = drop ?n c" if "md_digest_size md \<le> length c"
    using that rfc2104_length by (intro mac_equal_iff) simp_all
  have split: "c = p @ mac (hc_key hc) p \<longleftrightarrow>
      md_digest_size md \<le> length c \<and> p = take ?n c \<and> mac (hc_key hc) (take ?n c) = drop ?n c"
  proof
    assume "c = p @ mac (hc_key hc) p"
    then show "md_digest_size md \<le> length c \<and> p = take ?n c \<and> mac (hc_key hc) (take ?n c) = drop ?n c"
      using rfc2104_length [of "md_block_size md" "hc_key hc" p] by simp
  next
    assume "md_digest_size md \<le> length c \<and> p = take ?n c \<and> mac (hc_key hc) (take ?n c) = drop ?n c"
    then show "c = p @ mac (hc_key hc) p" by simp
  qed
  show "hmac_decrypt by_name hc c = Inr (Some p) \<longleftrightarrow> c = p @ mac (hc_key hc) p"
    unfolding split using one eq by (auto simp: hmac_decrypt_def assms(1) case_prod_unfold Let_def)
  show "\<exists>r. hmac_decrypt by_name hc c = Inr r"
    by (simp add: hmac_decrypt_def assms(1) case_prod_unfold Let_def)
qed

end

text \<open>The hash function behind a digest name of the library.\<close>

definition hash_of_name :: "string \<Rightarrow> string \<Rightarrow> string" where
  "hash_of_name name = (if name \<in> {''md5'', ''MD5''} then md5_hash else sha1_hash)"

definition hmac_ok :: "string \<Rightarrow> string \<Rightarrow> hmac_cipher \<Rightarrow> bool" where
  "hmac_ok name k e \<longleftrightarrow> hmac_cipher_new name k = Inr e \<and> length k < 2 ^ 27
     \<and> name \<in> {''md5'', ''MD5'', ''sha1'', ''SHA1''}"

lemma create_by_name_known:
  assumes "name \<in> {''md5'', ''MD5'', ''sha1'', ''SHA1''}"
  obtains md rep where "create_by_name lib name = Some md" "digest_laws md (hash_of_name name) rep"
    "md_block_size md = 64"
proof -
  have "digest_laws (wrap_digest Md5_object the_md5 md5_digets :: 'a any_digest message_digest) md5_hash
      (\<lambda>a m. \<exists>d. a = Md5_object d \<and> md5_absorbed d m)"
    by (rule wrap_digest_laws [OF md5.digest_laws_axioms]) simp
  moreover have "digest_laws (wrap_digest Sha1_object the_sha1 sha1_digets :: 'a any_digest message_digest) sha1_hash
      (\<lambda>a m. \<exists>d. a = Sha1_object d \<and> absorbed d m)"
    by (rule wrap_digest_laws [OF sha1.digest_laws_axioms]) simp
  moreover have "lower_name ''MD5'' = ''md5''" "lower_name ''md5'' = ''md5''"
    "lower_name ''SHA1'' = ''sha1''" "lower_name ''sha1'' = ''sha1''" by code_simp+
  then have "create_by_name lib ''md5'' = Some (wrap_digest Md5_object the_md5 md5_digets)"
    "create_by_name lib ''MD5'' = Some (wrap_digest Md5_object the_md5 md5_digets)"
    "create_by_name lib ''sha1'' = Some (wrap_digest Sha1_object the_sha1 sha1_digets)"
    "create_by_name lib ''SHA1'' = Some (wrap_digest Sha1_object the_sha1 sha1_digets)"
    by (simp_all add: create_by_name_def)
  ultimately show ?thesis
    using assms that by (auto simp: hash_of_name_def wrap_digest_def md5_digets_def sha1_digets_def)
qed

lemma hmac_cipher_eq:
  assumes "hmac_ok name k e"
  shows "length p < 2 ^ 28 \<Longrightarrow> hmac_encrypt (create_by_name lib) e p = Inr (p @ rfc2104 64 (hash_of_name name) k p)"
    and "length c < 2 ^ 28 \<Longrightarrow> hmac_decrypt (create_by_name lib) e c = Inr (Some p)
      \<longleftrightarrow> c = p @ rfc2104 64 (hash_of_name name) k p"
    and "length c < 2 ^ 28 \<Longrightarrow> \<exists>r. hmac_decrypt (create_by_name lib) e c = Inr r"
    and "length (rfc2104 64 (hash_of_name name) k p) \<le> 20"
proof -
  have n: "name \<in> {''md5'', ''MD5'', ''sha1'', ''SHA1''}" and e: "hc_hash e = name" "hc_key e = k" "length k < 2 ^ 28"
    using assms by (auto simp: hmac_ok_def hmac_cipher_new_def split: if_splits)
  obtain md rep where md: "create_by_name lib name = Some md" "digest_laws md (hash_of_name name) rep"
    "md_block_size md = 64" by (rule create_by_name_known [OF n])
  note m = md(1) [folded e(1)]
  show "length p < 2 ^ 28 \<Longrightarrow> hmac_encrypt (create_by_name lib) e p = Inr (p @ rfc2104 64 (hash_of_name name) k p)"
    using digest_laws.hmac_encrypt_eq [OF md(2), of "create_by_name lib" e p] m e md(3) by simp
  show "length c < 2 ^ 28 \<Longrightarrow> hmac_decrypt (create_by_name lib) e c = Inr (Some p)
      \<longleftrightarrow> c = p @ rfc2104 64 (hash_of_name name) k p"
    using digest_laws.hmac_decrypt_eq(1) [OF md(2), of "create_by_name lib" e c p] m e md(3) by simp
  show "length c < 2 ^ 28 \<Longrightarrow> \<exists>r. hmac_decrypt (create_by_name lib) e c = Inr r"
    using digest_laws.hmac_decrypt_eq(2) [OF md(2), of "create_by_name lib" e c] m e md(3) by simp
  show "length (rfc2104 64 (hash_of_name name) k p) \<le> 20"
    by (simp add: rfc2104_def hash_of_name_def md5_hash_length sha1_hash_length)
qed

interpretation hmac_enc: encryptor_laws "hmac_encryptor (create_by_name lib)" "hmac_ok name k"
  "rfc2104 64 (hash_of_name name) k"
proof (unfold_locales, goal_cases)
  case (1 e p rnd)
  then show ?case using hmac_cipher_eq(1) [OF 1(1), of p lib] hmac_cipher_eq(4) [OF 1(1), of p] by (simp add: hmac_encryptor_def)
next
  case (2 e e1 p rnd rnd1 c e')
  have "length (p @ rfc2104 64 (hash_of_name name) k p) < 2 ^ 28"
    using hmac_cipher_eq(4) [OF 2(1), of p] 2(3) by simp
  with 2 show ?case
    using hmac_cipher_eq(1) [OF 2(1), of p lib] hmac_cipher_eq(2) [OF 2(2), of c lib p]
    by (simp add: hmac_encryptor_def)
next
  case (3 e rnd c)
  then show ?case using hmac_cipher_eq(3) [OF 3(1), of c lib] by (auto simp: hmac_encryptor_def)
next
  case (4 e rnd c p e')
  then show ?case using hmac_cipher_eq(2) [OF 4(1), of c lib p] by (auto simp: hmac_encryptor_def)
qed

text \<open>
  C23. The signing encryptor of client side sessions accepts a text exactly when it is a plain text
  followed by the HMAC of that plain text under the key, and returns that plain text: nothing that was
  altered, truncated or signed under another key is accepted unless its last bytes happen to be the
  right code.  What it encrypts it accepts.
\<close>

theorem hmac_cipher_accepts_exactly:
  assumes "hmac_cipher_new name k = Inr e" "name \<in> {''md5'', ''MD5'', ''sha1'', ''SHA1''}"
    and "length k < 2 ^ 27" "length c < 2 ^ 27" "length p < 2 ^ 27"
  shows "hmac_encrypt (create_by_name lib) e p = Inr (p @ rfc2104 64 (hash_of_name name) k p)
    \<and> (\<forall>q. hmac_decrypt (create_by_name lib) e c = Inr (Some q)
          \<longleftrightarrow> c = q @ rfc2104 64 (hash_of_name name) k q)
    \<and> (\<exists>r. hmac_decrypt (create_by_name lib) e c = Inr r)"
proof -
  have ok: "hmac_ok name k e" using assms by (simp add: hmac_ok_def)
  show ?thesis
    using hmac_cipher_eq(1) [OF ok, of p lib] hmac_cipher_eq(2,3) [OF ok, of c lib] assms(4,5) by simp
qed

theorem hmac_cipher_accepts_exactly_witness:
  "let k = replicate 16 (CHR ''k'') in
   hmac_encrypt (create_by_name (\<lambda>_. None :: unit message_digest option)) \<lparr>hc_key = k, hc_hash = ''sha1''\<rparr> ''session''
     = Inr (''session'' @ rfc2104 64 sha1_hash k ''session'')
   \<and> hmac_decrypt (create_by_name (\<lambda>_. None :: unit message_digest option)) \<lparr>hc_key = k, hc_hash = ''sha1''\<rparr>
       (''session'' @ rfc2104 64 sha1_hash k ''session'') = Inr (Some ''session'')"
proof -
  let ?k = "replicate 16 (CHR ''k'')" and ?c = "''session'' @ rfc2104 64 sha1_hash (replicate 16 (CHR ''k'')) ''session''"
  have h: "hash_of_name ''sha1'' = sha1_hash" by (simp add: hash_of_name_def)
  have c: "length ?c < 2 ^ 27" by (simp add: rfc2104_def sha1_hash_length)
  show ?thesis
    using hmac_cipher_accepts_exactly [of "''sha1''" ?k "\<lparr>hc_key = ?k, hc_hash = ''sha1''\<rparr>" ?c "''session''"
        "\<lambda>_. None :: unit message_digest option"] c h
    by (simp add: hmac_cipher_new_def Let_def)
qed

section \<open>The CBC object of \<^verbatim>\<open>src/aes.cpp\<close>\<close>

text \<open>
  The functions of OpenSSL the class calls, on key schedules of type \<open>'k\<close>: the two key setups and
  \<^verbatim>\<open>AES_cbc_encrypt(in, out, len, key, ivec, enc)\<close>, which returns the output and the updated vector.
\<close>

record 'k aes_lib =
  AES_set_encrypt_key :: "string \<Rightarrow> nat \<Rightarrow> 'k"
  AES_set_decrypt_key :: "string \<Rightarrow> nat \<Rightarrow> 'k"
  AES_cbc_encrypt :: "string \<Rightarrow> 'k \<Rightarrow> string \<Rightarrow> bool \<Rightarrow> string \<times> string"

text \<open>The key schedules are \<open>None\<close> until \<^verbatim>\<open>encryption_initialized_\<close>, \<^verbatim>\<open>decryption_initialized_\<close>.\<close>

record 'k openssl_aes =
  aes_key :: string
  aes_type :: nat
  key_enc :: "'k option"
  key_dec :: "'k option"
  iv_enc :: string
  iv_dec :: string
  iv_initialized :: bool

definition openssl_aes_new :: "nat \<Rightarrow> 'k openssl_aes" where
  "openssl_aes_new bits =
     \<lparr>aes_key = [], aes_type = bits, key_enc = None, key_dec = None,
      iv_enc = replicate 16 (ch 0), iv_dec = replicate 16 (ch 0), iv_initialized = False\<rparr>"

definition cbc_create :: "string \<Rightarrow> 'k openssl_aes option" where
  "cbc_create name =
     (if name \<in> {''aes'', ''AES'', ''aes128'', ''aes-128'', ''AES128'', ''AES-128''} then Some (openssl_aes_new 128)
      else if name \<in> {''aes192'', ''aes-192'', ''AES192'', ''AES-192''} then Some (openssl_aes_new 192)
      else if name \<in> {''aes256'', ''aes-256'', ''AES256'', ''AES-256''} then Some (openssl_aes_new 256)
      else None)"

definition cbc_block_size :: nat where
  "cbc_block_size = 16"

definition cbc_key_size :: "'k openssl_aes \<Rightarrow> nat" where
  "cbc_key_size s = aes_type s div 8"

definition aes_check :: "'k openssl_aes \<Rightarrow> crypto_error option" where
  "aes_check s =
     (if length (aes_key s) = 0 then Some No_key_set
      else if \<not> iv_initialized s then Some No_iv_set
      else None)"

text \<open>
  The guard against a second key builds an exception object without throwing it, so it has no effect.
\<close>

definition cbc_set_key :: "string \<Rightarrow> 'k openssl_aes \<Rightarrow> (crypto_error + unit) \<times> 'k openssl_aes" where
  "cbc_set_key k s =
     (if length k \<noteq> cbc_key_size s then (Inl Invalid_key_size, s) else (Inr (), s\<lparr>aes_key := k\<rparr>))"

definition cbc_set_iv :: "string \<Rightarrow> 'k openssl_aes \<Rightarrow> (crypto_error + unit) \<times> 'k openssl_aes" where
  "cbc_set_iv iv s =
     (if length iv \<noteq> 16 then (Inl Invalid_iv_size, s)
      else (Inr (), s\<lparr>iv_enc := iv, iv_dec := iv, iv_initialized := True\<rparr>))"

definition cbc_set_nonce_iv :: "string \<Rightarrow> 'k openssl_aes \<Rightarrow> 'k openssl_aes" where
  "cbc_set_nonce_iv rnd s = s\<lparr>iv_enc := take 16 rnd, iv_dec := take 16 (drop 16 rnd), iv_initialized := True\<rparr>"

definition cbc_encrypt :: "'k aes_lib \<Rightarrow> string \<Rightarrow> 'k openssl_aes \<Rightarrow> (crypto_error + string) \<times> 'k openssl_aes" where
  "cbc_encrypt lib inp s =
     (case aes_check s of
        Some e \<Rightarrow> (Inl e, s)
      | None \<Rightarrow>
          (let k = (case key_enc s of Some k \<Rightarrow> k | None \<Rightarrow> AES_set_encrypt_key lib (aes_key s) (aes_type s));
               (out, iv) = AES_cbc_encrypt lib inp k (iv_enc s) True
           in (Inr out, s\<lparr>key_enc := Some k, iv_enc := iv\<rparr>)))"

definition cbc_decrypt :: "'k aes_lib \<Rightarrow> string \<Rightarrow> 'k openssl_aes \<Rightarrow> (crypto_error + string) \<times> 'k openssl_aes" where
  "cbc_decrypt lib inp s =
     (case aes_check s of
        Some e \<Rightarrow> (Inl e, s)
      | None \<Rightarrow>
          (let k = (case key_dec s of Some k \<Rightarrow> k | None \<Rightarrow> AES_set_decrypt_key lib (aes_key s) (aes_type s));
               (out, iv) = AES_cbc_encrypt lib inp k (iv_dec s) False
           in (Inr out, s\<lparr>key_dec := Some k, iv_dec := iv\<rparr>)))"

section \<open>Encrypted and signed text: \<^verbatim>\<open>aes_cipher\<close>\<close>

record ('k, 'd) aes_cipher =
  ac_cbc :: "'k openssl_aes option"
  ac_digest :: "'d message_digest option"
  ac_cbc_name :: string
  ac_md_name :: string
  ac_cbc_key :: string
  ac_mac_key :: string

definition aes_cipher_new :: "string \<Rightarrow> string \<Rightarrow> string \<Rightarrow> string \<Rightarrow> ('k, 'd) aes_cipher" where
  "aes_cipher_new cbc_name md_name cbc_key md_key =
     \<lparr>ac_cbc = None, ac_digest = None, ac_cbc_name = cbc_name, ac_md_name = md_name,
      ac_cbc_key = cbc_key, ac_mac_key = md_key\<rparr>"

text \<open>
  \<^verbatim>\<open>aes_factory(algo, k)\<close>: one key for both purposes, either the concatenation of the two keys or a
  key they are derived from.
\<close>

definition aes_factory_keys :: "(string \<Rightarrow> 'd message_digest option) \<Rightarrow> nat \<Rightarrow> nat \<Rightarrow> string \<Rightarrow> crypto_error + string \<times> string" where
  "aes_factory_keys by_name key_size digest_size k =
     (if length k = key_size + digest_size
      then Inr (take key_size k, take digest_size (drop key_size k))
      else if length k \<ge> key_size \<and> key_size * 8 < 512
      then (let name = (if length k * 8 \<le> 256 then ''sha256'' else ''sha512'')
            in case by_name name of
                 None \<Rightarrow> Inl No_such_digest
               | Some md \<Rightarrow>
                   (let (k1, m1) = hmac_readout md (hmac_append md ''0'' (hmac_new md k));
                        (k2, m2) = hmac_readout md (hmac_append md [ch 1] m1)
                    in Inr (take key_size k1, take digest_size k2)))
      else Inl Invalid_key_size)"

definition aes_factory :: "(string \<Rightarrow> 'd message_digest option) \<Rightarrow> string \<Rightarrow> string \<Rightarrow> crypto_error + ('k, 'd) aes_cipher" where
  "aes_factory by_name algo k =
     (case (cbc_create algo :: 'k openssl_aes option) of
        None \<Rightarrow> Inl No_such_cipher
      | Some cbc \<Rightarrow>
          (case by_name ''sha1'' of
             None \<Rightarrow> Inl Digest_null
           | Some md \<Rightarrow>
               (case aes_factory_keys by_name (cbc_key_size cbc) (md_digest_size md) k of
                  Inl e \<Rightarrow> Inl e
                | Inr (ck, hk) \<Rightarrow> Inr (aes_cipher_new algo ''sha1'' ck hk))))"

definition aes_load_cbc :: "string \<Rightarrow> ('k, 'd) aes_cipher \<Rightarrow> (crypto_error + unit) \<times> ('k, 'd) aes_cipher" where
  "aes_load_cbc rnd s =
     (case ac_cbc s of
        Some _ \<Rightarrow> (Inr (), s)
      | None \<Rightarrow>
          (case cbc_create (ac_cbc_name s) of
             None \<Rightarrow> (Inl No_such_cipher, s)
           | Some c \<Rightarrow>
               (let (r, c') = cbc_set_key (ac_cbc_key s) (cbc_set_nonce_iv rnd c) in (r, s\<lparr>ac_cbc := Some c'\<rparr>))))"

definition aes_load_digest :: "(string \<Rightarrow> 'd message_digest option) \<Rightarrow> ('k, 'd) aes_cipher
    \<Rightarrow> (crypto_error + unit) \<times> ('k, 'd) aes_cipher" where
  "aes_load_digest by_name s =
     (case ac_digest s of
        Some _ \<Rightarrow> (Inr (), s)
      | None \<Rightarrow>
          (case by_name (ac_md_name s) of
             None \<Rightarrow> (Inl No_such_digest, s)
           | Some md \<Rightarrow> (Inr (), s\<lparr>ac_digest := Some md\<rparr>)))"

definition aes_load :: "(string \<Rightarrow> 'd message_digest option) \<Rightarrow> string \<Rightarrow> ('k, 'd) aes_cipher
    \<Rightarrow> (crypto_error + unit) \<times> ('k, 'd) aes_cipher" where
  "aes_load by_name rnd s =
     (case aes_load_cbc rnd s of
        (Inl e, s1) \<Rightarrow> (Inl e, s1)
      | (Inr _, s1) \<Rightarrow> aes_load_digest by_name s1)"

text \<open>The plain text behind one unused block, its length in front, padded to whole blocks.\<close>

definition aes_input :: "string \<Rightarrow> string" where
  "aes_input plain =
     (let size = length plain mod 2 ^ 32;
          block_size = (size + 4 + (cbc_block_size - 1)) div cbc_block_size * cbc_block_size + cbc_block_size
      in copy_at (cbc_block_size + 4) plain
           (copy_at cbc_block_size (le_bytes 4 size) (replicate block_size (ch 0))))"

definition aes_encrypt :: "'k aes_lib \<Rightarrow> (string \<Rightarrow> 'd message_digest option) \<Rightarrow> string \<Rightarrow> string
    \<Rightarrow> ('k, 'd) aes_cipher \<Rightarrow> (crypto_error + string) \<times> ('k, 'd) aes_cipher" where
  "aes_encrypt lib by_name rnd plain s =
     (case aes_load by_name rnd s of
        (Inl e, s1) \<Rightarrow> (Inl e, s1)
      | (Inr _, s1) \<Rightarrow>
          (let md = the (ac_digest s1);
               (r, c) = cbc_encrypt lib (aes_input plain) (the (ac_cbc s1));
               s2 = s1\<lparr>ac_cbc := Some c\<rparr>
           in case r of
                Inl e \<Rightarrow> (Inl e, s2)
              | Inr output \<Rightarrow>
                  (let (mac, _) = hmac_readout md (hmac_append md output (hmac_new md (ac_mac_key s)))
                   in (Inr (output @ mac), s2))))"

definition aes_decrypt :: "'k aes_lib \<Rightarrow> (string \<Rightarrow> 'd message_digest option) \<Rightarrow> string \<Rightarrow> string
    \<Rightarrow> ('k, 'd) aes_cipher \<Rightarrow> (crypto_error + string option) \<times> ('k, 'd) aes_cipher" where
  "aes_decrypt lib by_name rnd cipher s =
     (case aes_load by_name rnd s of
        (Inl e, s1) \<Rightarrow> (Inl e, s1)
      | (Inr _, s1) \<Rightarrow>
          (let md = the (ac_digest s1);
               digest_size = md_digest_size md;
               block_size = cbc_block_size;
               real_size = length cipher - digest_size
           in if length cipher < digest_size + block_size then (Inr None, s1)
              else if real_size mod block_size \<noteq> 0 then (Inr None, s1)
              else if real_size div block_size < 2 then (Inr None, s1)
              else
                (let (verify, _) = hmac_readout md (hmac_append md (take real_size cipher) (hmac_new md (ac_mac_key s)))
                 in if \<not> mac_equal verify (drop real_size cipher) digest_size then (Inr None, s1)
                    else
                      (let (r, c) = cbc_decrypt lib (take real_size cipher) (the (ac_cbc s1));
                           s2 = s1\<lparr>ac_cbc := Some c\<rparr>
                       in case r of
                            Inl e \<Rightarrow> (Inl e, s2)
                          | Inr full_plain \<Rightarrow>
                              (let size = from_le (take 4 (drop block_size full_plain))
                               in if size > real_size - block_size - 4 then (Inr None, s2)
                                  else (Inr (Some (take size (drop (block_size + 4) full_plain))), s2))))))"

definition aes_encryptor :: "'k aes_lib \<Rightarrow> (string \<Rightarrow> 'd message_digest option) \<Rightarrow> ('k, 'd) aes_cipher encryptor" where
  "aes_encryptor lib by_name =
     \<lparr>enc_encrypt = aes_encrypt lib by_name, enc_decrypt = aes_decrypt lib by_name\<rparr>"

text \<open>
  What the documentation of \<^verbatim>\<open>AES_cbc_encrypt\<close> promises for whole blocks: the output has the length of the
  input, and decrypting with the same key gives the text back whatever the initial vector was, except
  for the first block, which depends on it.
\<close>

definition aes_lib_ok :: "'k aes_lib \<Rightarrow> bool" where
  "aes_lib_ok lib \<longleftrightarrow>
     (\<forall>x k iv b. length x mod 16 = 0 \<longrightarrow> length (fst (AES_cbc_encrypt lib x k iv b)) = length x) \<and>
     (\<forall>x key bits iv iv'. length x mod 16 = 0 \<longrightarrow> bits = 8 * length key \<longrightarrow>
        drop 16 (fst (AES_cbc_encrypt lib
            (fst (AES_cbc_encrypt lib x (AES_set_encrypt_key lib key bits) iv True))
            (AES_set_decrypt_key lib key bits) iv' False)) = drop 16 x)"

subsection \<open>The invariant of the object\<close>

definition cbc_ready :: "'k aes_lib \<Rightarrow> string \<Rightarrow> 'k openssl_aes \<Rightarrow> bool" where
  "cbc_ready lib k c \<longleftrightarrow> aes_key c = k \<and> aes_type c = 8 * length k \<and> iv_initialized c
     \<and> (\<forall>x. key_enc c = Some x \<longrightarrow> x = AES_set_encrypt_key lib k (8 * length k))
     \<and> (\<forall>x. key_dec c = Some x \<longrightarrow> x = AES_set_decrypt_key lib k (8 * length k))"

definition aes_ok :: "'k aes_lib \<Rightarrow> (string \<Rightarrow> 'd message_digest option) \<Rightarrow> string \<Rightarrow> string \<Rightarrow> string \<Rightarrow> string
    \<Rightarrow> ('k, 'd) aes_cipher \<Rightarrow> bool" where
  "aes_ok lib by_name cname ck mname mk s \<longleftrightarrow>
     aes_lib_ok lib \<and> length mk < 2 ^ 28 \<and> mname \<in> {''md5'', ''MD5'', ''sha1'', ''SHA1''}
     \<and> (\<exists>c. (cbc_create cname :: 'k openssl_aes option) = Some c \<and> length ck = cbc_key_size c)
     \<and> ac_cbc_name s = cname \<and> ac_md_name s = mname \<and> ac_cbc_key s = ck \<and> ac_mac_key s = mk
     \<and> (ac_cbc s = None \<or> (\<exists>c. ac_cbc s = Some c \<and> cbc_ready lib ck c))
     \<and> (ac_digest s = None \<or> ac_digest s = by_name mname)"

lemma aes_cipher_new_ok:
  assumes "aes_lib_ok lib" "length mk < 2 ^ 28" "mname \<in> {''md5'', ''MD5'', ''sha1'', ''SHA1''}"
    and "cbc_create cname = Some (c :: 'k openssl_aes)" "length ck = cbc_key_size c"
  shows "aes_ok lib by_name cname ck mname mk (aes_cipher_new cname mname ck mk :: ('k, 'd) aes_cipher)"
  using assms by (simp add: aes_ok_def aes_cipher_new_def)

lemma cbc_create_new:
  "cbc_create cname = Some c \<Longrightarrow> \<exists>b. c = openssl_aes_new b \<and> b \<in> {128, 192, 256}"
  unfolding cbc_create_def by (metis insertI1 insertI2 option.inject option.distinct(1))

lemma aes_load_ok:
  fixes s :: "('k, 'd) aes_cipher"
  assumes "aes_ok lib by_name cname ck mname mk s" "by_name mname = Some md"
  obtains s1 c where "aes_load by_name rnd s = (Inr (), s1)" "aes_ok lib by_name cname ck mname mk s1"
    "ac_cbc s1 = Some c" "cbc_ready lib ck c" "ac_digest s1 = Some md"
proof -
  obtain c0 :: "'k openssl_aes" where c0: "cbc_create cname = Some c0" "length ck = cbc_key_size c0"
    using assms(1) by (auto simp: aes_ok_def)
  obtain b where b: "c0 = openssl_aes_new b" "b \<in> {128, 192, 256}" using cbc_create_new [OF c0(1)] by blast
  have t: "8 * length ck = b" using c0(2) b by (auto simp: cbc_key_size_def openssl_aes_new_def)
  have "\<exists>s1 c. aes_load_cbc rnd s = (Inr (), s1) \<and> aes_ok lib by_name cname ck mname mk s1
      \<and> ac_cbc s1 = Some c \<and> cbc_ready lib ck c"
  proof (cases "ac_cbc s")
    case None
    have "cbc_ready lib ck (c0\<lparr>iv_enc := take 16 rnd, iv_dec := take 16 (drop 16 rnd), iv_initialized := True, aes_key := ck\<rparr>)"
      using t b by (simp add: cbc_ready_def openssl_aes_new_def)
    moreover have "cbc_key_size (cbc_set_nonce_iv rnd c0) = length ck"
      using c0(2) by (simp add: cbc_key_size_def cbc_set_nonce_iv_def)
    ultimately show ?thesis
      using None assms(1) c0
      by (simp add: aes_load_cbc_def aes_ok_def cbc_set_key_def cbc_set_nonce_iv_def)
  next
    case (Some c)
    then show ?thesis using assms(1) by (auto simp: aes_load_cbc_def aes_ok_def)
  qed
  then obtain s1 c where s1: "aes_load_cbc rnd s = (Inr (), s1)" "aes_ok lib by_name cname ck mname mk s1"
    "ac_cbc s1 = Some c" "cbc_ready lib ck c" by blast
  let ?s2 = "s1\<lparr>ac_digest := Some md\<rparr>"
  have "aes_load_digest by_name s1 = (Inr (), ?s2)"
    using s1(2) assms(2) by (auto simp: aes_load_digest_def aes_ok_def split: option.splits)
  moreover have "aes_ok lib by_name cname ck mname mk ?s2" using s1(2) assms(2) by (simp add: aes_ok_def)
  ultimately show ?thesis using that [of ?s2 c] s1 by (simp add: aes_load_def)
qed

lemma aes_ok_set_cbc:
  "aes_ok lib by_name cname ck mname mk s \<Longrightarrow> cbc_ready lib ck c
    \<Longrightarrow> aes_ok lib by_name cname ck mname mk (s\<lparr>ac_cbc := Some c\<rparr>)"
  by (simp add: aes_ok_def)

lemma cbc_encrypt_ready:
  assumes "cbc_ready lib k c" "k \<noteq> []"
  shows "\<exists>c'. cbc_encrypt lib x c = (Inr (fst (AES_cbc_encrypt lib x (AES_set_encrypt_key lib k (8 * length k)) (iv_enc c) True)), c')
    \<and> cbc_ready lib k c'"
  using assms by (auto simp: cbc_ready_def cbc_encrypt_def aes_check_def case_prod_unfold Let_def split: option.splits)

lemma cbc_decrypt_ready:
  assumes "cbc_ready lib k c" "k \<noteq> []"
  shows "\<exists>c'. cbc_decrypt lib x c = (Inr (fst (AES_cbc_encrypt lib x (AES_set_decrypt_key lib k (8 * length k)) (iv_dec c) False)), c')
    \<and> cbc_ready lib k c'"
  using assms by (auto simp: cbc_ready_def cbc_decrypt_def aes_check_def case_prod_unfold Let_def split: option.splits)

lemma aes_ok_key: "aes_ok lib by_name cname ck mname mk s \<Longrightarrow> ck \<noteq> []"
proof -
  assume "aes_ok lib by_name cname ck mname mk s"
  then obtain c :: "'a openssl_aes" where "cbc_create cname = Some c" "length ck = cbc_key_size c"
    by (auto simp: aes_ok_def)
  with cbc_create_new show "ck \<noteq> []" by (fastforce simp: cbc_key_size_def openssl_aes_new_def)
qed

lemma aes_input_parts:
  assumes "length p < 2 ^ 27"
  shows "length (aes_input p) mod 16 = 0" "32 \<le> length (aes_input p)" "length (aes_input p) \<le> length p + 35"
    and "take 4 (drop 16 (aes_input p)) = le_bytes 4 (length p)"
    and "take (length p) (drop 20 (aes_input p)) = p"
    and "length p \<le> length (aes_input p) - 20"
proof -
  let ?b = "(19 + length p) div 16 * 16"
  have b: "length p + 4 \<le> ?b" "?b \<le> length p + 19"
    using div_mult_mod_eq [of "19 + length p" 16] mod_less_divisor [of 16 "19 + length p"] by linarith+
  have i: "aes_input p = replicate 16 (ch 0) @ le_bytes 4 (length p) @ p @ replicate (?b - 4 - length p) (ch 0)"
    using assms b by (simp add: aes_input_def cbc_block_size_def Let_def copy_at_def)
  have l: "length (aes_input p) = ?b + 16" unfolding i using b by simp
  show "length (aes_input p) mod 16 = 0" "32 \<le> length (aes_input p)" "length (aes_input p) \<le> length p + 35"
    "length p \<le> length (aes_input p) - 20"
    unfolding l using b assms by (simp_all add: div_le_mono)
  show "take 4 (drop 16 (aes_input p)) = le_bytes 4 (length p)" "take (length p) (drop 20 (aes_input p)) = p"
    unfolding i by simp_all
qed

text \<open>What \<open>aes_decrypt\<close> checks of the signed part before it compares the authentication code.\<close>

definition aes_shape :: "string \<Rightarrow> bool" where
  "aes_shape b \<longleftrightarrow> length b mod 16 = 0 \<and> 32 \<le> length b"

context digest_laws
begin

lemma aes_encrypt_eq:
  fixes s :: "('k, 'd) aes_cipher"
  assumes ok: "aes_ok lib by_name cname ck mname mk s" and md: "by_name mname = Some md" and p: "length p < 2 ^ 27"
  obtains x iv s' where "aes_encrypt lib by_name rnd p s = (Inr (x @ mac mk x), s')"
    "aes_ok lib by_name cname ck mname mk s'"
    "x = fst (AES_cbc_encrypt lib (aes_input p) (AES_set_encrypt_key lib ck (8 * length ck)) iv True)"
    "length x = length (aes_input p)"
proof -
  obtain s1 c where s1: "aes_load by_name rnd s = (Inr (), s1)" "aes_ok lib by_name cname ck mname mk s1"
    "ac_cbc s1 = Some c" "cbc_ready lib ck c" "ac_digest s1 = Some md"
    by (rule aes_load_ok [OF ok md])
  let ?x = "fst (AES_cbc_encrypt lib (aes_input p) (AES_set_encrypt_key lib ck (8 * length ck)) (iv_enc c) True)"
  obtain c' where c': "cbc_encrypt lib (aes_input p) c = (Inr ?x, c')" "cbc_ready lib ck c'"
    using cbc_encrypt_ready [OF s1(4) aes_ok_key [OF ok]] by blast
  have k: "ac_mac_key s = mk" "length mk < 2 ^ 28" using ok by (simp_all add: aes_ok_def)
  have len: "length ?x = length (aes_input p)"
    using ok aes_input_parts(1) [OF p] by (simp add: aes_ok_def aes_lib_ok_def)
  then have "fst (hmac_readout md (hmac_append md ?x (hmac_new md mk))) = mac mk ?x"
    using aes_input_parts(3) [OF p] p by (intro hmac_one k) simp
  then have "aes_encrypt lib by_name rnd p s = (Inr (?x @ mac mk ?x), s1\<lparr>ac_cbc := Some c'\<rparr>)"
    using s1 c' k by (simp add: aes_encrypt_def case_prod_unfold Let_def)
  then show ?thesis using that aes_ok_set_cbc [OF s1(2) c'(2)] len by blast
qed

lemma aes_decrypt_eq:
  fixes s :: "('k, 'd) aes_cipher"
  assumes ok: "aes_ok lib by_name cname ck mname mk s" and md: "by_name mname = Some md" and c: "length c < 2 ^ 28"
  obtains r iv s' where "aes_decrypt lib by_name rnd c s = (Inr r, s')" "aes_ok lib by_name cname ck mname mk s'"
    "r \<noteq> None \<Longrightarrow> \<exists>b. c = b @ mac mk b"
    "\<And>b. c = b @ mac mk b \<Longrightarrow> aes_shape b \<Longrightarrow>
       r = (let full = fst (AES_cbc_encrypt lib b (AES_set_decrypt_key lib ck (8 * length ck)) iv False);
                size = from_le (take 4 (drop 16 full))
            in if size > length b - 20 then None else Some (take size (drop 20 full)))"
proof -
  let ?n = "length c - md_digest_size md" and ?ds = "md_digest_size md"
  let ?b = "take ?n c"
  obtain s1 d where s1: "aes_load by_name rnd s = (Inr (), s1)" "aes_ok lib by_name cname ck mname mk s1"
    "ac_cbc s1 = Some d" "cbc_ready lib ck d" "ac_digest s1 = Some md"
    by (rule aes_load_ok [OF ok md])
  let ?full = "fst (AES_cbc_encrypt lib ?b (AES_set_decrypt_key lib ck (8 * length ck)) (iv_dec d) False)"
  let ?size = "from_le (take 4 (drop 16 ?full))"
  let ?r = "if ?size > ?n - 20 then None else Some (take ?size (drop 20 ?full))"
  obtain d' where d': "cbc_decrypt lib ?b d = (Inr ?full, d')" "cbc_ready lib ck d'"
    using cbc_decrypt_ready [OF s1(4) aes_ok_key [OF ok]] by blast
  have k: "ac_mac_key s = mk" "length mk < 2 ^ 28" using ok by (simp_all add: aes_ok_def)
  have one: "fst (hmac_readout md (hmac_append md ?b (hmac_new md mk))) = mac mk ?b"
    using c by (intro hmac_one k) simp
  let ?good = "?ds + 16 \<le> length c \<and> ?n mod 16 = 0 \<and> 2 \<le> ?n div 16 \<and> mac mk ?b = drop ?n c"
  have eq: "?ds + 16 \<le> length c \<Longrightarrow> mac_equal (mac mk ?b) (drop ?n c) ?ds \<longleftrightarrow> mac mk ?b = drop ?n c"
    using rfc2104_length by (intro mac_equal_iff) simp_all
  have run: "aes_decrypt lib by_name rnd c s = (if ?good then (Inr ?r, s1\<lparr>ac_cbc := Some d'\<rparr>) else (Inr None, s1))"
    using s1 d' k one eq
    by (cases ?good) (auto simp: aes_decrypt_def case_prod_unfold Let_def cbc_block_size_def)
  have good: "?good \<and> ?b = b" if "c = b @ mac mk b" "aes_shape b" for b
    using that rfc2104_length [of "md_block_size md" mk b] by (auto simp: aes_shape_def)
  show ?thesis
  proof (cases ?good)
    case True
    show ?thesis
    proof (rule that [of ?r "s1\<lparr>ac_cbc := Some d'\<rparr>" "iv_dec d"])
      show "aes_decrypt lib by_name rnd c s = (Inr ?r, s1\<lparr>ac_cbc := Some d'\<rparr>)" by (simp only: run if_P [OF True])
      show "aes_ok lib by_name cname ck mname mk (s1\<lparr>ac_cbc := Some d'\<rparr>)" by (rule aes_ok_set_cbc [OF s1(2) d'(2)])
      show "\<exists>b. c = b @ mac mk b" using True by (metis append_take_drop_id)
    next
      fix b assume b: "c = b @ mac mk b" "aes_shape b"
      from good [OF b] have "?b = b" by simp
      moreover from this have "?n = length b" using b(1) by (metis length_take min.absorb2 diff_le_self)
      ultimately show "?r = (let full = fst (AES_cbc_encrypt lib b (AES_set_decrypt_key lib ck (8 * length ck)) (iv_dec d) False);
                size = from_le (take 4 (drop 16 full))
            in if size > length b - 20 then None else Some (take size (drop 20 full)))" by (simp add: Let_def)
    qed
  next
    case False
    show ?thesis
    proof (rule that [of None s1 "iv_dec d"])
      show "aes_decrypt lib by_name rnd c s = (Inr None, s1)" by (simp only: run if_not_P [OF False])
    qed (use s1(2) good False in blast)+
  qed
qed

lemma aes_decrypt_encrypt:
  fixes s s1 :: "('k, 'd) aes_cipher"
  assumes ok: "aes_ok lib by_name cname ck mname mk s" "aes_ok lib by_name cname ck mname mk s1"
    and md: "by_name mname = Some md" and p: "length p < 2 ^ 27"
    and enc: "aes_encrypt lib by_name rnd p s = (Inr c, s')"
  shows "\<exists>s1'. aes_decrypt lib by_name rnd1 c s1 = (Inr (Some p), s1') \<and> aes_ok lib by_name cname ck mname mk s1'"
proof -
  obtain x iv s2 where x: "aes_encrypt lib by_name rnd p s = (Inr (x @ mac mk x), s2)"
    "x = fst (AES_cbc_encrypt lib (aes_input p) (AES_set_encrypt_key lib ck (8 * length ck)) iv True)"
    "length x = length (aes_input p)"
    by (rule aes_encrypt_eq [OF ok(1) md p])
  note i = aes_input_parts [OF p]
  have c: "c = x @ mac mk x" using enc x(1) by simp
  have shape: "aes_shape x" using i(1,2) x(3) by (simp add: aes_shape_def)
  have lc: "length c < 2 ^ 28"
    using i(3) x(3) p sizes rfc2104_length [of "md_block_size md" mk x] unfolding c by simp
  obtain r iv' s1' where r: "aes_decrypt lib by_name rnd1 c s1 = (Inr r, s1')" "aes_ok lib by_name cname ck mname mk s1'"
    "r = (let full = fst (AES_cbc_encrypt lib x (AES_set_decrypt_key lib ck (8 * length ck)) iv' False);
              size = from_le (take 4 (drop 16 full))
          in if size > length x - 20 then None else Some (take size (drop 20 full)))"
    using aes_decrypt_eq [OF ok(2) md lc] c shape by metis
  have full: "drop 16 (fst (AES_cbc_encrypt lib x (AES_set_decrypt_key lib ck (8 * length ck)) iv' False)) = drop 16 (aes_input p)"
    using ok(1) i(1) x(2) by (simp add: aes_ok_def aes_lib_ok_def)
  then have "drop 20 (fst (AES_cbc_encrypt lib x (AES_set_decrypt_key lib ck (8 * length ck)) iv' False)) = drop 20 (aes_input p)"
    using arg_cong [OF full, of "drop 4"] unfolding drop_drop by simp
  with full have "r = Some p" using r(3) i(4,5,6) x(3) p by (simp add: Let_def)
  with r(1,2) show ?thesis by blast
qed

end

lemma aes_cipher_eq:
  assumes "aes_ok lib (create_by_name dlib) cname ck mname mk s"
  shows "length p < 2 ^ 27 \<Longrightarrow> \<exists>c s'. aes_encrypt lib (create_by_name dlib) rnd p s = (Inr c, s')
      \<and> aes_ok lib (create_by_name dlib) cname ck mname mk s' \<and> length c \<le> length p + 64"
    and "length p < 2 ^ 27 \<Longrightarrow> aes_ok lib (create_by_name dlib) cname ck mname mk s1
      \<Longrightarrow> aes_encrypt lib (create_by_name dlib) rnd p s = (Inr c, s')
      \<Longrightarrow> \<exists>s1'. aes_decrypt lib (create_by_name dlib) rnd1 c s1 = (Inr (Some p), s1')
          \<and> aes_ok lib (create_by_name dlib) cname ck mname mk s1'"
    and "length c < 2 ^ 28 \<Longrightarrow> \<exists>r s'. aes_decrypt lib (create_by_name dlib) rnd c s = (Inr r, s')
      \<and> aes_ok lib (create_by_name dlib) cname ck mname mk s'
      \<and> (r \<noteq> None \<longrightarrow> (\<exists>b. c = b @ rfc2104 64 (hash_of_name mname) mk b))"
proof -
  have "mname \<in> {''md5'', ''MD5'', ''sha1'', ''SHA1''}" using assms by (simp add: aes_ok_def)
  then obtain md rep where md: "create_by_name dlib mname = Some md" "digest_laws md (hash_of_name mname) rep"
    "md_block_size md = 64" by (rule create_by_name_known)
  show "length p < 2 ^ 27 \<Longrightarrow> \<exists>c s'. aes_encrypt lib (create_by_name dlib) rnd p s = (Inr c, s')
      \<and> aes_ok lib (create_by_name dlib) cname ck mname mk s' \<and> length c \<le> length p + 64"
  proof -
    assume p: "length p < 2 ^ 27"
    obtain x iv s' where x: "aes_encrypt lib (create_by_name dlib) rnd p s = (Inr (x @ rfc2104 64 (hash_of_name mname) mk x), s')"
      "aes_ok lib (create_by_name dlib) cname ck mname mk s'" "length x = length (aes_input p)"
      using digest_laws.aes_encrypt_eq [OF md(2) assms md(1) p] md(3) by metis
    moreover have "length (rfc2104 64 (hash_of_name mname) mk x) \<le> 20"
      by (simp add: rfc2104_def hash_of_name_def md5_hash_length sha1_hash_length)
    ultimately show ?thesis using aes_input_parts(3) [OF p] by auto
  qed
  show "length p < 2 ^ 27 \<Longrightarrow> aes_ok lib (create_by_name dlib) cname ck mname mk s1
      \<Longrightarrow> aes_encrypt lib (create_by_name dlib) rnd p s = (Inr c, s')
      \<Longrightarrow> \<exists>s1'. aes_decrypt lib (create_by_name dlib) rnd1 c s1 = (Inr (Some p), s1')
          \<and> aes_ok lib (create_by_name dlib) cname ck mname mk s1'"
    using digest_laws.aes_decrypt_encrypt [OF md(2) assms _ md(1)] by blast
  show "length c < 2 ^ 28 \<Longrightarrow> \<exists>r s'. aes_decrypt lib (create_by_name dlib) rnd c s = (Inr r, s')
      \<and> aes_ok lib (create_by_name dlib) cname ck mname mk s'
      \<and> (r \<noteq> None \<longrightarrow> (\<exists>b. c = b @ rfc2104 64 (hash_of_name mname) mk b))"
    using digest_laws.aes_decrypt_eq [OF md(2) assms md(1), of c rnd] md(3) by metis
qed

interpretation aes_enc: encryptor_laws "aes_encryptor lib (create_by_name dlib)"
  "aes_ok lib (create_by_name dlib) cname ck mname mk" "rfc2104 64 (hash_of_name mname) mk"
proof (unfold_locales, goal_cases)
  case (1 e p rnd)
  then show ?case using aes_cipher_eq(1) [OF 1(1), of p rnd] by (simp add: aes_encryptor_def)
next
  case (2 e e1 p rnd rnd1 c e')
  then show ?case using aes_cipher_eq(2) [OF 2(1), of p e1 rnd c e' rnd1] by (simp add: aes_encryptor_def)
next
  case (3 e rnd c)
  then have "length c < 2 ^ 28" by simp
  from aes_cipher_eq(3) [OF 3(1) this, of rnd] show ?case by (auto simp: aes_encryptor_def)
next
  case (4 e rnd c p e')
  then have "length c < 2 ^ 28" by simp
  from aes_cipher_eq(3) [OF 4(1) this, of rnd] 4 show ?case by (auto simp: aes_encryptor_def)
qed

text \<open>
  C24. The encrypting encryptor: with a CBC implementation that keeps its documented promise, what one
  object encrypts, another object with the same keys and its own random vectors decrypts to the same
  text; and an object accepts only texts that end in the HMAC of what stands before it.
\<close>

theorem aes_cipher_correct:
  fixes lib :: "'k aes_lib" and dlib :: "string \<Rightarrow> 'e message_digest option"
  assumes "aes_lib_ok lib" "cbc_create cname = Some (cbc :: 'k openssl_aes)" "length ck = cbc_key_size cbc"
    and "mname \<in> {''md5'', ''MD5'', ''sha1'', ''SHA1''}" "length mk < 2 ^ 28"
    and "length p < 2 ^ 27" "length c' < 2 ^ 27"
  shows "let new = aes_cipher_new cname mname ck mk in
     (\<exists>c. fst (aes_encrypt lib (create_by_name dlib) rnd p new) = Inr c
        \<and> fst (aes_decrypt lib (create_by_name dlib) rnd1 c new) = Inr (Some p))
     \<and> (fst (aes_decrypt lib (create_by_name dlib) rnd1 c' new) = Inr (Some q)
        \<longrightarrow> (\<exists>b. c' = b @ rfc2104 64 (hash_of_name mname) mk b))"
proof -
  have ok: "aes_ok lib (create_by_name dlib) cname ck mname mk (aes_cipher_new cname mname ck mk)"
    using aes_cipher_new_ok assms(1-5) by metis
  obtain c s where c: "aes_encrypt lib (create_by_name dlib) rnd p (aes_cipher_new cname mname ck mk) = (Inr c, s)"
    using aes_cipher_eq(1) [OF ok assms(6)] by blast
  have "length c' < 2 ^ 28" using assms(7) by simp
  then show ?thesis
    using c aes_cipher_eq(2) [OF ok assms(6) ok c, of rnd1] aes_cipher_eq(3) [OF ok, of c' rnd1]
    by (auto simp: Let_def)
qed

theorem aes_cipher_correct_witness:
  "let lib = \<lparr>AES_set_encrypt_key = \<lambda>k _. k, AES_set_decrypt_key = \<lambda>k _. k, AES_cbc_encrypt = \<lambda>x k iv b. (x, iv)\<rparr>;
       new = aes_cipher_new ''aes'' ''sha1'' (replicate 16 (ch 7)) ''mac key'';
       by_name = create_by_name (\<lambda>_. None :: unit message_digest option)
   in \<exists>c. fst (aes_encrypt lib by_name [] ''session'' new) = Inr c
        \<and> fst (aes_decrypt lib by_name [] c new) = Inr (Some ''session'')"
proof -
  let ?lib = "\<lparr>AES_set_encrypt_key = \<lambda>k _. k, AES_set_decrypt_key = \<lambda>k _. k, AES_cbc_encrypt = \<lambda>x k iv b. (x, iv)\<rparr> :: string aes_lib"
  have "aes_lib_ok ?lib" by (simp add: aes_lib_ok_def)
  moreover have "cbc_create ''aes'' = Some (openssl_aes_new 128 :: string openssl_aes)" by (simp add: cbc_create_def)
  moreover have "length (replicate 16 (ch 7)) = cbc_key_size (openssl_aes_new 128 :: string openssl_aes)"
    by (simp add: cbc_key_size_def openssl_aes_new_def)
  ultimately show ?thesis
    using aes_cipher_correct [of ?lib "''aes''" "openssl_aes_new 128" "replicate 16 (ch 7)" "''sha1''" "''mac key''"
        "''session''" "[]" "\<lambda>_. None :: unit message_digest option" "[]" "[]"]
    by (simp add: Let_def)
qed

end
