(* ===== verification/Session_Storage.thy ===== *)
theory Session_Storage
  imports Prelude
begin

text \<open>
  \<^verbatim>\<open>cppcms/session_storage.h\<close> and \<^verbatim>\<open>src/session_memory_storage.cpp\<close>: the interface of session storages
  and the storage that keeps sessions in the memory of the process, a table of sessions with a
  multimap ordered by expiry time that a short garbage collection shortens on every write.  Each
  operation holds the lock from start to end and is one step here.  The locale
  \<open>session_storage_laws\<close> states what the session code relies on.
\<close>

section \<open>The interface\<close>

text \<open>The first argument of each operation is what \<^verbatim>\<open>time(0)\<close> returns during the call.\<close>

record 's session_storage =
  ss_save :: "time_t \<Rightarrow> string \<Rightarrow> time_t \<Rightarrow> string \<Rightarrow> 's \<Rightarrow> 's"
  ss_load :: "time_t \<Rightarrow> string \<Rightarrow> 's \<Rightarrow> (time_t \<times> string) option"
  ss_remove :: "time_t \<Rightarrow> string \<Rightarrow> 's \<Rightarrow> 's"

locale session_storage_laws =
  fixes st :: "'s session_storage" and inv :: "'s \<Rightarrow> bool"
  assumes inv_save: "inv s \<Longrightarrow> inv (ss_save st now k t v s)"
    and inv_remove: "inv s \<Longrightarrow> inv (ss_remove st now k s)"
    and load_fresh: "inv s \<Longrightarrow> ss_load st now k s = Some (t, v) \<Longrightarrow> now \<le> t"
    and load_saved: "inv s \<Longrightarrow> now \<le> now' \<Longrightarrow> now' \<le> t \<Longrightarrow> ss_load st now' k (ss_save st now k t v s) = Some (t, v)"
    and load_saved_other: "inv s \<Longrightarrow> now \<le> now' \<Longrightarrow> k' \<noteq> k
      \<Longrightarrow> ss_load st now' k' (ss_save st now k t v s) = ss_load st now' k' s"
    and load_removed: "inv s \<Longrightarrow> now \<le> now' \<Longrightarrow> ss_load st now' k (ss_remove st now k s) = None"
    and load_removed_other: "inv s \<Longrightarrow> now \<le> now' \<Longrightarrow> k' \<noteq> k
      \<Longrightarrow> ss_load st now' k' (ss_remove st now k s) = ss_load st now' k' s"
begin

text \<open>A session nobody touches stays readable with its value until it expires.\<close>

lemma untouched:
  assumes "inv s" "now \<le> now'" "k' \<noteq> k"
  shows "ss_load st now' k' (ss_save st now k t v (ss_remove st now k s)) = ss_load st now' k' s"
  using assms inv_remove by (simp add: load_saved_other load_removed_other)

end

section \<open>The memory storage\<close>

record session_data =
  sd_timeout :: time_t
  sd_info :: string

text \<open>
  The iterator \<^verbatim>\<open>timeout_ptr\<close> of an entry is the pair of its expiry time and its key, which the
  multimap holds once.
\<close>

record session_memory_storage =
  sm_map :: "string \<Rightarrow> session_data option"
  sm_timeout :: "(time_t \<times> string) list"

definition session_memory_storage_new :: session_memory_storage where
  "session_memory_storage_new = \<lparr>sm_map = (\<lambda>_. None), sm_timeout = []\<rparr>"

fun short_gc_loop :: "nat \<Rightarrow> time_t \<Rightarrow> session_memory_storage \<Rightarrow> session_memory_storage" where
  "short_gc_loop 0 now s = s"
| "short_gc_loop (Suc n) now s =
     (case sm_timeout s of
        [] \<Rightarrow> s
      | (t, k) # r \<Rightarrow>
          if t < now then short_gc_loop n now (s\<lparr>sm_map := (sm_map s)(k := None), sm_timeout := r\<rparr>) else s)"

definition short_gc :: "time_t \<Rightarrow> session_memory_storage \<Rightarrow> session_memory_storage" where
  "short_gc now s = short_gc_loop 5 now s"

definition sm_save :: "time_t \<Rightarrow> string \<Rightarrow> time_t \<Rightarrow> string \<Rightarrow> session_memory_storage \<Rightarrow> session_memory_storage" where
  "sm_save now key to value s =
     (let timeouts =
            (case sm_map s key of
               None \<Rightarrow> sm_timeout s
             | Some p \<Rightarrow> remove1 (sd_timeout p, key) (sm_timeout s))
      in short_gc now
           (s\<lparr>sm_map := (sm_map s)(key \<mapsto> \<lparr>sd_timeout = to, sd_info = value\<rparr>),
              sm_timeout := mm_insert to key timeouts\<rparr>))"

definition sm_load :: "time_t \<Rightarrow> string \<Rightarrow> session_memory_storage \<Rightarrow> (time_t \<times> string) option" where
  "sm_load now key s =
     (case sm_map s key of
        None \<Rightarrow> None
      | Some p \<Rightarrow> if sd_timeout p < now then None else Some (sd_timeout p, sd_info p))"

definition sm_remove :: "time_t \<Rightarrow> string \<Rightarrow> session_memory_storage \<Rightarrow> session_memory_storage" where
  "sm_remove now key s =
     (case sm_map s key of
        None \<Rightarrow> s
      | Some p \<Rightarrow>
          short_gc now
            (s\<lparr>sm_map := (sm_map s)(key := None), sm_timeout := remove1 (sd_timeout p, key) (sm_timeout s)\<rparr>))"

definition memory_storage :: "session_memory_storage session_storage" where
  "memory_storage = \<lparr>ss_save = sm_save, ss_load = sm_load, ss_remove = sm_remove\<rparr>"

section \<open>Invariant\<close>

definition sm_inv :: "session_memory_storage \<Rightarrow> bool" where
  "sm_inv s \<longleftrightarrow> sorted (map fst (sm_timeout s)) \<and> distinct (map snd (sm_timeout s))
     \<and> set (sm_timeout s) = {(t, k). \<exists>p. sm_map s k = Some p \<and> sd_timeout p = t}"

lemma sm_inv_new: "sm_inv session_memory_storage_new"
  by (simp add: sm_inv_def session_memory_storage_new_def)

lemma sm_inv_mem: "sm_inv s \<Longrightarrow> (t, k) \<in> set (sm_timeout s) \<longleftrightarrow> (\<exists>p. sm_map s k = Some p \<and> sd_timeout p = t)"
  by (simp add: sm_inv_def)

lemma sm_inv_erase:
  assumes "sm_inv s" "sm_map s k = Some p"
  shows "sm_inv (s\<lparr>sm_map := (sm_map s)(k := None), sm_timeout := remove1 (sd_timeout p, k) (sm_timeout s)\<rparr>)"
proof -
  have d: "distinct (sm_timeout s)" using assms(1) by (auto simp: sm_inv_def distinct_map)
  have "set (remove1 (sd_timeout p, k) (sm_timeout s)) = set (sm_timeout s) - {(sd_timeout p, k)}"
    using d by (rule set_remove1_eq)
  moreover have "sorted (map fst (remove1 (sd_timeout p, k) (sm_timeout s)))"
    using assms(1) by (simp add: sm_inv_def sorted_map_remove1)
  moreover have "distinct (map snd (remove1 (sd_timeout p, k) (sm_timeout s)))"
    using assms(1) by (auto simp: sm_inv_def distinct_map d inj_on_diff set_remove1_eq [OF d])
  ultimately show ?thesis using assms by (auto simp: sm_inv_def)
qed

lemma sm_inv_insert:
  assumes "sm_inv s" "sm_map s k = None"
  shows "sm_inv (s\<lparr>sm_map := (sm_map s)(k \<mapsto> p), sm_timeout := mm_insert (sd_timeout p) k (sm_timeout s)\<rparr>)"
proof -
  have "k \<notin> snd ` set (sm_timeout s)" using assms by (auto simp: sm_inv_def)
  with assms show ?thesis
    by (auto simp: sm_inv_def set_mm_insert sorted_mm_insert distinct_mm_insert)
qed

section \<open>Garbage collection\<close>

text \<open>The collection drops expired sessions only.\<close>

lemma short_gc_loop_ok:
  assumes "sm_inv s"
  shows "sm_inv (short_gc_loop n now s)"
    and "sm_map (short_gc_loop n now s) k = sm_map s k
      \<or> sm_map (short_gc_loop n now s) k = None \<and> (\<exists>p. sm_map s k = Some p \<and> sd_timeout p < now)"
proof -
  have "sm_inv (short_gc_loop n now s) \<and> (sm_map (short_gc_loop n now s) k = sm_map s k
      \<or> sm_map (short_gc_loop n now s) k = None \<and> (\<exists>p. sm_map s k = Some p \<and> sd_timeout p < now))"
    using assms
  proof (induction n now s rule: short_gc_loop.induct)
    case (2 n now s)
    show ?case
    proof (cases "sm_timeout s")
      case (Cons e r)
      obtain t k0 where e: "e = (t, k0)" by (cases e)
      obtain p where p: "sm_map s k0 = Some p" "sd_timeout p = t"
        using sm_inv_mem [OF "2.prems", of t k0] Cons e by auto
      let ?s = "s\<lparr>sm_map := (sm_map s)(k0 := None), sm_timeout := r\<rparr>"
      have "sm_inv ?s" using sm_inv_erase [OF "2.prems" p(1)] Cons e p(2) by simp
      with "2.IH" [OF Cons e [symmetric]] Cons e p "2.prems" show ?thesis
        by (cases "t < now") (auto split: if_splits)
    qed (use "2.prems" in simp)
  qed simp
  then show "sm_inv (short_gc_loop n now s)"
    "sm_map (short_gc_loop n now s) k = sm_map s k
      \<or> sm_map (short_gc_loop n now s) k = None \<and> (\<exists>p. sm_map s k = Some p \<and> sd_timeout p < now)"
    by blast+
qed

lemma sm_load_gc: "sm_inv s \<Longrightarrow> now \<le> now' \<Longrightarrow> sm_load now' k (short_gc now s) = sm_load now' k s"
  using short_gc_loop_ok(2) [of s 5 now k]
  by (cases "sm_map s k") (auto simp: sm_load_def short_gc_def)

lemma sm_inv_gc: "sm_inv s \<Longrightarrow> sm_inv (short_gc now s)"
  by (simp add: short_gc_def short_gc_loop_ok)

section \<open>The contract\<close>

text \<open>\<^verbatim>\<open>save\<close> without its collection, for both branches of the code.\<close>

definition sm_put :: "string \<Rightarrow> session_data \<Rightarrow> session_memory_storage \<Rightarrow> session_memory_storage" where
  "sm_put k d s = s\<lparr>sm_map := (sm_map s)(k \<mapsto> d),
     sm_timeout := mm_insert (sd_timeout d) k
       (case sm_map s k of None \<Rightarrow> sm_timeout s | Some p \<Rightarrow> remove1 (sd_timeout p, k) (sm_timeout s))\<rparr>"

lemma sm_save_put: "sm_save now k t v s = short_gc now (sm_put k \<lparr>sd_timeout = t, sd_info = v\<rparr> s)"
  by (simp add: sm_save_def sm_put_def)

lemma sm_inv_put: "sm_inv s \<Longrightarrow> sm_inv (sm_put k d s)"
proof (cases "sm_map s k")
  case (Some p)
  assume "sm_inv s"
  from sm_inv_insert [OF sm_inv_erase [OF this Some], of k d] Some show ?thesis by (simp add: sm_put_def)
qed (simp add: sm_put_def sm_inv_insert)

lemma sm_load_put:
  "sm_load now k' (sm_put k d s) =
     (if k' = k then if sd_timeout d < now then None else Some (sd_timeout d, sd_info d) else sm_load now k' s)"
  by (simp add: sm_load_def sm_put_def)

lemma sm_remove_eq:
  assumes "sm_inv s" "now \<le> now'"
  shows "sm_inv (sm_remove now k s)"
    and "sm_load now' k' (sm_remove now k s) = (if k' = k then None else sm_load now' k' s)"
proof -
  consider "sm_map s k = None" | p where "sm_map s k = Some p" by (cases "sm_map s k") auto
  then have "sm_inv (sm_remove now k s) \<and> sm_load now' k' (sm_remove now k s) = (if k' = k then None else sm_load now' k' s)"
  proof cases
    case 1
    then show ?thesis using assms by (simp add: sm_remove_def sm_load_def)
  next
    case 2
    note e = sm_inv_erase [OF assms(1) 2]
    show ?thesis
      using sm_load_gc [OF e assms(2), of k'] sm_inv_gc [OF e, of now] 2
      by (simp add: sm_remove_def sm_load_def)
  qed
  then show "sm_inv (sm_remove now k s)"
    "sm_load now' k' (sm_remove now k s) = (if k' = k then None else sm_load now' k' s)" by simp_all
qed

interpretation mem_storage: session_storage_laws memory_storage sm_inv
proof unfold_locales
  fix s now k t v k' now'
  assume inv: "sm_inv s"
  then show "sm_inv (ss_save memory_storage now k t v s)" "sm_inv (ss_remove memory_storage now k s)"
    by (simp_all add: memory_storage_def sm_save_put sm_inv_gc sm_inv_put sm_remove_eq(1) [OF inv order_refl])
  show "ss_load memory_storage now k s = Some (t, v) \<Longrightarrow> now \<le> t"
    by (auto simp: memory_storage_def sm_load_def split: option.splits if_splits)
  assume le: "now \<le> now'"
  show "now' \<le> t \<Longrightarrow> ss_load memory_storage now' k (ss_save memory_storage now k t v s) = Some (t, v)"
    "k' \<noteq> k \<Longrightarrow> ss_load memory_storage now' k' (ss_save memory_storage now k t v s) = ss_load memory_storage now' k' s"
    using sm_load_gc [OF sm_inv_put [OF inv] le] by (simp_all add: memory_storage_def sm_save_put sm_load_put)
  show "ss_load memory_storage now' k (ss_remove memory_storage now k s) = None"
    "k' \<noteq> k \<Longrightarrow> ss_load memory_storage now' k' (ss_remove memory_storage now k s) = ss_load memory_storage now' k' s"
    using sm_remove_eq(2) [OF inv le] by (simp_all add: memory_storage_def)
qed

section \<open>Histories\<close>

datatype storage_op = Op_save string time_t string | Op_remove string

text \<open>A history of writes, each with the time it was made.\<close>

definition storage_step :: "time_t \<times> storage_op \<Rightarrow> session_memory_storage \<Rightarrow> session_memory_storage" where
  "storage_step e s = (case e of (now, Op_save k t v) \<Rightarrow> sm_save now k t v s | (now, Op_remove k) \<Rightarrow> sm_remove now k s)"

text \<open>The specification: the sessions as a plain table, changed by the writes and never collected.\<close>

fun table_step :: "time_t \<times> storage_op \<Rightarrow> (string \<Rightarrow> (time_t \<times> string) option) \<Rightarrow> string \<Rightarrow> (time_t \<times> string) option" where
  "table_step (now, Op_save k t v) m = m(k \<mapsto> (t, v))"
| "table_step (now, Op_remove k) m = m(k := None)"

definition unexpired :: "time_t \<Rightarrow> (time_t \<times> string) option \<Rightarrow> (time_t \<times> string) option" where
  "unexpired now e = (case e of None \<Rightarrow> None | Some (t, v) \<Rightarrow> if t < now then None else Some (t, v))"

lemma storage_refines_step:
  assumes "sm_inv s" "\<forall>k. sm_load now k s = unexpired now (m k)" "fst e \<le> now"
  shows "sm_inv (storage_step e s)" and "\<forall>k. sm_load now k (storage_step e s) = unexpired now (table_step e m k)"
proof -
  have "sm_inv (storage_step e s) \<and> (\<forall>k. sm_load now k (storage_step e s) = unexpired now (table_step e m k))"
  proof (cases "(e, m)" rule: table_step.cases)
    case (1 t0 k t v m')
    then show ?thesis
      using assms sm_load_gc [OF sm_inv_put [OF assms(1)]]
      by (auto simp: storage_step_def sm_save_put sm_inv_gc sm_inv_put sm_load_put unexpired_def)
  next
    case (2 t0 k m')
    then show ?thesis
      using assms sm_remove_eq(1) [OF assms(1), of t0 now k] sm_remove_eq(2) [OF assms(1), of t0 now _ k]
      by (auto simp: storage_step_def unexpired_def)
  qed
  then show "sm_inv (storage_step e s)" "\<forall>k. sm_load now k (storage_step e s) = unexpired now (table_step e m k)" by simp_all
qed

lemma storage_refines:
  assumes "sm_inv s" "\<forall>k. sm_load now k s = unexpired now (m k)" "\<forall>e \<in> set es. fst e \<le> now"
  shows "sm_inv (fold storage_step es s) \<and> sm_load now k (fold storage_step es s) = unexpired now (fold table_step es m k)"
  using assms
proof (induction es arbitrary: s m)
  case (Cons e es)
  then have "sm_inv (storage_step e s)" "\<forall>k. sm_load now k (storage_step e s) = unexpired now (table_step e m k)"
    using storage_refines_step [OF Cons.prems(1,2), of e] by simp_all
  from Cons.IH [OF this] Cons.prems(3) show ?case by simp
qed simp

text \<open>
  C25. The memory storage of sessions behaves as a table that is never collected: after any history of
  writes, reading a session gives exactly the last value written under its identifier and its expiry
  time, unless it was removed or has expired.  The garbage collection, which drops at most five entries
  a write, cannot be observed; and the table and its time index agree at all times.
\<close>

theorem memory_storage_refines_table:
  assumes "\<forall>e \<in> set es. fst e \<le> now"
  shows "sm_load now k (fold storage_step es session_memory_storage_new) = unexpired now (fold table_step es (\<lambda>_. None) k)
    \<and> sm_inv (fold storage_step es session_memory_storage_new)"
proof -
  have "\<forall>k. sm_load now k session_memory_storage_new = unexpired now None"
    by (simp add: sm_load_def session_memory_storage_new_def unexpired_def)
  from storage_refines [OF sm_inv_new this assms] show ?thesis by blast
qed

theorem memory_storage_refines_table_witness:
  "sm_load 50 ''a'' (fold storage_step [(10, Op_save ''a'' 60 ''x''), (20, Op_save ''b'' 30 ''y''), (40, Op_remove ''c'')]
      session_memory_storage_new) = Some (60, ''x'')"
  using memory_storage_refines_table [of "[(10, Op_save ''a'' 60 ''x''), (20, Op_save ''b'' 30 ''y''), (40, Op_remove ''c'')]" 50 "''a''"]
  by (simp add: unexpired_def)

end
