(* ===== verification/Base64_Url.thy ===== *)
theory Base64_Url
  imports Prelude
begin

text \<open>
  \<^verbatim>\<open>src/base64.cpp\<close>: the base64 URL encoding of session cookies and tokens.  A block of up to three
  bytes becomes two to four characters and back.  The pointer interfaces write to a caller's buffer;
  the model returns the bytes written, and \<open>encoded_size\<close>, \<open>decoded_size\<close> are shown to be exactly
  their number, so the buffers the string interfaces allocate are filled and never overrun.
\<close>

definition encode_6_to_8 :: string where
  "encode_6_to_8 = ''ABCDEFGHIJKLMNOPQRSTUVWXYZabcdefghijklmnopqrstuvwxyz0123456789-_''"

definition encode_8_to_6 :: "char \<Rightarrow> nat" where
  "encode_8_to_6 c =
     (if uc CHR ''A'' \<le> uc c \<and> uc c \<le> uc CHR ''Z'' then uc c - uc CHR ''A''
      else if uc CHR ''a'' \<le> uc c \<and> uc c \<le> uc CHR ''z'' then 26 + uc c - uc CHR ''a''
      else if uc CHR ''0'' \<le> uc c \<and> uc c \<le> uc CHR ''9'' then 2 * 26 + uc c - uc CHR ''0''
      else if c = CHR ''-'' then 62
      else if c = CHR ''_'' then 63
      else 0)"

text \<open>\<open>bencode\<close> on a block of one, two or three bytes; the result is what the call writes to \<^verbatim>\<open>out\<close>.\<close>

fun bencode :: "string \<Rightarrow> string" where
  "bencode (a # b # c # _) =
     [encode_6_to_8 ! drop_bit 2 (uc a),
      encode_6_to_8 ! (push_bit 4 (uc a AND 0x03) OR drop_bit 4 (uc b AND 0xf0)),
      encode_6_to_8 ! (push_bit 2 (uc b AND 0x0f) OR drop_bit 6 (uc c AND 0xc0)),
      encode_6_to_8 ! (uc c AND 0x3f)]"
| "bencode [a, b] =
     [encode_6_to_8 ! drop_bit 2 (uc a),
      encode_6_to_8 ! (push_bit 4 (uc a AND 0x03) OR drop_bit 4 (uc b AND 0xf0)),
      encode_6_to_8 ! push_bit 2 (uc b AND 0x0f)]"
| "bencode [a] =
     [encode_6_to_8 ! drop_bit 2 (uc a), encode_6_to_8 ! push_bit 4 (uc a AND 0x03)]"
| "bencode [] = []"

text \<open>
  \<open>bdecode\<close> on a block of one to four characters, with the missing ones read as 0.  A block of one
  character falls through both length tests of the code and yields three bytes; the string interface
  never calls it on such a block.
\<close>

definition bdecode :: "string \<Rightarrow> string" where
  "bdecode in8 =
     (let in6 = map encode_8_to_6 in8 @ replicate (4 - length in8) 0;
          out0 = ch (push_bit 2 (in6 ! 0) OR drop_bit 4 (in6 ! 1));
          out1 = ch (push_bit 4 (in6 ! 1) OR drop_bit 2 (in6 ! 2));
          out2 = ch ((push_bit 6 (in6 ! 2) AND 0xc0) OR in6 ! 3)
      in if length in8 = 2 then [out0] else if length in8 = 3 then [out0, out1]
         else [out0, out1, out2])"

definition encoded_size :: "nat \<Rightarrow> int" where
  "encoded_size s =
     (if s mod 3 = 1 then to_int32 (s div 3 * 4 + 2)
      else if s mod 3 = 2 then to_int32 (s div 3 * 4 + 3)
      else to_int32 (s div 3 * 4))"

definition decoded_size :: "nat \<Rightarrow> int" where
  "decoded_size s =
     (if s mod 4 = 1 then -1
      else if s mod 4 = 2 then to_int32 (s div 4 * 3 + 1)
      else if s mod 4 = 3 then to_int32 (s div 4 * 3 + 2)
      else to_int32 (s div 4 * 3))"

text \<open>The pointer interfaces: the bytes written from \<^verbatim>\<open>target\<close> on.\<close>

fun encode_ptr :: "string \<Rightarrow> string" where
  "encode_ptr (a # b # c # begin) = bencode [a, b, c] @ encode_ptr begin"
| "encode_ptr [] = []"
| "encode_ptr [a] = bencode [a]"
| "encode_ptr [a, b] = bencode [a, b]"

fun decode_ptr :: "string \<Rightarrow> string" where
  "decode_ptr (a # b # c # d # begin) = bdecode [a, b, c, d] @ decode_ptr begin"
| "decode_ptr [] = []"
| "decode_ptr [a] = bdecode [a]"
| "decode_ptr [a, b] = bdecode [a, b]"
| "decode_ptr [a, b, c] = bdecode [a, b, c]"

text \<open>
  The sizes are computed in \<^verbatim>\<open>size_t\<close> and returned as \<^verbatim>\<open>int\<close>.
  The string interfaces allocate the computed size, zero filled, let the pointer interface write its
  bytes from the start of it, and take the computed size back as the result.
\<close>

definition fill_buffer :: "nat \<Rightarrow> string \<Rightarrow> string" where
  "fill_buffer n bytes = take n (bytes @ replicate n (ch 0))"

definition b64_encode :: "string \<Rightarrow> string" where
  "b64_encode input =
     (let enc_size = nat (encoded_size (length input) mod 2 ^ 64)
      in if enc_size = 0 then [] else fill_buffer enc_size (encode_ptr input))"

text \<open>
  \<open>None\<close> is the result \<^verbatim>\<open>false\<close>.  An empty input leaves the caller's \<^verbatim>\<open>output\<close> as it was, which is
  the argument \<open>output\<close>.
\<close>

definition b64_decode :: "string \<Rightarrow> string \<Rightarrow> string option" where
  "b64_decode input output =
     (let ds = decoded_size (length input)
      in if ds < 0 then None else if ds = 0 then Some output
         else Some (fill_buffer (nat ds) (decode_ptr input)))"

section \<open>Blocks\<close>

lemma encode_table_ok:
  "n < 64 \<Longrightarrow> encode_8_to_6 (encode_6_to_8 ! n) = n"
proof -
  have "map encode_8_to_6 encode_6_to_8 = [0..<64]" by code_simp
  then have "map encode_8_to_6 encode_6_to_8 ! n = [0..<64] ! n" by simp
  moreover assume "n < 64"
  moreover have "length encode_6_to_8 = 64" by (simp add: encode_6_to_8_def)
  ultimately show ?thesis by simp
qed

definition b64_char :: "char \<Rightarrow> bool" where
  "b64_char c \<longleftrightarrow> c \<in> set encode_6_to_8"

lemma encode_table_char: "n < 64 \<Longrightarrow> b64_char (encode_6_to_8 ! n)"
  unfolding b64_char_def by (rule nth_mem) (simp add: encode_6_to_8_def)

lemma high_masks [codec_simps]:
  "(n AND 0xf0) div 16 = n div 16 mod (16::nat)" "(n AND 0xc0) div 64 = n div 64 mod (4::nat)"
  "n * 64 AND 0xc0 = n mod 4 * (64::nat)"
proof -
  have "drop_bit 4 (n AND 0xf0) = drop_bit 4 n AND 0xF" "drop_bit 6 (n AND 0xc0) = drop_bit 6 n AND 3"
    by (simp_all add: drop_bit_and)
  then show "(n AND 0xf0) div 16 = n div 16 mod (16::nat)"
    "(n AND 0xc0) div 64 = n div 64 mod (4::nat)" by (simp_all add: codec_simps)
  have "push_bit 6 n AND 0xc0 = push_bit 6 (n AND 3)" by (simp add: push_bit_and)
  then show "n * 64 AND 0xc0 = n mod 4 * (64::nat)" by (simp add: codec_simps)
qed

text \<open>The six-bit groups of a block, as quotients and remainders.\<close>

lemma group_or:
  "x mod 4 * 16 OR y div 16 mod 16 = x mod 4 * 16 + y div 16 mod (16::nat)"
  "x mod 16 * 4 OR y div 64 mod 4 = x mod 16 * 4 + y div 64 mod (4::nat)"
  using or_add [of "y div 16 mod 16" 4 "x mod 4"] or_add [of "y div 64 mod 4" 2 "x mod 16"] by simp_all


text \<open>The first two bytes a block decodes to, from its six-bit groups.\<close>

lemma byte_or:
  assumes "y < 64" "z < 64"
  shows "x * 4 OR y div 16 = x * 4 + y div (16::nat)"
    and "ch (y * 16 OR z div 4) = ch (y mod 16 * 16 + z div 4)"
proof -
  show "x * 4 OR y div 16 = x * 4 + y div (16::nat)"
    using or_add [of "y div 16" 2 x] assms by simp
  have "y * 16 mod 256 = y mod 16 * 16" using mod_mult_mult2 [of y 16 16] by simp
  then have "uc (ch (y * 16 + z div 4)) = uc (ch (y mod 16 * 16 + z div 4))"
    unfolding uc_ch by (metis mod_add_left_eq)
  then have "ch (y * 16 + z div 4) = ch (y mod 16 * 16 + z div 4)" by (rule uc_inject [THEN iffD1])
  then show "ch (y * 16 OR z div 4) = ch (y mod 16 * 16 + z div 4)"
    using or_add [of "z div 4" 4 y] assms by simp
qed

lemma byte_or_last: "w < 64 \<Longrightarrow> z mod 4 * 64 OR w = z mod 4 * 64 + (w::nat)"
  using or_add [of w 6 "z mod 4"] by simp

lemmas bdecode_simps = bdecode_def encode_table_ok codec_simps Let_def byte_or byte_or_last

lemma bdecode_4:
  assumes "x < 64" "y < 64" "z < 64" "w < 64"
  shows "bdecode [encode_6_to_8 ! x, encode_6_to_8 ! y, encode_6_to_8 ! z, encode_6_to_8 ! w]
     = [ch (x * 4 + y div 16), ch (y mod 16 * 16 + z div 4), ch (z mod 4 * 64 + w)]"
  using assms by (simp add: bdecode_simps)

lemma bdecode_3:
  assumes "x < 64" "y < 64" "z < 64"
  shows "bdecode [encode_6_to_8 ! x, encode_6_to_8 ! y, encode_6_to_8 ! z]
     = [ch (x * 4 + y div 16), ch (y mod 16 * 16 + z div 4)]"
  using assms by (simp add: bdecode_simps)

lemma bdecode_2:
  assumes "x < 64" "y < 64"
  shows "bdecode [encode_6_to_8 ! x, encode_6_to_8 ! y] = [ch (x * 4 + y div 16)]"
  using assms by (simp add: bdecode_simps)

text \<open>The groups \<open>bencode\<close> builds are below 64, and split back into the bytes they came from.\<close>

lemma uc_div_zero [simp]: "uc c div 16 div 16 = 0" "uc c div 64 div 4 = 0"
  using uc_div_lt [of c] by (simp_all only: div_less)

lemma group_lt [simp]:
  "uc a mod 4 * 16 + uc b div 16 < 64" "uc b mod 16 * 4 + uc c div 64 < 64"
  "uc a mod 4 * 16 < 64" "uc b mod 16 * 4 < 64"
  using uc_div_lt [of b] uc_div_lt [of c] mod_less_divisor [of 4 "uc a"] mod_less_divisor [of 16 "uc b"]
  by linarith+

lemma bencode_3: "bencode (a # b # c # r) =
  [encode_6_to_8 ! (uc a div 4), encode_6_to_8 ! (uc a mod 4 * 16 + uc b div 16),
   encode_6_to_8 ! (uc b mod 16 * 4 + uc c div 64), encode_6_to_8 ! (uc c mod 64)]"
  using group_or [of "uc a" "uc b"] group_or [of "uc b" "uc c"] by (simp add: codec_simps)

lemma bencode_2: "bencode [a, b] =
  [encode_6_to_8 ! (uc a div 4), encode_6_to_8 ! (uc a mod 4 * 16 + uc b div 16),
   encode_6_to_8 ! (uc b mod 16 * 4)]"
  using group_or [of "uc a" "uc b"] by (simp add: codec_simps)

lemma bencode_1: "bencode [a] =
  [encode_6_to_8 ! (uc a div 4), encode_6_to_8 ! (uc a mod 4 * 16)]"
  by (simp add: codec_simps)

declare bencode.simps [simp del]

lemmas block_simps = bencode_1 bencode_2 bencode_3 bdecode_2 bdecode_3 bdecode_4

lemma decode_block:
  "bdecode (bencode [a]) = [a]" "bdecode (bencode [a, b]) = [a, b]"
  "bdecode (bencode [a, b, c]) = [a, b, c]"
  by (simp_all add: block_simps)

section \<open>Whole strings\<close>

lemma decode_ptr_append4: "length blk = 4 \<Longrightarrow> decode_ptr (blk @ r) = bdecode blk @ decode_ptr r"
  by (auto simp: numeral_eq_Suc length_Suc_conv)

lemma decode_encode_ptr: "decode_ptr (encode_ptr s) = s"
proof (induction s rule: encode_ptr.induct)
  case (1 a b c s)
  have "length (bencode [a, b, c]) = 4" by (simp add: bencode_3)
  with 1 show ?case by (simp only: encode_ptr.simps decode_ptr_append4 decode_block append.simps)
next
  case (3 a)
  then show ?case using decode_block(1) [of a] by (simp add: bencode_1)
next
  case (4 a b)
  then show ?case using decode_block(2) [of a b] by (simp add: bencode_2)
qed simp_all

lemma encode_ptr_length:
  "length (encode_ptr s) = length s div 3 * 4 + (if length s mod 3 = 0 then 0 else length s mod 3 + 1)"
proof (induction s rule: encode_ptr.induct)
  case (1 a b c s)
  have "length (a # b # c # s) div 3 = Suc (length s div 3)"
    "length (a # b # c # s) mod 3 = length s mod 3" by (simp_all add: numeral_3_eq_3 [symmetric])
  with 1 show ?case by (simp add: block_simps)
qed (simp_all add: block_simps)

lemma encode_ptr_chars: "c \<in> set (encode_ptr s) \<Longrightarrow> b64_char c"
  by (induction s rule: encode_ptr.induct) (auto simp: block_simps encode_table_char)

lemma encoded_size_eq: "length s < 2 ^ 30 \<Longrightarrow> encoded_size (length s) = int (length (encode_ptr s))"
  unfolding encode_ptr_length encoded_size_def by (auto simp: algebra_simps)

lemma fill_buffer_exact: "length bs = n \<Longrightarrow> fill_buffer n bs = bs"
  by (simp add: fill_buffer_def)

lemma b64_encode_eq: "length s < 2 ^ 30 \<Longrightarrow> b64_encode s = encode_ptr s"
proof -
  assume len: "length s < 2 ^ 30"
  then have "length (encode_ptr s) < 2 ^ 64" by (auto simp: encode_ptr_length)
  then have "int (length (encode_ptr s)) mod 2 ^ 64 = int (length (encode_ptr s))" by simp
  then show ?thesis
    unfolding b64_encode_def encoded_size_eq [OF len] Let_def by (simp add: fill_buffer_exact)
qed

lemma decoded_size_encode:
  "length s < 2 ^ 30 \<Longrightarrow> decoded_size (length (encode_ptr s)) = int (length s)"
proof -
  assume len: "length s < 2 ^ 30"
  define q where "q = length s div 3"
  have dm: "length s = 3 * q + length s mod 3" and lt: "length s mod 3 < 3"
    by (simp_all add: q_def)
  have enc: "length (encode_ptr s) = 4 * q + (if length s mod 3 = 0 then 0 else length s mod 3 + 1)"
    by (simp add: encode_ptr_length q_def)
  from lt consider "length s mod 3 = 0" | "length s mod 3 = 1" | "length s mod 3 = 2" by linarith
  then consider "length s = 3 * q" "length (encode_ptr s) = 4 * q"
    | "length s = 3 * q + 1" "length (encode_ptr s) = 4 * q + 2"
    | "length s = 3 * q + 2" "length (encode_ptr s) = 4 * q + 3"
    using dm enc by cases (metis add.commute add_0 one_neq_zero, simp_all)
  then show ?thesis
  proof cases
    case 1
    then show ?thesis using len by (simp add: decoded_size_def)
  next
    case 2
    then have "length (encode_ptr s) mod 4 = 2" "length (encode_ptr s) div 4 = q" by presburger+
    then show ?thesis using 2 len by (simp add: decoded_size_def)
  next
    case 3
    then have "length (encode_ptr s) mod 4 = 3" "length (encode_ptr s) div 4 = q" by presburger+
    then show ?thesis using 3 len by (simp add: decoded_size_def)
  qed
qed

lemma b64_decode_encode: "length s < 2 ^ 30 \<Longrightarrow> b64_decode (b64_encode s) [] = Some s"
  by (simp add: b64_decode_def b64_encode_eq decoded_size_encode Let_def fill_buffer_exact
      decode_encode_ptr)

lemma decoded_size_le: "n < 2 ^ 30 \<Longrightarrow> decoded_size n \<le> int n"
proof -
  assume n: "n < 2 ^ 30"
  have "n div 4 * 3 + 2 < 2 ^ 31" using n by simp
  moreover have "n div 4 * 3 + n mod 4 \<le> n" using div_mult_mod_eq [of n 4] by linarith
  ultimately show ?thesis by (simp add: decoded_size_def)
qed

lemma b64_decode_length: "b64_decode x [] = Some c \<Longrightarrow> length x < 2 ^ 30 \<Longrightarrow> length c \<le> length x"
  using decoded_size_le [of "length x"]
  by (auto simp: b64_decode_def fill_buffer_def Let_def split: if_splits)

interpretation b64: codec b64_encode "\<lambda>s. b64_decode s []" "\<lambda>s. length s < 2 ^ 30"
  by unfold_locales (rule b64_decode_encode)

text \<open>
  C19. Base64 URL decoding undoes the encoding on every input below 1 GB; the encoded text uses the
  64 letters of the URL alphabet only and has exactly the length \<^verbatim>\<open>encoded_size\<close> announces.
\<close>

theorem b64_roundtrip:
  assumes "length s < 2 ^ 30"
  shows "b64_decode (b64_encode s) [] = Some s
    \<and> list_all b64_char (b64_encode s) \<and> int (length (b64_encode s)) = encoded_size (length s)"
  using assms encode_ptr_chars b64.roundtrip [OF assms]
  by (auto simp: b64_encode_eq encoded_size_eq list_all_iff)

theorem b64_roundtrip_witness:
  "b64_decode (b64_encode ''session'') [] = Some ''session''
   \<and> list_all b64_char (b64_encode ''session'') \<and> int (length (b64_encode ''session'')) = encoded_size (length ''session'')"
  by (rule b64_roundtrip) simp

end
