(* ===== verification/Session_Api.thy ===== *)
theory Session_Api
  imports Encryptors Session_Storage Base64_Url
begin

text \<open>
  The three session back ends behind \<^verbatim>\<open>cppcms/session_api.h\<close>: \<^verbatim>\<open>src/session_sid.cpp\<close> keeps the session
  in a storage under a random identifier, \<^verbatim>\<open>src/session_cookies.cpp\<close> keeps it in the cookie itself,
  signed or encrypted, and \<^verbatim>\<open>src/session_dual.cpp\<close> chooses between them by size.  The locale
  \<open>session_api_laws\<close> is their common contract: a session that was saved is loaded by the next request
  that carries the cookie.
\<close>

section \<open>The session object as the back ends see it\<close>

text \<open>
  \<open>io_cookie\<close> is the session cookie of the request, \<open>io_temp\<close> is \<^verbatim>\<open>temp_cookie_\<close>, and \<open>io_out\<close> records
  the calls of \<^verbatim>\<open>set_session_cookie(age, data, key)\<close>, which add cookies to the response.
\<close>

record session_io =
  io_cookie :: string
  io_temp :: string
  io_out :: "(int \<times> string \<times> string) list"

definition emit_cookie :: "int \<Rightarrow> string \<Rightarrow> string \<Rightarrow> session_io \<Rightarrow> session_io" where
  "emit_cookie age data key io = io\<lparr>io_out := io_out io @ [(age, data, key)]\<rparr>"

definition set_temp_cookie :: "string \<Rightarrow> session_io \<Rightarrow> session_io" where
  "set_temp_cookie data io = io\<lparr>io_temp := data\<rparr>"

definition clear_session_cookie :: "session_io \<Rightarrow> session_io" where
  "clear_session_cookie io = (if io_cookie io \<noteq> [] then emit_cookie (-1) [] [] io else io)"

datatype session_error =
    Data_must_be_on_server | Crypto_failure crypto_error | Key_too_long | Value_too_long
  | Format_violation_pack | Format_violation_data | Undefined_key string | Bad_cast
  | Storage_not_loaded | Request_forgery | No_context

text \<open>
  The virtual functions of \<^verbatim>\<open>session_api\<close>.  A call gets the readings of the clock and of the random
  device it makes.  A load returns whether it succeeded, the data, and the expiry time where the call
  wrote it to its output argument.
\<close>

type_synonym load_result = "bool \<times> string \<times> time_t option"

record 'a session_api =
  api_save :: "clock \<Rightarrow> string \<Rightarrow> string \<Rightarrow> time_t \<Rightarrow> bool \<Rightarrow> bool \<Rightarrow> session_io \<times> 'a
    \<Rightarrow> session_error + session_io \<times> 'a"
  api_load :: "clock \<Rightarrow> string \<Rightarrow> session_io \<times> 'a \<Rightarrow> session_error + load_result \<times> session_io \<times> 'a"
  api_clear :: "clock \<Rightarrow> session_io \<times> 'a \<Rightarrow> session_io \<times> 'a"

section \<open>Sessions on the server\<close>

definition get_new_sid :: "string \<Rightarrow> string" where
  "get_new_sid rnd = tohex (take 16 rnd)"

definition valid_sid :: "string \<Rightarrow> string option" where
  "valid_sid cookie =
     (if length cookie \<noteq> 33 \<or> cookie ! 0 \<noteq> CHR ''I'' then None
      else if list_all low_xdigit (drop 1 cookie) then Some (take 32 (drop 1 cookie))
      else None)"

definition sid_save :: "'s session_storage \<Rightarrow> clock \<Rightarrow> string \<Rightarrow> string \<Rightarrow> time_t \<Rightarrow> bool \<Rightarrow> session_io \<times> 's
    \<Rightarrow> session_io \<times> 's" where
  "sid_save st clk rnd data timeout new_data = (\<lambda>(io, s).
     let (sid, s1) =
       (case valid_sid (io_cookie io) of
          Some sid \<Rightarrow> if new_data then (get_new_sid rnd, ss_remove st (clk 0) sid s) else (sid, s)
        | None \<Rightarrow> (get_new_sid rnd, s))
     in (set_temp_cookie (''I'' @ sid) io, ss_save st (clk 1) sid timeout data s1))"

definition sid_load :: "'s session_storage \<Rightarrow> clock \<Rightarrow> session_io \<times> 's \<Rightarrow> load_result \<times> session_io \<times> 's" where
  "sid_load st clk = (\<lambda>(io, s).
     case valid_sid (io_cookie io) of
       None \<Rightarrow> ((False, [], None), io, s)
     | Some sid \<Rightarrow>
         (case ss_load st (clk 0) sid s of
            None \<Rightarrow> ((False, [], None), io, s)
          | Some (t, d) \<Rightarrow>
              if clk 1 > t then ((False, d, Some t), io, ss_remove st (clk 2) sid s)
              else ((True, d, Some t), io, s)))"

definition sid_clear :: "'s session_storage \<Rightarrow> clock \<Rightarrow> session_io \<times> 's \<Rightarrow> session_io \<times> 's" where
  "sid_clear st clk = (\<lambda>(io, s).
     (clear_session_cookie io,
      case valid_sid (io_cookie io) of Some sid \<Rightarrow> ss_remove st (clk 0) sid s | None \<Rightarrow> s))"

definition session_sid :: "'s session_storage \<Rightarrow> 's session_api" where
  "session_sid st =
     \<lparr>api_save = (\<lambda>clk rnd data t new_data on_server x. Inr (sid_save st clk rnd data t new_data x)),
      api_load = (\<lambda>clk rnd x. Inr (sid_load st clk x)),
      api_clear = sid_clear st\<rparr>"

section \<open>Sessions in the cookie\<close>

text \<open>The memory image of a \<^verbatim>\<open>time_t\<close>: eight bytes, little-endian, two's complement.\<close>

definition time_bytes :: "time_t \<Rightarrow> string" where
  "time_bytes t = le_bytes 8 (nat (t mod 2 ^ 64))"

definition time_of_bytes :: "string \<Rightarrow> time_t" where
  "time_of_bytes s = (let n = from_le s in if n < 2 ^ 63 then int n else int n - 2 ^ 64)"

definition cookies_save :: "'e encryptor \<Rightarrow> clock \<Rightarrow> string \<Rightarrow> string \<Rightarrow> time_t \<Rightarrow> bool \<Rightarrow> bool \<Rightarrow> session_io \<times> 'e
    \<Rightarrow> session_error + session_io \<times> 'e" where
  "cookies_save enc clk rnd data timeout new_data on_server = (\<lambda>(io, e).
     if on_server then Inl Data_must_be_on_server
     else
       (case enc_encrypt enc rnd (time_bytes timeout @ data) e of
          (Inl err, e') \<Rightarrow> Inl (Crypto_failure err)
        | (Inr cipher, e') \<Rightarrow> Inr (set_temp_cookie (''C'' @ b64_encode cipher) io, e')))"

definition cookies_load :: "'e encryptor \<Rightarrow> clock \<Rightarrow> string \<Rightarrow> session_io \<times> 'e
    \<Rightarrow> session_error + load_result \<times> session_io \<times> 'e" where
  "cookies_load enc clk rnd = (\<lambda>(io, e).
     let cdata = io_cookie io;
         refuse = (\<lambda>e'. Inr ((False, [], None), clear_session_cookie io, e'))
     in if cdata = [] then Inr ((False, [], None), io, e)
        else if cdata ! 0 \<noteq> CHR ''C'' then refuse e
        else
          (case b64_decode (drop 1 cdata) [] of
             None \<Rightarrow> refuse e
           | Some cipher \<Rightarrow>
               (case enc_decrypt enc rnd cipher e of
                  (Inl err, e') \<Rightarrow> Inl (Crypto_failure err)
                | (Inr None, e') \<Rightarrow> refuse e'
                | (Inr (Some tmp), e') \<Rightarrow>
                    if length tmp < 8 then refuse e'
                    else
                      (let timeout = time_of_bytes (take 8 tmp)
                       in if timeout < clk 0 then refuse e'
                          else Inr ((True, drop 8 tmp, Some timeout), io, e')))))"

definition cookies_clear :: "clock \<Rightarrow> session_io \<times> 'e \<Rightarrow> session_io \<times> 'e" where
  "cookies_clear clk = (\<lambda>(io, e). (clear_session_cookie io, e))"

definition session_cookies :: "'e encryptor \<Rightarrow> 'e session_api" where
  "session_cookies enc = \<lparr>api_save = cookies_save enc, api_load = cookies_load enc, api_clear = cookies_clear\<rparr>"

section \<open>The choice between them\<close>

definition dual_save :: "'e encryptor \<Rightarrow> 's session_storage \<Rightarrow> nat \<Rightarrow> clock \<Rightarrow> string \<Rightarrow> string \<Rightarrow> time_t \<Rightarrow> bool \<Rightarrow> bool
    \<Rightarrow> session_io \<times> 'e \<times> 's \<Rightarrow> session_error + session_io \<times> 'e \<times> 's" where
  "dual_save enc st data_size_limit clk rnd data timeout isnew on_server = (\<lambda>(io, e, s).
     if on_server \<or> length data > data_size_limit
     then (let (io', s') = sid_save st clk rnd data timeout isnew (io, s) in Inr (io', e, s'))
     else
       (let cookie = io_cookie io;
            (io1, s1) = (if cookie \<noteq> [] \<and> cookie ! 0 = CHR ''I'' then sid_clear st clk (io, s) else (io, s))
        in case cookies_save enc (\<lambda>n. clk (Suc n)) rnd data timeout isnew False (io1, e) of
             Inl err \<Rightarrow> Inl err
           | Inr (io2, e') \<Rightarrow> Inr (io2, e', s1)))"

definition dual_load :: "'e encryptor \<Rightarrow> 's session_storage \<Rightarrow> clock \<Rightarrow> string \<Rightarrow> session_io \<times> 'e \<times> 's
    \<Rightarrow> session_error + load_result \<times> session_io \<times> 'e \<times> 's" where
  "dual_load enc st clk rnd = (\<lambda>(io, e, s).
     let cookie = io_cookie io
     in if cookie \<noteq> [] \<and> cookie ! 0 = CHR ''C''
        then (case cookies_load enc clk rnd (io, e) of
                Inl err \<Rightarrow> Inl err
              | Inr (r, io', e') \<Rightarrow> Inr (r, io', e', s))
        else (let (r, io', s') = sid_load st clk (io, s) in Inr (r, io', e, s')))"

definition dual_clear :: "'s session_storage \<Rightarrow> clock \<Rightarrow> session_io \<times> 'e \<times> 's \<Rightarrow> session_io \<times> 'e \<times> 's" where
  "dual_clear st clk = (\<lambda>(io, e, s).
     let cookie = io_cookie io
     in if cookie \<noteq> [] \<and> cookie ! 0 = CHR ''C''
        then (let (io', e') = cookies_clear clk (io, e) in (io', e', s))
        else (let (io', s') = sid_clear st clk (io, s) in (io', e, s')))"

definition session_dual :: "'e encryptor \<Rightarrow> 's session_storage \<Rightarrow> nat \<Rightarrow> ('e \<times> 's) session_api" where
  "session_dual enc st limit =
     \<lparr>api_save = dual_save enc st limit, api_load = dual_load enc st, api_clear = dual_clear st\<rparr>"

section \<open>The contract\<close>

text \<open>\<open>can_save srv d\<close>: the back end can keep the data \<open>d\<close>, on the server if \<open>srv\<close> is set.\<close>

locale session_api_laws =
  fixes api :: "'a session_api" and inv :: "'a \<Rightarrow> bool" and can_save :: "bool \<Rightarrow> string \<Rightarrow> bool"
  assumes save_load: "inv a \<Longrightarrow> can_save srv d \<Longrightarrow> 32 \<le> length rnd \<Longrightarrow> 32 \<le> length rnd'
      \<Longrightarrow> - (2 ^ 63) \<le> t \<Longrightarrow> t < 2 ^ 63 \<Longrightarrow> (\<And>i j. clk i \<le> clk' j) \<Longrightarrow> (\<And>j. clk' j \<le> t)
      \<Longrightarrow> \<exists>io' a'. api_save api clk rnd d t new_data srv (io, a) = Inr (io', a') \<and> inv a'
        \<and> (\<forall>io2. io_cookie io2 = io_temp io'
             \<longrightarrow> (\<exists>a2. api_load api clk' rnd' (io2, a') = Inr ((True, d, Some t), io2, a2) \<and> inv a2))"
    and load_total: "inv a \<Longrightarrow> 32 \<le> length rnd \<Longrightarrow> length (io_cookie io) < 2 ^ 27
      \<Longrightarrow> \<exists>r io' a'. api_load api clk rnd (io, a) = Inr (r, io', a') \<and> inv a' \<and> io_cookie io' = io_cookie io
            \<and> io_temp io' = io_temp io"
    and load_fresh: "inv a \<Longrightarrow> 32 \<le> length rnd \<Longrightarrow> api_load api clk rnd (io, a) = Inr ((True, d, Some t), io', a')
      \<Longrightarrow> \<exists>i. clk i \<le> t"
    and inv_clear: "inv a \<Longrightarrow> inv (snd (api_clear api clk (io, a)))"

lemma valid_sid_new: "32 \<le> length rnd \<Longrightarrow> valid_sid (''I'' @ get_new_sid rnd) = Some (get_new_sid rnd)"
  using tohex_low by (auto simp: valid_sid_def get_new_sid_def list_all_iff)

lemma valid_sid_same: "valid_sid c = Some sid \<Longrightarrow> c = ''I'' @ sid"
proof -
  assume v: "valid_sid c = Some sid"
  then have c: "length c = 33" "c ! 0 = CHR ''I''" "sid = take 32 (drop 1 c)"
    by (auto simp: valid_sid_def split: if_splits)
  then obtain x r where "c = x # r" by (cases c) auto
  with c show ?thesis by simp
qed

text \<open>The identifier \<^verbatim>\<open>save\<close> uses.\<close>

definition sid_for :: "bool \<Rightarrow> string \<Rightarrow> string \<Rightarrow> string" where
  "sid_for new_data cookie rnd =
     (case valid_sid cookie of Some sid \<Rightarrow> if new_data then get_new_sid rnd else sid | None \<Rightarrow> get_new_sid rnd)"

lemma valid_sid_for: "32 \<le> length rnd \<Longrightarrow> valid_sid (''I'' @ sid_for new_data cookie rnd) = Some (sid_for new_data cookie rnd)"
  using valid_sid_new valid_sid_same [of cookie] by (auto simp: sid_for_def split: option.splits)

lemma time_roundtrip: "- (2 ^ 63) \<le> t \<Longrightarrow> t < 2 ^ 63 \<Longrightarrow> time_of_bytes (time_bytes t) = t"
proof -
  assume t: "- (2 ^ 63) \<le> t" "t < 2 ^ 63"
  have "nat (t mod 2 ^ 64) < 2 ^ (8 * 8)" by (simp add: nat_less_iff)
  then have n: "from_le (time_bytes t) = nat (t mod 2 ^ 64)" unfolding time_bytes_def by (rule from_le_bytes_small)
  have "t mod 2 ^ 64 = (if t < 0 then t + 2 ^ 64 else t)"
    using t by (auto intro: int_mod_pos_eq [where q = "-1"] simp: mod_pos_pos_trivial)
  with n t show ?thesis by (simp add: time_of_bytes_def Let_def nat_less_iff)
qed

lemma length_time_bytes [simp]: "length (time_bytes t) = 8"
  by (simp add: time_bytes_def)

context session_storage_laws
begin

lemma sid_save_eq:
  assumes "inv s"
  obtains s1 where "inv s1" "sid_save st clk rnd d t new_data (io, s)
      = (set_temp_cookie (''I'' @ sid_for new_data (io_cookie io) rnd) io,
         ss_save st (clk 1) (sid_for new_data (io_cookie io) rnd) t d s1)"
    "s1 = (case valid_sid (io_cookie io) of Some sid \<Rightarrow> if new_data then ss_remove st (clk 0) sid s else s | None \<Rightarrow> s)"
proof -
  let ?s1 = "case valid_sid (io_cookie io) of Some sid \<Rightarrow> if new_data then ss_remove st (clk 0) sid s else s | None \<Rightarrow> s"
  have "inv ?s1" using assms inv_remove by (simp split: option.split)
  moreover have "sid_save st clk rnd d t new_data (io, s)
      = (set_temp_cookie (''I'' @ sid_for new_data (io_cookie io) rnd) io,
         ss_save st (clk 1) (sid_for new_data (io_cookie io) rnd) t d ?s1)"
    by (simp add: sid_save_def sid_for_def split: option.split)
  ultimately show ?thesis by (rule that) simp
qed

lemma sid_load_inv: "inv s \<Longrightarrow> inv (snd (snd (sid_load st clk (io, s))))"
  using inv_remove by (simp add: sid_load_def split: option.split prod.split)

lemma sid_load_saved:
  assumes "valid_sid (io_cookie io) = Some sid" "\<And>j. clk j \<le> t" "ss_load st (clk 0) sid s = Some (t, d)"
  shows "sid_load st clk (io, s) = ((True, d, Some t), io, s)"
proof -
  have "\<not> t < clk 1" using assms(2) [of 1] by simp
  with assms(1,3) show ?thesis by (simp add: sid_load_def)
qed

lemma sid_save_load:
  assumes "inv s" "32 \<le> length rnd" "\<And>i j. clk i \<le> clk' j" "\<And>j. clk' j \<le> t"
  obtains io' s' where "sid_save st clk rnd d t new_data (io, s) = (io', s')" "inv s'"
    "io' = set_temp_cookie (''I'' @ sid_for new_data (io_cookie io) rnd) io"
    "\<And>io2. io_cookie io2 = io_temp io' \<Longrightarrow> sid_load st clk' (io2, s') = ((True, d, Some t), io2, s')"
proof -
  let ?k = "sid_for new_data (io_cookie io) rnd"
  obtain s1 where s1: "inv s1" "sid_save st clk rnd d t new_data (io, s)
      = (set_temp_cookie (''I'' @ ?k) io, ss_save st (clk 1) ?k t d s1)"
    using sid_save_eq [OF assms(1)] by metis
  have "ss_load st (clk' 0) ?k (ss_save st (clk 1) ?k t d s1) = Some (t, d)"
    by (rule load_saved [OF s1(1) assms(3,4)])
  then show ?thesis
    using that [OF s1(2) inv_save [OF s1(1)] refl] sid_load_saved [OF _ assms(4)] valid_sid_for [OF assms(2)]
    by (simp add: set_temp_cookie_def)
qed

end

sublocale session_storage_laws \<subseteq> sid: session_api_laws "session_sid st" inv "\<lambda>_ _. True"
proof (unfold_locales, goal_cases)
  case (1 a srv d rnd rnd' t clk clk' new_data io)
  obtain io' s' where r: "sid_save st clk rnd d t new_data (io, a) = (io', s')" "inv s'"
    "\<And>io2. io_cookie io2 = io_temp io' \<Longrightarrow> sid_load st clk' (io2, s') = ((True, d, Some t), io2, s')"
    using sid_save_load [where clk = clk and clk' = clk', OF 1(1,3,7,8)] by blast
  then show ?case by (simp add: session_sid_def)
next
  case (2 a rnd io clk)
  have "io_cookie (fst (snd (sid_load st clk (io, a)))) = io_cookie io
      \<and> io_temp (fst (snd (sid_load st clk (io, a)))) = io_temp io"
    by (simp add: sid_load_def split: option.split prod.split)
  with sid_load_inv [OF 2(1), of clk io] show ?case by (auto simp: session_sid_def prod_eq_iff)
next
  case (3 a rnd clk io d t io' a')
  then show ?case
    by (auto simp: session_sid_def sid_load_def split: option.splits prod.splits if_splits intro: exI [of _ 1])
next
  case (4 a clk io)
  then show ?case using inv_remove by (simp add: session_sid_def sid_clear_def split: option.split)
qed


context encryptor_laws
begin

lemma cookies_save_load:
  assumes "ok e" "length d + 8 < 2 ^ 27" "32 \<le> length rnd" "32 \<le> length rnd'"
    and "- (2 ^ 63) \<le> t" "t < 2 ^ 63" "clk' 0 \<le> t"
  obtains x e' where "cookies_save enc clk rnd d t new_data False (io, e) = Inr (set_temp_cookie (''C'' @ x) io, e')" "ok e'"
    "\<And>io2. io_cookie io2 = ''C'' @ x \<Longrightarrow> \<exists>e2. cookies_load enc clk' rnd' (io2, e') = Inr ((True, d, Some t), io2, e2) \<and> ok e2"
proof -
  let ?p = "time_bytes t @ d"
  have p: "length ?p < 2 ^ 27" using assms(2) by simp
  obtain c e' where c: "enc_encrypt enc rnd ?p e = (Inr c, e')" "ok e'" "length c \<le> length ?p + 64"
    using encrypt_ok [OF assms(1) p assms(3)] by blast
  obtain e2 where e2: "enc_decrypt enc rnd' c e' = (Inr (Some ?p), e2)" "ok e2"
    using decrypt_encrypt [OF assms(1) c(2) p assms(3,4) c(1)] by blast
  have "length c < 2 ^ 30" using c(3) p by simp
  then have "b64_decode (b64_encode c) [] = Some c" by (rule b64_decode_encode)
  then have "cookies_load enc clk' rnd' (io2, e') = Inr ((True, d, Some t), io2, e2)"
    if "io_cookie io2 = ''C'' @ b64_encode c" for io2
    using that e2 assms(5-7) by (simp add: cookies_load_def Let_def time_roundtrip)
  then show ?thesis using that [of "b64_encode c" e'] c(1,2) e2(2) by (simp add: cookies_save_def)
qed

lemma cookies_load_total:
  assumes "ok e" "32 \<le> length rnd" "length (io_cookie io) < 2 ^ 27"
  shows "\<exists>r io' e'. cookies_load enc clk rnd (io, e) = Inr (r, io', e') \<and> ok e' \<and> io_cookie io' = io_cookie io
    \<and> io_temp io' = io_temp io"
proof -
  have clr: "io_cookie (clear_session_cookie io) = io_cookie io" "io_temp (clear_session_cookie io) = io_temp io"
    by (simp_all add: clear_session_cookie_def emit_cookie_def)
  show ?thesis
  proof (cases "b64_decode (drop 1 (io_cookie io)) []")
    case None
    then show ?thesis using assms(1) clr by (auto simp: cookies_load_def Let_def)
  next
    case (Some c)
    have "length c \<le> length (drop 1 (io_cookie io))"
      using Some assms(3) by (intro b64_decode_length) simp_all
    then have "length c < 2 ^ 27" using assms(3) by simp
    then obtain r e' where "enc_decrypt enc rnd c e = (Inr r, e')" "ok e'"
      using decrypt_total [OF assms(1,2)] by blast
    then show ?thesis using assms(1) clr Some
      by (cases r) (auto simp: cookies_load_def Let_def)
  qed
qed

lemma cookies_load_accepts:
  assumes "cookies_load enc clk rnd (io, e) = Inr ((True, d, to), io', e')"
  obtains x c tmp t where "io_cookie io = ''C'' @ x" "b64_decode x [] = Some c" "to = Some t" "clk 0 \<le> t" "io' = io"
    "enc_decrypt enc rnd c e = (Inr (Some tmp), e')" "8 \<le> length tmp" "t = time_of_bytes (take 8 tmp)" "d = drop 8 tmp"
proof -
  obtain x where x: "io_cookie io = ''C'' @ x"
    using assms by (cases "io_cookie io") (auto simp: cookies_load_def Let_def split: if_splits)
  then show ?thesis
    using assms that [OF x]
    by (auto simp: cookies_load_def Let_def split: option.splits prod.splits sum.splits if_splits)
qed

end

sublocale encryptor_laws \<subseteq> cookies: session_api_laws "session_cookies enc" ok
  "\<lambda>srv d. \<not> srv \<and> length d + 8 < 2 ^ 27"
proof (unfold_locales, goal_cases)
  case (1 a srv d rnd rnd' t clk clk' new_data io)
  then have d: "length d + 8 < 2 ^ 27" and srv: "srv = False" by auto
  obtain x e' where r: "cookies_save enc clk rnd d t new_data False (io, a) = Inr (set_temp_cookie (''C'' @ x) io, e')"
    "ok e'" "\<And>io2. io_cookie io2 = ''C'' @ x
      \<Longrightarrow> \<exists>e2. cookies_load enc clk' rnd' (io2, e') = Inr ((True, d, Some t), io2, e2) \<and> ok e2"
    using cookies_save_load [where clk' = clk', OF 1(1) d 1(3,4,5,6) 1(8) [of 0]] by blast
  then show ?case using srv by (auto simp: session_cookies_def set_temp_cookie_def)
next
  case (2 a rnd io clk)
  then show ?case using cookies_load_total [OF 2] by (auto simp: session_cookies_def)
next
  case (3 a rnd clk io d t io' a')
  then have "cookies_load enc clk rnd (io, a) = Inr ((True, d, Some t), io', a')" by (simp add: session_cookies_def)
  then show ?case by (rule cookies_load_accepts) auto
next
  case (4 a clk io)
  then show ?case by (simp add: session_cookies_def cookies_clear_def)
qed

definition dual_inv :: "('e \<Rightarrow> bool) \<Rightarrow> ('s \<Rightarrow> bool) \<Rightarrow> 'e \<times> 's \<Rightarrow> bool" where
  "dual_inv ok sinv a \<longleftrightarrow> ok (fst a) \<and> sinv (snd a)"

text \<open>The dual back end relies on both contracts.\<close>

locale session_dual_laws = encryptor_laws enc ok tag + session_storage_laws st inv
  for enc :: "'e encryptor" and ok tag and st :: "'s session_storage" and inv +
  fixes limit :: nat
begin

lemma dual_save_load:
  assumes "ok e" "inv s" "srv \<or> limit < length d \<or> length d + 8 < 2 ^ 27" "32 \<le> length rnd" "32 \<le> length rnd'"
    and "- (2 ^ 63) \<le> t" "t < 2 ^ 63" "\<And>i j. clk i \<le> clk' j" "\<And>j. clk' j \<le> t"
  shows "\<exists>io' a'. dual_save enc st limit clk rnd d t new_data srv (io, e, s) = Inr (io', a') \<and> dual_inv ok inv a'
     \<and> (\<forall>io2. io_cookie io2 = io_temp io'
          \<longrightarrow> (\<exists>a2. dual_load enc st clk' rnd' (io2, a') = Inr ((True, d, Some t), io2, a2) \<and> dual_inv ok inv a2))"
proof (cases "srv \<or> limit < length d")
  case True
  obtain io' s' where r: "sid_save st clk rnd d t new_data (io, s) = (io', s')" "inv s'"
    "io' = set_temp_cookie (''I'' @ sid_for new_data (io_cookie io) rnd) io"
    "\<And>io2. io_cookie io2 = io_temp io' \<Longrightarrow> sid_load st clk' (io2, s') = ((True, d, Some t), io2, s')"
    using sid_save_load [where clk = clk and clk' = clk', OF assms(2,4,8,9)] by blast
  moreover have "io_temp io' ! 0 = CHR ''I''" using r(3) by (simp add: set_temp_cookie_def)
  ultimately show ?thesis
    using True assms(1) by (auto simp: dual_save_def dual_load_def dual_inv_def Let_def)
next
  case False
  let ?io1 = "fst (if io_cookie io \<noteq> [] \<and> io_cookie io ! 0 = CHR ''I'' then sid_clear st clk (io, s) else (io, s))"
  let ?s1 = "snd (if io_cookie io \<noteq> [] \<and> io_cookie io ! 0 = CHR ''I'' then sid_clear st clk (io, s) else (io, s))"
  have s1: "inv ?s1" using assms(2) inv_remove by (simp add: sid_clear_def split: option.split)
  have d: "length d + 8 < 2 ^ 27" using False assms(3) by simp
  obtain x e' where r: "cookies_save enc (\<lambda>n. clk (Suc n)) rnd d t new_data False (?io1, e) = Inr (set_temp_cookie (''C'' @ x) ?io1, e')"
    "ok e'" "\<And>io2. io_cookie io2 = ''C'' @ x
      \<Longrightarrow> \<exists>e2. cookies_load enc clk' rnd' (io2, e') = Inr ((True, d, Some t), io2, e2) \<and> ok e2"
    using cookies_save_load [where clk' = clk', OF assms(1) d assms(4,5,6,7) assms(9) [of 0]] by blast
  have save: "dual_save enc st limit clk rnd d t new_data srv (io, e, s) = Inr (set_temp_cookie (''C'' @ x) ?io1, e', ?s1)"
    using False r(1)
    by (cases "io_cookie io \<noteq> [] \<and> io_cookie io ! 0 = CHR ''I''") (auto simp: dual_save_def Let_def case_prod_unfold)
  have "\<exists>a2. dual_load enc st clk' rnd' (io2, e', ?s1) = Inr ((True, d, Some t), io2, a2) \<and> dual_inv ok inv a2"
    if "io_cookie io2 = ''C'' @ x" for io2
    using r(3) [OF that] that s1 by (auto simp: dual_load_def dual_inv_def)
  then show ?thesis using save r(2) s1 by (auto simp: dual_inv_def set_temp_cookie_def)
qed

end

sublocale session_dual_laws \<subseteq> dual: session_api_laws "session_dual enc st limit" "dual_inv ok inv"
  "\<lambda>srv d. srv \<or> limit < length d \<or> length d + 8 < 2 ^ 27"
proof (unfold_locales, goal_cases)
  case (1 a srv d rnd rnd' t clk clk' new_data io)
  then have "ok (fst a)" "inv (snd a)" by (simp_all add: dual_inv_def)
  from dual_save_load [where clk = clk and clk' = clk' and new_data = new_data and io = io, OF this 1(2-8)] show ?case by (simp add: session_dual_def)
next
  case (2 a rnd io clk)
  then have a: "ok (fst a)" "inv (snd a)" by (simp_all add: dual_inv_def)
  show ?case
  proof (cases "io_cookie io \<noteq> [] \<and> io_cookie io ! 0 = CHR ''C''")
    case True
    with cookies_load_total [OF a(1) 2(2,3), of clk] a(2) show ?thesis
      by (auto simp: session_dual_def dual_load_def dual_inv_def case_prod_unfold)
  next
    case False
    with sid.load_total [OF a(2) 2(2,3), of clk] a(1) show ?thesis
      by (auto simp: session_dual_def dual_load_def dual_inv_def case_prod_unfold session_sid_def)
  qed
next
  case (3 a rnd clk io d t io' a')
  then have a: "ok (fst a)" "inv (snd a)" by (simp_all add: dual_inv_def)
  show ?case
  proof (cases "io_cookie io \<noteq> [] \<and> io_cookie io ! 0 = CHR ''C''")
    case True
    with 3(3) have "cookies_load enc clk rnd (io, fst a) = Inr ((True, d, Some t), io', fst a')"
      by (auto simp: session_dual_def dual_load_def case_prod_unfold split: sum.splits)
    then show ?thesis by (rule cookies_load_accepts) auto
  next
    case False
    with 3(3) have "sid_load st clk (io, snd a) = ((True, d, Some t), io', snd a')"
      by (auto simp: session_dual_def dual_load_def case_prod_unfold Let_def prod_eq_iff)
    with sid.load_fresh [OF a(2) 3(2), of clk io d t io' "snd a'"] show ?thesis by (simp add: session_sid_def)
  qed
next
  case (4 a clk io)
  then show ?case
    using inv_remove by (auto simp: session_dual_def dual_clear_def dual_inv_def sid_clear_def cookies_clear_def case_prod_unfold Let_def split: option.split)
qed

text \<open>The three back ends on the storages and encryptors of the library.\<close>

interpretation hmac_dual: session_dual_laws "hmac_encryptor (create_by_name lib)" "hmac_ok name k"
  "rfc2104 64 (hash_of_name name) k" memory_storage sm_inv limit
  for lib name k limit
  by unfold_locales

interpretation aes_dual: session_dual_laws "aes_encryptor lib (create_by_name dlib)"
  "aes_ok lib (create_by_name dlib) cname ck mname mk" "rfc2104 64 (hash_of_name mname) mk" memory_storage sm_inv limit
  for lib name k limit
  by unfold_locales

text \<open>The session of the identifier the client sent is gone when a new session is saved.\<close>

lemma sid_old_gone:
  assumes "sm_inv s" "\<And>i j. clk i \<le> clk' j" "sid_save memory_storage clk rnd d t True (io, s) = (io', s')"
    and "io_cookie io \<noteq> io_temp io'" "io_cookie io2 = io_cookie io"
  shows "sid_load memory_storage clk' (io2, s') = ((False, [], None), io2, s')"
proof (cases "valid_sid (io_cookie io)")
  case (Some sid)
  have s': "s' = ss_save memory_storage (clk 1) (get_new_sid rnd) t d (ss_remove memory_storage (clk 0) sid s)"
    "io_temp io' = ''I'' @ get_new_sid rnd" using assms(3) Some by (auto simp: sid_save_def set_temp_cookie_def)
  then have "get_new_sid rnd \<noteq> sid" using assms(4) valid_sid_same [OF Some] by auto
  then have "ss_load memory_storage (clk' 0) sid s' = None"
    using mem_storage.load_saved_other [OF mem_storage.inv_remove [OF assms(1)] assms(2)]
      mem_storage.load_removed [OF assms(1,2)] s'(1) by simp
  with Some assms(5) show ?thesis by (simp add: sid_load_def)
qed (simp add: sid_load_def assms(5))

text \<open>
  Sessions kept on the server survive the request: what \<^verbatim>\<open>session_sid\<close> saves over the memory storage
  is loaded, data and expiry time, by a later request that carries the cookie it set, until the session
  expires.  When the session is new the identifier is a fresh one and the session of the identifier the
  client sent is gone.
\<close>

theorem sid_session_roundtrip:
  assumes "sm_inv s" "32 \<le> length rnd" "\<forall>i j. clk i \<le> clk' j" "\<forall>j. clk' j \<le> t"
    and "sid_save memory_storage clk rnd d t new_data (io, s) = (io', s')" "io_cookie io2 = io_temp io'"
  shows "sid_load memory_storage clk' (io2, s') = ((True, d, Some t), io2, s') \<and> sm_inv s'
    \<and> (new_data \<longrightarrow> io_temp io' = ''I'' @ tohex (take 16 rnd)
        \<and> (io_cookie io \<noteq> io_temp io' \<longrightarrow> fst (fst (sid_load memory_storage clk' (io, s'))) = False))"
proof -
  have le: "\<And>i j. clk i \<le> clk' j" and t: "\<And>j. clk' j \<le> t" using assms(3,4) by auto
  obtain io1 s1 where r: "sid_save memory_storage clk rnd d t new_data (io, s) = (io1, s1)" "sm_inv s1"
    "io1 = set_temp_cookie (''I'' @ sid_for new_data (io_cookie io) rnd) io"
    "\<And>io2. io_cookie io2 = io_temp io1 \<Longrightarrow> sid_load memory_storage clk' (io2, s1) = ((True, d, Some t), io2, s1)"
    using mem_storage.sid_save_load [where clk = clk and clk' = clk', OF assms(1,2) le t] by blast
  then have eq: "io1 = io'" "s1 = s'" using assms(5) by simp_all
  have "fst (fst (sid_load memory_storage clk' (io, s'))) = False" if "new_data" "io_cookie io \<noteq> io_temp io'"
    using sid_old_gone [where clk = clk and clk' = clk', OF assms(1) le _ that(2) refl] assms(5) that(1) by simp
  moreover have "new_data \<longrightarrow> io_temp io' = ''I'' @ tohex (take 16 rnd)"
    using r(3) eq by (simp add: set_temp_cookie_def sid_for_def get_new_sid_def split: option.split)
  ultimately show ?thesis using r(2,4) eq assms(6) by blast
qed

theorem sid_session_roundtrip_witness:
  "\<exists>io' s'. sid_save memory_storage (\<lambda>_. 100) (replicate 32 (ch 7)) ''data'' 200 True
        (\<lparr>io_cookie = [], io_temp = [], io_out = []\<rparr>, session_memory_storage_new) = (io', s')
     \<and> sid_load memory_storage (\<lambda>_. 150) (\<lparr>io_cookie = io_temp io', io_temp = [], io_out = []\<rparr>, s')
        = ((True, ''data'', Some 200), \<lparr>io_cookie = io_temp io', io_temp = [], io_out = []\<rparr>, s')"
proof -
  obtain io' s' where r: "sid_save memory_storage (\<lambda>_. 100) (replicate 32 (ch 7)) ''data'' 200 True
      (\<lparr>io_cookie = [], io_temp = [], io_out = []\<rparr>, session_memory_storage_new) = (io', s')"
    by (cases "sid_save memory_storage (\<lambda>_. 100) (replicate 32 (ch 7)) ''data'' 200 True
      (\<lparr>io_cookie = [], io_temp = [], io_out = []\<rparr>, session_memory_storage_new)")
  moreover have "sid_load memory_storage (\<lambda>_. 150) (\<lparr>io_cookie = io_temp io', io_temp = [], io_out = []\<rparr>, s')
      = ((True, ''data'', Some 200), \<lparr>io_cookie = io_temp io', io_temp = [], io_out = []\<rparr>, s')"
    by (rule sid_session_roundtrip [THEN conjunct1, OF sm_inv_new _ _ _ r]) simp_all
  ultimately show ?thesis by blast
qed

text \<open>What the signing back end makes of a cookie, whatever the client sent.\<close>

definition hmac_cookie_payload :: "string \<Rightarrow> string \<Rightarrow> string \<Rightarrow> string \<Rightarrow> bool" where
  "hmac_cookie_payload name k cookie b \<longleftrightarrow>
     (\<exists>x. cookie = ''C'' @ x \<and> b64_decode x [] = Some (b @ rfc2104 64 (hash_of_name name) k b))"

lemma hmac_cookie_load:
  assumes ok: "hmac_ok name k e" and len: "length (io_cookie io) < 2 ^ 27"
  shows "hmac_cookie_payload name k (io_cookie io) b \<Longrightarrow> 8 \<le> length b \<Longrightarrow> clk 0 \<le> time_of_bytes (take 8 b)
      \<Longrightarrow> cookies_load (hmac_encryptor (create_by_name lib)) clk rnd (io, e)
        = Inr ((True, drop 8 b, Some (time_of_bytes (take 8 b))), io, e)"
    and "\<not> (\<exists>b. hmac_cookie_payload name k (io_cookie io) b \<and> 8 \<le> length b \<and> clk 0 \<le> time_of_bytes (take 8 b))
      \<Longrightarrow> cookies_load (hmac_encryptor (create_by_name lib)) clk rnd (io, e)
        = Inr ((False, [], None), clear_session_cookie io, e)"
proof -
  have e: "enc_decrypt (hmac_encryptor (create_by_name lib)) r p e = (hmac_decrypt (create_by_name lib) e p, e)" for r p
    by (simp add: hmac_encryptor_def)
  have d: "hmac_decrypt (create_by_name lib) e y = Inr (Some b) \<longleftrightarrow> y = b @ rfc2104 64 (hash_of_name name) k b"
    "\<exists>r. hmac_decrypt (create_by_name lib) e y = Inr r"
    if "io_cookie io = ''C'' @ x" "b64_decode x [] = Some y" for x y b
  proof -
    have "length y < 2 ^ 28" using b64_decode_length [OF that(2)] len that(1) by simp
    then show "hmac_decrypt (create_by_name lib) e y = Inr (Some b) \<longleftrightarrow> y = b @ rfc2104 64 (hash_of_name name) k b"
      "\<exists>r. hmac_decrypt (create_by_name lib) e y = Inr r" using hmac_cipher_eq(2,3) [OF ok] by blast+
  qed
  show "cookies_load (hmac_encryptor (create_by_name lib)) clk rnd (io, e)
      = Inr ((True, drop 8 b, Some (time_of_bytes (take 8 b))), io, e)"
    if good: "hmac_cookie_payload name k (io_cookie io) b" "8 \<le> length b" "clk 0 \<le> time_of_bytes (take 8 b)"
  proof -
    obtain x where x: "io_cookie io = ''C'' @ x" "b64_decode x [] = Some (b @ rfc2104 64 (hash_of_name name) k b)"
      using good(1) by (auto simp: hmac_cookie_payload_def)
    with d(1) [OF x, of b] good(2,3) show ?thesis by (simp add: cookies_load_def e Let_def)
  qed
  show "cookies_load (hmac_encryptor (create_by_name lib)) clk rnd (io, e)
      = Inr ((False, [], None), clear_session_cookie io, e)"
    if no: "\<not> (\<exists>b. hmac_cookie_payload name k (io_cookie io) b \<and> 8 \<le> length b \<and> clk 0 \<le> time_of_bytes (take 8 b))"
  proof (cases "io_cookie io")
    case Nil
    then show ?thesis by (simp add: cookies_load_def clear_session_cookie_def)
  next
    case (Cons c x)
    consider "c \<noteq> CHR ''C''" | "b64_decode x [] = None"
      | y where "c = CHR ''C''" "b64_decode x [] = Some y" "hmac_decrypt (create_by_name lib) e y = Inr None"
      | y b where "c = CHR ''C''" "b64_decode x [] = Some y" "hmac_decrypt (create_by_name lib) e y = Inr (Some b)"
      using d(2) [of x] Cons by (cases "b64_decode x []"; force)
    then show ?thesis
    proof cases
      case 4
      then have "hmac_cookie_payload name k (io_cookie io) b"
        using Cons d(1) [of x y b] by (simp add: hmac_cookie_payload_def)
      with no have "length b < 8 \<or> time_of_bytes (take 8 b) < clk 0" by (meson linorder_not_less)
      with 4 Cons show ?thesis by (auto simp: cookies_load_def e Let_def)
    qed (use Cons in \<open>simp_all add: cookies_load_def e Let_def\<close>)
  qed
qed

text \<open>
  C26. A session in the cookie survives the request, and nothing else does: what the signing back end
  saves is loaded by a later request that carries the cookie until it expires; and whatever cookie a
  client sends, it is accepted only if it is the letter C and the base64 text of some data followed by
  its HMAC under the server's key, and has not expired.  Every other cookie is refused without an
  exception and cleared.
\<close>

theorem cookie_session_secure:
  assumes "hmac_cipher_new name k = Inr e" "name \<in> {''md5'', ''MD5'', ''sha1'', ''SHA1''}" "length k < 2 ^ 27"
    and "length d + 8 < 2 ^ 26" "- (2 ^ 63) \<le> t" "t < 2 ^ 63" "length (io_cookie io2) < 2 ^ 27"
    and "enc = hmac_encryptor (create_by_name lib)"
  shows "(\<exists>x. cookies_save enc clk rnd d t new_data False (io, e) = Inr (set_temp_cookie x io, e)
      \<and> (io_cookie io2 = x \<longrightarrow> clk' 0 \<le> t \<longrightarrow> cookies_load enc clk' rnd' (io2, e) = Inr ((True, d, Some t), io2, e)))
    \<and> ((\<exists>b. hmac_cookie_payload name k (io_cookie io2) b \<and> 8 \<le> length b \<and> clk' 0 \<le> time_of_bytes (take 8 b)
            \<and> cookies_load enc clk' rnd' (io2, e) = Inr ((True, drop 8 b, Some (time_of_bytes (take 8 b))), io2, e))
        \<or> cookies_load enc clk' rnd' (io2, e) = Inr ((False, [], None), clear_session_cookie io2, e))"
proof -
  have ok: "hmac_ok name k e" using assms by (simp add: hmac_ok_def)
  let ?p = "time_bytes t @ d"
  let ?c = "?p @ rfc2104 64 (hash_of_name name) k ?p"
  have p: "length ?p < 2 ^ 28" using assms(4) by simp
  have c: "length ?c < 2 ^ 30" using hmac_cipher_eq(4) [OF ok, of ?p] p by simp
  have s: "cookies_save enc clk rnd d t new_data False (io, e) = Inr (set_temp_cookie (''C'' @ b64_encode ?c) io, e)"
    using hmac_cipher_eq(1) [OF ok p, of lib] by (simp add: cookies_save_def assms(8) hmac_encryptor_def)
  have "hmac_cookie_payload name k (''C'' @ b64_encode ?c) ?p"
    using b64_decode_encode [OF c] by (simp add: hmac_cookie_payload_def)
  then have l: "cookies_load enc clk' rnd' (io2, e) = Inr ((True, d, Some t), io2, e)"
    if "io_cookie io2 = ''C'' @ b64_encode ?c" "clk' 0 \<le> t"
    using hmac_cookie_load(1) [OF ok assms(7), of ?p clk' lib rnd'] that assms(5,6,8)
    by (simp add: time_roundtrip)
  show ?thesis
    using s l hmac_cookie_load [OF ok assms(7), where clk = clk' and lib = lib and rnd = rnd'] unfolding assms(8) by blast
qed

theorem cookie_session_secure_witness:
  "let k = replicate 16 (CHR ''k''); e = \<lparr>hc_key = k, hc_hash = ''sha1''\<rparr>;
       enc = hmac_encryptor (create_by_name (\<lambda>_. None :: unit message_digest option));
       io = \<lparr>io_cookie = [], io_temp = [], io_out = []\<rparr>
   in \<exists>x. cookies_save enc (\<lambda>_. 100) [] ''data'' 200 True False (io, e) = Inr (set_temp_cookie x io, e)"
proof -
  let ?k = "replicate 16 (CHR ''k'')" and ?io = "\<lparr>io_cookie = [], io_temp = [], io_out = []\<rparr>"
  show ?thesis
    using cookie_session_secure [of "''sha1''" ?k "\<lparr>hc_key = ?k, hc_hash = ''sha1''\<rparr>" "''data''" 200 ?io
        "hmac_encryptor (create_by_name (\<lambda>_. None :: unit message_digest option))"
        "\<lambda>_. None :: unit message_digest option" "\<lambda>_. 100" "[]" True ?io "\<lambda>_. 100" "[]"]
    by (auto simp: hmac_cipher_new_def Let_def)
qed

text \<open>The first letter of the cookie tells where the dual back end put the session.\<close>

lemma dual_save_letter:
  assumes "dual_save enc st limit clk rnd d t new_data srv (io, e, s) = Inr (io', e', s')"
  shows "io_temp io' \<noteq> [] \<and> io_temp io' ! 0 = (if srv \<or> limit < length d then CHR ''I'' else CHR ''C'')"
proof (cases "srv \<or> limit < length d")
  case True
  then show ?thesis
    using assms by (auto simp: dual_save_def sid_save_def case_prod_unfold Let_def set_temp_cookie_def split: option.splits if_splits)
next
  case False
  then show ?thesis
    using assms
    by (auto simp: dual_save_def cookies_save_def case_prod_unfold Let_def set_temp_cookie_def split: sum.splits)
qed

text \<open>
  The dual back end over the memory storage and the signing encryptor: a save always succeeds
  for sessions below 128 MB, whatever the request's cookie was; the session goes to the server exactly
  when that was asked for or the data exceeds the limit, and the first letter of the cookie records the
  choice; a later request that carries the new cookie loads the session from where it is.
\<close>

theorem dual_session_roundtrip:
  assumes "hmac_cipher_new name k = Inr e" "name \<in> {''md5'', ''MD5'', ''sha1'', ''SHA1''}" "length k < 2 ^ 27"
    and "sm_inv s" "length d + 8 < 2 ^ 27" "32 \<le> length rnd" "32 \<le> length rnd'" "- (2 ^ 63) \<le> t" "t < 2 ^ 63"
    and "\<forall>i j. clk i \<le> clk' j" "\<forall>j. clk' j \<le> t" "enc = hmac_encryptor (create_by_name lib)"
  shows "\<exists>io' a'. dual_save enc memory_storage limit clk rnd d t new_data srv (io, e, s) = Inr (io', a')
    \<and> io_temp io' ! 0 = (if srv \<or> limit < length d then CHR ''I'' else CHR ''C'')
    \<and> (io_cookie io2 = io_temp io' \<longrightarrow> (\<exists>a2. dual_load enc memory_storage clk' rnd' (io2, a') = Inr ((True, d, Some t), io2, a2)))"
proof -
  have ok: "hmac_ok name k e" using assms by (simp add: hmac_ok_def)
  have le: "\<And>i j. clk i \<le> clk' j" "\<And>j. clk' j \<le> t" using assms(10,11) by auto
  have c: "srv \<or> limit < length d \<or> length d + 8 < 2 ^ 27" using assms(5) by simp
  from hmac_dual.dual_save_load [where clk = clk and clk' = clk' and new_data = new_data and io = io and lib = lib,
      OF ok assms(4) c assms(6-9) le]
  obtain io' a' where r: "dual_save enc memory_storage limit clk rnd d t new_data srv (io, e, s) = Inr (io', a')"
    "\<forall>io2. io_cookie io2 = io_temp io'
       \<longrightarrow> (\<exists>a2. dual_load enc memory_storage clk' rnd' (io2, a') = Inr ((True, d, Some t), io2, a2))"
    unfolding assms(12) by blast
  obtain e' s' where a': "a' = (e', s')" by (cases a')
  from dual_save_letter [OF r(1) [unfolded a']] r show ?thesis by blast
qed

theorem dual_session_roundtrip_witness:
  "let k = replicate 16 (CHR ''k''); enc = hmac_encryptor (create_by_name (\<lambda>_. None :: unit message_digest option));
       io = \<lparr>io_cookie = [], io_temp = [], io_out = []\<rparr>
   in \<exists>io' a'. dual_save enc memory_storage 2 (\<lambda>_. 100) (replicate 32 (ch 7)) ''data'' 200 True False
        (io, \<lparr>hc_key = k, hc_hash = ''sha1''\<rparr>, session_memory_storage_new) = Inr (io', a')
     \<and> io_temp io' ! 0 = CHR ''I''"
proof -
  let ?k = "replicate 16 (CHR ''k'')" and ?io = "\<lparr>io_cookie = [], io_temp = [], io_out = []\<rparr>"
  show ?thesis
    using dual_session_roundtrip [of "''sha1''" ?k "\<lparr>hc_key = ?k, hc_hash = ''sha1''\<rparr>" session_memory_storage_new "''data''"
        "replicate 32 (ch 7)" "replicate 32 (ch 7)" 200 "\<lambda>_. 100" "\<lambda>_. 150"
        "hmac_encryptor (create_by_name (\<lambda>_. None :: unit message_digest option))"
        "\<lambda>_. None :: unit message_digest option" 2 True False ?io ?io]
    by (auto simp: hmac_cipher_new_def Let_def sm_inv_new)
qed

end
