(* ===== verification/Decimal.thy ===== *)
theory Decimal
  imports Prelude "HOL-Library.Signed_Division"
begin

text \<open>
  Integers as decimal text: \<^verbatim>\<open>private/todec.h\<close>, the integer branch of \<^verbatim>\<open>private/format_number.h\<close>, and what
  \<^verbatim>\<open>ss >> value\<close> reads back for a 32 bit \<^verbatim>\<open>int\<close> in the classic locale, as the session and
  form code uses it.  Shown here: the text reads back as the number, and fits the buffer
  the code reserves for it.
\<close>

section \<open>Writing\<close>

text \<open>
  The digits the conversion loops write, least significant first.  C++ division truncates, so the
  remainder of a negative number is negative and \<^verbatim>\<open>'0' - (v % 10)\<close> is its digit.
\<close>

function conv_digits :: "int \<Rightarrow> string" where
  "conv_digits v =
     (if v = 0 then []
      else ch (nat (if v < 0 then 48 - v smod 10 else 48 + v smod 10)) # conv_digits (v sdiv 10))"
  by pat_completeness auto
termination
  by (relation "measure (\<lambda>v. nat \<bar>v\<bar>)") (auto simp: signed_divide_int_def sgn_if)

declare conv_digits.simps [simp del]

definition todec :: "int \<Rightarrow> string" where
  "todec v =
     (if v = 0 then ''0''
      else if v < 0 then CHR ''-'' # rev (conv_digits v)
      else rev (conv_digits v))"

text \<open>\<^verbatim>\<open>format_number(v, output, n)\<close>: at most \<open>n - 1\<close> characters.\<close>

definition format_number :: "int \<Rightarrow> nat \<Rightarrow> string" where
  "format_number v n =
     (let begin = (if v < 0 then ''-'' else []);
          buf = (if v = 0 then begin @ ''0'' else begin @ rev (conv_digits v))
      in take (n - 1) buf)"

section \<open>Reading\<close>

definition is_digit :: "char \<Rightarrow> bool" where
  "is_digit c \<longleftrightarrow> 48 \<le> uc c \<and> uc c \<le> 57"

definition is_space :: "char \<Rightarrow> bool" where
  "is_space c \<longleftrightarrow> uc c = 32 \<or> 9 \<le> uc c \<and> uc c \<le> 13"

definition dec_value :: "string \<Rightarrow> nat" where
  "dec_value s = foldl (\<lambda>n c. n * 10 + (uc c - 48)) 0 s"

text \<open>\<^verbatim>\<open>get<int>\<close>: \<open>None\<close> is \<^verbatim>\<open>bad_cast\<close>; the whole text must be used and the value must be an \<^verbatim>\<open>int\<close>.\<close>

definition parse_int :: "string \<Rightarrow> int option" where
  "parse_int s =
     (let s1 = dropWhile is_space s;
          neg = (s1 \<noteq> [] \<and> hd s1 = CHR ''-'');
          s2 = (if s1 \<noteq> [] \<and> (hd s1 = CHR ''-'' \<or> hd s1 = CHR ''+'') then tl s1 else s1)
      in if s2 = [] \<or> \<not> list_all is_digit s2 then None
         else
           (let v = (if neg then - int (dec_value s2) else int (dec_value s2))
            in if - (2 ^ 31) \<le> v \<and> v < 2 ^ 31 then Some v else None))"

section \<open>Correctness\<close>

fun nat_digits :: "nat \<Rightarrow> string" where
  "nat_digits n = (if n = 0 then [] else ch (48 + n mod 10) # nat_digits (n div 10))"

declare nat_digits.simps [simp del]

lemma conv_digits_nat: "conv_digits v = nat_digits (nat \<bar>v\<bar>)"
proof (induction v rule: conv_digits.induct)
  case (1 v)
  show ?case
  proof (cases "v = 0")
    case False
    have q: "nat \<bar>v sdiv 10\<bar> = nat \<bar>v\<bar> div 10"
      by (simp add: signed_divide_int_def sgn_if nat_div_distrib)
    have "nat (if v < 0 then 48 - v smod 10 else 48 + v smod 10) = 48 + nat \<bar>v\<bar> mod 10"
      using nat_mod_distrib [of v 10] nat_mod_distrib [of "- v" 10]
      by (cases "v < 0") (simp_all add: signed_modulo_int_def sgn_if nat_add_distrib)
    with False "1.IH" q show ?thesis
      by (simp add: conv_digits.simps [of v] nat_digits.simps [of "nat \<bar>v\<bar>"])
  qed (simp add: conv_digits.simps nat_digits.simps)
qed

lemma nat_digits_0 [simp]: "nat_digits 0 = []"
  by (simp add: nat_digits.simps)

lemma nat_digits_digit: "c \<in> set (nat_digits n) \<Longrightarrow> is_digit c"
proof (induction n rule: nat_digits.induct)
  case (1 n)
  have "48 + n mod 10 < 256" by (simp add: less_trans [OF mod_less_divisor])
  then have "is_digit (ch (48 + n mod 10))"
    by (simp add: is_digit_def)
  with 1 show ?case by (cases "n = 0") (auto simp: nat_digits.simps [of n])
qed

lemma dec_value_snoc: "dec_value (s @ [c]) = dec_value s * 10 + (uc c - 48)"
  by (simp add: dec_value_def)

lemma dec_value_nat_digits: "dec_value (rev (nat_digits n)) = n"
proof (induction n rule: nat_digits.induct)
  case (1 n)
  have "48 + n mod 10 < 256" by (simp add: less_trans [OF mod_less_divisor])
  with 1 show ?case by (cases "n = 0") (simp_all add: dec_value_def nat_digits.simps [of n])
qed

lemma nat_digits_length: "n < 10 ^ d \<Longrightarrow> length (nat_digits n) \<le> d"
proof (induction d arbitrary: n)
  case (Suc d)
  then have "n div 10 < 10 ^ d" by (simp add: div_less_iff_less_mult mult.commute)
  with Suc.IH show ?case by (cases "n = 0") (auto simp: nat_digits.simps [of n])
qed simp

lemma nat_digits_Nil: "nat_digits n = [] \<longleftrightarrow> n = 0"
  by (simp add: nat_digits.simps)

lemma digit_not_sign: "is_digit c \<Longrightarrow> \<not> is_space c \<and> c \<noteq> CHR ''-'' \<and> c \<noteq> CHR ''+''"
  by (auto simp: is_digit_def is_space_def uc_def)

lemma todec_digits: "todec v = (if v < 0 then ''-'' else []) @ (if v = 0 then ''0'' else rev (nat_digits (nat \<bar>v\<bar>)))"
  by (simp add: todec_def conv_digits_nat)

lemma parse_todec:
  assumes "- (2 ^ 31) \<le> v" "v < 2 ^ 31"
  shows "parse_int (todec v) = Some v"
proof (cases "v = 0")
  case True
  have "parse_int ''0'' = Some 0" by code_simp
  with True show ?thesis by (simp add: todec_def)
next
  case False
  define ds where "ds = rev (nat_digits (nat \<bar>v\<bar>))"
  have d: "ds \<noteq> []" "list_all is_digit ds"
    using False by (auto simp: ds_def nat_digits_Nil list_all_iff nat_digits_digit)
  have val: "int (dec_value ds) = \<bar>v\<bar>" by (simp add: ds_def dec_value_nat_digits)
  have t: "todec v = (if v < 0 then CHR ''-'' # ds else ds)" using False by (simp add: todec_digits ds_def)
  have "is_digit (hd ds)" using d by (cases ds) auto
  note h = digit_not_sign [OF this]
  have sp: "dropWhile is_space (todec v) = todec v"
    using d(1) h by (cases ds) (auto simp: t is_space_def uc_def)
  show ?thesis
    unfolding parse_int_def sp unfolding t using d h val assms by (cases "v < 0") (simp_all add: Let_def)
qed

text \<open>
  Integers as text: the text \<^verbatim>\<open>todec\<close> writes reads back as the number, for every \<^verbatim>\<open>int\<close>; with the
  terminating zero it fits the buffer of \<^verbatim>\<open>digits10 + 4\<close> bytes for every integer type, and
  \<^verbatim>\<open>format_number\<close> writes the same text when its output has room for it.
\<close>

theorem todec_correct:
  assumes "- (2 ^ 31) \<le> v" "v < 2 ^ 31" "\<bar>w\<bar> < 10 ^ (digits10 + 1)" "digits10 + 4 \<le> n"
  shows "parse_int (todec v) = Some v \<and> length (todec w) + 1 \<le> digits10 + 4 \<and> format_number w n = todec w"
proof -
  have "nat \<bar>w\<bar> < 10 ^ (digits10 + 1)" using assms(3) by (simp add: nat_less_iff)
  from nat_digits_length [OF this] have l: "length (todec w) + 1 \<le> digits10 + 4"
    unfolding todec_digits by (cases "w = 0"; cases "w < 0") simp_all
  then have "format_number w n = todec w"
    using assms(4) by (cases "w = 0"; cases "w < 0") (simp_all add: format_number_def todec_def Let_def)
  with l parse_todec [OF assms(1,2)] show ?thesis by blast
qed

theorem todec_correct_witness:
  "parse_int (todec (-2147483648)) = Some (-2147483648) \<and> length (todec (-9223372036854775808)) + 1 \<le> (22::nat)"
  using todec_correct [of "-2147483648" "-9223372036854775808" 18 22] by simp

end
