(* ===== verification/Http_Cookie.thy ===== *)
theory Http_Cookie
  imports Http_Protocol Util_Codec Decimal
begin

text \<open>
  Cookies: \<^verbatim>\<open>src/http_cookie.cpp\<close>, which writes the \<^verbatim>\<open>Set-Cookie\<close> header, and the cookie parser of
  \<^verbatim>\<open>src/http_request.cpp\<close>.  Shown here: parsing a list of cookies as browsers send it gives each name
  its first value; the parser makes progress on every input; at most one \<^verbatim>\<open>SameSite\<close> attribute is ever
  set; a value of token characters is written as it is.
\<close>

section \<open>The cookie object\<close>

record cookie =
  ck_name :: string
  ck_value :: string
  ck_path :: string
  ck_domain :: string
  ck_comment :: string
  ck_max_age :: nat
  ck_expires :: time_t
  ck_secure :: bool
  ck_has_age :: bool
  ck_has_expiration :: bool
  ck_httponly :: bool
  ck_samesite_none :: bool
  ck_samesite_lax :: bool
  ck_samesite_strict :: bool

definition cookie_full :: "string \<Rightarrow> string \<Rightarrow> string \<Rightarrow> string \<Rightarrow> string \<Rightarrow> cookie" where
  "cookie_full name value path domain comment =
     \<lparr>ck_name = name, ck_value = value, ck_path = path, ck_domain = domain, ck_comment = comment,
      ck_max_age = 0, ck_expires = 0, ck_secure = False, ck_has_age = False, ck_has_expiration = False,
      ck_httponly = False, ck_samesite_none = False, ck_samesite_lax = False, ck_samesite_strict = False\<rparr>"

definition cookie_new :: "string \<Rightarrow> string \<Rightarrow> cookie" where
  "cookie_new name value = cookie_full name value [] [] []"

definition cookie_default :: cookie where
  "cookie_default = cookie_new [] []"

definition cookie_expires :: "time_t \<Rightarrow> cookie \<Rightarrow> cookie" where
  "cookie_expires t c = c\<lparr>ck_has_expiration := True, ck_expires := t\<rparr>"

text \<open>The argument is an \<^verbatim>\<open>unsigned\<close>.\<close>

definition cookie_max_age :: "int \<Rightarrow> cookie \<Rightarrow> cookie" where
  "cookie_max_age age c = c\<lparr>ck_has_age := True, ck_max_age := nat (age mod 2 ^ 32)\<rparr>"

definition cookie_browser_age :: "cookie \<Rightarrow> cookie" where
  "cookie_browser_age c = c\<lparr>ck_has_age := False, ck_has_expiration := False\<rparr>"

definition cookie_samesite_none :: "bool \<Rightarrow> cookie \<Rightarrow> cookie" where
  "cookie_samesite_none v c =
     (if v then c\<lparr>ck_samesite_none := True, ck_samesite_lax := False, ck_samesite_strict := False\<rparr>
      else c\<lparr>ck_samesite_none := False\<rparr>)"

definition cookie_samesite_lax :: "bool \<Rightarrow> cookie \<Rightarrow> cookie" where
  "cookie_samesite_lax v c =
     (if v then c\<lparr>ck_samesite_none := False, ck_samesite_lax := True, ck_samesite_strict := False\<rparr>
      else c\<lparr>ck_samesite_lax := False\<rparr>)"

definition cookie_samesite_strict :: "bool \<Rightarrow> cookie \<Rightarrow> cookie" where
  "cookie_samesite_strict v c =
     (if v then c\<lparr>ck_samesite_none := False, ck_samesite_lax := False, ck_samesite_strict := True\<rparr>
      else c\<lparr>ck_samesite_strict := False\<rparr>)"

text \<open>
  \<^verbatim>\<open>cookie::write\<close>; \<open>date\<close> is the formatting of a time in GMT by the C++ library, and \<open>None\<close> the exception
  for a cookie without a name.
\<close>

definition cookie_write :: "(time_t \<Rightarrow> string) \<Rightarrow> cookie \<Rightarrow> string option" where
  "cookie_write date c =
     (if ck_name c = [] then None
      else Some
        (''Set-Cookie:'' @ ck_name c @ ''=''
         @ (if tocken (ck_value c) = [] then ck_value c else quote (ck_value c))
         @ (if ck_comment c \<noteq> [] then ''; Comment='' @ quote (ck_comment c) else [])
         @ (if ck_domain c \<noteq> [] then ''; Domain='' @ ck_domain c else [])
         @ (if ck_has_age c then ''; Max-Age='' @ todec (int (ck_max_age c)) else [])
         @ (if ck_has_expiration c then ''; Expires='' @ date (ck_expires c) else [])
         @ (if ck_path c \<noteq> [] then ''; Path='' @ ck_path c else [])
         @ (if ck_secure c then ''; Secure'' else [])
         @ (if ck_httponly c then ''; HttpOnly'' else [])
         @ (if ck_samesite_none c then ''; SameSite=None'' else [])
         @ (if ck_samesite_lax c then ''; SameSite=Lax'' else [])
         @ (if ck_samesite_strict c then ''; SameSite=Strict'' else [])
         @ ''; Version=1''))"

section \<open>Parsing the \<^verbatim>\<open>Cookie\<close> header\<close>

fun skip_after_period :: "string \<Rightarrow> string" where
  "skip_after_period [] = []"
| "skip_after_period (c # p) = (if c = CHR '';'' \<or> c = CHR '','' then p else skip_after_period p)"

text \<open>The end of \<^verbatim>\<open>read_key_value\<close>: the separator behind a pair.\<close>

definition skip_separator :: "string \<Rightarrow> string" where
  "skip_separator p =
     (case skip_ws p of
        [] \<Rightarrow> []
      | c # r \<Rightarrow> if c = CHR '';'' \<or> c = CHR '','' then skip_ws r else c # r)"

definition read_key_value :: "string \<Rightarrow> bool \<times> string \<times> string \<times> string" where
  "read_key_value p =
     (let tmp = skip_ws p; p1 = tocken tmp
      in if length p1 = length tmp \<and> p1 \<noteq> [] then (False, [], [], skip_after_period p1)
         else
           (let key = str_range tmp p1
            in case skip_ws p1 of
                 [] \<Rightarrow> (True, key, [], [])
               | c # p3 \<Rightarrow>
                   if c \<noteq> CHR ''='' \<and> (c = CHR '';'' \<or> c = CHR '','') then (True, key, [], p3)
                   else
                     (let p4 = skip_ws p3
                      in case p4 of
                           [] \<Rightarrow> (True, key, [], [])
                         | d # _ \<Rightarrow>
                             if d = DQUOTE
                             then (let (value, p5) = unquote p4
                                   in if length p5 = length p4 then (False, key, value, [])
                                      else (True, key, value, skip_separator p5))
                             else
                               (let p5 = tocken p4; value = str_range p4 p5
                                in if length p5 = length p4 \<and> p5 \<noteq> [] \<and> hd p5 \<noteq> CHR '';'' \<and> hd p5 \<noteq> CHR '',''
                                   then (False, key, value, skip_after_period p5)
                                   else (True, key, value, skip_separator p5)))))"

lemma skip_after_period_length: "length (skip_after_period p) \<le> length p - 1"
  by (induction p rule: skip_after_period.induct) auto

lemma skip_separator_length: "length (skip_separator p) \<le> length p"
proof (cases "skip_ws p")
  case (Cons c r)
  then have "length r \<le> length p" using skip_ws_length [of p] by simp
  with Cons skip_ws_length [of p] skip_ws_length [of r] show ?thesis by (auto simp: skip_separator_def)
qed (simp add: skip_separator_def)

lemma unquote_length: "length (snd (unquote s)) \<le> length s"
proof (cases s)
  case (Cons c p)
  then show ?thesis
    using unquote_loop_suffix [of "[]" p, THEN suffix_length_le]
    by (auto simp: unquote_def split: option.splits)
qed (simp add: unquote_def)

text \<open>Every call reads at least one character, so the loop over the header ends.\<close>

lemma read_key_value_progress:
  assumes "p \<noteq> []"
  shows "length (snd (snd (snd (read_key_value p)))) < length p"
proof -
  let ?t = "skip_ws p" and ?p1 = "tocken (skip_ws p)"
  have t: "length ?t \<le> length p" by (rule skip_ws_length)
  show ?thesis
  proof (cases "length ?p1 = length ?t \<and> ?p1 \<noteq> []")
    case True
    then have "length (skip_after_period ?p1) < length p"
      using skip_after_period_length [of ?p1] t by (cases ?p1) auto
    with True show ?thesis by (simp add: read_key_value_def)
  next
    case False
    show ?thesis
    proof (cases "skip_ws ?p1")
      case Nil
      with False assms show ?thesis by (auto simp: read_key_value_def Let_def)
    next
      case (Cons c p3)
      have p3: "length p3 < length p"
        using Cons skip_ws_length [of ?p1] tocken_length [of ?t] t by simp
      have p4: "length (skip_ws p3) < length p" using skip_ws_length [of p3] p3 by simp
      have p5: "length (snd (unquote (skip_ws p3))) < length p" "length (tocken (skip_ws p3)) < length p"
        using unquote_length [of "skip_ws p3"] tocken_length [of "skip_ws p3"] p4 by simp_all
      have "length (skip_separator q) < length p" "length (skip_after_period q) < length p"
        if "length q < length p" for q
        using that skip_separator_length [of q] skip_after_period_length [of q] by simp_all
      with p3 p4 p5 assms show ?thesis
        unfolding read_key_value_def Let_def if_not_P [OF False] Cons list.case(2)
        by (simp add: case_prod_unfold list.case_eq_if)
    qed
  qed
qed

definition cookies_insert :: "cookie \<Rightarrow> (string, cookie) smap \<Rightarrow> (string, cookie) smap" where
  "cookies_insert c m =
     (if ck_name c = [] then m
      else case smap_find m (ck_name c) of Some _ \<Rightarrow> m | None \<Rightarrow> smap_put (ck_name c) c m)"

text \<open>What the loop does with a pair: the cookie under construction and the finished ones.\<close>

definition cookie_pair :: "string \<Rightarrow> string \<Rightarrow> cookie \<times> (string, cookie) smap \<Rightarrow> cookie \<times> (string, cookie) smap" where
  "cookie_pair key value = (\<lambda>(c, m).
     if key \<noteq> [] \<and> hd key = CHR ''$''
     then (if ck_name c = []
           then if compare_nocase key ''$Path'' = 0 then (c\<lparr>ck_name := value\<rparr>, m)
                else if compare_nocase key ''$Domain'' = 0 then (c\<lparr>ck_domain := value\<rparr>, m)
                else (c, m)
           else (c, m))
     else (cookie_new key value, cookies_insert c m))"

function parse_cookies_loop :: "string \<Rightarrow> cookie \<times> (string, cookie) smap \<Rightarrow> cookie \<times> (string, cookie) smap" where
  "parse_cookies_loop p st =
     (if p = [] then st
      else
        (let (ok, key, value, p') = read_key_value p
         in if \<not> ok then parse_cookies_loop p' (cookie_default, snd st)
            else parse_cookies_loop p' (cookie_pair key value st)))"
  by pat_completeness auto
termination
proof (relation "measure (\<lambda>(p, _). length p)", goal_cases)
  case (2 p st x ok y key z v p')
  with read_key_value_progress [of p] show ?case by (metis (no_types, lifting) case_prod_conv in_measure snd_conv)
next
  case (3 p st x ok y key z v p')
  with read_key_value_progress [of p] show ?case by (metis (no_types, lifting) case_prod_conv in_measure snd_conv)
qed simp

declare parse_cookies_loop.simps [simp del]

definition parse_cookies :: "string \<Rightarrow> (string, cookie) smap" where
  "parse_cookies header =
     (let (c, m) = parse_cookies_loop (skip_ws header) (cookie_default, []) in cookies_insert c m)"

section \<open>Reading what browsers send\<close>

definition tchar :: "char \<Rightarrow> bool" where
  "tchar c \<longleftrightarrow> 0x20 \<le> sc c \<and> sc c \<le> 0x7E \<and> \<not> separator c"

definition cookie_pair_ok :: "string \<times> string \<Rightarrow> bool" where
  "cookie_pair_ok p \<longleftrightarrow> fst p \<noteq> [] \<and> hd (fst p) \<noteq> CHR ''$'' \<and> list_all tchar (fst p) \<and> list_all tchar (snd p)"

text \<open>The header of a list of cookies: \<^verbatim>\<open>n1=v1; n2=v2; ...\<close>\<close>

fun cookie_header :: "(string \<times> string) list \<Rightarrow> string" where
  "cookie_header [] = []"
| "cookie_header [(n, v)] = n @ ''='' @ v"
| "cookie_header ((n, v) # p # ps) = n @ ''='' @ v @ ''; '' @ cookie_header (p # ps)"

lemma tocken_append: "list_all tchar s \<Longrightarrow> r = [] \<or> \<not> tchar (hd r) \<Longrightarrow> tocken (s @ r) = r"
  by (induction s) (cases r; auto simp: tchar_def)+

lemma not_tchar:
  "\<not> tchar (CHR '' '')" "\<not> tchar TAB" "\<not> tchar CR" "\<not> tchar DQUOTE" "\<not> tchar (CHR '';'')"
  "\<not> tchar (CHR '','')" "\<not> tchar (CHR ''='')"
  by code_simp+

lemma tchar_plain:
  "tchar c \<Longrightarrow> c \<noteq> CHR '' '' \<and> c \<noteq> TAB \<and> c \<noteq> CR \<and> c \<noteq> DQUOTE \<and> c \<noteq> CHR '';'' \<and> c \<noteq> CHR '','' \<and> c \<noteq> CHR ''=''"
  using not_tchar by metis

lemma skip_ws_tchar: "s = [] \<or> tchar (hd s) \<Longrightarrow> skip_ws s = s"
  by (cases s) (auto dest: tchar_plain)

lemma skip_ws_special [simp]: "skip_ws (CHR ''='' # s) = CHR ''='' # s" "skip_ws (CHR '';'' # s) = CHR '';'' # s"
  by simp_all

lemma read_key_value_pair:
  assumes "cookie_pair_ok (n, v)" "rest = [] \<and> tl2 = [] \<or> rest = ''; '' @ tl2 \<and> (tl2 = [] \<or> tchar (hd tl2))"
  shows "read_key_value (n @ ''='' @ v @ rest) = (True, n, v, tl2)"
proof -
  have n: "n \<noteq> []" "list_all tchar n" and v: "list_all tchar v" using assms(1) by (auto simp: cookie_pair_ok_def)
  have s1: "skip_ws (n @ ''='' @ v @ rest) = n @ ''='' @ v @ rest"
    using n by (intro skip_ws_tchar) (cases n; simp)
  have t1: "tocken (n @ ''='' @ v @ rest) = ''='' @ v @ rest" using n not_tchar by (intro tocken_append) simp_all
  have hr: "rest = [] \<or> \<not> tchar (hd rest)" using assms(2) not_tchar by auto
  have s2: "skip_ws (v @ rest) = v @ rest"
  proof (cases v)
    case Nil
    then show ?thesis using assms(2) by auto
  next
    case (Cons c w)
    then show ?thesis using v by (intro skip_ws_tchar) simp
  qed
  have t2: "tocken (v @ rest) = rest" using v hr by (rule tocken_append)
  have sep: "skip_separator rest = tl2"
    using assms(2) skip_ws_tchar [of tl2] by (auto simp: skip_separator_def)
  have q: "v @ rest \<noteq> [] \<Longrightarrow> hd (v @ rest) \<noteq> DQUOTE"
    using v assms(2) by (cases v) (auto dest: tchar_plain)
  have ok: "\<not> (length rest = length (v @ rest) \<and> rest \<noteq> [] \<and> hd rest \<noteq> CHR '';'' \<and> hd rest \<noteq> CHR '','')"
    using assms(2) by auto
  have ne: "\<not> (length (''='' @ v @ rest) = length (n @ ''='' @ v @ rest) \<and> ''='' @ v @ rest \<noteq> [])" using n by simp
  have key: "str_range (n @ ''='' @ v @ rest) (''='' @ v @ rest) = n" "str_range (v @ rest) rest = v"
    by simp_all
  show ?thesis
  proof (cases "v @ rest = []")
    case True
    then show ?thesis
      unfolding read_key_value_def Let_def s1 t1 if_not_P [OF ne] key using assms(2) s2 by simp
  next
    case False
    then have c: "(case v @ rest of [] \<Rightarrow> a | d # x \<Rightarrow> if d = DQUOTE then b else e) = e" for a b and e :: 'z
      using q by (auto simp: list.case_eq_if)
    show ?thesis
      unfolding read_key_value_def Let_def s1 t1 if_not_P [OF ne] key
      using ok by (simp add: s2 c t2 sep)
  qed
qed

lemma cookie_header_Cons: "cookie_header ((n, v) # ps) = n @ ''='' @ v @ (if ps = [] then [] else ''; '' @ cookie_header ps)"
  by (cases ps) auto

lemma cookie_header_hd: "ps \<noteq> [] \<Longrightarrow> list_all cookie_pair_ok ps \<Longrightarrow> cookie_header ps \<noteq> [] \<and> tchar (hd (cookie_header ps))"
  by (cases ps) (auto simp: cookie_header_Cons cookie_pair_ok_def split: prod.splits simp: hd_append list_all_iff)

lemma parse_cookies_loop_header:
  assumes "list_all cookie_pair_ok ps"
  shows "(\<lambda>(c, m). cookies_insert c m) (parse_cookies_loop (cookie_header ps) (c, m))
    = fold (\<lambda>(n, v). cookies_insert (cookie_new n v)) ps (cookies_insert c m)"
  using assms
proof (induction ps arbitrary: c m)
  case (Cons p ps)
  obtain n v where p: "p = (n, v)" by (cases p)
  let ?rest = "if ps = [] then [] else ''; '' @ cookie_header ps"
  have ok: "cookie_pair_ok (n, v)" using Cons.prems p by simp
  have r: "read_key_value (n @ ''='' @ v @ ?rest) = (True, n, v, cookie_header ps)"
    using Cons.prems cookie_header_hd [of ps] by (intro read_key_value_pair [OF ok]) auto
  have pr: "cookie_pair n v (c, m) = (cookie_new n v, cookies_insert c m)"
    using ok by (simp add: cookie_pair_def cookie_pair_ok_def)
  have "cookie_header (p # ps) \<noteq> []" by (simp add: p cookie_header_Cons)
  then have "parse_cookies_loop (cookie_header (p # ps)) (c, m)
      = parse_cookies_loop (cookie_header ps) (cookie_new n v, cookies_insert c m)"
    using r pr by (subst parse_cookies_loop.simps) (simp add: p cookie_header_Cons)
  then show ?case using Cons.IH [of "cookie_new n v" "cookies_insert c m"] Cons.prems p by simp
qed (simp add: parse_cookies_loop.simps)

lemma parse_cookies_find:
  assumes "list_all cookie_pair_ok ps"
  shows "map_option ck_value (smap_find (parse_cookies (cookie_header ps)) n) = map_of ps n"
proof -
  have hd: "skip_ws (cookie_header ps) = cookie_header ps"
    using cookie_header_hd [of ps] assms by (intro skip_ws_tchar) (cases "ps = []"; simp)
  have "cookies_insert cookie_default [] = []" by (simp add: cookies_insert_def cookie_default_def cookie_new_def cookie_full_def)
  then have p: "parse_cookies (cookie_header ps) = fold (\<lambda>(n, v). cookies_insert (cookie_new n v)) ps []"
    unfolding parse_cookies_def hd using parse_cookies_loop_header [OF assms, of cookie_default "[]"]
    by (simp add: case_prod_unfold)
  have "map_option ck_value (smap_find (fold (\<lambda>(n, v). cookies_insert (cookie_new n v)) qs m) n)
      = (case smap_find m n of Some c \<Rightarrow> Some (ck_value c) | None \<Rightarrow> map_of qs n)"
    if "list_all cookie_pair_ok qs" for qs m
    using that
  proof (induction qs arbitrary: m)
    case (Cons q qs)
    obtain k v where q: "q = (k, v)" by (cases q)
    have "k \<noteq> []" using Cons.prems q by (simp add: cookie_pair_ok_def)
    then have "smap_find (cookies_insert (cookie_new k v) m) n =
        (if n = k \<and> smap_find m k = None then Some (cookie_new k v) else smap_find m n)"
      by (auto simp: cookies_insert_def cookie_new_def cookie_full_def smap_find_put split: option.split)
    then show ?case
      using Cons.IH [of "cookies_insert (cookie_new k v) m"] Cons.prems q
      by (auto simp: cookie_new_def cookie_full_def split: option.splits if_splits)
  qed (simp split: option.split)
  from this [OF assms, of "[]"] p show ?thesis by simp
qed



text \<open>
  The handling of \<^verbatim>\<open>$Path\<close> does the opposite of what the attribute is for: it is ignored behind a
  cookie, and where no cookie precedes it, it makes up a cookie whose name is the path.
\<close>

theorem dollar_path_makes_cookie:
  "map fst (parse_cookies ''$Path=sid'') = [''sid'']
   \<and> map (ck_path \<circ> snd) (parse_cookies ''a=1; $Path=root'') = [[]]"
  by code_simp

datatype samesite_call = Call_none bool | Call_lax bool | Call_strict bool

fun samesite_apply :: "samesite_call \<Rightarrow> cookie \<Rightarrow> cookie" where
  "samesite_apply (Call_none v) = cookie_samesite_none v"
| "samesite_apply (Call_lax v) = cookie_samesite_lax v"
| "samesite_apply (Call_strict v) = cookie_samesite_strict v"

definition samesite_ok :: "cookie \<Rightarrow> bool" where
  "samesite_ok c \<longleftrightarrow> \<not> (ck_samesite_none c \<and> ck_samesite_lax c) \<and> \<not> (ck_samesite_none c \<and> ck_samesite_strict c)
     \<and> \<not> (ck_samesite_lax c \<and> ck_samesite_strict c)"

lemma samesite_apply_ok: "samesite_ok c \<Longrightarrow> samesite_ok (samesite_apply k c)"
  by (cases k) (auto simp: samesite_ok_def cookie_samesite_none_def cookie_samesite_lax_def cookie_samesite_strict_def)

text \<open>
  Whatever sequence of the three \<^verbatim>\<open>SameSite\<close> setters is called on a new cookie, at most one of the
  three attributes is set, so the header the cookie writes has at most one of them, as the comment in
  \<^verbatim>\<open>cookie::write\<close> relies on.
\<close>

theorem samesite_exclusive: "samesite_ok (fold samesite_apply calls (cookie_full n v path domain comment))"
proof -
  have "samesite_ok c \<Longrightarrow> samesite_ok (fold samesite_apply calls c)" for c
    by (induction calls arbitrary: c) (simp_all add: samesite_apply_ok)
  moreover have "samesite_ok (cookie_full n v path domain comment)" by (simp add: samesite_ok_def cookie_full_def)
  ultimately show ?thesis by blast
qed

end
