(* ===== verification/Session_Interface.thy ===== *)
theory Session_Interface
  imports Session_Api Http_Cookie
begin

text \<open>
  \<^verbatim>\<open>src/session_interface.cpp\<close>: the session object of a request.  It holds the session's keys and values,
  packs them into the byte string the back ends keep, decides when a session is new, when it has to be
  saved again and for how long it lives, mirrors exposed values in cookies, and checks the origin of
  requests.
\<close>

section \<open>Session data\<close>

record entry =
  ent_value :: string
  ent_exposed :: bool

type_synonym data_type = "(string, entry) smap"

definition entry_new :: entry where
  "entry_new = \<lparr>ent_value = [], ent_exposed = False\<rparr>"

text \<open>
  \<^verbatim>\<open>struct packed\<close>: ten bits of key size, one bit for exposed, twenty-one bits of data size in one 32 bit
  word, the first field in the low bits, little-endian in memory.
\<close>

definition pack_header :: "nat \<Rightarrow> bool \<Rightarrow> nat \<Rightarrow> session_error + string" where
  "pack_header ks exp ds =
     (if ks mod 2 ^ 32 \<ge> 1024 then Inl Key_too_long
      else if ds mod 2 ^ 32 \<ge> 1024 * 1024 * 2 then Inl Value_too_long
      else Inr (le_bytes 4 (ks mod 2 ^ 32 + (if exp then 1024 else 0) + 2048 * (ds mod 2 ^ 32))))"

definition unpack_header :: "string \<Rightarrow> nat \<times> bool \<times> nat" where
  "unpack_header h = (let w = from_le h in (w mod 1024, odd (w div 1024), w div 2048))"

fun save_data :: "data_type \<Rightarrow> session_error + string" where
  "save_data [] = Inr []"
| "save_data ((k, e) # m) =
     (case pack_header (length k) (ent_exposed e) (length (ent_value e)) of
        Inl err \<Rightarrow> Inl err
      | Inr h \<Rightarrow>
          (case save_data m of
             Inl err \<Rightarrow> Inl err
           | Inr s \<Rightarrow> Inr (h @ k @ ent_value e @ s)))"

text \<open>The entries read before an error stay in \<^verbatim>\<open>data\<close>.\<close>

function load_data_loop :: "string \<Rightarrow> data_type \<Rightarrow> session_error option \<times> data_type" where
  "load_data_loop s data =
     (if s = [] then (None, data)
      else if length s < 4 then (Some Format_violation_pack, data)
      else
        (let (ks, exp, ds) = unpack_header (take 4 s);
             r = drop 4 s
         in if length r \<ge> ks + ds
            then load_data_loop (drop (ks + ds) r)
                   (smap_put (take ks r) \<lparr>ent_value = take ds (drop ks r), ent_exposed = exp\<rparr> data)
            else (Some Format_violation_data, data)))"
  by pat_completeness auto
termination by (relation "measure (\<lambda>(s, _). length s)") auto

declare load_data_loop.simps [simp del]

definition load_data :: "string \<Rightarrow> session_error option \<times> data_type" where
  "load_data s = load_data_loop s []"

definition data_ok :: "data_type \<Rightarrow> bool" where
  "data_ok m \<longleftrightarrow> smap_ok m \<and> (\<forall>(k, e) \<in> set m. length k < 1024 \<and> length (ent_value e) < 2 ^ 21)"

lemma unpack_pack:
  assumes "ks < 1024" "ds < 2 ^ 21"
  obtains h where "pack_header ks exp ds = Inr h" "length h = 4" "unpack_header h = (ks, exp, ds)"
proof -
  let ?w = "ks + (if exp then 1024 else 0) + 2048 * ds"
  have w: "?w < 2 ^ (8 * 4)" using assms by auto
  have m: "ks mod 2 ^ 32 = ks" "ds mod 2 ^ 32 = ds" using assms by simp_all
  have "from_le (le_bytes 4 ?w) = ?w" using w by (rule from_le_bytes_small)
  moreover have "?w mod 1024 = ks" using assms(1) mod_mult_self2 [of "ks + (if exp then 1024 else 0)" 1024 "2 * ds"] by auto
  moreover have "?w div 1024 = (if exp then 1 else 0) + 2 * ds"
    using assms(1) div_mult_self2 [of 1024 "ks + (if exp then 1024 else 0)" "2 * ds"] by auto
  moreover have "?w div 2048 = ds"
    using assms(1) div_mult_self2 [of 2048 "ks + (if exp then 1024 else 0)" ds] by auto
  ultimately have "unpack_header (le_bytes 4 ?w) = (ks, exp, ds)"
    unfolding unpack_header_def Let_def by simp
  moreover have "pack_header ks exp ds = Inr (le_bytes 4 ?w)"
    using assms unfolding pack_header_def m by simp
  ultimately show ?thesis using that [of "le_bytes 4 ?w"] by simp
qed

lemma load_save_data:
  assumes "smap_ok (d @ m)" "\<forall>(k, e) \<in> set m. length k < 1024 \<and> length (ent_value e) < 2 ^ 21"
  shows "\<exists>s. save_data m = Inr s \<and> load_data_loop s d = (None, d @ m)"
  using assms
proof (induction m arbitrary: d)
  case Nil
  then show ?case by (simp add: load_data_loop.simps)
next
  case (Cons p m)
  obtain k e where p: "p = (k, e)" by (cases p)
  have l: "length k < 1024" "length (ent_value e) < 2 ^ 21" using Cons.prems(2) p by auto
  obtain h where h: "pack_header (length k) (ent_exposed e) (length (ent_value e)) = Inr h" "length h = 4"
    "unpack_header h = (length k, ent_exposed e, length (ent_value e))" by (rule unpack_pack [OF l])
  have ok: "smap_ok ((d @ [(k, e)]) @ m)" using Cons.prems(1) p by simp
  then obtain s where s: "save_data m = Inr s" "load_data_loop s (d @ [(k, e)]) = (None, (d @ [(k, e)]) @ m)"
    using Cons.IH [OF ok] Cons.prems(2) by auto
  have put: "smap_put k e d = d @ [(k, e)]" using smap_put_last [OF smap_ok_append1 [OF ok]] .
  have "load_data_loop (h @ k @ ent_value e @ s) d = load_data_loop s (d @ [(k, e)])"
    using h(2,3) put by (cases e, subst load_data_loop.simps) auto
  with s h(1) p show ?case by simp
qed

lemma data_ok_put:
  "data_ok d \<Longrightarrow> length k < 1024 \<Longrightarrow> length (ent_value e) < 2 ^ 21 \<Longrightarrow> data_ok (smap_put k e d)"
  by (auto simp: data_ok_def set_smap_put smap_ok_put)

text \<open>Whatever the bytes are, what is read keeps the size limits of the format.\<close>

lemma load_data_loop_ok: "data_ok d \<Longrightarrow> data_ok (snd (load_data_loop s d))"
proof (induction s d rule: load_data_loop.induct)
  case (1 s d)
  obtain ks exp ds where u: "unpack_header (take 4 s) = (ks, exp, ds)" by (cases "unpack_header (take 4 s)")
  show ?case
  proof (cases "s \<noteq> [] \<and> 4 \<le> length s \<and> ks + ds \<le> length (drop 4 s)")
    case True
    let ?k = "take ks (drop 4 s)" and ?e = "\<lparr>ent_value = take ds (drop ks (drop 4 s)), ent_exposed = exp\<rparr>"
    have "from_le (take 4 s) < 256 ^ 4" using from_le_less [of "take 4 s"] True by simp
    then have "ks < 1024" "ds < 2 ^ 21"
      using u by (auto simp: unpack_header_def Let_def less_mult_imp_div_less)
    then have "data_ok (smap_put ?k ?e d)" by (intro data_ok_put "1.prems") simp_all
    moreover have "load_data_loop s d = load_data_loop (drop (ks + ds) (drop 4 s)) (smap_put ?k ?e d)"
      using True u by (subst load_data_loop.simps) simp
    ultimately show ?thesis
      using "1.IH" [of "(ks, exp, ds)" ks "(exp, ds)" exp ds "drop 4 s"] True u by simp
  next
    case False
    then have "snd (load_data_loop s d) = d" using u by (subst load_data_loop.simps) auto
    then show ?thesis using "1.prems" by simp
  qed
qed

section \<open>Settings and state\<close>

text \<open>The part of \<^verbatim>\<open>cached_settings\<close> (\<^verbatim>\<open>private/cached_settings.h\<close>) the session code reads.\<close>

record session_settings =
  csrf_enable :: bool
  csrf_automatic :: bool
  csrf_exposed :: bool
  ses_timeout :: int
  ses_expire :: string
  cookies_prefix :: string
  cookies_domain :: string
  cookies_path :: string
  cookies_time_shift :: int
  use_age :: bool
  use_exp :: bool
  cookies_secure :: bool
  cookies_httponly :: bool
  use_samesite_none :: bool
  use_samesite_lax :: bool
  use_samesite_strict :: bool
  remove_unknown_cookies :: bool

text \<open>\<^verbatim>\<open>enum { fixed, renew, browser }\<close>\<close>

abbreviation (input) "how_fixed \<equiv> 0 :: int"
abbreviation (input) "how_renew \<equiv> 1 :: int"
abbreviation (input) "how_browser \<equiv> 2 :: int"

text \<open>
  The session object.  \<open>se_storage\<close> is the state of the back end, \<open>None\<close> for a null pointer; \<open>se_io\<close> is
  what the back ends see of the object; \<open>se_cookie_names\<close> are the names of the cookies of the request,
  from the adapter or from the request itself.
\<close>

record 'a session =
  se_data :: data_type
  se_data_copy :: data_type
  se_timeout_val_def :: int
  se_how_def :: int
  se_timeout_val :: int
  se_how :: int
  se_timeout_in :: time_t
  se_new_session :: bool
  se_saved :: bool
  se_on_server :: bool
  se_loaded :: bool
  se_reset :: bool
  se_csrf_checked :: bool
  se_csrf_do_validation :: bool
  se_csrf_validation :: bool
  se_io :: session_io
  se_cookie_names :: "string list"
  se_storage :: "'a option"

datatype init_error = Unsupported_expire string

definition session_init :: "session_settings \<Rightarrow> string \<Rightarrow> string list \<Rightarrow> 'a option \<Rightarrow> init_error + 'a session" where
  "session_init st cookie names a =
     (let mk = (\<lambda>h. \<lparr>se_data = [], se_data_copy = [], se_timeout_val_def = ses_timeout st, se_how_def = h,
          se_timeout_val = 0, se_how = 0, se_timeout_in = 0, se_new_session = False, se_saved = False,
          se_on_server = False, se_loaded = False, se_reset = False, se_csrf_checked = False,
          se_csrf_do_validation = csrf_automatic st, se_csrf_validation = csrf_enable st,
          se_io = \<lparr>io_cookie = cookie, io_temp = [], io_out = []\<rparr>, se_cookie_names = names, se_storage = a\<rparr>)
      in if ses_expire st = ''fixed'' then Inr (mk how_fixed)
         else if ses_expire st = ''renew'' then Inr (mk how_renew)
         else if ses_expire st = ''browser'' then Inr (mk how_browser)
         else Inl (Unsupported_expire (ses_expire st)))"

text \<open>\<^verbatim>\<open>check()\<close> in front of an operation.\<close>

definition checked :: "'a session \<Rightarrow> (session_error + 'b) \<Rightarrow> session_error + 'b" where
  "checked s r = (if se_storage s = None then Inl Storage_not_loaded else r)"

section \<open>Keys and values\<close>

definition se_is_set :: "string \<Rightarrow> 'a session \<Rightarrow> session_error + bool" where
  "se_is_set key s = checked s (Inr (smap_find (se_data s) key \<noteq> None))"

definition se_erase :: "string \<Rightarrow> 'a session \<Rightarrow> session_error + 'a session" where
  "se_erase key s = checked s (Inr (s\<lparr>se_data := smap_erase key (se_data s)\<rparr>))"

definition se_clear :: "'a session \<Rightarrow> session_error + 'a session" where
  "se_clear s = checked s (Inr (s\<lparr>se_data := []\<rparr>))"

text \<open>Names that start with an underscore are the session's own.\<close>

definition se_key_set :: "'a session \<Rightarrow> session_error + string list" where
  "se_key_set s = checked s (Inr (filter (\<lambda>k. \<not> (k \<noteq> [] \<and> hd k = CHR ''_'')) (map fst (se_data s))))"

definition se_get_default :: "string \<Rightarrow> string \<Rightarrow> 'a session \<Rightarrow> session_error + string" where
  "se_get_default key d s =
     checked s (Inr (case smap_find (se_data s) key of None \<Rightarrow> d | Some e \<Rightarrow> ent_value e))"

definition se_get :: "string \<Rightarrow> 'a session \<Rightarrow> session_error + string" where
  "se_get key s =
     checked s (case smap_find (se_data s) key of None \<Rightarrow> Inl (Undefined_key key) | Some e \<Rightarrow> Inr (ent_value e))"

text \<open>\<^verbatim>\<open>get<int>\<close> and \<^verbatim>\<open>set<int>\<close>.\<close>

definition se_get_int :: "string \<Rightarrow> 'a session \<Rightarrow> session_error + int" where
  "se_get_int key s =
     (case se_get key s of
        Inl e \<Rightarrow> Inl e
      | Inr v \<Rightarrow> (case parse_int v of None \<Rightarrow> Inl Bad_cast | Some n \<Rightarrow> Inr n))"

definition data_entry :: "string \<Rightarrow> data_type \<Rightarrow> entry" where
  "data_entry key m = (case smap_find m key of Some e \<Rightarrow> e | None \<Rightarrow> entry_new)"

definition put_value :: "string \<Rightarrow> string \<Rightarrow> 'a session \<Rightarrow> 'a session" where
  "put_value key v s = s\<lparr>se_data := smap_put key ((data_entry key (se_data s))\<lparr>ent_value := v\<rparr>) (se_data s)\<rparr>"

definition se_set :: "string \<Rightarrow> string \<Rightarrow> 'a session \<Rightarrow> session_error + 'a session" where
  "se_set key v s = checked s (Inr (put_value key v s))"

definition se_set_int :: "string \<Rightarrow> int \<Rightarrow> 'a session \<Rightarrow> session_error + 'a session" where
  "se_set_int key n s = se_set key (todec n) s"

definition se_is_exposed :: "string \<Rightarrow> 'a session \<Rightarrow> bool" where
  "se_is_exposed key s = (case smap_find (se_data s) key of Some e \<Rightarrow> ent_exposed e | None \<Rightarrow> False)"

definition se_expose :: "string \<Rightarrow> bool \<Rightarrow> 'a session \<Rightarrow> 'a session" where
  "se_expose key exp s = s\<lparr>se_data := smap_put key ((data_entry key (se_data s))\<lparr>ent_exposed := exp\<rparr>) (se_data s)\<rparr>"

definition se_hide :: "string \<Rightarrow> 'a session \<Rightarrow> session_error + 'a session" where
  "se_hide key s = checked s (Inr (se_expose key False s))"

definition se_set_age :: "int \<Rightarrow> 'a session \<Rightarrow> session_error + 'a session" where
  "se_set_age t s = checked s (se_set_int ''_t'' t (s\<lparr>se_timeout_val := t\<rparr>))"

definition se_default_age :: "'a session \<Rightarrow> session_error + 'a session" where
  "se_default_age s =
     checked s (case se_erase ''_t'' s of Inl e \<Rightarrow> Inl e | Inr s' \<Rightarrow> Inr (s'\<lparr>se_timeout_val := se_timeout_val_def s\<rparr>))"

definition se_set_expiration :: "int \<Rightarrow> 'a session \<Rightarrow> session_error + 'a session" where
  "se_set_expiration h s = checked s (se_set_int ''_h'' h (s\<lparr>se_how := h\<rparr>))"

definition se_default_expiration :: "'a session \<Rightarrow> session_error + 'a session" where
  "se_default_expiration s =
     checked s (case se_erase ''_h'' s of Inl e \<Rightarrow> Inl e | Inr s' \<Rightarrow> Inr (s'\<lparr>se_how := se_how_def s\<rparr>))"

definition se_set_on_server :: "bool \<Rightarrow> 'a session \<Rightarrow> session_error + 'a session" where
  "se_set_on_server srv s = checked s (se_set_int ''_s'' (if srv then 1 else 0) (s\<lparr>se_on_server := srv\<rparr>))"

definition se_reset_session :: "'a session \<Rightarrow> 'a session" where
  "se_reset_session s = s\<lparr>se_reset := True\<rparr>"

section \<open>Origin of requests\<close>

definition validate_csrf_token :: "string \<Rightarrow> 'a session \<Rightarrow> session_error + bool" where
  "validate_csrf_token token s =
     (case se_get_default ''_csrf'' [] s of
        Inl e \<Rightarrow> Inl e
      | Inr session_token \<Rightarrow> Inr (session_token = [] \<or> session_token = token))"

text \<open>
  The request is the method, the values the form has under \<^verbatim>\<open>_csrf\<close> and the header \<^verbatim>\<open>X-CSRFToken\<close>;
  \<open>None\<close> stands for a session without an HTTP context.
\<close>

record csrf_request =
  req_method :: string
  req_form_tokens :: "string list"
  req_header_token :: string

definition validate_request_origin :: "csrf_request option \<Rightarrow> 'a session \<Rightarrow> (session_error + unit) \<times> 'a session" where
  "validate_request_origin ctx s =
     (case ctx of
        None \<Rightarrow> (Inl No_context, s)
      | Some req \<Rightarrow>
          if se_csrf_checked s then (Inr (), s)
          else
            (let s1 = s\<lparr>se_csrf_checked := True\<rparr>
             in if \<not> se_csrf_validation s1 then (Inr (), s1)
                else if \<not> se_csrf_do_validation s1 then (Inr (), s1)
                else if req_method req \<noteq> ''POST'' then (Inr (), s1)
                else
                  (let token = (case req_form_tokens req of [t] \<Rightarrow> t | _ \<Rightarrow> req_header_token req)
                   in case validate_csrf_token token s1 of
                        Inl e \<Rightarrow> (Inl e, s1)
                      | Inr ok \<Rightarrow> if ok then (Inr (), s1) else (Inl Request_forgery, s1))))"

section \<open>Loading\<close>

definition apply_int :: "string \<Rightarrow> (int \<Rightarrow> 'a session \<Rightarrow> 'a session) \<Rightarrow> 'a session \<Rightarrow> session_error option \<times> 'a session" where
  "apply_int key f s =
     (if smap_find (se_data s) key = None then (None, s)
      else case se_get_int key s of Inl e \<Rightarrow> (Some e, s) | Inr n \<Rightarrow> (None, f n s))"

text \<open>The three values the session keeps about itself; an exception ends the function.\<close>

definition load_own :: "'a session \<Rightarrow> session_error option \<times> 'a session" where
  "load_own s =
     (case apply_int ''_t'' (\<lambda>n x. x\<lparr>se_timeout_val := n\<rparr>) s of
        (Some e, s1) \<Rightarrow> (Some e, s1)
      | (None, s1) \<Rightarrow>
          (case apply_int ''_h'' (\<lambda>n x. x\<lparr>se_how := n\<rparr>) s1 of
             (Some e, s2) \<Rightarrow> (Some e, s2)
           | (None, s2) \<Rightarrow> apply_int ''_s'' (\<lambda>n x. x\<lparr>se_on_server := odd n\<rparr>) s2))"

definition se_load :: "'a session_api \<Rightarrow> clock \<Rightarrow> string \<Rightarrow> 'a session \<Rightarrow> (session_error + bool) \<times> 'a session" where
  "se_load api clk rnd s =
     (if se_loaded s then (Inr False, s)
      else
        (let s1 = s\<lparr>se_loaded := True\<rparr>
         in case se_storage s1 of
              None \<Rightarrow> (Inr False, s1)
            | Some a \<Rightarrow>
                (let s2 = s1\<lparr>se_data := [], se_data_copy := [], se_timeout_val := se_timeout_val_def s1,
                       se_how := se_how_def s1, se_saved := False, se_on_server := False\<rparr>
                 in case api_load api clk rnd (se_io s2, a) of
                      Inl e \<Rightarrow> (Inl e, s2)
                    | Inr ((ok, ar, t), io, a') \<Rightarrow>
                        (let s3 = s2\<lparr>se_io := io, se_storage := Some a',
                               se_timeout_in := (case t of None \<Rightarrow> se_timeout_in s2 | Some t' \<Rightarrow> t')\<rparr>
                         in if \<not> ok then (Inr False, s3)
                            else
                              (case load_data ar of
                                 (Some e, d) \<Rightarrow> (Inl e, s3\<lparr>se_data := d\<rparr>)
                               | (None, d) \<Rightarrow>
                                   (case load_own (s3\<lparr>se_data := d, se_data_copy := d\<rparr>) of
                                      (Some e, s4) \<Rightarrow> (Inl e, s4)
                                    | (None, s4) \<Rightarrow> (Inr True, s4)))))))"

section \<open>Saving\<close>

definition wrap_int :: "int \<Rightarrow> int" where
  "wrap_int x = (x + 2 ^ 31) mod 2 ^ 32 - 2 ^ 31"

definition cookie_age :: "time_t \<Rightarrow> 'a session \<Rightarrow> int" where
  "cookie_age now s =
     (if se_how s = how_browser then 0
      else if se_how s = how_renew \<or> (se_how s = how_fixed \<and> se_new_session s) then se_timeout_val s
      else wrap_int (se_timeout_in s - now))"

definition session_age :: "time_t \<Rightarrow> 'a session \<Rightarrow> time_t" where
  "session_age now s =
     (if se_how s = how_browser \<or> se_how s = how_renew \<or> (se_how s = how_fixed \<and> se_new_session s)
      then se_timeout_val s + now
      else se_timeout_in s)"

text \<open>The cookie that a call \<^verbatim>\<open>set_session_cookie(age, data, key)\<close> adds to the response.\<close>

definition session_cookie :: "session_settings \<Rightarrow> time_t \<Rightarrow> int \<times> string \<times> string \<Rightarrow> cookie" where
  "session_cookie st now = (\<lambda>(age0, data, key).
     let age = (if data = [] then -1 else age0);
         name = (if key \<noteq> [] then cookies_prefix st @ ''_'' @ key else cookies_prefix st);
         c0 = cookie_full name (urlencode data) (cookies_path st) (cookies_domain st) [];
         c1 = (if age < 0
               then (let c = (if use_age st then cookie_max_age 0 c0 else c0)
                     in if use_exp st then cookie_expires 1 c else c)
               else if age = 0 then cookie_browser_age c0
               else (let c = (if use_age st then cookie_max_age age c0 else c0)
                     in if use_exp st then cookie_expires (age + now + cookies_time_shift st) c else c));
         c2 = c1\<lparr>ck_secure := cookies_secure st, ck_httponly := cookies_httponly st\<rparr>
     in cookie_samesite_strict (use_samesite_strict st)
          (cookie_samesite_lax (use_samesite_lax st) (cookie_samesite_none (use_samesite_none st) c2)))"

definition se_emit :: "int \<Rightarrow> string \<Rightarrow> string \<Rightarrow> 'a session \<Rightarrow> 'a session" where
  "se_emit age data key s = s\<lparr>se_io := emit_cookie age data key (se_io s)\<rparr>"

text \<open>The three loops of \<^verbatim>\<open>update_exposed\<close> that collect the cookies to set and the names to remove.\<close>

definition to_expose :: "bool \<Rightarrow> data_type \<Rightarrow> string \<times> entry \<Rightarrow> bool" where
  "to_expose force copy = (\<lambda>(k, e).
     ent_exposed e \<and> (force \<or> (case smap_find copy k of
        None \<Rightarrow> True | Some e2 \<Rightarrow> \<not> ent_exposed e2 \<or> ent_value e \<noteq> ent_value e2)))"

definition to_hide :: "bool \<Rightarrow> data_type \<Rightarrow> string \<times> entry \<Rightarrow> bool" where
  "to_hide force copy = (\<lambda>(k, e).
     \<not> ent_exposed e \<and> ((case smap_find copy k of None \<Rightarrow> False | Some e2 \<Rightarrow> ent_exposed e2) \<or> force))"

definition unknown_keys :: "session_settings \<Rightarrow> data_type \<Rightarrow> string list \<Rightarrow> string list" where
  "unknown_keys st data names =
     (if remove_unknown_cookies st
      then (let pre = cookies_prefix st @ ''_'' in
            filter (\<lambda>k. case smap_find data k of None \<Rightarrow> True | Some e \<Rightarrow> \<not> ent_exposed e)
              (map (drop (length pre)) (filter (\<lambda>n. take (length pre) n = pre) names)))
      else [])"

definition removed_keys :: "session_settings \<Rightarrow> bool \<Rightarrow> 'a session \<Rightarrow> (string, unit) smap" where
  "removed_keys st force s =
     fold (\<lambda>k. smap_put k ())
       (map fst (filter (to_hide force (se_data_copy s)) (se_data s))
        @ map fst (filter (\<lambda>(k, e). ent_exposed e \<and> smap_find (se_data s) k = None) (se_data_copy s))
        @ unknown_keys st (se_data s) (se_cookie_names s)) []"

definition update_exposed :: "session_settings \<Rightarrow> clock \<Rightarrow> bool \<Rightarrow> 'a session \<Rightarrow> 'a session" where
  "update_exposed st clk force s =
     (let s1 = fold (\<lambda>(i, k, e) x. se_emit (cookie_age (clk i) x) (ent_value e) k x)
                 (enumerate 0 (filter (to_expose force (se_data_copy s)) (se_data s))) s
      in fold (\<lambda>(k, _) x. se_emit (-1) [] k x) (removed_keys st force s) s1)"

definition generate_csrf_token :: "string \<Rightarrow> string" where
  "generate_csrf_token rnd = encode_ptr (take 6 rnd)"

text \<open>
  \<^verbatim>\<open>delta < timeout_val_ * 0.1\<close> compares in \<^verbatim>\<open>double\<close>.  The product of an \<^verbatim>\<open>int\<close> and the \<^verbatim>\<open>double\<close> 0.1 is
  off by far less than a tenth and exact on multiples of ten, so the comparison is the one of ten times
  \<^verbatim>\<open>delta\<close> with \<^verbatim>\<open>timeout_val_\<close>.
\<close>

definition no_renew :: "time_t \<Rightarrow> 'a session \<Rightarrow> bool" where
  "no_renew now s \<longleftrightarrow> 10 * (now + se_timeout_val s - se_timeout_in s) < se_timeout_val s"

definition add_csrf_token :: "session_settings \<Rightarrow> string \<Rightarrow> 'a session \<Rightarrow> 'a session" where
  "add_csrf_token st rnd s =
     (if se_new_session s \<and> csrf_enable st
      then (let s1 = put_value ''_csrf'' (generate_csrf_token rnd) s
            in if csrf_exposed st then se_expose ''_csrf'' True s1 else s1)
      else s)"

text \<open>The part of \<^verbatim>\<open>save\<close> that writes the session.\<close>

definition se_store :: "'a session_api \<Rightarrow> session_settings \<Rightarrow> clock \<Rightarrow> string \<Rightarrow> bool \<Rightarrow> 'a \<Rightarrow> 'a session
    \<Rightarrow> (session_error + unit) \<times> 'a session" where
  "se_store api st clk rnd force a s =
     (case save_data (se_data s) of
        Inl e \<Rightarrow> (Inl e, s)
      | Inr ar \<Rightarrow>
          (case api_save api (\<lambda>n. clk (n + 2)) rnd ar (session_age (clk 1) s) (se_new_session s) (se_on_server s)
                  (set_temp_cookie [] (se_io s), a) of
             Inl e \<Rightarrow> (Inl e, s\<lparr>se_io := set_temp_cookie [] (se_io s)\<rparr>)
           | Inr (io, a') \<Rightarrow>
               (let s1 = s\<lparr>se_io := io, se_storage := Some a'\<rparr>;
                    s2 = se_emit (cookie_age (clk 5) s1) (io_temp io) [] s1;
                    s3 = s2\<lparr>se_io := set_temp_cookie [] (se_io s2)\<rparr>
                in (Inr (), (update_exposed st (\<lambda>n. clk (n + 6)) force s3)\<lparr>se_saved := True\<rparr>))))"

definition se_save :: "'a session_api \<Rightarrow> session_settings \<Rightarrow> clock \<Rightarrow> string \<Rightarrow> 'a session
    \<Rightarrow> (session_error + unit) \<times> 'a session" where
  "se_save api st clk rnd s =
     (case se_storage s of
        None \<Rightarrow> (Inr (), s)
      | Some a \<Rightarrow>
          if \<not> se_loaded s \<or> se_saved s then (Inr (), s)
          else
            (let s1 = s\<lparr>se_new_session := (se_data_copy s = [] \<and> se_data s \<noteq> []) \<or> se_reset s\<rparr>
             in if se_data s1 = []
                then (let s2 = (if io_cookie (se_io s1) \<noteq> []
                                then (let (io, a') = api_clear api clk (se_io s1, a)
                                      in s1\<lparr>se_io := io, se_storage := Some a'\<rparr>)
                                else s1)
                      in (Inr (), update_exposed st (\<lambda>n. clk (n + 1)) True s2))
                else
                  (let s2 = add_csrf_token st rnd s1
                   in if se_data s2 = se_data_copy s2 \<and> \<not> se_new_session s2
                      then if se_how s2 = how_fixed then (Inr (), s2)
                           else if (se_how s2 = how_renew \<or> se_how s2 = how_browser) \<and> no_renew (clk 0) s2 then (Inr (), s2)
                           else se_store api st clk (drop 6 rnd) True a s2
                      else se_store api st clk (drop 6 rnd) False a s2)))"

section \<open>A session and the next request\<close>

text \<open>The values the session keeps about itself can be read back as integers.\<close>

definition own_ok :: "data_type \<Rightarrow> bool" where
  "own_ok d \<longleftrightarrow> list_all (\<lambda>k. case smap_find d k of None \<Rightarrow> True | Some e \<Rightarrow> parse_int (ent_value e) \<noteq> None) [''_t'', ''_h'', ''_s'']"

lemma apply_int_ok:
  assumes "se_storage s \<noteq> None" "case smap_find (se_data s) k of None \<Rightarrow> True | Some e \<Rightarrow> parse_int (ent_value e) \<noteq> None"
  shows "\<exists>n. apply_int k f s = (None, s) \<or> apply_int k f s = (None, f n s)"
  using assms by (auto simp: apply_int_def se_get_int_def se_get_def checked_def split: option.splits)

lemma load_own_ok:
  assumes "se_storage s \<noteq> None" "own_ok (se_data s)"
  shows "\<exists>tv h srv. load_own s = (None, s\<lparr>se_timeout_val := tv, se_how := h, se_on_server := srv\<rparr>)"
proof -
  have k: "case smap_find (se_data s) k of None \<Rightarrow> True | Some e \<Rightarrow> parse_int (ent_value e) \<noteq> None"
    if "k \<in> {''_t'', ''_h'', ''_s''}" for k
    using assms(2) that by (auto simp: own_ok_def)
  have "\<exists>tv. apply_int ''_t'' (\<lambda>n x. x\<lparr>se_timeout_val := n\<rparr>) s = (None, s\<lparr>se_timeout_val := tv\<rparr>)"
    using apply_int_ok [OF assms(1) k, of "''_t''" "\<lambda>n x. x\<lparr>se_timeout_val := n\<rparr>"]
    by simp (elim exE disjE, auto intro: exI [of _ "se_timeout_val s"])
  then obtain tv where 1: "apply_int ''_t'' (\<lambda>n x. x\<lparr>se_timeout_val := n\<rparr>) s = (None, s\<lparr>se_timeout_val := tv\<rparr>)" ..
  let ?s1 = "s\<lparr>se_timeout_val := tv\<rparr>"
  have "\<exists>h. apply_int ''_h'' (\<lambda>n x. x\<lparr>se_how := n\<rparr>) ?s1 = (None, ?s1\<lparr>se_how := h\<rparr>)"
    using apply_int_ok [of ?s1 "''_h''" "\<lambda>n x. x\<lparr>se_how := n\<rparr>"] assms(1) k [of "''_h''"]
    by simp (elim exE disjE, auto intro: exI [of _ "se_how s"])
  then obtain h where 2: "apply_int ''_h'' (\<lambda>n x. x\<lparr>se_how := n\<rparr>) ?s1 = (None, ?s1\<lparr>se_how := h\<rparr>)" ..
  let ?s2 = "?s1\<lparr>se_how := h\<rparr>"
  have "\<exists>b. apply_int ''_s'' (\<lambda>n x. x\<lparr>se_on_server := odd n\<rparr>) ?s2 = (None, ?s2\<lparr>se_on_server := b\<rparr>)"
    using apply_int_ok [of ?s2 "''_s''" "\<lambda>n x. x\<lparr>se_on_server := odd n\<rparr>"] assms(1) k [of "''_s''"]
    by simp (elim exE disjE, auto intro: exI [of _ "se_on_server s"])
  then obtain b where 3: "apply_int ''_s'' (\<lambda>n x. x\<lparr>se_on_server := odd n\<rparr>) ?s2 = (None, ?s2\<lparr>se_on_server := b\<rparr>)" ..
  show ?thesis using 1 2 3 by (auto simp: load_own_def)
qed

lemma se_load_ok:
  assumes "\<not> se_loaded n" "se_storage n = Some a" "own_ok d" "load_data ar = (None, d)"
    and "api_load api clk rnd (se_io n, a) = Inr ((True, ar, Some t), io', a')"
  shows "\<exists>n'. se_load api clk rnd n = (Inr True, n') \<and> se_data n' = d \<and> se_data_copy n' = d \<and> se_timeout_in n' = t
    \<and> se_csrf_checked n' = se_csrf_checked n \<and> se_csrf_validation n' = se_csrf_validation n
    \<and> se_csrf_do_validation n' = se_csrf_do_validation n \<and> se_storage n' = Some a'"
proof -
  let ?s = "n\<lparr>se_loaded := True, se_timeout_val := se_timeout_val_def n, se_how := se_how_def n, se_saved := False,
      se_on_server := False, se_io := io', se_storage := Some a', se_timeout_in := t, se_data := d, se_data_copy := d\<rparr>"
  obtain tv h srv where "load_own ?s = (None, ?s\<lparr>se_timeout_val := tv, se_how := h, se_on_server := srv\<rparr>)"
    using load_own_ok [of ?s] assms(3) by auto
  then show ?thesis using assms by (simp add: se_load_def)
qed

text \<open>The calls \<^verbatim>\<open>update_exposed\<close> makes; it changes nothing else.\<close>

definition exposed_calls :: "session_settings \<Rightarrow> clock \<Rightarrow> bool \<Rightarrow> 'a session \<Rightarrow> (int \<times> string \<times> string) list" where
  "exposed_calls st clk force s =
     map (\<lambda>(i, k, e). (cookie_age (clk i) s, ent_value e, k))
       (enumerate 0 (filter (to_expose force (se_data_copy s)) (se_data s)))
     @ map (\<lambda>(k, _). (-1, [], k)) (removed_keys st force s)"

lemma fold_emit:
  assumes "\<And>x io. f x (s\<lparr>se_io := io\<rparr>) = g x"
  shows "fold (\<lambda>x y. se_emit (f x y) (d x) (k x) y) xs (s\<lparr>se_io := io\<rparr>)
    = s\<lparr>se_io := io\<lparr>io_out := io_out io @ map (\<lambda>x. (g x, d x, k x)) xs\<rparr>\<rparr>"
  by (induction xs arbitrary: io) (simp_all add: se_emit_def emit_cookie_def assms)

lemma update_exposed_eq:
  "update_exposed st clk force s = s\<lparr>se_io := (se_io s)\<lparr>io_out := io_out (se_io s) @ exposed_calls st clk force s\<rparr>\<rparr>"
proof -
  have 1: "fold (\<lambda>(i, k, e) x. se_emit (cookie_age (clk i) x) (ent_value e) k x) (xs :: (nat \<times> string \<times> entry) list) (s\<lparr>se_io := io\<rparr>)
      = s\<lparr>se_io := io\<lparr>io_out := io_out io @ map (\<lambda>(i, k, e). (cookie_age (clk i) s, ent_value e, k)) xs\<rparr>\<rparr>" for xs io
    using fold_emit [where f = "\<lambda>x. cookie_age (clk (fst x))" and g = "\<lambda>x. cookie_age (clk (fst x)) s"
        and d = "\<lambda>x. ent_value (snd (snd x))" and k = "\<lambda>x. fst (snd x)" and xs = xs and s = s and io = io]
    by (simp add: case_prod_unfold cookie_age_def)
  have 2: "fold (\<lambda>(k, _) x. se_emit (-1) [] k x) (ys :: (string, unit) smap) (s\<lparr>se_io := io\<rparr>)
      = s\<lparr>se_io := io\<lparr>io_out := io_out io @ map (\<lambda>(k, _). (-1, [], k)) ys\<rparr>\<rparr>" for ys io
    using fold_emit [where f = "\<lambda>_ _. -1" and g = "\<lambda>_. -1" and d = "\<lambda>_. []" and k = fst and xs = ys and s = s and io = io]
    by (simp add: case_prod_unfold)
  show ?thesis
    unfolding update_exposed_def Let_def exposed_calls_def using 1 [of _ "se_io s"] 2 by (simp del: fold_simps)
qed

context session_api_laws
begin

lemma store_load:
  assumes "inv a" "data_ok (se_data s)" "own_ok (se_data s)" "save_data (se_data s) = Inr ar" "can_save (se_on_server s) ar"
    and "32 \<le> length rnd" "32 \<le> length rnd'" "- (2 ^ 63) \<le> session_age (clk 1) s" "session_age (clk 1) s < 2 ^ 63"
    and "\<And>i j. clk i \<le> clk' j" "\<And>j. clk' j \<le> session_age (clk 1) s"
  shows "\<exists>s' age v a'. se_store api st clk rnd force a s = (Inr (), s') \<and> (age, v, []) \<in> set (io_out (se_io s'))
    \<and> se_storage s' = Some a' \<and> inv a' \<and> se_saved s'
    \<and> (\<forall>n. \<not> se_loaded n \<and> se_storage n = Some a' \<and> io_cookie (se_io n) = v
         \<longrightarrow> (\<exists>n'. se_load api clk' rnd' n = (Inr True, n') \<and> se_data n' = se_data s \<and> se_data_copy n' = se_data s
               \<and> se_timeout_in n' = session_age (clk 1) s \<and> se_csrf_checked n' = se_csrf_checked n
               \<and> se_csrf_validation n' = se_csrf_validation n \<and> se_csrf_do_validation n' = se_csrf_do_validation n
               \<and> se_storage n' \<noteq> None))"
proof -
  let ?t = "session_age (clk 1) s"
  have c: "\<And>i j. clk (i + 2) \<le> clk' j" using assms(10) by blast
  obtain io1 a' where r: "api_save api (\<lambda>n. clk (n + 2)) rnd ar ?t (se_new_session s) (se_on_server s)
      (set_temp_cookie [] (se_io s), a) = Inr (io1, a')" "inv a'"
    "\<forall>io2. io_cookie io2 = io_temp io1
       \<longrightarrow> (\<exists>a2. api_load api clk' rnd' (io2, a') = Inr ((True, ar, Some ?t), io2, a2) \<and> inv a2)"
    using save_load [where clk = "\<lambda>n. clk (n + 2)" and clk' = clk' and io = "set_temp_cookie [] (se_io s)" and
        new_data = "se_new_session s", OF assms(1,5,6,7,8,9) c assms(11)] by blast
  have "load_data ar = (None, se_data s)"
    using load_save_data [of "[]" "se_data s"] assms(2,4) by (simp add: load_data_def data_ok_def)
  then have l: "\<exists>n'. se_load api clk' rnd' n = (Inr True, n') \<and> se_data n' = se_data s \<and> se_data_copy n' = se_data s
      \<and> se_timeout_in n' = ?t \<and> se_csrf_checked n' = se_csrf_checked n \<and> se_csrf_validation n' = se_csrf_validation n
      \<and> se_csrf_do_validation n' = se_csrf_do_validation n \<and> se_storage n' \<noteq> None"
    if "\<not> se_loaded n" "se_storage n = Some a'" "io_cookie (se_io n) = io_temp io1" for n
    using se_load_ok [of n a' "se_data s" ar] that r(3) assms(3) by (metis option.distinct(1))
  have st: "se_store api st clk rnd force a s = (Inr (), s')
      \<Longrightarrow> se_saved s' \<and> se_storage s' = Some a' \<and> (\<exists>age. (age, io_temp io1, []) \<in> set (io_out (se_io s')))" for s'
    using assms(4) r(1) by (auto simp: se_store_def Let_def update_exposed_eq se_emit_def emit_cookie_def set_temp_cookie_def)
  moreover have "\<exists>s'. se_store api st clk rnd force a s = (Inr (), s')"
    using assms(4) r(1) by (simp add: se_store_def Let_def)
  ultimately show ?thesis using r(2) l by metis
qed

end

text \<open>The size of the packed data.\<close>

definition data_size :: "data_type \<Rightarrow> nat" where
  "data_size d = sum_list (map (\<lambda>(k, e). 4 + length k + length (ent_value e)) d)"

lemma save_data_size: "save_data d = Inr ar \<Longrightarrow> length ar = data_size d"
proof (induction d arbitrary: ar)
  case (Cons p d)
  obtain k e where p: "p = (k, e)" by (cases p)
  from Cons.prems p obtain h s where r: "pack_header (length k) (ent_exposed e) (length (ent_value e)) = Inr h"
    "save_data d = Inr s" "ar = h @ k @ ent_value e @ s" by (auto split: sum.splits)
  moreover have "length h = 4" using r(1) by (auto simp: pack_header_def split: if_splits)
  ultimately show ?case using Cons.IH p by (simp add: data_size_def)
qed (simp add: data_size_def)

lemma data_size_put: "data_size (smap_put k e d) \<le> data_size d + 4 + length k + length (ent_value e)"
  by (induction k e d rule: smap_put.induct) (auto simp: data_size_def)

text \<open>What a token adds to the data.\<close>

lemma csrf_token_length: "length (generate_csrf_token rnd) \<le> 8"
proof -
  have "n \<le> 6 \<Longrightarrow> n div 3 * 4 + (if n mod 3 = 0 then 0 else n mod 3 + 1) \<le> 8" for n :: nat
  proof -
    assume "n \<le> 6"
    then have "n = 0 \<or> n = 1 \<or> n = 2 \<or> n = 3 \<or> n = 4 \<or> n = 5 \<or> n = 6" by linarith
    then show ?thesis by (elim disjE) simp_all
  qed
  from this [of "length (take 6 rnd)"] show ?thesis by (simp add: generate_csrf_token_def encode_ptr_length)
qed

definition csrf_data :: "session_settings \<Rightarrow> string \<Rightarrow> bool \<Rightarrow> data_type \<Rightarrow> data_type" where
  "csrf_data st rnd isnew d =
     (if isnew \<and> csrf_enable st
      then smap_put ''_csrf'' \<lparr>ent_value = generate_csrf_token rnd,
             ent_exposed = csrf_exposed st \<or> ent_exposed (data_entry ''_csrf'' d)\<rparr> d
      else d)"

lemma entry_updates:
  "(e :: entry)\<lparr>ent_value := v\<rparr> = \<lparr>ent_value = v, ent_exposed = ent_exposed e\<rparr>"
  "(e :: entry)\<lparr>ent_exposed := b\<rparr> = \<lparr>ent_value = ent_value e, ent_exposed = b\<rparr>"
  by (cases e, simp)+

lemma add_csrf_token_eq: "add_csrf_token st rnd s = s\<lparr>se_data := csrf_data st rnd (se_new_session s) (se_data s)\<rparr>"
  by (auto simp: add_csrf_token_def csrf_data_def put_value_def se_expose_def data_entry_def smap_find_put smap_put_put entry_updates Let_def
      split: option.split)

lemma csrf_data_ok:
  assumes "data_ok d" "own_ok d"
  shows "data_ok (csrf_data st rnd b d)" "own_ok (csrf_data st rnd b d)"
    "data_size (csrf_data st rnd b d) \<le> data_size d + 17" "d \<noteq> [] \<Longrightarrow> csrf_data st rnd b d \<noteq> []"
proof -
  let ?e = "\<lparr>ent_value = generate_csrf_token rnd, ent_exposed = csrf_exposed st \<or> ent_exposed (data_entry ''_csrf'' d)\<rparr>"
  have l: "length (ent_value ?e) \<le> 8" using csrf_token_length by simp
  have "data_ok (smap_put ''_csrf'' ?e d)" using assms(1) l by (intro data_ok_put) simp_all
  then show "data_ok (csrf_data st rnd b d)" using assms(1) by (simp add: csrf_data_def)
  show "own_ok (csrf_data st rnd b d)" using assms(2) by (simp add: csrf_data_def own_ok_def smap_find_put)
  show "data_size (csrf_data st rnd b d) \<le> data_size d + 17"
    using data_size_put [of "''_csrf''" ?e d] l by (simp add: csrf_data_def)
  show "csrf_data st rnd b d \<noteq> []" if "d \<noteq> []" using that by (simp add: csrf_data_def)
qed

definition is_new :: "'a session \<Rightarrow> bool" where
  "is_new s \<longleftrightarrow> se_data_copy s = [] \<and> se_data s \<noteq> [] \<or> se_reset s"

text \<open>The session \<^verbatim>\<open>save\<close> writes: a new session got a token.\<close>

definition to_store :: "session_settings \<Rightarrow> string \<Rightarrow> 'a session \<Rightarrow> 'a session" where
  "to_store st rnd s = s\<lparr>se_new_session := is_new s, se_data := csrf_data st rnd (is_new s) (se_data s)\<rparr>"

lemma se_save_changed:
  assumes "se_storage s = Some a" "se_loaded s" "\<not> se_saved s" "se_data s \<noteq> []" "se_data s \<noteq> se_data_copy s \<or> is_new s"
  shows "se_save api st clk rnd s = se_store api st clk (drop 6 rnd) False a (to_store st rnd s)"
proof -
  let ?s = "to_store st rnd s"
  have c: "\<not> (se_data ?s = se_data_copy ?s \<and> \<not> se_new_session ?s)"
    using assms(5) by (auto simp: csrf_data_def to_store_def)
  have "add_csrf_token st rnd (s\<lparr>se_new_session := is_new s\<rparr>) = ?s" by (simp add: add_csrf_token_eq to_store_def)
  then show ?thesis
    using assms(1-4) unfolding se_save_def Let_def is_new_def [symmetric] by (simp add: if_not_P [OF c])
qed

context session_api_laws
begin

lemma save_next_load:
  assumes "inv a" "se_storage s = Some a" "se_loaded s" "\<not> se_saved s" "se_data s \<noteq> []" "se_data s \<noteq> se_data_copy s \<or> is_new s"
    and "data_ok (se_data s)" "own_ok (se_data s)" "\<And>ar. length ar \<le> data_size (se_data s) + 17 \<Longrightarrow> can_save (se_on_server s) ar"
    and "38 \<le> length rnd" "32 \<le> length rnd'" "t = session_age (clk 1) (to_store st rnd s)" "t < 2 ^ 63"
    and "\<And>i j. clk i \<le> clk' j" "\<And>j. 0 \<le> clk' j" "\<And>j. clk' j \<le> t"
  shows "\<exists>s' age v a'. se_save api st clk rnd s = (Inr (), s') \<and> (age, v, []) \<in> set (io_out (se_io s'))
    \<and> se_storage s' = Some a' \<and> inv a' \<and> se_saved s'
    \<and> (\<forall>n. \<not> se_loaded n \<and> se_storage n = Some a' \<and> io_cookie (se_io n) = v
         \<longrightarrow> (\<exists>n'. se_load api clk' rnd' n = (Inr True, n') \<and> se_data n' = csrf_data st rnd (is_new s) (se_data s)
               \<and> se_data_copy n' = se_data n' \<and> se_timeout_in n' = t \<and> se_csrf_checked n' = se_csrf_checked n
               \<and> se_csrf_validation n' = se_csrf_validation n \<and> se_csrf_do_validation n' = se_csrf_do_validation n
               \<and> se_storage n' \<noteq> None))"
proof -
  let ?s = "to_store st rnd s"
  have d: "se_data ?s = csrf_data st rnd (is_new s) (se_data s)" "se_on_server ?s = se_on_server s"
    by (simp_all add: to_store_def)
  note ok = csrf_data_ok [OF assms(7,8), of st rnd "is_new s"]
  obtain ar where ar: "save_data (se_data ?s) = Inr ar"
    using load_save_data [of "[]" "se_data ?s"] ok(1) d by (auto simp: data_ok_def)
  have c: "can_save (se_on_server ?s) ar" using assms(9) save_data_size [OF ar] ok(3) d by simp
  have r: "32 \<le> length (drop 6 rnd)" using assms(10) by simp
  have "0 \<le> t" using assms(15) [of 0] assms(16) [of 0] by linarith
  then have t: "- (2 ^ 63) \<le> session_age (clk 1) ?s" "session_age (clk 1) ?s < 2 ^ 63"
    "\<And>j. clk' j \<le> session_age (clk 1) ?s" using assms(12,13,16) by simp_all
  from store_load [where clk = clk and clk' = clk' and st = st and force = False, OF assms(1) ok(1,2) [folded d(1)] ar c r assms(11) t(1,2) assms(14) t(3)]
  show ?thesis unfolding se_save_changed [OF assms(2-6)] d(1) assms(12) [symmetric] by fastforce
qed

end

text \<open>
  C28. A session survives the request.  With the dual back end over the memory storage and the signing
  encryptor, saving a changed session of admissible size succeeds and adds a session cookie to the
  response; a later request that carries this cookie, before the session's age is over, loads every value
  with its exposed flag, the token of new sessions included, and the same expiry time.
\<close>

theorem session_survives_request:
  assumes "hmac_cipher_new name k = Inr e" "name \<in> {''md5'', ''MD5'', ''sha1'', ''SHA1''}" "length k < 2 ^ 27" "sm_inv m"
    and "se_storage s = Some (e, m)" "se_loaded s" "\<not> se_saved s" "se_data s \<noteq> []" "se_data s \<noteq> se_data_copy s \<or> is_new s"
    and "data_ok (se_data s)" "own_ok (se_data s)" "data_size (se_data s) + 25 < 2 ^ 27" "38 \<le> length rnd" "32 \<le> length rnd'"
    and "t = session_age (clk 1) (to_store st rnd s)" "t < 2 ^ 63"
    and "\<forall>i j. clk i \<le> clk' j" "\<forall>j. 0 \<le> clk' j \<and> clk' j \<le> t"
    and "api = session_dual (hmac_encryptor (create_by_name lib)) memory_storage limit"
  shows "\<exists>s' age v. se_save api st clk rnd s = (Inr (), s') \<and> (age, v, []) \<in> set (io_out (se_io s'))
    \<and> (\<forall>n. \<not> se_loaded n \<and> se_storage n = se_storage s' \<and> io_cookie (se_io n) = v
         \<longrightarrow> (\<exists>n'. se_load api clk' rnd' n = (Inr True, n') \<and> se_data n' = csrf_data st rnd (is_new s) (se_data s)
               \<and> se_data_copy n' = se_data n' \<and> se_timeout_in n' = t))"
proof -
  have i: "dual_inv (hmac_ok name k) sm_inv (e, m)" using assms(1-4) by (simp add: dual_inv_def hmac_ok_def)
  have c: "\<And>ar. length ar \<le> data_size (se_data s) + 17
      \<Longrightarrow> se_on_server s \<or> limit < length ar \<or> length ar + 8 < 2 ^ 27" using assms(12) by auto
  have le: "\<And>i j. clk i \<le> clk' j" "\<And>j. 0 \<le> clk' j" "\<And>j. clk' j \<le> t" using assms(17,18) by auto
  from hmac_dual.dual.save_next_load [where clk = clk and clk' = clk' and lib = lib,
      OF i assms(5-11) c assms(13-16) le]
  show ?thesis unfolding assms(19) by metis
qed

definition demo_settings :: session_settings where
  "demo_settings = \<lparr>csrf_enable = True, csrf_automatic = True, csrf_exposed = False, ses_timeout = 100,
     ses_expire = ''renew'', cookies_prefix = ''cppcms_session'', cookies_domain = [], cookies_path = ''/'',
     cookies_time_shift = 0, use_age = True, use_exp = True, cookies_secure = False, cookies_httponly = False,
     use_samesite_none = False, use_samesite_lax = False, use_samesite_strict = False, remove_unknown_cookies = True\<rparr>"

definition demo_session :: "'a \<Rightarrow> string \<Rightarrow> 'a session" where
  "demo_session a cookie = (case session_init demo_settings cookie [] (Some a) of
     Inr s \<Rightarrow> s\<lparr>se_loaded := True, se_timeout_val := 100, se_how := 1, se_data := [(''user'', \<lparr>ent_value = ''bob'', ent_exposed = True\<rparr>)]\<rparr>)"

lemma demo_session_eq:
  "demo_session a cookie = \<lparr>se_data = [(''user'', \<lparr>ent_value = ''bob'', ent_exposed = True\<rparr>)], se_data_copy = [],
     se_timeout_val_def = 100, se_how_def = 1, se_timeout_val = 100, se_how = 1, se_timeout_in = 0, se_new_session = False,
     se_saved = False, se_on_server = False, se_loaded = True, se_reset = False, se_csrf_checked = False,
     se_csrf_do_validation = True, se_csrf_validation = True,
     se_io = \<lparr>io_cookie = cookie, io_temp = [], io_out = []\<rparr>, se_cookie_names = [], se_storage = Some a\<rparr>"
  by (simp add: demo_session_def session_init_def demo_settings_def Let_def)

lemma demo_session_ok:
  "is_new (demo_session a cookie)" "data_ok (se_data (demo_session a cookie))" "own_ok (se_data (demo_session a cookie))"
  "data_size (se_data (demo_session a cookie)) = 11"
  "session_age t (to_store st rnd (demo_session a cookie)) = 100 + t"
  by (simp_all add: demo_session_eq is_new_def data_ok_def own_ok_def data_size_def session_age_def to_store_def smap_ok_def)

theorem session_survives_request_witness:
  "let api = session_dual (hmac_encryptor (create_by_name (\<lambda>_. None :: unit message_digest option))) memory_storage 0;
       s = demo_session (\<lparr>hc_key = replicate 16 (CHR ''k''), hc_hash = ''sha1''\<rparr>, session_memory_storage_new) []
   in \<exists>s' v. se_save api demo_settings (\<lambda>_. 50) (replicate 40 (ch 7)) s = (Inr (), s')
        \<and> (\<forall>n. \<not> se_loaded n \<and> se_storage n = se_storage s' \<and> io_cookie (se_io n) = v
             \<longrightarrow> (\<exists>n'. se_load api (\<lambda>_. 60) (replicate 32 (ch 7)) n = (Inr True, n')
                    \<and> se_data n' = csrf_data demo_settings (replicate 40 (ch 7)) True (se_data s)))"
proof -
  let ?e = "\<lparr>hc_key = replicate 16 (CHR ''k''), hc_hash = ''sha1''\<rparr>"
  let ?s = "demo_session (?e, session_memory_storage_new) []"
  have "hmac_cipher_new ''sha1'' (replicate 16 (CHR ''k'')) = Inr ?e" by (simp add: hmac_cipher_new_def Let_def)
  from session_survives_request [OF this, of session_memory_storage_new ?s "replicate 40 (ch 7)" "replicate 32 (ch 7)" 150
      "\<lambda>_. 50" demo_settings "\<lambda>_. 60" _ "\<lambda>_. None :: unit message_digest option" 0, OF _ _ _ _ _ _ _ _ _ _ _ _ _ _ _ _ _ refl]
  have "\<exists>s' age v. se_save (session_dual (hmac_encryptor (create_by_name (\<lambda>_. None :: unit message_digest option))) memory_storage 0)
      demo_settings (\<lambda>_. 50) (replicate 40 (ch 7)) ?s = (Inr (), s') \<and> (age, v, []) \<in> set (io_out (se_io s'))
    \<and> (\<forall>n. \<not> se_loaded n \<and> se_storage n = se_storage s' \<and> io_cookie (se_io n) = v
         \<longrightarrow> (\<exists>n'. se_load (session_dual (hmac_encryptor (create_by_name (\<lambda>_. None :: unit message_digest option))) memory_storage 0)
               (\<lambda>_. 60) (replicate 32 (ch 7)) n = (Inr True, n')
               \<and> se_data n' = csrf_data demo_settings (replicate 40 (ch 7)) (is_new ?s) (se_data ?s)
               \<and> se_data_copy n' = se_data n' \<and> se_timeout_in n' = 150))"
    by (simp add: demo_session_ok sm_inv_new) (simp add: demo_session_eq)
  then show ?thesis unfolding Let_def demo_session_ok(1) eqTrueI [OF demo_session_ok(1)] by blast
qed

definition request_token :: "csrf_request \<Rightarrow> string" where
  "request_token req = (case req_form_tokens req of [t] \<Rightarrow> t | _ \<Rightarrow> req_header_token req)"

lemma csrf_token_length_eq: "6 \<le> length rnd \<Longrightarrow> length (generate_csrf_token rnd) = 8"
  by (simp add: generate_csrf_token_def encode_ptr_length)

lemma validate_post:
  assumes "se_storage n \<noteq> None" "smap_find (se_data n) ''_csrf'' = Some e" "ent_value e \<noteq> []"
    and "\<not> se_csrf_checked n" "se_csrf_validation n" "se_csrf_do_validation n" "req_method req = ''POST''"
  shows "fst (validate_request_origin (Some req) n) = (if request_token req = ent_value e then Inr () else Inl Request_forgery)"
  using assms
  by (auto simp: validate_request_origin_def validate_csrf_token_def se_get_default_def checked_def request_token_def Let_def)

text \<open>
  C29. Requests from other sites are refused.  With the protection enabled a new session gets a token of
  six random bytes in base64; once a later request with the session's cookie has loaded the session, a
  \<^verbatim>\<open>POST\<close> passes the check exactly when the form or, without a single form value, the header carries this
  token, and the check raises \<^verbatim>\<open>request_forgery_error\<close> otherwise.
\<close>

theorem csrf_origin_checked:
  assumes "sm_inv m" "se_storage s = Some m" "se_loaded s" "\<not> se_saved s" "se_data s \<noteq> []" "is_new s" "csrf_enable st"
    and "data_ok (se_data s)" "own_ok (se_data s)" "38 \<le> length rnd" "32 \<le> length rnd'"
    and "t = session_age (clk 1) (to_store st rnd s)" "t < 2 ^ 63" "\<forall>i j. clk i \<le> clk' j" "\<forall>j. 0 \<le> clk' j \<and> clk' j \<le> t"
  shows "\<exists>s' age v. se_save (session_sid memory_storage) st clk rnd s = (Inr (), s') \<and> (age, v, []) \<in> set (io_out (se_io s'))
    \<and> (\<forall>n req. \<not> se_loaded n \<and> se_storage n = se_storage s' \<and> io_cookie (se_io n) = v \<and> \<not> se_csrf_checked n
           \<and> se_csrf_validation n \<and> se_csrf_do_validation n \<and> req_method req = ''POST''
         \<longrightarrow> (\<exists>n'. se_load (session_sid memory_storage) clk' rnd' n = (Inr True, n')
               \<and> fst (validate_request_origin (Some req) n')
                 = (if request_token req = generate_csrf_token rnd then Inr () else Inl Request_forgery)))"
proof -
  have le: "\<And>i j. clk i \<le> clk' j" "\<And>j. 0 \<le> clk' j" "\<And>j. clk' j \<le> t" using assms(14,15) by auto
  have tok: "\<exists>e. smap_find (csrf_data st rnd (is_new s) (se_data s)) ''_csrf'' = Some e \<and> ent_value e = generate_csrf_token rnd"
    using assms(6,7) by (simp add: csrf_data_def smap_find_put)
  have ne: "generate_csrf_token rnd \<noteq> []" using assms(10) csrf_token_length_eq [of rnd] by auto
  from mem_storage.sid.save_next_load [where clk = clk and clk' = clk', OF assms(1-5) disjI2 [OF assms(6)] assms(8,9) TrueI
      assms(10-13) le]
  obtain s' age v a' where r: "se_save (session_sid memory_storage) st clk rnd s = (Inr (), s')"
    "(age, v, []) \<in> set (io_out (se_io s'))" "se_storage s' = Some a'"
    and l: "\<And>n. \<not> se_loaded n \<and> se_storage n = Some a' \<and> io_cookie (se_io n) = v
         \<Longrightarrow> (\<exists>n'. se_load (session_sid memory_storage) clk' rnd' n = (Inr True, n') \<and> se_data n' = csrf_data st rnd (is_new s) (se_data s)
               \<and> se_data_copy n' = se_data n' \<and> se_timeout_in n' = t \<and> se_csrf_checked n' = se_csrf_checked n
               \<and> se_csrf_validation n' = se_csrf_validation n \<and> se_csrf_do_validation n' = se_csrf_do_validation n
               \<and> se_storage n' \<noteq> None)" by blast
  have "\<exists>n'. se_load (session_sid memory_storage) clk' rnd' n = (Inr True, n') \<and> fst (validate_request_origin (Some req) n')
                 = (if request_token req = generate_csrf_token rnd then Inr () else Inl Request_forgery)"
    if "\<not> se_loaded n" "se_storage n = se_storage s'" "io_cookie (se_io n) = v" "\<not> se_csrf_checked n"
      "se_csrf_validation n" "se_csrf_do_validation n" "req_method req = ''POST''" for n req
  proof -
    from l [of n] that(1-3) r(3) obtain n' where n': "se_load (session_sid memory_storage) clk' rnd' n = (Inr True, n')"
      "se_data n' = csrf_data st rnd (is_new s) (se_data s)" "se_csrf_checked n' = se_csrf_checked n"
      "se_csrf_validation n' = se_csrf_validation n" "se_csrf_do_validation n' = se_csrf_do_validation n" "se_storage n' \<noteq> None" by auto
    obtain e where e: "smap_find (se_data n') ''_csrf'' = Some e" "ent_value e = generate_csrf_token rnd" using tok n'(2) by auto
    from validate_post [OF n'(6) e(1), of req] e(2) ne n'(3-5) that(4-7)
    have "fst (validate_request_origin (Some req) n')
        = (if request_token req = generate_csrf_token rnd then Inr () else Inl Request_forgery)" by simp
    with n'(1) show ?thesis by blast
  qed
  with r(1,2) show ?thesis by blast
qed

theorem csrf_origin_checked_witness:
  "\<exists>s' v. se_save (session_sid memory_storage) demo_settings (\<lambda>_. 50) (replicate 40 (ch 7))
        (demo_session session_memory_storage_new []) = (Inr (), s')
     \<and> (\<forall>n. \<not> se_loaded n \<and> se_storage n = se_storage s' \<and> io_cookie (se_io n) = v \<and> \<not> se_csrf_checked n
           \<and> se_csrf_validation n \<and> se_csrf_do_validation n
         \<longrightarrow> (\<exists>n'. se_load (session_sid memory_storage) (\<lambda>_. 60) (replicate 32 (ch 7)) n = (Inr True, n')
               \<and> fst (validate_request_origin (Some \<lparr>req_method = ''POST'', req_form_tokens = [], req_header_token = ''x''\<rparr>) n')
                 = Inl Request_forgery))"
proof -
  let ?s = "demo_session session_memory_storage_new []" and ?r = "replicate 40 (ch 7)"
  let ?q = "\<lparr>req_method = ''POST'', req_form_tokens = [], req_header_token = ''x''\<rparr>"
  have "length (request_token ?q) \<noteq> length (generate_csrf_token ?r)"
    using csrf_token_length_eq [of ?r] by (simp add: request_token_def)
  then have ne: "request_token ?q \<noteq> generate_csrf_token ?r" by auto
  have h: "se_storage ?s = Some session_memory_storage_new" "se_loaded ?s" "\<not> se_saved ?s" "se_data ?s \<noteq> []" "csrf_enable demo_settings"
    by (simp_all add: demo_session_eq demo_settings_def)
  have t: "150 = session_age 50 (to_store demo_settings ?r ?s)" by (simp add: demo_session_ok)
  obtain s' age v where r: "se_save (session_sid memory_storage) demo_settings (\<lambda>_. 50) ?r ?s = (Inr (), s')"
    and l: "\<forall>n req. \<not> se_loaded n \<and> se_storage n = se_storage s' \<and> io_cookie (se_io n) = v \<and> \<not> se_csrf_checked n
           \<and> se_csrf_validation n \<and> se_csrf_do_validation n \<and> req_method req = ''POST''
         \<longrightarrow> (\<exists>n'. se_load (session_sid memory_storage) (\<lambda>_. 60) (replicate 32 (ch 7)) n = (Inr True, n')
               \<and> fst (validate_request_origin (Some req) n')
                 = (if request_token req = generate_csrf_token ?r then Inr () else Inl Request_forgery))"
    using csrf_origin_checked [where clk = "\<lambda>_. 50" and clk' = "\<lambda>_. 60" and rnd = ?r and rnd' = "replicate 32 (ch 7)",
        OF sm_inv_new h(1-4) demo_session_ok(1) h(5) demo_session_ok(2,3) _ _ t] by auto
  have "\<exists>n'. se_load (session_sid memory_storage) (\<lambda>_. 60) (replicate 32 (ch 7)) n = (Inr True, n')
      \<and> fst (validate_request_origin (Some ?q) n') = Inl Request_forgery"
    if "\<not> se_loaded n \<and> se_storage n = se_storage s' \<and> io_cookie (se_io n) = v \<and> \<not> se_csrf_checked n
           \<and> se_csrf_validation n \<and> se_csrf_do_validation n" for n
    using l [THEN spec, of n, THEN spec, of ?q] that ne by simp
  with r show ?thesis by blast
qed

text \<open>
  C30. A client cannot choose the identifier of a session.  When a new session is saved on the server,
  whatever session cookie the request carried, the response's cookie has sixteen fresh random bytes in
  hexadecimal, and the identifier of the request names no session any more.
\<close>

theorem session_id_not_fixed:
  assumes "sm_inv m" "se_storage s = Some m" "se_loaded s" "\<not> se_saved s" "se_data s \<noteq> []" "is_new s"
    and "data_ok (se_data s)" "own_ok (se_data s)" "\<forall>i j. clk i \<le> clk' j"
  shows "\<exists>s' age. se_save (session_sid memory_storage) st clk rnd s = (Inr (), s')
    \<and> (age, ''I'' @ tohex (take 16 (drop 6 rnd)), []) \<in> set (io_out (se_io s'))
    \<and> (io_cookie (se_io s) \<noteq> ''I'' @ tohex (take 16 (drop 6 rnd))
       \<longrightarrow> (\<forall>n. \<not> se_loaded n \<and> se_storage n = se_storage s' \<and> io_cookie (se_io n) = io_cookie (se_io s)
            \<longrightarrow> fst (se_load (session_sid memory_storage) clk' rnd' n) = Inr False))"
proof -
  let ?s = "to_store st rnd s" and ?rnd = "drop 6 rnd" and ?new = "''I'' @ tohex (take 16 (drop 6 rnd))"
  obtain ar where ar: "save_data (se_data ?s) = Inr ar"
    using load_save_data [of "[]" "se_data ?s"] csrf_data_ok(1) [OF assms(7,8)] by (auto simp: data_ok_def to_store_def)
  obtain io' m' where sv: "sid_save memory_storage (\<lambda>n. clk (n + 2)) ?rnd ar (session_age (clk 1) ?s) True
      (set_temp_cookie [] (se_io s), m) = (io', m')" by (metis surj_pair)
  have tmp: "io_temp io' = ?new"
    using sv by (auto simp: sid_save_def get_new_sid_def set_temp_cookie_def split: option.splits)
  have n: "se_new_session ?s" "se_io ?s = se_io s" using assms(6) by (simp_all add: to_store_def)
  have save: "\<exists>s' age. se_save (session_sid memory_storage) st clk rnd s = (Inr (), s') \<and> se_storage s' = Some m'
      \<and> (age, ?new, []) \<in> set (io_out (se_io s'))"
    using sv ar n tmp unfolding se_save_changed [OF assms(2-5) disjI2 [OF assms(6)]]
    by (auto simp: se_store_def session_sid_def Let_def update_exposed_eq se_emit_def emit_cookie_def set_temp_cookie_def)
  have c: "\<And>i j. clk (i + 2) \<le> clk' j" using assms(9) by blast
  have "fst (se_load (session_sid memory_storage) clk' rnd' n) = Inr False"
    if "io_cookie (se_io s) \<noteq> ?new" "\<not> se_loaded n" "se_storage n = Some m'" "io_cookie (se_io n) = io_cookie (se_io s)" for n
    using sid_old_gone [where clk = "\<lambda>n. clk (n + 2)" and clk' = clk', OF assms(1) c sv, of "se_io n"] that tmp
    by (simp add: se_load_def session_sid_def set_temp_cookie_def)
  with save show ?thesis by metis
qed

theorem session_id_not_fixed_witness:
  "\<exists>s' age. se_save (session_sid memory_storage) demo_settings (\<lambda>_. 50) (replicate 40 (ch 7))
       (demo_session session_memory_storage_new (''I'' @ replicate 32 (CHR ''a''))) = (Inr (), s')
     \<and> (age, ''I'' @ tohex (replicate 16 (ch 7)), []) \<in> set (io_out (se_io s'))"
proof -
  let ?s = "demo_session session_memory_storage_new (''I'' @ replicate 32 (CHR ''a''))"
  have h: "se_storage ?s = Some session_memory_storage_new" "se_loaded ?s" "\<not> se_saved ?s" "se_data ?s \<noteq> []"
    by (simp_all add: demo_session_eq)
  have r: "take 16 (drop 6 (replicate 40 (ch 7))) = replicate 16 (ch 7)" by simp
  show ?thesis
    using session_id_not_fixed [where clk = "\<lambda>_. 50" and clk' = "\<lambda>_. 60" and rnd = "replicate 40 (ch 7)" and rnd' = "[]"
        and st = demo_settings, OF sm_inv_new h demo_session_ok(1,2,3), unfolded r] by fastforce
qed

text \<open>
  The cookies of a browser that belong to exposed values, by key: each call of \<^verbatim>\<open>set_session_cookie\<close> sets
  the cookie of its key, or removes it when the value is empty or the age is negative.
\<close>

definition jar_step :: "int \<times> string \<times> string \<Rightarrow> (string \<Rightarrow> string option) \<Rightarrow> string \<Rightarrow> string option" where
  "jar_step = (\<lambda>(age, data, key) jar. jar(key := if data = [] \<or> age < 0 then None else Some data))"

definition exposed_of :: "data_type \<Rightarrow> string \<Rightarrow> string option" where
  "exposed_of d k = (case smap_find d k of
     Some e \<Rightarrow> if ent_exposed e \<and> ent_value e \<noteq> [] then Some (ent_value e) else None | None \<Rightarrow> None)"

lemma jar_fold_other: "k \<notin> (snd \<circ> snd) ` set cs \<Longrightarrow> fold jar_step cs jar k = jar k"
  by (induction cs arbitrary: jar) (auto simp: jar_step_def)

lemma jar_fold_agree:
  assumes "k \<in> (snd \<circ> snd) ` set cs" "\<And>age d. (age, d, k) \<in> set cs \<Longrightarrow> (if d = [] \<or> age < 0 then None else Some d) = v"
  shows "fold jar_step cs jar k = v"
  using assms
proof (induction cs arbitrary: jar)
  case (Cons c cs)
  show ?case
  proof (cases "k \<in> (snd \<circ> snd) ` set cs")
    case False
    with Cons.prems(1) obtain age d where "c = (age, d, k)" by (cases c) auto
    moreover have "fold jar_step (c # cs) jar k = jar_step c jar k" using jar_fold_other [OF False] by simp
    ultimately show ?thesis using Cons.prems(2) [of age d] by (simp add: jar_step_def)
  next
    case True
    with Cons show ?thesis by simp
  qed
qed simp

lemma removed_keys_set:
  "fst ` set (removed_keys st force s) =
     {k. \<exists>e. (k, e) \<in> set (se_data s) \<and> to_hide force (se_data_copy s) (k, e)}
     \<union> {k. \<exists>e. (k, e) \<in> set (se_data_copy s) \<and> ent_exposed e \<and> smap_find (se_data s) k = None}
     \<union> set (unknown_keys st (se_data s) (se_cookie_names s))"
proof -
  have "smap_ok m \<Longrightarrow> fst ` set (fold (\<lambda>k. smap_put k ()) ks m) = set ks \<union> fst ` set m"
    for ks :: "string list" and m
  proof (induction ks arbitrary: m)
    case (Cons k ks)
    have "fst ` set (smap_put k () m) = insert k (fst ` set m)" using set_smap_put [OF Cons.prems] by force
    with Cons smap_ok_put [of m k] show ?case by auto
  qed simp
  note keys = this [of "[]"]
  have f: "set (map fst (filter P m)) = {k. \<exists>e. (k, e) \<in> set m \<and> P (k, e)}" for P and m :: data_type by force
  show ?thesis unfolding removed_keys_def keys [OF smap_ok_Nil] set_append f by simp blast
qed

lemma enumerate_calls:
  fixes xs :: "(string \<times> entry) list"
  shows "(snd \<circ> snd) ` set (map (\<lambda>(i, k, e). (f i, ent_value e, k)) (enumerate n xs)) = fst ` set xs"
    "(age, d, k) \<in> set (map (\<lambda>(i, k, e). (f i, ent_value e, k)) (enumerate n xs))
      \<Longrightarrow> \<exists>e i. (k, e) \<in> set xs \<and> d = ent_value e \<and> age = f i"
proof -
  show "(snd \<circ> snd) ` set (map (\<lambda>(i, k, e). (f i, ent_value e, k)) (enumerate n xs)) = fst ` set xs"
    by (induction xs arbitrary: n) (simp_all add: case_prod_unfold)
  show "(age, d, k) \<in> set (map (\<lambda>(i, k, e). (f i, ent_value e, k)) (enumerate n xs))
      \<Longrightarrow> \<exists>e i. (k, e) \<in> set xs \<and> d = ent_value e \<and> age = f i"
  proof (induction xs arbitrary: n)
    case (Cons x xs)
    then show ?case by (cases x) (simp, elim disjE, blast+)
  qed simp
qed



text \<open>
  When an unchanged session is written again.  A session that was loaded and not changed is left
  alone when it has a fixed age, and also when it is renewed and less than a tenth of its age has passed
  since it was written; otherwise it is stored again with the full age from now.
\<close>

theorem session_renewal:
  assumes "se_storage s = Some a" "se_loaded s" "\<not> se_saved s" "se_data s \<noteq> []" "se_data s = se_data_copy s" "\<not> se_reset s"
    and "se_how s \<in> {0, 1, 2}"
  shows "se_save api st clk rnd s =
    (let s' = s\<lparr>se_new_session := False\<rparr>
     in if se_how s = 0 \<or> 10 * (clk 0 - (se_timeout_in s - se_timeout_val s)) < se_timeout_val s then (Inr (), s')
        else se_store api st clk (drop 6 rnd) True a s')
    \<and> (se_how s \<noteq> 0 \<longrightarrow> session_age (clk 1) (s\<lparr>se_new_session := False\<rparr>) = se_timeout_val s + clk 1)"
proof -
  let ?s = "s\<lparr>se_new_session := False\<rparr>"
  have n: "\<not> is_new s" using assms(4-6) by (simp add: is_new_def)
  have "add_csrf_token st rnd ?s = ?s" by (simp add: add_csrf_token_def)
  moreover have "no_renew (clk 0) ?s \<longleftrightarrow> 10 * (clk 0 - (se_timeout_in s - se_timeout_val s)) < se_timeout_val s"
    unfolding no_renew_def by (simp add: algebra_simps)
  ultimately have "se_save api st clk rnd s =
    (let s' = ?s
     in if se_how s = 0 \<or> 10 * (clk 0 - (se_timeout_in s - se_timeout_val s)) < se_timeout_val s then (Inr (), s')
        else se_store api st clk (drop 6 rnd) True a s')"
    using assms n unfolding se_save_def Let_def is_new_def [symmetric] by auto
  then show ?thesis using assms(7) by (auto simp: session_age_def)
qed

theorem session_renewal_witness:
  "se_save (session_sid memory_storage) demo_settings (\<lambda>_. 105) []
      ((demo_session session_memory_storage_new [])\<lparr>se_data_copy := se_data (demo_session session_memory_storage_new []), se_timeout_in := 200\<rparr>)
     = (Inr (), (demo_session session_memory_storage_new [])\<lparr>se_data_copy := se_data (demo_session session_memory_storage_new []), se_timeout_in := 200\<rparr>)"
  using session_renewal [of "(demo_session session_memory_storage_new [])\<lparr>se_data_copy := se_data (demo_session session_memory_storage_new []), se_timeout_in := 200\<rparr>" session_memory_storage_new
      "session_sid memory_storage" demo_settings "\<lambda>_. 105" "[]"]
  by (simp add: demo_session_eq)

text \<open>\<^verbatim>\<open>get_session_cookie\<close> on the \<^verbatim>\<open>Cookie\<close> header of the request.\<close>

definition get_session_cookie :: "session_settings \<Rightarrow> string \<Rightarrow> string" where
  "get_session_cookie st header =
     (case smap_find (parse_cookies header) (cookies_prefix st) of None \<Rightarrow> [] | Some c \<Rightarrow> ck_value c)"

lemma urlencode_safe: "list_all url_safe v \<Longrightarrow> urlencode v = v"
  by (induction v) simp_all

lemma safe_chars: "b64_char c \<Longrightarrow> url_safe c" "low_xdigit c \<Longrightarrow> url_safe c" "url_safe c \<Longrightarrow> tchar c"
proof -
  have "\<forall>c \<in> set encode_6_to_8. url_safe c" by code_simp
  moreover have sep: "\<forall>c \<in> set [CHR ''('', CHR '')'', CHR ''<'', CHR ''>'', CHR ''@'', CHR '','', CHR '';'', CHR '':'', BSLASH, DQUOTE,
      CHR ''/'', CHR ''['', CHR '']'', CHR ''?'', CHR ''='', CHR ''{'', CHR ''}'', CHR '' '', TAB]. \<not> url_safe c" by code_simp
  moreover have n: "sc CHR ''0'' = 48" "sc CHR ''9'' = 57" "sc CHR ''a'' = 97" "sc CHR ''f'' = 102" "sc CHR ''z'' = 122"
    "sc CHR ''A'' = 65" "sc CHR ''Z'' = 90" "\<forall>c \<in> set ''-_.~''. 32 \<le> sc c \<and> sc c \<le> 126" by code_simp+
  moreover have "low_xdigit c \<longrightarrow> url_safe c" unfolding low_xdigit_def url_safe_def n(1-7) by linarith
  moreover have "url_safe c \<longrightarrow> 32 \<le> sc c \<and> sc c \<le> 126" unfolding url_safe_def n(1-7) using n(8) by auto
  ultimately have "(b64_char c \<longrightarrow> url_safe c) \<and> (low_xdigit c \<longrightarrow> url_safe c) \<and> (url_safe c \<longrightarrow> tchar c)"
    unfolding b64_char_def tchar_def separator_def by blast
  then show "b64_char c \<Longrightarrow> url_safe c" "low_xdigit c \<Longrightarrow> url_safe c" "url_safe c \<Longrightarrow> tchar c" by auto
qed

text \<open>The two forms of session cookies.\<close>

definition session_token :: "string \<Rightarrow> bool" where
  "session_token v \<longleftrightarrow> valid_sid v \<noteq> None \<or> (\<exists>c. v = ''C'' @ b64_encode c \<and> length c < 2 ^ 30)"

lemma session_token_safe: "session_token v \<Longrightarrow> list_all url_safe v"
proof -
  have l: "url_safe (CHR ''I'')" "url_safe (CHR ''C'')" by code_simp+
  have "list_all url_safe v" if v: "valid_sid v \<noteq> None"
  proof -
    from v obtain sid where "valid_sid v = Some sid" by blast
    then have "v = ''I'' @ sid" by (rule valid_sid_same)
    moreover have "list_all low_xdigit (drop 1 v)" using v unfolding valid_sid_def by (metis (no_types, lifting))
    ultimately show ?thesis using l(1) safe_chars(2) by (auto simp: list_all_iff)
  qed
  then show "session_token v \<Longrightarrow> ?thesis"
    using l(2) safe_chars(1) encode_ptr_chars by (auto simp: session_token_def list_all_iff b64_encode_eq)
qed

lemma session_cookie_token:
  assumes "session_token v"
  shows "ck_value (session_cookie st now (age, v, [])) = v \<and> list_all tchar v"
proof
  show "ck_value (session_cookie st now (age, v, [])) = v"
    using urlencode_safe [OF session_token_safe [OF assms]]
    by (simp add: session_cookie_def Let_def cookie_full_def cookie_max_age_def cookie_expires_def cookie_browser_age_def
        cookie_samesite_none_def cookie_samesite_lax_def cookie_samesite_strict_def)
  show "list_all tchar v" using session_token_safe [OF assms] safe_chars(3) by (auto simp: list_all_iff)
qed

lemma session_cookie_read:
  assumes "session_token v" "list_all cookie_pair_ok (before @ (cookies_prefix st, []) # behind)"
    and "cookies_prefix st \<notin> fst ` set before"
  shows "get_session_cookie st (cookie_header
      (before @ (cookies_prefix st, ck_value (session_cookie st now (age, v, []))) # behind)) = v"
proof -
  have u: "ck_value (session_cookie st now (age, v, [])) = v" and "list_all tchar v"
    using session_cookie_token [OF assms(1)] by auto
  then have ok: "list_all cookie_pair_ok (before @ (cookies_prefix st, v) # behind)"
    using assms(2) by (simp add: cookie_pair_ok_def)
  have "map_of (before @ (cookies_prefix st, v) # behind) (cookies_prefix st) = Some v"
    using assms(3) map_of_eq_None_iff [of before "cookies_prefix st"] by (simp add: map_add_def)
  with parse_cookies_find [OF ok, of "cookies_prefix st"]
  have "map_option ck_value (smap_find (parse_cookies (cookie_header (before @ (cookies_prefix st, v) # behind))) (cookies_prefix st))
    = Some v" by (rule trans)
  then show ?thesis unfolding u by (auto simp: get_session_cookie_def split: option.split)
qed

text \<open>
  The session cookie arrives as it was set.  The value is encoded for the cookie header when it is
  sent and never decoded when it is read; this is right because the tokens of both back ends, an
  identifier in hexadecimal and a message in URL base64, need no encoding: for every such token the next
  request, whose header has the cookie among others, reads the token itself.
\<close>

theorem session_cookie_travels:
  assumes "session_token v" "list_all cookie_pair_ok (before @ (cookies_prefix st, []) # behind)"
    and "cookies_prefix st \<notin> fst ` set before"
  shows "get_session_cookie st (cookie_header
      (before @ (cookies_prefix st, ck_value (session_cookie st now (age, v, []))) # behind)) = v"
  using session_cookie_read [OF assms] .

theorem session_cookie_travels_witness:
  "get_session_cookie demo_settings (cookie_header [(''lang'', ''en''),
      (''cppcms_session'', ck_value (session_cookie demo_settings 0 (100, ''I'' @ get_new_sid (replicate 16 (ch 7)), [])))])
    = ''I'' @ get_new_sid (replicate 16 (ch 7))"
proof -
  have p: "cookies_prefix demo_settings = ''cppcms_session''" by (simp add: demo_settings_def)
  have "list_all cookie_pair_ok ([(''lang'', ''en'')] @ (''cppcms_session'', []) # [])" by code_simp
  moreover have "session_token (''I'' @ get_new_sid (replicate 16 (ch 7)))" using valid_sid_new [of "replicate 32 (ch 7)"] by (simp add: session_token_def get_new_sid_def)
  ultimately show ?thesis
    using session_cookie_travels [of "''I'' @ get_new_sid (replicate 16 (ch 7))" "[(''lang'', ''en'')]" demo_settings "[]" 0 100]
    by (simp add: p)
qed

end
