(* ===== verification/String_Map.thy ===== *)
theory String_Map
  imports Prelude "HOL-Library.Multiset"
begin

text \<open>
  \<^verbatim>\<open>private/string_map.h\<close>: the hash table that holds the CGI variables of a request, with open addressing,
  linear probing and a linked list through the slots for iteration, and the hash function it shares
  with \<^verbatim>\<open>private/hash_map.h\<close>.  A C string is the list of its characters in front of the terminating zero.
  The probing loops may run forever on a full table, so they are partial functions; the invariant shows
  that the table never gets full.
\<close>

section \<open>The table\<close>

definition update_state :: "32 word \<Rightarrow> char \<Rightarrow> 32 word" where
  "update_state v c =
     (let v1 = push_bit 4 v + of_nat (uc c); high = v1 AND 0xF0000000
      in if high \<noteq> 0 then (v1 XOR drop_bit 24 high) XOR high else v1)"

definition calc_hash :: "string \<Rightarrow> 32 word" where
  "calc_hash key = foldl update_state 0 key"

text \<open>A slot; \<open>None\<close> is the null key of a free one.\<close>

record map_entry =
  me_key :: "string option"
  me_value :: string
  me_hash :: "32 word"
  me_next :: int

definition entry_empty :: map_entry where
  "entry_empty = \<lparr>me_key = None, me_value = [], me_hash = 0, me_next = 0\<rparr>"

definition entry_of :: "string \<Rightarrow> string \<Rightarrow> map_entry" where
  "entry_of k v = \<lparr>me_key = Some k, me_value = v, me_hash = calc_hash k, me_next = 0\<rparr>"

record string_map =
  mp_first :: int
  mp_total :: nat
  mp_data :: "map_entry list"

definition string_map_new :: string_map where
  "string_map_new = \<lparr>mp_first = -1, mp_total = 0, mp_data = replicate 64 entry_empty\<rparr>"

text \<open>The loop \<^verbatim>\<open>while(...) pos = (pos + 1) % size\<close>, which ends at a slot with the property \<open>P\<close>.\<close>

partial_function (option) probe :: "(map_entry \<Rightarrow> bool) \<Rightarrow> map_entry list \<Rightarrow> nat \<Rightarrow> nat option" where
  "probe P d pos = (if P (d ! pos) then Some pos else probe P d ((pos + 1) mod length d))"

definition home_slot :: "32 word \<Rightarrow> map_entry list \<Rightarrow> nat" where
  "home_slot h d = unat h mod length d"

definition map_insert :: "map_entry list \<Rightarrow> map_entry \<Rightarrow> int \<Rightarrow> (map_entry list \<times> int) option" where
  "map_insert d e first =
     (case probe (\<lambda>x. me_key x = None) d (home_slot (me_hash e) d) of
        None \<Rightarrow> None
      | Some pos \<Rightarrow> Some (d[pos := e\<lparr>me_next := first\<rparr>], int pos))"

text \<open>The entries from \<^verbatim>\<open>begin()\<close> to \<^verbatim>\<open>end()\<close>.\<close>

partial_function (option) map_iterate :: "map_entry list \<Rightarrow> int \<Rightarrow> map_entry list option" where
  "map_iterate d current =
     (if current = -1 then Some []
      else Option.bind (map_iterate d (me_next (d ! nat current))) (\<lambda>r. Some (d ! nat current # r)))"

declare probe.simps [code] map_iterate.simps [code]

fun map_rehash :: "map_entry list \<Rightarrow> map_entry list \<times> int \<Rightarrow> (map_entry list \<times> int) option" where
  "map_rehash [] r = Some r"
| "map_rehash (e # es) (d, first) =
     (case map_insert d e first of None \<Rightarrow> None | Some r \<Rightarrow> map_rehash es r)"

definition map_add :: "string \<Rightarrow> string \<Rightarrow> string_map \<Rightarrow> string_map option" where
  "map_add key v m =
     (case (if mp_total m * 2 \<ge> length (mp_data m)
            then (case map_iterate (mp_data m) (mp_first m) of
                    None \<Rightarrow> None
                  | Some es \<Rightarrow> map_rehash es (replicate (length (mp_data m) * 2) entry_empty, -1))
            else Some (mp_data m, mp_first m)) of
        None \<Rightarrow> None
      | Some (d, first) \<Rightarrow>
          (case map_insert d (entry_of key v) first of
             None \<Rightarrow> None
           | Some (d', first') \<Rightarrow> Some \<lparr>mp_first = first', mp_total = mp_total m + 1, mp_data = d'\<rparr>))"

definition entry_eq :: "map_entry \<Rightarrow> map_entry \<Rightarrow> bool" where
  "entry_eq a b \<longleftrightarrow> me_hash a = me_hash b \<and> me_key a = me_key b"

definition map_get :: "string \<Rightarrow> string_map \<Rightarrow> string option option" where
  "map_get key m =
     (let e = entry_of key []; d = mp_data m
      in case probe (\<lambda>x. me_key x = None \<or> entry_eq x e) d (home_slot (me_hash e) d) of
           None \<Rightarrow> None
         | Some pos \<Rightarrow> Some (if me_key (d ! pos) = None then None else Some (me_value (d ! pos))))"

definition map_get_safe :: "string \<Rightarrow> string_map \<Rightarrow> string option" where
  "map_get_safe key m = map_option (\<lambda>r. case r of None \<Rightarrow> [] | Some v \<Rightarrow> v) (map_get key m)"

section \<open>Probing\<close>

lemma probe_Some:
  assumes "pos < length d" "\<And>j. j < i \<Longrightarrow> \<not> P (d ! ((pos + j) mod length d))" "P (d ! ((pos + i) mod length d))"
  shows "probe P d pos = Some ((pos + i) mod length d)"
  using assms
proof (induction i arbitrary: pos)
  case 0
  then show ?case by (subst probe.simps) simp
next
  case (Suc i)
  let ?n = "length d" and ?q = "(pos + 1) mod length d"
  have n: "0 < ?n" using Suc.prems(1) by linarith
  have shift: "(?q + j) mod ?n = (pos + Suc j) mod ?n" for j by (simp add: mod_simps)
  have "probe P d ?q = Some ((?q + i) mod ?n)"
  proof (rule Suc.IH)
    show "?q < ?n" using n by simp
    show "\<not> P (d ! ((?q + j) mod ?n))" if "j < i" for j using Suc.prems(2) [of "Suc j"] that unfolding shift by simp
    show "P (d ! ((?q + i) mod ?n))" using Suc.prems(3) unfolding shift .
  qed
  moreover have "\<not> P (d ! pos)" using Suc.prems(2) [of 0] Suc.prems(1) by simp
  ultimately show ?case using shift [of i] by (subst probe.simps) simp
qed

text \<open>A slot with the property on the circle is found, and the slots in front of it lack the property.\<close>

lemma probe_finds:
  assumes "pos < length d" "p < length d" "P (d ! p)"
  obtains i where "probe P d pos = Some ((pos + i) mod length d)" "P (d ! ((pos + i) mod length d))"
    "\<And>j. j < i \<Longrightarrow> \<not> P (d ! ((pos + j) mod length d))"
proof -
  let ?n = "length d" and ?i0 = "(p + length d - pos) mod length d"
  have "(pos + ?i0) mod ?n = p"
    using assms(1,2) by (simp add: mod_simps)
  with assms(3) have ex: "\<exists>i. P (d ! ((pos + i) mod ?n))" by metis
  define i where "i = (LEAST i. P (d ! ((pos + i) mod ?n)))"
  have 1: "P (d ! ((pos + i) mod ?n))" unfolding i_def using ex by (rule LeastI_ex)
  have 2: "\<And>j. j < i \<Longrightarrow> \<not> P (d ! ((pos + j) mod ?n))" unfolding i_def by (rule not_less_Least)
  show ?thesis using that probe_Some [where P = P and i = i, OF assms(1) 2 1] 1 2 by blast
qed

section \<open>The invariant\<close>

text \<open>\<open>chain d first ps\<close>: the slots \<open>ps\<close> are linked from \<open>first\<close> on.\<close>

fun chain :: "map_entry list \<Rightarrow> int \<Rightarrow> nat list \<Rightarrow> bool" where
  "chain d f [] \<longleftrightarrow> f = -1"
| "chain d f (p # ps) \<longleftrightarrow> f = int p \<and> p < length d \<and> chain d (me_next (d ! p)) ps"

definition kv :: "map_entry \<Rightarrow> string \<times> string" where
  "kv e = (the (me_key e), me_value e)"

text \<open>
  The slots in use are those of the chain; every entry carries the hash of its key and all slots from
  its home to its own are in use, so that probing meets it.
\<close>

definition table_ok :: "map_entry list \<Rightarrow> int \<Rightarrow> nat list \<Rightarrow> bool" where
  "table_ok d f ps \<longleftrightarrow> 0 < length d \<and> chain d f ps \<and> distinct ps
     \<and> (\<forall>p < length d. p \<in> set ps \<longleftrightarrow> me_key (d ! p) \<noteq> None)
     \<and> (\<forall>p \<in> set ps. (\<exists>k. me_key (d ! p) = Some k \<and> me_hash (d ! p) = calc_hash k)
          \<and> (\<exists>i. p = (home_slot (me_hash (d ! p)) d + i) mod length d
               \<and> (\<forall>j < i. me_key (d ! ((home_slot (me_hash (d ! p)) d + j) mod length d)) \<noteq> None)))"

definition map_inv :: "string_map \<Rightarrow> nat list \<Rightarrow> bool" where
  "map_inv m ps \<longleftrightarrow> table_ok (mp_data m) (mp_first m) ps \<and> mp_total m = length ps
     \<and> 2 * mp_total m \<le> length (mp_data m) \<and> even (length (mp_data m))"

lemma chain_less: "chain d f ps \<Longrightarrow> p \<in> set ps \<Longrightarrow> p < length d"
  by (induction ps arbitrary: f) auto

lemma chain_update: "chain d f ps \<Longrightarrow> p \<notin> set ps \<Longrightarrow> chain (d[p := e]) f ps"
  by (induction ps arbitrary: f) auto

lemma iterate_chain: "chain d f ps \<Longrightarrow> map_iterate d f = Some (map ((!) d) ps)"
  by (induction ps arbitrary: f) (subst map_iterate.simps; simp)+

lemma table_ok_empty: "0 < n \<Longrightarrow> table_ok (replicate n entry_empty) (-1) []"
  by (simp add: table_ok_def entry_empty_def)

lemma home_slot_less: "0 < length d \<Longrightarrow> home_slot h d < length d"
  by (simp add: home_slot_def)

lemma home_slot_update [simp]: "home_slot h (d[p := e]) = home_slot h d"
  by (simp add: home_slot_def)

lemma free_slot:
  assumes "chain d f ps" "distinct ps" "\<forall>p < length d. p \<in> set ps \<longleftrightarrow> me_key (d ! p) \<noteq> None" "length ps < length d"
  shows "\<exists>p < length d. me_key (d ! p) = None"
proof -
  have "set ps \<subseteq> {..<length d}" using chain_less [OF assms(1)] by auto
  moreover have "card (set ps) < card {..<length d}" using assms(2,4) by (simp add: distinct_card)
  ultimately have "\<not> {..<length d} \<subseteq> set ps" using card_mono [OF finite_set, of "{..<length d}" ps] by linarith
  then obtain p where "p < length d" "p \<notin> set ps" by auto
  with assms(3) show ?thesis by auto
qed

lemma map_insert_ok:
  assumes "table_ok d f ps" "length ps < length d" "me_key e = Some k" "me_hash e = calc_hash k"
  obtains d' p where "map_insert d e f = Some (d', int p)" "table_ok d' (int p) (p # ps)" "length d' = length d"
    "map kv (map ((!) d') (p # ps)) = kv e # map kv (map ((!) d) ps)"
proof -
  let ?n = "length d" and ?h = "home_slot (me_hash e) d"
  have t: "0 < ?n" "chain d f ps" "distinct ps" "\<forall>p < ?n. p \<in> set ps \<longleftrightarrow> me_key (d ! p) \<noteq> None"
    using assms(1) by (auto simp: table_ok_def)
  obtain p0 where p0: "p0 < ?n" "me_key (d ! p0) = None" using free_slot [OF t(2-4) assms(2)] by blast
  obtain i where i: "probe (\<lambda>x. me_key x = None) d ?h = Some ((?h + i) mod ?n)" "me_key (d ! ((?h + i) mod ?n)) = None"
    "\<And>j. j < i \<Longrightarrow> me_key (d ! ((?h + j) mod ?n)) \<noteq> None"
    using probe_finds [where P = "\<lambda>x. me_key x = None", OF home_slot_less [OF t(1)] p0] by blast
  let ?p = "(?h + i) mod ?n"
  let ?d = "d[?p := e\<lparr>me_next := f\<rparr>]"
  have p: "?p < ?n" "?p \<notin> set ps" using t(1,4) i(2) by auto
  have ins: "map_insert d e f = Some (?d, int ?p)" using i(1) by (simp add: map_insert_def)
  have occ: "me_key (d ! q) \<noteq> None \<Longrightarrow> me_key (?d ! q) \<noteq> None" if "q < ?n" for q
    using that assms(3) by (cases "q = ?p") simp_all
  have keep: "?d ! x = d ! x" if "x \<in> set ps" for x using that p(2) by (metis nth_list_update_neq)
  have chain: "chain ?d (int ?p) (?p # ps)" using chain_update [OF t(2) p(2)] p(1) by simp
  have mem: "\<forall>q < length ?d. q \<in> set (?p # ps) \<longleftrightarrow> me_key (?d ! q) \<noteq> None"
    using t(4) p assms(3) by (auto simp: nth_list_update)
  have path: "(\<exists>k. me_key (?d ! q) = Some k \<and> me_hash (?d ! q) = calc_hash k)
      \<and> (\<exists>i. q = (home_slot (me_hash (?d ! q)) ?d + i) mod length ?d
           \<and> (\<forall>j < i. me_key (?d ! ((home_slot (me_hash (?d ! q)) ?d + j) mod length ?d)) \<noteq> None))"
    if "q \<in> set (?p # ps)" for q
  proof (cases "q = ?p")
    case True
    then have q: "?d ! q = e\<lparr>me_next := f\<rparr>" using p(1) by simp
    have "\<forall>j < i. me_key (?d ! ((?h + j) mod ?n)) \<noteq> None" using i(3) occ t(1) by simp
    then show ?thesis using assms(3,4) True unfolding q by auto
  next
    case False
    then have q: "q \<in> set ps" "?d ! q = d ! q" using that by auto
    obtain i' where "q = (home_slot (me_hash (d ! q)) d + i') mod ?n"
      "\<forall>j < i'. me_key (d ! ((home_slot (me_hash (d ! q)) d + j) mod ?n)) \<noteq> None"
      "\<exists>k. me_key (d ! q) = Some k \<and> me_hash (d ! q) = calc_hash k"
      using assms(1) q(1) unfolding table_ok_def by blast
    then show ?thesis using occ t(1) unfolding q(2) by auto
  qed
  have "table_ok ?d (int ?p) (?p # ps)"
    unfolding table_ok_def using t(1,3) p(2) chain mem path by (auto simp del: chain.simps)
  moreover have "map kv (map ((!) ?d) (?p # ps)) = kv e # map kv (map ((!) d) ps)"
    using p keep by (simp add: kv_def)
  ultimately show ?thesis using that [OF ins] by simp
qed

lemma map_rehash_ok:
  assumes "table_ok d f ps" "length ps + length es < length d"
    and "\<forall>e \<in> set es. \<exists>k. me_key e = Some k \<and> me_hash e = calc_hash k"
  shows "\<exists>d' f' ps'. map_rehash es (d, f) = Some (d', f') \<and> table_ok d' f' ps' \<and> length d' = length d
    \<and> map kv (map ((!) d') ps') = rev (map kv es) @ map kv (map ((!) d) ps)"
  using assms
proof (induction es arbitrary: d f ps)
  case (Cons e es)
  obtain k where k: "me_key e = Some k" "me_hash e = calc_hash k" using Cons.prems(3) by auto
  have "length ps < length d" using Cons.prems(2) by simp
  then obtain d1 p where i: "map_insert d e f = Some (d1, int p)" "table_ok d1 (int p) (p # ps)" "length d1 = length d"
    "map kv (map ((!) d1) (p # ps)) = kv e # map kv (map ((!) d) ps)"
    using map_insert_ok [OF Cons.prems(1) _ k] by blast
  have "length (p # ps) + length es < length d1" using Cons.prems(2) i(3) by simp
  from Cons.IH [OF i(2) this] Cons.prems(3) obtain d' f' ps' where r: "map_rehash es (d1, int p) = Some (d', f')"
    "table_ok d' f' ps'" "length d' = length d1" "map kv (map ((!) d') ps') = rev (map kv es) @ map kv (map ((!) d1) (p # ps))"
    by auto
  have "map kv (map ((!) d') ps') = rev (map kv (e # es)) @ map kv (map ((!) d) ps)" unfolding r(4) i(4) by simp
  with r(1-3) i(1,3) show ?case by auto
qed auto

definition map_content :: "string_map \<Rightarrow> (string \<times> string) list" where
  "map_content m = (case map_iterate (mp_data m) (mp_first m) of None \<Rightarrow> [] | Some es \<Rightarrow> map kv es)"

lemma map_content_eq: "map_inv m ps \<Longrightarrow> map_content m = map kv (map ((!) (mp_data m)) ps)"
  by (auto simp: map_content_def map_inv_def table_ok_def iterate_chain)

lemma map_add_ok:
  assumes "map_inv m ps" "map_content m = es"
  shows "\<exists>m' ps'. map_add k v m = Some m' \<and> map_inv m' ps'
    \<and> map_content m' = (k, v) # (if 2 * mp_total m < length (mp_data m) then es else rev es)"
proof -
  let ?d = "mp_data m" and ?n = "length (mp_data m)"
  have m: "table_ok ?d (mp_first m) ps" "mp_total m = length ps" "2 * length ps \<le> ?n" "even ?n" "0 < ?n"
    using assms(1) by (auto simp: map_inv_def table_ok_def)
  have es: "es = map kv (map ((!) ?d) ps)" using map_content_eq [OF assms(1)] assms(2) by simp
  let ?grow = "?n \<le> mp_total m * 2"
  obtain d f qs where t: "(if ?grow
        then (case map_iterate ?d (mp_first m) of None \<Rightarrow> None | Some es \<Rightarrow> map_rehash es (replicate (?n * 2) entry_empty, -1))
        else Some (?d, mp_first m)) = Some (d, f)"
    "table_ok d f qs" "length d = (if ?grow then ?n * 2 else ?n)" "length qs = length ps"
    "map kv (map ((!) d) qs) = (if ?grow then rev es else es)"
  proof (cases ?grow)
    case True
    have "map_iterate ?d (mp_first m) = Some (map ((!) ?d) ps)" using m(1) by (simp add: table_ok_def iterate_chain)
    moreover have "\<forall>e \<in> set (map ((!) ?d) ps). \<exists>k. me_key e = Some k \<and> me_hash e = calc_hash k"
      using m(1) by (auto simp: table_ok_def)
    ultimately obtain d f qs where r: "map_rehash (map ((!) ?d) ps) (replicate (?n * 2) entry_empty, -1) = Some (d, f)" "table_ok d f qs"
        "length d = ?n * 2" "map kv (map ((!) d) qs) = rev es"
      using map_rehash_ok [OF table_ok_empty [of "?n * 2"], of "map ((!) ?d) ps"] m(3,5) es by auto
    moreover have "length qs = length ps" using arg_cong [OF r(4), of length] es by simp
    ultimately show ?thesis using that True \<open>map_iterate ?d (mp_first m) = Some (map ((!) ?d) ps)\<close> by simp
  next
    case False
    then show ?thesis using that [of ?d "mp_first m" ps] m(1) es by simp
  qed
  have room: "2 * Suc (length qs) \<le> length d" "length qs < length d"
  proof -
    have "2 * length ps < ?n \<Longrightarrow> 2 * Suc (length ps) \<le> ?n" using m(4) by (auto elim!: evenE)
    moreover have "2 \<le> ?n"
    proof -
      obtain b where "?n = 2 * b" using m(4) by (rule evenE)
      then show ?thesis using m(5) by (cases b) simp_all
    qed
    ultimately show "2 * Suc (length qs) \<le> length d" using t(3,4) m(2,3) by (auto split: if_splits)
    then show "length qs < length d" by simp
  qed
  obtain d' p where i: "map_insert d (entry_of k v) f = Some (d', int p)" "table_ok d' (int p) (p # qs)" "length d' = length d"
    "map kv (map ((!) d') (p # qs)) = kv (entry_of k v) # map kv (map ((!) d) qs)"
    using map_insert_ok [OF t(2) room(2), of "entry_of k v" k] by (auto simp: entry_of_def)
  let ?m = "\<lparr>mp_first = int p, mp_total = mp_total m + 1, mp_data = d'\<rparr>"
  have inv: "map_inv ?m (p # qs)" using i(2,3) room(1) t(3,4) m(2,4) by (auto simp: map_inv_def)
  moreover have "map_add k v m = Some ?m" unfolding map_add_def t(1) using i(1) by simp
  moreover have "map_content ?m = (k, v) # (if 2 * mp_total m < ?n then es else rev es)"
  proof -
    have "map_content ?m = map kv (map ((!) d') (p # qs))" using map_content_eq [OF inv] by (simp only: string_map.simps)
    then show ?thesis unfolding i(4) t(5) by (simp add: kv_def entry_of_def not_le mult.commute)
  qed
  ultimately show ?thesis by blast
qed

lemma map_get_ok:
  assumes "map_inv m ps"
  shows "\<exists>r. map_get k m = Some r \<and> (r = None \<longleftrightarrow> k \<notin> fst ` set (map_content m))
    \<and> (\<forall>v. r = Some v \<longrightarrow> (k, v) \<in> set (map_content m))"
proof -
  let ?d = "mp_data m" and ?n = "length (mp_data m)" and ?e = "entry_of k []"
  let ?h = "home_slot (me_hash ?e) ?d" and ?Q = "\<lambda>x. me_key x = None \<or> entry_eq x ?e"
  have t: "0 < ?n" "chain ?d (mp_first m) ps" "distinct ps" "\<forall>p < ?n. p \<in> set ps \<longleftrightarrow> me_key (?d ! p) \<noteq> None"
    "2 * length ps \<le> ?n" using assms by (auto simp: map_inv_def table_ok_def)
  have len: "length ps < ?n" using t(1,5) by linarith
  have path: "\<exists>i. p = (home_slot (me_hash (?d ! p)) ?d + i) mod ?n
      \<and> (\<forall>j < i. me_key (?d ! ((home_slot (me_hash (?d ! p)) ?d + j) mod ?n)) \<noteq> None)"
    "\<exists>k'. me_key (?d ! p) = Some k' \<and> me_hash (?d ! p) = calc_hash k'" if "p \<in> set ps" for p
    using assms that by (auto simp: map_inv_def table_ok_def)
  obtain p0 where p0: "p0 < ?n" "?Q (?d ! p0)" using free_slot [OF t(2-4) len] by blast
  obtain i where i: "probe ?Q ?d ?h = Some ((?h + i) mod ?n)" "?Q (?d ! ((?h + i) mod ?n))"
    "\<And>j. j < i \<Longrightarrow> \<not> ?Q (?d ! ((?h + j) mod ?n))"
    using probe_finds [where P = ?Q, OF home_slot_less [OF t(1)] p0] by blast
  let ?p = "(?h + i) mod ?n"
  have c: "(k', v) \<in> set (map_content m) \<longleftrightarrow> (\<exists>p \<in> set ps. me_key (?d ! p) = Some k' \<and> me_value (?d ! p) = v)" for k' v
    unfolding map_content_eq [OF assms] using path(2) by (force simp: kv_def)
  have p: "?p < ?n" using t(1) by simp
  show ?thesis
  proof (cases "me_key (?d ! ?p) = None")
    case True
    have "k \<notin> fst ` set (map_content m)"
    proof
      assume "k \<in> fst ` set (map_content m)"
      then obtain v where "(k, v) \<in> set (map_content m)" by auto
      then obtain q where q: "q \<in> set ps" "me_key (?d ! q) = Some k" unfolding c by blast
      have h: "me_hash (?d ! q) = calc_hash k" using path(2) [OF q(1)] q(2) by auto
      obtain i' where i': "q = (?h + i') mod ?n" "\<forall>j < i'. me_key (?d ! ((?h + j) mod ?n)) \<noteq> None"
        using path(1) [OF q(1)] unfolding h by (auto simp: entry_of_def)
      have "?Q (?d ! ((?h + i') mod ?n))" using q(2) h i'(1) by (auto simp: entry_eq_def entry_of_def)
      then have "i \<le> i'" using i(3) [of i'] by (meson not_le_imp_less)
      moreover have "i \<noteq> i'" using True q(2) i'(1) by auto
      ultimately have "i < i'" by simp
      then show False using i'(2) True by blast
    qed
    then show ?thesis using i(1) True by (auto simp: map_get_def Let_def)
  next
    case False
    then have "entry_eq (?d ! ?p) ?e" "?p \<in> set ps" using i(2) t(4) p by auto
    then have "(k, me_value (?d ! ?p)) \<in> set (map_content m)" unfolding c by (auto simp: entry_eq_def entry_of_def)
    then show ?thesis using i(1) False by (force simp: map_get_def Let_def)
  qed
qed

lemma map_inv_new: "map_inv string_map_new []" "map_content string_map_new = []"
proof -
  show i: "map_inv string_map_new []" using table_ok_empty [of 64] by (simp add: map_inv_def string_map_new_def)
  show "map_content string_map_new = []" using map_content_eq [OF i] by simp
qed

fun map_adds :: "(string \<times> string) list \<Rightarrow> string_map \<Rightarrow> string_map option" where
  "map_adds [] m = Some m"
| "map_adds ((k, v) # kvs) m = (case map_add k v m of None \<Rightarrow> None | Some m' \<Rightarrow> map_adds kvs m')"

lemma map_adds_ok:
  assumes "map_inv m ps"
  shows "\<exists>m' ps'. map_adds kvs m = Some m' \<and> map_inv m' ps' \<and> mset (map_content m') = mset kvs + mset (map_content m)"
  using assms
proof (induction kvs arbitrary: m ps)
  case (Cons p kvs)
  obtain k v where p: "p = (k, v)" by (cases p)
  obtain m1 ps1 where m1: "map_add k v m = Some m1" "map_inv m1 ps1"
    "map_content m1 = (k, v) # (if 2 * mp_total m < length (mp_data m) then map_content m else rev (map_content m))"
    using map_add_ok [OF Cons.prems refl] by blast
  have "mset (map_content m1) = add_mset (k, v) (mset (map_content m))" using m1(3) by (cases "2 * mp_total m < length (mp_data m)") simp_all
  with Cons.IH [OF m1(2)] m1(1) p show ?case by fastforce
qed auto

text \<open>
  C32. The table of CGI variables works for any number of variables: every \<^verbatim>\<open>add\<close> and \<^verbatim>\<open>get\<close> returns,
  because the table grows before it is half full; iteration visits exactly what was added; \<^verbatim>\<open>get\<close> finds
  a value of a name exactly when the name was added, and it is the value of that name when no name was
  added twice.
\<close>

theorem string_map_refines:
  "\<exists>m. map_adds kvs string_map_new = Some m \<and> mset (map_content m) = mset kvs
     \<and> (\<exists>r. map_get k m = Some r \<and> (r = None \<longleftrightarrow> k \<notin> fst ` set kvs) \<and> (\<forall>v. r = Some v \<longrightarrow> (k, v) \<in> set kvs))
     \<and> (distinct (map fst kvs) \<longrightarrow> map_get k m = Some (map_of kvs k))"
proof -
  obtain m ps where m: "map_adds kvs string_map_new = Some m" "map_inv m ps" "mset (map_content m) = mset kvs"
    using map_adds_ok [OF map_inv_new(1), of kvs] map_inv_new(2) by auto
  then have set: "set (map_content m) = set kvs" by (metis set_mset_mset)
  obtain r where r: "map_get k m = Some r" "r = None \<longleftrightarrow> k \<notin> fst ` set kvs" "\<forall>v. r = Some v \<longrightarrow> (k, v) \<in> set kvs"
    using map_get_ok [OF m(2), of k] unfolding set by blast
  have "map_of kvs k = r" if "distinct (map fst kvs)"
    using r(2,3) that by (cases r) (simp_all add: map_of_is_SomeI map_of_eq_None_iff)
  then have "distinct (map fst kvs) \<longrightarrow> map_get k m = Some (map_of kvs k)" using r(1) by simp
  moreover have "\<exists>r. map_get k m = Some r \<and> (r = None \<longleftrightarrow> k \<notin> fst ` set kvs) \<and> (\<forall>v. r = Some v \<longrightarrow> (k, v) \<in> set kvs)"
    by (rule exI [of _ r]) (intro conjI r)
  ultimately show ?thesis using m(1,3) by blast
qed

theorem string_map_refines_witness:
  "\<exists>m. map_adds [(''HTTP_HOST'', ''a''), (''CONTENT_LENGTH'', ''5'')] string_map_new = Some m
     \<and> map_get ''CONTENT_LENGTH'' m = Some (Some ''5'')"
  using string_map_refines [of "[(''HTTP_HOST'', ''a''), (''CONTENT_LENGTH'', ''5'')]" "''CONTENT_LENGTH''"] by auto

text \<open>
  Which value of a name that was added twice is found depends on how many other names there are: the
  first one in a small table, the last one after the table has grown, because growing inserts the
  entries in the reverse order.
\<close>

definition other_names :: "nat \<Rightarrow> (string \<times> string) list" where
  "other_names n = map (\<lambda>i. ([ch (40 + i)], [])) [0..<n]"

theorem duplicate_name_flips:
  "(case map_adds ([(''X'', ''first''), (''X'', ''last'')] @ other_names 30) string_map_new of
      Some m \<Rightarrow> map_get ''X'' m | None \<Rightarrow> None) = Some (Some ''first'')
   \<and> (case map_adds ([(''X'', ''first''), (''X'', ''last'')] @ other_names 31) string_map_new of
      Some m \<Rightarrow> map_get ''X'' m | None \<Rightarrow> None) = Some (Some ''last'')"
  by code_simp

end
