(* ===== verification/Http_Parser.thy ===== *)
theory Http_Parser
  imports Http_Protocol
begin

text \<open>
  \<^verbatim>\<open>private/http_parser.h\<close>: the state machine that cuts the input of the embedded HTTP server into header
  lines.  It reads characters from a buffer that the server refills, so it may stop at any character
  and go on later; it joins folded lines, and keeps quoted strings and comments together.
\<close>

section \<open>The state machine\<close>

datatype parser_state =
    Idle | Input_observed | Last_lf_expected | Lf_expected | Space_or_other_expected
  | Quote_expected | Pass_quote_expected | Closing_bracket_expected | Pass_closing_bracket_expected

datatype step_result = More_data | Got_header | End_of_headers | Error_observed

record parser_core =
  pc_state :: parser_state
  pc_brackets :: "32 word"
  pc_header :: string

text \<open>
  The two inputs: a vector with a position, or the area from \<^verbatim>\<open>pbase\<close> to \<^verbatim>\<open>epptr\<close> with the offset of
  \<^verbatim>\<open>pptr\<close>, which is not behind \<^verbatim>\<open>epptr\<close>.
\<close>

datatype source = Body string nat | Area string nat

record parser =
  ps_core :: parser_core
  ps_source :: source
  ps_ungot :: string

definition getc :: "parser \<Rightarrow> char option \<times> parser" where
  "getc p =
     (case ps_ungot p of
        r # u \<Rightarrow> (Some r, p\<lparr>ps_ungot := u\<rparr>)
      | [] \<Rightarrow>
          (case ps_source p of
             Body b i \<Rightarrow>
               if i < length b then (Some (b ! i), p\<lparr>ps_source := Body b (i + 1)\<rparr>)
               else (None, p\<lparr>ps_source := Body [] 0\<rparr>)
           | Area b i \<Rightarrow>
               if i < length b then (Some (b ! i), p\<lparr>ps_source := Area b (i + 1)\<rparr>)
               else (None, p)))"

definition ungetc :: "char \<Rightarrow> parser \<Rightarrow> parser" where
  "ungetc c p =
     (case ps_source p of
        Body b i \<Rightarrow> if i > 0 then p\<lparr>ps_source := Body b (i - 1)\<rparr> else p\<lparr>ps_ungot := c # ps_ungot p\<rparr>
      | Area b i \<Rightarrow> if i \<noteq> 0 then p\<lparr>ps_source := Area b (i - 1)\<rparr> else p\<lparr>ps_ungot := c # ps_ungot p\<rparr>)"

definition core_new :: parser_core where
  "core_new = \<lparr>pc_state = Idle, pc_brackets = 0, pc_header = []\<rparr>"

definition parser_new :: "source \<Rightarrow> parser" where
  "parser_new src = \<lparr>ps_core = core_new, ps_source = src, ps_ungot = []\<rparr>"

text \<open>\<^verbatim>\<open>reset()\<close> for the reader of a vector, which keeps the vector and the characters pushed back.\<close>

definition parser_reset :: "parser \<Rightarrow> parser" where
  "parser_reset p = p\<lparr>ps_core := core_new\<rparr>"

text \<open>The \<^verbatim>\<open>switch\<close> on a character that starts or continues a line.\<close>

definition line_char :: "parser_state \<Rightarrow> char \<Rightarrow> parser_core \<Rightarrow> parser_core" where
  "line_char on_cr c k =
     (if c = CR then k\<lparr>pc_state := on_cr\<rparr>
      else if c = DQUOTE then k\<lparr>pc_state := Quote_expected\<rparr>
      else if c = CHR ''('' then k\<lparr>pc_state := Closing_bracket_expected, pc_brackets := pc_brackets k + 1\<rparr>
      else k\<lparr>pc_state := Input_observed\<rparr>)"

definition append_char :: "char \<Rightarrow> parser_core \<Rightarrow> step_result option \<times> parser_core" where
  "append_char c k = (None, k\<lparr>pc_header := pc_header k @ [c]\<rparr>)"

definition drop_crlf :: "parser_core \<Rightarrow> parser_core" where
  "drop_crlf k = k\<lparr>pc_header := take (length (pc_header k) - 2) (pc_header k)\<rparr>"

text \<open>One round of the loop of \<^verbatim>\<open>step\<close>: a result ends the call.\<close>

definition core_char :: "char \<Rightarrow> parser_core \<Rightarrow> step_result option \<times> parser_core" where
  "core_char c k =
     (case pc_state k of
        Idle \<Rightarrow> append_char c (line_char Last_lf_expected c (k\<lparr>pc_header := []\<rparr>))
      | Last_lf_expected \<Rightarrow>
          if c \<noteq> LF then (Some Error_observed, k) else (Some End_of_headers, k\<lparr>pc_header := []\<rparr>)
      | Lf_expected \<Rightarrow>
          if c \<noteq> LF then (Some Error_observed, k) else append_char c (k\<lparr>pc_state := Space_or_other_expected\<rparr>)
      | Space_or_other_expected \<Rightarrow>
          if c = CHR '' '' \<or> c = TAB then append_char c ((drop_crlf k)\<lparr>pc_state := Input_observed\<rparr>)
          else (Some Got_header, (drop_crlf k)\<lparr>pc_state := Idle\<rparr>)
      | Input_observed \<Rightarrow> append_char c (line_char Lf_expected c k)
      | Quote_expected \<Rightarrow>
          append_char c
            (if c = DQUOTE then k\<lparr>pc_state := Input_observed\<rparr>
             else if c = BSLASH then k\<lparr>pc_state := Pass_quote_expected\<rparr> else k)
      | Pass_quote_expected \<Rightarrow>
          if uc c \<ge> 127 then (Some Error_observed, k) else append_char c (k\<lparr>pc_state := Quote_expected\<rparr>)
      | Closing_bracket_expected \<Rightarrow>
          append_char c
            (if c = CHR '')''
             then (let k' = k\<lparr>pc_brackets := pc_brackets k - 1\<rparr>
                   in if pc_brackets k' = 0 then k'\<lparr>pc_state := Input_observed\<rparr> else k')
             else if c = BSLASH then k\<lparr>pc_state := Pass_closing_bracket_expected\<rparr> else k)
      | Pass_closing_bracket_expected \<Rightarrow>
          if uc c \<ge> 127 then (Some Error_observed, k) else append_char c (k\<lparr>pc_state := Closing_bracket_expected\<rparr>))"

fun source_rest :: "source \<Rightarrow> string" where
  "source_rest (Body b i) = drop i b"
| "source_rest (Area b i) = drop i b"

text \<open>The characters in front of the parser.\<close>

definition pending :: "parser \<Rightarrow> string" where
  "pending p = ps_ungot p @ source_rest (ps_source p)"

lemma getc_core [simp]: "ps_core (snd (getc p)) = ps_core p"
  by (simp add: getc_def split: list.split source.split)

lemma getc_pending:
  assumes "fst (getc p) = Some c"
  shows "length (pending (snd (getc p))) < length (pending p)"
  using assms by (auto simp: getc_def pending_def split: list.splits source.splits if_splits)

function parser_step :: "parser \<Rightarrow> step_result \<times> parser" where
  "parser_step p =
     (case getc p of
        (None, p1) \<Rightarrow> (More_data, p1)
      | (Some c, p1) \<Rightarrow>
          (case core_char c (ps_core p1) of
             (None, k) \<Rightarrow> parser_step (p1\<lparr>ps_core := k\<rparr>)
           | (Some Got_header, k) \<Rightarrow> (Got_header, (ungetc c p1)\<lparr>ps_core := k\<rparr>)
           | (Some r, k) \<Rightarrow> (r, p1\<lparr>ps_core := k\<rparr>)))"
  by pat_completeness auto
termination
proof (relation "measure (\<lambda>p. length (pending p))", goal_cases)
  case (2 p a p1 c b k)
  then have "fst (getc p) = Some c" "snd (getc p) = p1" by (metis fst_conv, metis snd_conv)
  then show ?case using getc_pending [of p c] by (simp add: pending_def)
qed simp

declare parser_step.simps [simp del]

section \<open>What a call of step does\<close>

text \<open>The same on a list of characters: the result, the new state and the characters left.\<close>

fun scan :: "string \<Rightarrow> parser_core \<Rightarrow> step_result \<times> parser_core \<times> string" where
  "scan [] k = (More_data, k, [])"
| "scan (c # s) k =
     (case core_char c k of
        (None, k') \<Rightarrow> scan s k'
      | (Some Got_header, k') \<Rightarrow> (Got_header, k', c # s)
      | (Some r, k') \<Rightarrow> (r, k', s))"

text \<open>A character taken from the buffer can be put back there, so nothing is ever pushed on the stack.\<close>

lemma getc_cases:
  assumes "ps_ungot p = []"
  obtains (none) "pending p = []" "fst (getc p) = None" "ps_ungot (snd (getc p)) = []" "pending (snd (getc p)) = []"
  | (some) c where "pending p = c # pending (snd (getc p))" "fst (getc p) = Some c" "ps_ungot (snd (getc p)) = []"
      "ps_ungot (ungetc c (snd (getc p))) = []" "pending (ungetc c (snd (getc p))) = pending p"
proof (cases "pending p")
  case Nil
  then have "fst (getc p) = None" "ps_ungot (snd (getc p)) = []" "pending (snd (getc p)) = []"
    using assms by (auto simp: getc_def pending_def split: source.splits)
  with Nil none show ?thesis by simp
next
  case (Cons c r)
  then have "fst (getc p) = Some c" "pending (snd (getc p)) = r" "ps_ungot (snd (getc p)) = []"
    "ps_ungot (ungetc c (snd (getc p))) = []" "pending (ungetc c (snd (getc p))) = pending p"
    using assms by (auto simp: getc_def ungetc_def pending_def split: source.splits dest: drop_eq_ConsD)
  with Cons some show ?thesis by simp
qed

lemma parser_step_scan:
  assumes "ps_ungot p = []"
  shows "fst (parser_step p) = fst (scan (pending p) (ps_core p))
    \<and> ps_core (snd (parser_step p)) = fst (snd (scan (pending p) (ps_core p)))
    \<and> pending (snd (parser_step p)) = snd (snd (scan (pending p) (ps_core p))) \<and> ps_ungot (snd (parser_step p)) = []"
  using assms
proof (induction p rule: parser_step.induct)
  case (1 p)
  obtain a p1 where g: "getc p = (a, p1)" by (cases "getc p")
  have core: "ps_core p1 = ps_core p" using getc_core [of p] g by simp
  show ?case using "1.prems"
  proof (cases rule: getc_cases)
    case none
    then show ?thesis using g core by (subst parser_step.simps) (simp add: parser_step.simps)
  next
    case (some c)
    obtain r k where ck: "core_char c (ps_core p) = (r, k)" by (cases "core_char c (ps_core p)")
    have pk: "pending (p1\<lparr>ps_core := k\<rparr>) = pending p1" "pending ((ungetc c p1)\<lparr>ps_core := k\<rparr>) = pending (ungetc c p1)"
      by (simp_all add: pending_def)
    show ?thesis
    proof (cases r)
      case None
      then have "parser_step p = parser_step (p1\<lparr>ps_core := k\<rparr>)" using g some ck core by (subst parser_step.simps) simp
      moreover have "scan (pending p) (ps_core p) = scan (pending p1) k" using some g ck None by simp
      ultimately show ?thesis using "1.IH" [OF g [symmetric]] g some ck core None pk by simp
    next
      case (Some x)
      then have "parser_step p = (x, if x = Got_header then (ungetc c p1)\<lparr>ps_core := k\<rparr> else p1\<lparr>ps_core := k\<rparr>)"
        using g some ck core by (subst parser_step.simps) (simp split: step_result.split)
      moreover have "scan (pending p) (ps_core p) = (x, k, if x = Got_header then pending p else pending p1)"
        using some g ck Some by (cases x) simp_all
      ultimately show ?thesis using g some pk by simp
    qed
  qed
qed

section \<open>The loop of the reader\<close>

lemma core_char_got: "core_char c k = (Some Got_header, k') \<Longrightarrow> pc_state k = Space_or_other_expected \<and> pc_state k' = Idle"
  by (auto simp: core_char_def append_char_def split: parser_state.splits if_splits)

text \<open>A header takes at least one character, counting the end of line that was read before.\<close>

definition load :: "nat \<Rightarrow> parser_core \<Rightarrow> nat" where
  "load n k = 2 * n + (if pc_state k = Space_or_other_expected then 1 else 0)"

lemma ungetc_pending: "length (pending (ungetc c p)) \<le> Suc (length (pending p))"
  by (auto simp: ungetc_def pending_def split: source.split)

lemma parser_step_got:
  "parser_step p = (Got_header, p') \<Longrightarrow> pc_state (ps_core p') = Idle
    \<and> (if pc_state (ps_core p) = Space_or_other_expected then length (pending p') \<le> length (pending p)
       else length (pending p') < length (pending p))"
proof (induction p arbitrary: p' rule: parser_step.induct)
  case (1 p)
  obtain a p1 where g: "getc p = (a, p1)" by (cases "getc p")
  have core: "ps_core p1 = ps_core p" using getc_core [of p] g by simp
  from "1.prems" g obtain c where a: "a = Some c" by (cases a) (auto simp: parser_step.simps [of p])
  have lt: "length (pending p1) < length (pending p)" using getc_pending [of p c] g a by simp
  obtain r k where ck: "core_char c (ps_core p) = (r, k)" by (cases "core_char c (ps_core p)")
  have pk: "pending (p1\<lparr>ps_core := k\<rparr>) = pending p1" "pending ((ungetc c p1)\<lparr>ps_core := k\<rparr>) = pending (ungetc c p1)"
    by (simp_all add: pending_def)
  show ?case
  proof (cases r)
    case None
    then have "parser_step (p1\<lparr>ps_core := k\<rparr>) = (Got_header, p')"
      using "1.prems" g a ck core by (subst (asm) parser_step.simps) simp
    from "1.IH" [OF g [symmetric] a _ _ this] ck core None
    have "pc_state (ps_core p') = Idle \<and> length (pending p') \<le> length (pending p1)" by (auto simp: pk split: if_splits)
    with lt show ?thesis by auto
  next
    case (Some x)
    have "(case x of Got_header \<Rightarrow> (Got_header, (ungetc c p1)\<lparr>ps_core := k\<rparr>) | r \<Rightarrow> (r, p1\<lparr>ps_core := k\<rparr>)) = (Got_header, p')"
      using "1.prems" g a ck core Some by (subst (asm) parser_step.simps) (simp split: step_result.splits)
    then have x: "x = Got_header" "p' = (ungetc c p1)\<lparr>ps_core := k\<rparr>" by (auto split: step_result.splits)
    have "pc_state (ps_core p) = Space_or_other_expected" "pc_state k = Idle" using core_char_got [of c "ps_core p" k] ck Some x by auto
    then show ?thesis using x(2) ungetc_pending [of c p1] lt pk by simp
  qed
qed

text \<open>
  The loop around \<^verbatim>\<open>step\<close> of a reader that handles each header with \<open>h\<close>, which fails with \<open>None\<close>.  The
  result is \<open>None\<close> when the handler failed, and otherwise what the last \<^verbatim>\<open>step\<close> returned.
\<close>

function parser_loop :: "('s \<Rightarrow> string \<Rightarrow> 's option) \<Rightarrow> 's \<Rightarrow> parser \<Rightarrow> step_result option \<times> 's \<times> parser" where
  "parser_loop h s p =
     (case parser_step p of
        (Got_header, p') \<Rightarrow>
          (case h s (pc_header (ps_core p')) of
             None \<Rightarrow> (None, s, p')
           | Some s' \<Rightarrow> parser_loop h s' p')
      | (r, p') \<Rightarrow> (Some r, s, p'))"
  by pat_completeness auto
termination
proof (relation "measure (\<lambda>(h, s, p). load (length (pending p)) (ps_core p))", goal_cases)
  case (2 h s p r p' s')
  then show ?case using parser_step_got [of p p'] by (auto simp: load_def split: if_splits)
qed simp

declare parser_loop.simps [simp del]

lemma scan_got:
  "scan xs k = (Got_header, k', ys) \<Longrightarrow> pc_state k' = Idle \<and> suffix ys xs
    \<and> (if pc_state k = Space_or_other_expected then length ys \<le> length xs else length ys < length xs)"
proof (induction xs k rule: scan.induct)
  case (2 c xs k)
  obtain r k1 where ck: "core_char c k = (r, k1)" by (cases "core_char c k")
  show ?case
  proof (cases r)
    case None
    with "2.IH" [OF ck [symmetric] None] "2.prems" ck show ?thesis by (auto simp: suffix_Cons split: if_splits)
  next
    case (Some x)
    with "2.prems" ck core_char_got [of c k k1] show ?thesis by (cases x) auto
  qed
qed simp

function scan_loop :: "('s \<Rightarrow> string \<Rightarrow> 's option) \<Rightarrow> 's \<Rightarrow> string \<Rightarrow> parser_core
    \<Rightarrow> step_result option \<times> 's \<times> parser_core \<times> string" where
  "scan_loop h s xs k =
     (case scan xs k of
        (Got_header, k', ys) \<Rightarrow>
          (case h s (pc_header k') of None \<Rightarrow> (None, s, k', ys) | Some s' \<Rightarrow> scan_loop h s' ys k')
      | (r, k', ys) \<Rightarrow> (Some r, s, k', ys))"
  by pat_completeness auto
termination
proof (relation "measure (\<lambda>(h, s, xs, k). load (length xs) k)", goal_cases)
  case (2 h s xs k r z k' ys s')
  then show ?case using scan_got [of xs k k' ys] by (auto simp: load_def split: if_splits)
qed simp

declare scan_loop.simps [simp del]

lemma parser_loop_scan:
  assumes "ps_ungot p = []"
  shows "\<exists>p'. parser_loop h s p = (fst (scan_loop h s (pending p) (ps_core p)), fst (snd (scan_loop h s (pending p) (ps_core p))), p')
    \<and> ps_core p' = fst (snd (snd (scan_loop h s (pending p) (ps_core p))))
    \<and> pending p' = snd (snd (snd (scan_loop h s (pending p) (ps_core p)))) \<and> ps_ungot p' = []"
  using assms
proof (induction h s p rule: parser_loop.induct)
  case (1 h s p)
  obtain r p1 where st: "parser_step p = (r, p1)" by (cases "parser_step p")
  have sc: "scan (pending p) (ps_core p) = (r, ps_core p1, pending p1)" "ps_ungot p1 = []"
    using parser_step_scan [OF "1.prems"] st by (simp_all add: prod_eq_iff)
  show ?case
  proof (cases "r = Got_header")
    case True
    show ?thesis
    proof (cases "h s (pc_header (ps_core p1))")
      case None
      then show ?thesis using st sc True by (simp add: parser_loop.simps [of h s p] scan_loop.simps [of h s "pending p"])
    next
      case (Some s')
      then have "parser_loop h s p = parser_loop h s' p1"
        "scan_loop h s (pending p) (ps_core p) = scan_loop h s' (pending p1) (ps_core p1)"
        using st sc True by (simp_all add: parser_loop.simps [of h s p] scan_loop.simps [of h s "pending p"])
      then show ?thesis using "1.IH" [OF st [symmetric]] True Some sc(2) by simp
    qed
  next
    case False
    then show ?thesis
      using st sc by (cases r) (simp_all add: parser_loop.simps [of h s p] scan_loop.simps [of h s "pending p"])
  qed
qed

section \<open>Input in pieces\<close>

lemma core_char_not_more: "fst (core_char c k) \<noteq> Some More_data"
  by (simp add: core_char_def append_char_def split: parser_state.split)

lemma scan_append:
  "scan (xs @ ys) k = (case scan xs k of
     (More_data, k', _) \<Rightarrow> scan ys k' | (r, k', zs) \<Rightarrow> (r, k', zs @ ys))"
proof (induction xs k rule: scan.induct)
  case (2 c xs k)
  obtain r k1 where ck: "core_char c k = (r, k1)" by (cases "core_char c k")
  show ?case
  proof (cases r)
    case None
    then show ?thesis using "2.IH" [OF ck [symmetric] None] ck by simp
  next
    case (Some x)
    moreover have "x \<noteq> More_data" using ck Some core_char_not_more [of c k] by auto
    ultimately show ?thesis using ck by (cases x) simp_all
  qed
qed simp

lemma scan_more: "scan xs k = (More_data, k', ys) \<Longrightarrow> ys = []"
proof (induction xs k rule: scan.induct)
  case (2 c xs k)
  obtain r k1 where ck: "core_char c k = (r, k1)" by (cases "core_char c k")
  show ?case
  proof (cases r)
    case None
    then show ?thesis using "2.IH" [OF ck [symmetric] None] "2.prems" ck by simp
  next
    case (Some x)
    moreover have "x \<noteq> More_data" using ck Some core_char_not_more [of c k] by auto
    ultimately show ?thesis using "2.prems" ck by (cases x) simp_all
  qed
qed simp

lemma scan_loop_append:
  "scan_loop h s (xs @ ys) k = (case scan_loop h s xs k of
     (Some More_data, s', k', _) \<Rightarrow> scan_loop h s' ys k' | (r, s', k', zs) \<Rightarrow> (r, s', k', zs @ ys))"
proof (induction h s xs k rule: scan_loop.induct)
  case (1 h s xs k)
  obtain r k1 zs where sc: "scan xs k = (r, k1, zs)" by (cases "scan xs k")
  show ?case
  proof (cases r)
    case More_data
    then have "scan_loop h s xs k = (Some More_data, s, k1, zs)" "scan_loop h s (xs @ ys) k = scan_loop h s ys k1"
      using sc by (simp_all add: scan_append scan_loop.simps [of h s xs] scan_loop.simps [of h s "xs @ ys"] scan_loop.simps [of h s ys])
    then show ?thesis by simp
  next
    case Got_header
    have app: "scan (xs @ ys) k = (Got_header, k1, zs @ ys)" using sc Got_header by (simp add: scan_append)
    show ?thesis
    proof (cases "h s (pc_header k1)")
      case None
      then show ?thesis using sc app Got_header by (simp add: scan_loop.simps [of h s xs] scan_loop.simps [of h s "xs @ ys"])
    next
      case (Some s')
      then show ?thesis
        using "1.IH" [OF sc [symmetric] Got_header refl Some] sc app Got_header
        by (simp add: scan_loop.simps [of h s xs] scan_loop.simps [of h s "xs @ ys"])
    qed
  qed (use sc in \<open>simp_all add: scan_append scan_loop.simps [of h s xs] scan_loop.simps [of h s "xs @ ys"]\<close>)
qed

lemma scan_loop_more: "scan_loop h s xs k = (Some More_data, s', k', ys) \<Longrightarrow> ys = []"
proof (induction h s xs k rule: scan_loop.induct)
  case (1 h s xs k)
  obtain r k1 zs where sc: "scan xs k = (r, k1, zs)" by (cases "scan xs k")
  show ?case
  proof (cases r)
    case More_data
    then show ?thesis using "1.prems" sc scan_more [of xs k k1 zs] by (simp add: scan_loop.simps [of h s xs])
  next
    case Got_header
    with "1.prems" sc obtain s1 where s1: "h s (pc_header k1) = Some s1" "scan_loop h s1 zs k1 = (Some More_data, s', k', ys)"
      by (cases "h s (pc_header k1)") (simp_all add: scan_loop.simps [of h s xs])
    from "1.IH" [OF sc [symmetric] Got_header refl s1(1)] s1(2) show ?thesis by simp
  qed (use "1.prems" sc in \<open>simp_all add: scan_loop.simps [of h s xs]\<close>)
qed

text \<open>A reader that fills the buffer with the next piece whenever the parser asks for more.\<close>

fun parser_chunks :: "('s \<Rightarrow> string \<Rightarrow> 's option) \<Rightarrow> 's \<Rightarrow> parser \<Rightarrow> string list \<Rightarrow> step_result option \<times> 's \<times> parser \<times> string" where
  "parser_chunks h s p [] = (Some More_data, s, p, [])"
| "parser_chunks h s p (x # xs) =
     (case parser_loop h s (p\<lparr>ps_source := Body x 0\<rparr>) of
        (Some More_data, s', p') \<Rightarrow> parser_chunks h s' p' xs
      | (r, s', p') \<Rightarrow> (r, s', p', concat xs))"

lemma parser_chunks_scan:
  assumes "ps_ungot p = []" "pending p = []"
  shows "\<exists>p' zs. parser_chunks h s p xs = (fst (scan_loop h s (concat xs) (ps_core p)), fst (snd (scan_loop h s (concat xs) (ps_core p))), p', zs)
    \<and> ps_core p' = fst (snd (snd (scan_loop h s (concat xs) (ps_core p))))
    \<and> pending p' @ zs = snd (snd (snd (scan_loop h s (concat xs) (ps_core p)))) \<and> ps_ungot p' = []"
  using assms
proof (induction xs arbitrary: s p)
  case Nil
  then show ?case by (simp add: scan_loop.simps)
next
  case (Cons x xs)
  let ?p = "p\<lparr>ps_source := Body x 0\<rparr>"
  have p: "ps_ungot ?p = []" "pending ?p = x" "ps_core ?p = ps_core p" using Cons.prems by (simp_all add: pending_def)
  obtain r s1 k1 zs where sl: "scan_loop h s x (ps_core p) = (r, s1, k1, zs)" by (cases "scan_loop h s x (ps_core p)")
  obtain p1 where p1: "parser_loop h s ?p = (r, s1, p1)" "ps_core p1 = k1" "pending p1 = zs" "ps_ungot p1 = []"
    using parser_loop_scan [OF p(1), of h s] sl p(2,3) by auto
  show ?case
  proof (cases "r = Some More_data")
    case True
    have "zs = []" using scan_loop_more sl True by simp
    then have "pending p1 = []" using p1(3) by simp
    from Cons.IH [OF p1(4) this, of s1] True p1(1,2) sl show ?thesis by (simp add: scan_loop_append)
  next
    case False
    have "parser_chunks h s p (x # xs) = (r, s1, p1, concat xs)"
      using False p1(1) by (cases r) (auto split: step_result.splits)
    moreover have "scan_loop h s (concat (x # xs)) (ps_core p) = (r, s1, k1, zs @ concat xs)"
      using False sl by (cases r) (auto simp: scan_loop_append split: step_result.splits)
    ultimately show ?thesis using p1 by simp
  qed
qed

text \<open>
  C33. How the input arrives does not matter.  Whatever a reader does with the headers, when the input
  comes in pieces of any size, cut at any character, the reader ends with the same result, the same own
  state, the same parser state and the same characters left unread as with the whole input in one buffer.
\<close>

theorem parser_pieces:
  assumes "ps_ungot p = []" "pending p = []"
  shows "\<exists>r s' p1 rest p2. parser_chunks h s p xs = (r, s', p1, rest)
    \<and> parser_loop h s (p\<lparr>ps_source := Body (concat xs) 0\<rparr>) = (r, s', p2)
    \<and> ps_core p1 = ps_core p2 \<and> pending p1 @ rest = pending p2"
proof -
  let ?p = "p\<lparr>ps_source := Body (concat xs) 0\<rparr>"
  have p: "ps_ungot ?p = []" "pending ?p = concat xs" "ps_core ?p = ps_core p" using assms by (simp_all add: pending_def)
  show ?thesis using parser_chunks_scan [OF assms, of h s xs] parser_loop_scan [OF p(1), of h s] unfolding p(2,3) by metis
qed

theorem parser_pieces_witness:
  "\<exists>r s' p1 rest. parser_chunks (\<lambda>hs x. Some (hs @ [x])) [] (parser_new (Body [] 0)) [''A: b'' @ [CR], [LF, CR], [LF] @ ''rest''] = (r, s', p1, rest)
     \<and> fst (parser_loop (\<lambda>hs x. Some (hs @ [x])) [] (parser_new (Body (''A: b'' @ [CR, LF, CR, LF] @ ''rest'') 0))) = r"
proof -
  have "ps_ungot (parser_new (Body [] 0)) = []" "pending (parser_new (Body [] 0)) = []" by (simp_all add: parser_new_def pending_def)
  from parser_pieces [OF this, of "\<lambda>hs x. Some (hs @ [x])" "[]" "[''A: b'' @ [CR], [LF, CR], [LF] @ ''rest'']"]
  show ?thesis by (auto simp: parser_new_def)
qed

section \<open>Well-formed states\<close>

text \<open>
  The counter of brackets is one inside a comment and zero outside; behind a carriage return, and behind
  the line feed, the header ends with these characters, so there is something to cut off.
\<close>

definition core_wf :: "parser_core \<Rightarrow> bool" where
  "core_wf k \<longleftrightarrow> pc_brackets k = (if pc_state k \<in> {Closing_bracket_expected, Pass_closing_bracket_expected} then 1 else 0)
     \<and> (pc_state k = Lf_expected \<longrightarrow> (\<exists>h. pc_header k = h @ [CR]))
     \<and> (pc_state k = Space_or_other_expected \<longrightarrow> (\<exists>h. pc_header k = h @ [CR, LF]))"

lemma core_wf_char: "core_wf k \<Longrightarrow> core_wf (snd (core_char c k))"
  by (cases "pc_state k") (auto simp: core_wf_def core_char_def append_char_def line_char_def drop_crlf_def Let_def)

lemma core_wf_scan: "core_wf k \<Longrightarrow> core_wf (fst (snd (scan xs k)))"
proof (induction xs k rule: scan.induct)
  case (2 c xs k)
  obtain r k1 where ck: "core_char c k = (r, k1)" by (cases "core_char c k")
  then have k1: "core_wf k1" using core_wf_char [OF "2.prems", of c] by simp
  show ?case
  proof (cases r)
    case None
    then show ?thesis using "2.IH" [OF ck [symmetric] None k1] ck by simp
  next
    case (Some x)
    then show ?thesis using ck k1 by (cases x) simp_all
  qed
qed simp

lemma core_wf_scan_loop: "core_wf k \<Longrightarrow> core_wf (fst (snd (snd (scan_loop h s xs k))))"
proof (induction h s xs k rule: scan_loop.induct)
  case (1 h s xs k)
  obtain r k1 zs where sc: "scan xs k = (r, k1, zs)" by (cases "scan xs k")
  have k1: "core_wf k1" using core_wf_scan [OF "1.prems", of xs] sc by simp
  show ?case
  proof (cases "r = Got_header")
    case True
    show ?thesis
    proof (cases "h s (pc_header k1)")
      case None
      then show ?thesis using sc True k1 by (simp add: scan_loop.simps [of h s xs])
    next
      case (Some s')
      then show ?thesis using "1.IH" [OF sc [symmetric] True refl Some k1] sc True by (simp add: scan_loop.simps [of h s xs])
    qed
  next
    case False
    then show ?thesis using sc k1 by (cases r) (simp_all add: scan_loop.simps [of h s xs])
  qed
qed

text \<open>
  Every state the parser can get into is well formed: whatever the pieces of input are, the two
  characters that \<^verbatim>\<open>header_.resize(header_.size() - 2)\<close> cuts off are the end of line just read, so the size
  never underflows, and the counter of brackets is never above one.
\<close>

theorem parser_state_wf:
  "core_wf (ps_core (fst (snd (snd (parser_chunks h s (parser_new (Body [] 0)) xs)))))"
proof -
  let ?p = "parser_new (Body [] 0)"
  have p: "ps_ungot ?p = []" "pending ?p = []" "core_wf (ps_core ?p)"
    by (simp_all add: parser_new_def pending_def core_new_def core_wf_def)
  obtain p' zs where "parser_chunks h s ?p xs = (fst (scan_loop h s (concat xs) (ps_core ?p)), fst (snd (scan_loop h s (concat xs) (ps_core ?p))), p', zs)"
    "ps_core p' = fst (snd (snd (scan_loop h s (concat xs) (ps_core ?p))))"
    using parser_chunks_scan [OF p(1,2), of h s xs] by blast
  then show ?thesis using core_wf_scan_loop [OF p(3)] by simp
qed

text \<open>A nested comment ends at the first closing bracket: the opening bracket inside is not counted.\<close>

lemma nested_comment_ends_early:
  "fst (snd (scan (''A: (x(y)'' @ [CR]) core_new)) = \<lparr>pc_state = Lf_expected, pc_brackets = 0, pc_header = ''A: (x(y)'' @ [CR]\<rparr>"
  by code_simp

section \<open>Well-formed headers\<close>

text \<open>A piece of a header: a character, a quoted string or a comment.\<close>

datatype piece = Plain char | Quoted string | Comment string

fun piece_text :: "piece \<Rightarrow> string" where
  "piece_text (Plain c) = [c]"
| "piece_text (Quoted b) = DQUOTE # b @ [DQUOTE]"
| "piece_text (Comment b) = CHR ''('' # b @ [CHR '')'']"

fun piece_ok :: "piece \<Rightarrow> bool" where
  "piece_ok (Plain c) \<longleftrightarrow> c \<noteq> CR \<and> c \<noteq> DQUOTE \<and> c \<noteq> CHR ''(''"
| "piece_ok (Quoted b) \<longleftrightarrow> list_all (\<lambda>c. c \<noteq> DQUOTE \<and> c \<noteq> BSLASH) b"
| "piece_ok (Comment b) \<longleftrightarrow> list_all (\<lambda>c. c \<noteq> CHR '')'' \<and> c \<noteq> BSLASH) b"

definition pieces_text :: "piece list \<Rightarrow> string" where
  "pieces_text ps = concat (map piece_text ps)"

text \<open>A header of several lines; each line behind the first starts with a space or a tab.\<close>

definition header_wire :: "piece list \<times> (char \<times> piece list) list \<Rightarrow> string" where
  "header_wire = (\<lambda>(f, ls). pieces_text f @ concat (map (\<lambda>(w, l). [CR, LF, w] @ pieces_text l) ls) @ [CR, LF])"

definition header_value :: "piece list \<times> (char \<times> piece list) list \<Rightarrow> string" where
  "header_value = (\<lambda>(f, ls). pieces_text f @ concat (map (\<lambda>(w, l). w # pieces_text l) ls))"

definition blank :: "char \<Rightarrow> bool" where
  "blank c \<longleftrightarrow> c = CHR '' '' \<or> c = TAB"

definition header_ok :: "piece list \<times> (char \<times> piece list) list \<Rightarrow> bool" where
  "header_ok = (\<lambda>(f, ls). f \<noteq> [] \<and> (\<forall>c. hd f = Plain c \<longrightarrow> \<not> blank c) \<and> list_all piece_ok f
     \<and> list_all (\<lambda>(w, l). blank w \<and> list_all piece_ok l) ls)"

definition in_line :: "string \<Rightarrow> parser_core" where
  "in_line hdr = \<lparr>pc_state = Input_observed, pc_brackets = 0, pc_header = hdr\<rparr>"

lemma scan_quote:
  "list_all (\<lambda>c. c \<noteq> DQUOTE \<and> c \<noteq> BSLASH) b
    \<Longrightarrow> scan (b @ DQUOTE # t) \<lparr>pc_state = Quote_expected, pc_brackets = 0, pc_header = hdr\<rparr> = scan t (in_line (hdr @ b @ [DQUOTE]))"
  by (induction b arbitrary: hdr) (simp_all add: core_char_def append_char_def in_line_def)

lemma scan_comment:
  "list_all (\<lambda>c. c \<noteq> CHR '')'' \<and> c \<noteq> BSLASH) b
    \<Longrightarrow> scan (b @ CHR '')'' # t) \<lparr>pc_state = Closing_bracket_expected, pc_brackets = 1, pc_header = hdr\<rparr> = scan t (in_line (hdr @ b @ [CHR '')'']))"
  by (induction b arbitrary: hdr) (simp_all add: core_char_def append_char_def in_line_def)

lemma scan_piece: "piece_ok q \<Longrightarrow> scan (piece_text q @ t) (in_line hdr) = scan t (in_line (hdr @ piece_text q))"
  by (cases q)
    (simp_all add: core_char_def append_char_def line_char_def in_line_def scan_quote [unfolded in_line_def] scan_comment [unfolded in_line_def])

lemma scan_piece_idle:
  "piece_ok q \<Longrightarrow> scan (piece_text q @ t) \<lparr>pc_state = Idle, pc_brackets = 0, pc_header = hdr\<rparr> = scan t (in_line (piece_text q))"
  by (cases q)
    (simp_all add: core_char_def append_char_def line_char_def in_line_def scan_quote [unfolded in_line_def] scan_comment [unfolded in_line_def])

lemma scan_pieces: "list_all piece_ok ps \<Longrightarrow> scan (pieces_text ps @ t) (in_line hdr) = scan t (in_line (hdr @ pieces_text ps))"
  by (induction ps arbitrary: hdr) (simp_all add: pieces_text_def scan_piece)

lemma scan_lines:
  assumes "list_all (\<lambda>(w, l). blank w \<and> list_all piece_ok l) ls" "\<not> blank c"
  shows "scan (concat (map (\<lambda>(w, l). [CR, LF, w] @ pieces_text l) ls) @ [CR, LF] @ c # t) (in_line hdr)
    = (Got_header, \<lparr>pc_state = Idle, pc_brackets = 0, pc_header = hdr @ concat (map (\<lambda>(w, l). w # pieces_text l) ls)\<rparr>, c # t)"
  using assms(1)
proof (induction ls arbitrary: hdr)
  case Nil
  then show ?case using assms(2)
    by (simp add: core_char_def append_char_def line_char_def in_line_def drop_crlf_def blank_def)
next
  case (Cons x ls)
  obtain w l where x: "x = (w, l)" by (cases x)
  have w: "blank w" and l: "list_all piece_ok l" using Cons.prems x by simp_all
  have "scan ([CR, LF, w] @ r) (in_line hdr) = scan r (in_line (hdr @ [w]))" for r
    using w by (simp add: core_char_def append_char_def line_char_def in_line_def drop_crlf_def blank_def)
  then show ?case using Cons.IH Cons.prems x l by (simp add: scan_pieces)
qed

lemma scan_header:
  assumes "header_ok x" "\<not> blank c"
  shows "scan (header_wire x @ c # t) \<lparr>pc_state = Idle, pc_brackets = 0, pc_header = hdr\<rparr>
    = (Got_header, \<lparr>pc_state = Idle, pc_brackets = 0, pc_header = header_value x\<rparr>, c # t)"
proof -
  obtain q f ls where x: "x = (q # f, ls)" using assms(1) by (cases x; cases "fst x") (auto simp: header_ok_def)
  have ok: "piece_ok q" "list_all piece_ok f" "list_all (\<lambda>(w, l). blank w \<and> list_all piece_ok l) ls"
    using assms(1) x by (simp_all add: header_ok_def)
  have "header_wire x @ c # t = piece_text q @ pieces_text f @ (concat (map (\<lambda>(w, l). [CR, LF, w] @ pieces_text l) ls) @ [CR, LF] @ c # t)"
    by (simp add: x header_wire_def pieces_text_def)
  then show ?thesis
    by (simp only: scan_piece_idle [OF ok(1)] scan_pieces [OF ok(2)] scan_lines [OF ok(3) assms(2)])
      (simp add: x header_value_def pieces_text_def)
qed

lemma header_wire_hd: "header_ok x \<Longrightarrow> \<exists>c t. header_wire x = c # t \<and> \<not> blank c"
proof -
  assume ok: "header_ok x"
  then obtain q f ls where x: "x = (q # f, ls)" by (cases x; cases "fst x") (auto simp: header_ok_def)
  with ok show ?thesis by (cases q) (auto simp: header_wire_def header_ok_def pieces_text_def blank_def)
qed

text \<open>The handler on all headers in turn.\<close>

fun fold_headers :: "('s \<Rightarrow> string \<Rightarrow> 's option) \<Rightarrow> 's \<Rightarrow> string list \<Rightarrow> 's option" where
  "fold_headers h s [] = Some s"
| "fold_headers h s (x # xs) = (case h s x of None \<Rightarrow> None | Some s' \<Rightarrow> fold_headers h s' xs)"

lemma fold_headers_collect: "fold_headers (\<lambda>hs x. Some (hs @ [x])) acc xs = Some (acc @ xs)"
  by (induction xs arbitrary: acc) simp_all

lemma scan_loop_headers:
  assumes "list_all header_ok xs" "fold_headers h s (map header_value xs) = Some s'"
  shows "scan_loop h s (concat (map header_wire xs) @ [CR, LF] @ rest) \<lparr>pc_state = Idle, pc_brackets = 0, pc_header = hdr\<rparr>
    = (Some End_of_headers, s', \<lparr>pc_state = Last_lf_expected, pc_brackets = 0, pc_header = []\<rparr>, rest)"
  using assms
proof (induction xs arbitrary: s hdr)
  case Nil
  then show ?case by (simp add: scan_loop.simps core_char_def append_char_def line_char_def)
next
  case (Cons x xs)
  obtain c t where ct: "concat (map header_wire xs) @ [CR, LF] @ rest = c # t" "\<not> blank c"
  proof (cases xs)
    case Nil
    then show ?thesis using that by (simp add: blank_def)
  next
    case (Cons y ys)
    then show ?thesis using that header_wire_hd [of y] Cons.prems by auto
  qed
  have "scan (concat (map header_wire (x # xs)) @ [CR, LF] @ rest) \<lparr>pc_state = Idle, pc_brackets = 0, pc_header = hdr\<rparr>
      = (Got_header, \<lparr>pc_state = Idle, pc_brackets = 0, pc_header = header_value x\<rparr>, c # t)"
    using scan_header [of x c t hdr] Cons.prems ct by simp
  moreover obtain s1 where "h s (header_value x) = Some s1" "fold_headers h s1 (map header_value xs) = Some s'"
    using Cons.prems(2) by (auto split: option.splits)
  ultimately show ?case using Cons.IH [of s1 "header_value x"] Cons.prems(1) unfolding ct(1)
    by (subst scan_loop.simps) simp
qed

text \<open>
  C34. The parser finds the headers of a request.  For a block of headers made of characters, quoted
  strings and comments, each possibly continued on further lines that start with a space or a tab, the
  reader gets exactly the headers with the lines joined, in order, then the end of the headers, and
  nothing of what follows is consumed.
\<close>

theorem parser_reads_headers:
  assumes "list_all header_ok xs"
  shows "\<exists>p'. parser_loop (\<lambda>hs x. Some (hs @ [x])) [] (parser_new (Body (concat (map header_wire xs) @ [CR, LF] @ rest) 0))
      = (Some End_of_headers, map header_value xs, p') \<and> pending p' = rest"
proof -
  let ?p = "parser_new (Body (concat (map header_wire xs) @ [CR, LF] @ rest) 0)"
  have p: "ps_ungot ?p = []" "pending ?p = concat (map header_wire xs) @ [CR, LF] @ rest"
    "ps_core ?p = \<lparr>pc_state = Idle, pc_brackets = 0, pc_header = []\<rparr>"
    by (simp_all add: parser_new_def pending_def core_new_def)
  show ?thesis
    using parser_loop_scan [OF p(1), of "\<lambda>hs x. Some (hs @ [x])" "[]"] scan_loop_headers [OF assms fold_headers_collect, of "[]" rest "[]"]
    unfolding p(2,3) by auto
qed

theorem parser_reads_headers_witness:
  "\<exists>p'. parser_loop (\<lambda>hs x. Some (hs @ [x])) []
      (parser_new (Body (''GET / HTTP/1.0'' @ [CR, LF] @ ''A:'' @ [CR, LF] @ '' b'' @ [CR, LF, CR, LF] @ ''x'') 0))
    = (Some End_of_headers, [''GET / HTTP/1.0'', ''A: b''], p') \<and> pending p' = ''x''"
proof -
  let ?xs = "[(map Plain ''GET / HTTP/1.0'', []), (map Plain ''A:'', [(CHR '' '', map Plain ''b'')])]"
  have "list_all header_ok ?xs" by (simp add: header_ok_def blank_def)
  from parser_reads_headers [OF this, of "''x''"] show ?thesis
    by (simp add: header_wire_def header_value_def pieces_text_def)
qed

end
