(* ===== verification/Response_Headers.thy ===== *)
theory Response_Headers
  imports Http_Cookie "HOL-Library.Multiset"
begin

text \<open>
  \<^verbatim>\<open>private/response_headers.h\<close>: the headers of a response, and \<^verbatim>\<open>private/cgi_headers_parser.h\<close>, which reads
  the headers that an application writes itself in front of its output.
\<close>

section \<open>A map whose keys are compared without case\<close>

text \<open>\<^verbatim>\<open>std::map<std::string,std::string,icompare_type>\<close>: assignment keeps the key that is there.\<close>

fun icmap_put :: "string \<Rightarrow> string \<Rightarrow> (string \<times> string) list \<Rightarrow> (string \<times> string) list" where
  "icmap_put k v [] = [(k, v)]"
| "icmap_put k v ((k', v') # m) =
     (if compare_nocase k k' < 0 then (k, v) # (k', v') # m
      else if compare_nocase k k' = 0 then (k', v) # m
      else (k', v') # icmap_put k v m)"

fun icmap_find :: "(string \<times> string) list \<Rightarrow> string \<Rightarrow> string option" where
  "icmap_find [] k = None"
| "icmap_find ((k', v) # m) k = (if compare_nocase k k' = 0 then Some v else icmap_find m k)"

fun icmap_erase :: "string \<Rightarrow> (string \<times> string) list \<Rightarrow> (string \<times> string) list" where
  "icmap_erase k [] = []"
| "icmap_erase k ((k', v) # m) = (if compare_nocase k k' = 0 then m else (k', v) # icmap_erase k m)"

definition icmap_ok :: "(string \<times> string) list \<Rightarrow> bool" where
  "icmap_ok m \<longleftrightarrow> sorted_wrt (<) (map (fold_key \<circ> fst) m)"

section \<open>The headers\<close>

record response_headers =
  rh_headers :: "(string \<times> string) list"
  rh_added :: "string list"

definition response_headers_new :: response_headers where
  "response_headers_new = \<lparr>rh_headers = [], rh_added = []\<rparr>"

definition set_header :: "string \<Rightarrow> string \<Rightarrow> response_headers \<Rightarrow> response_headers" where
  "set_header name v h =
     (if v = [] then h\<lparr>rh_headers := icmap_erase name (rh_headers h)\<rparr>
      else h\<lparr>rh_headers := icmap_put name v (rh_headers h)\<rparr>)"

definition get_header :: "string \<Rightarrow> response_headers \<Rightarrow> string" where
  "get_header name h = (case icmap_find (rh_headers h) name of Some v \<Rightarrow> v | None \<Rightarrow> [])"

definition erase_header :: "string \<Rightarrow> response_headers \<Rightarrow> response_headers" where
  "erase_header name h = h\<lparr>rh_headers := icmap_erase name (rh_headers h)\<rparr>"

definition add_header_line :: "string \<Rightarrow> response_headers \<Rightarrow> response_headers" where
  "add_header_line l h = h\<lparr>rh_added := rh_added h @ [l]\<rparr>"

definition add_header :: "string \<Rightarrow> string \<Rightarrow> response_headers \<Rightarrow> response_headers" where
  "add_header name v h =
     (if compare_nocase name ''status'' = 0 \<or> compare_nocase name ''content-length'' = 0 then set_header name v h
      else add_header_line (name @ '': '' @ v) h)"

definition crlf :: string where
  "crlf = [CR, LF]"

definition estimate_size :: "response_headers \<Rightarrow> nat" where
  "estimate_size h = 32 + sum_list (map (\<lambda>(k, v). length k + length v + 4) (rh_headers h))
     + sum_list (map (\<lambda>l. length l + 2) (rh_added h))"

definition format_http_headers :: "string \<Rightarrow> bool \<Rightarrow> response_headers \<Rightarrow> string" where
  "format_http_headers version complete h =
     ''HTTP/'' @ version @ '' '' @ (case icmap_find (rh_headers h) ''Status'' of None \<Rightarrow> ''200 Ok'' | Some s \<Rightarrow> s) @ crlf
     @ concat (map (\<lambda>(k, v). if compare_nocase ''Status'' k = 0 then [] else k @ '': '' @ v @ crlf) (rh_headers h))
     @ concat (map (\<lambda>l. l @ crlf) (rh_added h)) @ (if complete then crlf else [])"

definition format_cgi_headers :: "bool \<Rightarrow> response_headers \<Rightarrow> string" where
  "format_cgi_headers complete h =
     concat (map (\<lambda>(k, v). k @ '': '' @ v @ crlf) (rh_headers h)) @ concat (map (\<lambda>l. l @ crlf) (rh_added h))
     @ (if complete then crlf else [])"

section \<open>Reading headers from the output of an application\<close>

record cgi_headers_parser =
  cp_header :: string
  cp_headers :: response_headers
  cp_completed :: bool

definition cgi_headers_parser_new :: cgi_headers_parser where
  "cgi_headers_parser_new = \<lparr>cp_header = [], cp_headers = response_headers_new, cp_completed = False\<rparr>"

definition parse_header_line :: "string \<Rightarrow> response_headers \<Rightarrow> response_headers" where
  "parse_header_line l h =
     (let start = skip_ws l; key_end = tocken start; colon = skip_ws key_end;
          value_start = (case colon of [] \<Rightarrow> [] | _ # r \<Rightarrow> skip_ws r)
      in if length key_end \<noteq> length start \<and> colon \<noteq> [] \<and> hd colon = CHR '':''
         then add_header (str_range start key_end) value_start h
         else add_header_line l h)"

text \<open>
  \<^verbatim>\<open>consume\<close>: the data that is left, the new state, and the headers given to the connection when they are
  complete.
\<close>

fun consume_loop :: "string \<Rightarrow> cgi_headers_parser \<Rightarrow> string \<times> cgi_headers_parser \<times> response_headers option" where
  "consume_loop [] p = ([], p, None)"
| "consume_loop (c # data) p =
     (let hd' = cp_header p @ [c]; p1 = p\<lparr>cp_header := hd'\<rparr>; size = length hd'
      in if size \<ge> 2 \<and> hd' ! (size - 2) = CR \<and> hd' ! (size - 1) = LF
         then if size = 2 then (data, p1\<lparr>cp_completed := True\<rparr>, Some (cp_headers p1))
              else consume_loop data (p1\<lparr>cp_headers := parse_header_line (take (size - 2) hd') (cp_headers p1), cp_header := []\<rparr>)
         else consume_loop data p1)"

definition consume :: "string \<Rightarrow> cgi_headers_parser \<Rightarrow> string \<times> cgi_headers_parser \<times> response_headers option" where
  "consume data p = (if cp_completed p then (data, p, None) else consume_loop data p)"

section \<open>The map\<close>

lemma compare_nocase_0: "compare_nocase k k' = 0 \<longleftrightarrow> fold_key k = fold_key k'"
  by (auto simp: compare_nocase_lex)

lemma compare_nocase_less: "compare_nocase k k' < 0 \<longleftrightarrow> fold_key k < fold_key k'"
  by (auto simp: compare_nocase_lex)

lemma icmap_find_put: "icmap_find (icmap_put k v m) k' = (if fold_key k' = fold_key k then Some v else icmap_find m k')"
  by (induction k v m rule: icmap_put.induct) (auto simp: compare_nocase_0 compare_nocase_less)

lemma icmap_put_keys: "p \<in> set (icmap_put k v m) \<Longrightarrow> fold_key (fst p) = fold_key k \<or> fold_key (fst p) \<in> (fold_key \<circ> fst) ` set m"
  by (induction k v m rule: icmap_put.induct) (auto simp: compare_nocase_0 split: if_splits)

lemma icmap_ok_put: "icmap_ok m \<Longrightarrow> icmap_ok (icmap_put k v m)"
proof (induction k v m rule: icmap_put.induct)
  case (2 k v k' v' m)
  then have ok: "icmap_ok m" "\<And>p. p \<in> set m \<Longrightarrow> fold_key k' < fold_key (fst p)" by (auto simp: icmap_ok_def)
  show ?case
  proof (cases "fold_key k' < fold_key k")
    case True
    then have "icmap_ok (icmap_put k v m)" using 2 ok by (auto simp: compare_nocase_0 compare_nocase_less)
    moreover have "fold_key k' < fold_key (fst p)" if "p \<in> set (icmap_put k v m)" for p
      using icmap_put_keys [OF that] ok(2) True by auto
    ultimately show ?thesis using True by (auto simp: icmap_ok_def compare_nocase_0 compare_nocase_less)
  next
    case False
    then show ?thesis using 2 ok(2)
      by (auto simp: icmap_ok_def compare_nocase_0 compare_nocase_less intro: less_trans)
  qed
qed (simp add: icmap_ok_def)

lemma icmap_find_erase:
  "icmap_ok m \<Longrightarrow> icmap_find (icmap_erase k m) k' = (if fold_key k' = fold_key k then None else icmap_find m k')"
proof (induction k m rule: icmap_erase.induct)
  case (2 k k'' v m)
  have "icmap_find m x = None" if "fold_key x = fold_key k''" for x
  proof -
    have "\<forall>p \<in> set m. fold_key k'' < fold_key (fst p)" using "2.prems" by (auto simp: icmap_ok_def)
    with that show ?thesis by (induction m) (auto simp: compare_nocase_0)
  qed
  with 2 show ?case by (auto simp: icmap_ok_def compare_nocase_0)
qed simp

section \<open>Headers that are written and read again\<close>

definition header_line :: "string \<times> string \<Rightarrow> string" where
  "header_line = (\<lambda>(k, v). k @ '': '' @ v)"

definition header_lines :: "response_headers \<Rightarrow> string list" where
  "header_lines h = map header_line (rh_headers h) @ rh_added h"

definition pair_ok :: "string \<times> string \<Rightarrow> bool" where
  "pair_ok = (\<lambda>(k, v). k \<noteq> [] \<and> list_all tchar k \<and> v \<noteq> [] \<and> CR \<notin> set v \<and> hd v \<noteq> CHR '' '' \<and> hd v \<noteq> TAB)"

lemma format_cgi_lines: "format_cgi_headers True h = concat (map (\<lambda>l. l @ crlf) (header_lines h)) @ crlf"
proof -
  have "concat (map (\<lambda>(k, v). k @ '': '' @ v @ crlf) m) = concat (map (\<lambda>l. l @ crlf) (map header_line m))" for m
    by (induction m) (auto simp: header_line_def)
  then show ?thesis by (simp add: format_cgi_headers_def header_lines_def)
qed

lemma consume_text:
  "CR \<notin> set l \<Longrightarrow> CR \<notin> set (cp_header p) \<Longrightarrow> consume_loop (l @ t) p = consume_loop t (p\<lparr>cp_header := cp_header p @ l\<rparr>)"
proof (induction l arbitrary: p)
  case (Cons c l)
  have "\<not> ((cp_header p @ [c]) ! (length (cp_header p @ [c]) - 2) = CR \<and> length (cp_header p @ [c]) \<ge> 2)"
  proof (cases "cp_header p")
    case (Cons a u)
    have "(cp_header p @ [c]) ! (length (cp_header p @ [c]) - 2) = last (cp_header p)"
      using Cons by (simp add: nth_append last_conv_nth)
    then show ?thesis using Cons.prems Cons last_in_set [of "cp_header p"] by (auto simp del: last.simps)
  qed simp
  then have "consume_loop ((c # l) @ t) p = consume_loop (l @ t) (p\<lparr>cp_header := cp_header p @ [c]\<rparr>)"
    by (auto simp: Let_def)
  then show ?case using Cons.IH [of "p\<lparr>cp_header := cp_header p @ [c]\<rparr>"] Cons.prems by simp
qed simp

lemma consume_line:
  assumes "CR \<notin> set l" "l \<noteq> []" "cp_header p = []"
  shows "consume_loop (l @ crlf @ t) p = consume_loop t (p\<lparr>cp_headers := parse_header_line l (cp_headers p)\<rparr>)"
proof -
  obtain l1 x where l: "l = l1 @ [x]" using assms(2) by (cases l rule: rev_cases) auto
  let ?q = "p\<lparr>cp_header := l\<rparr>"
  have "x \<noteq> CR" using assms(1) l by auto
  then have "consume_loop (CR # LF # t) ?q = consume_loop (LF # t) (p\<lparr>cp_header := l @ [CR]\<rparr>)"
    by (simp add: Let_def)
  also have "\<dots> = consume_loop t (p\<lparr>cp_headers := parse_header_line l (cp_headers p), cp_header := []\<rparr>)"
    using l by (simp add: Let_def nth_append)
  also have "p\<lparr>cp_headers := parse_header_line l (cp_headers p), cp_header := []\<rparr> = p\<lparr>cp_headers := parse_header_line l (cp_headers p)\<rparr>"
    using assms(3) by (cases p) simp
  finally show ?thesis using consume_text [OF assms(1), of p "CR # LF # t"] assms(3) by (simp add: crlf_def del: consume_loop.simps)
qed

lemma consume_lines:
  assumes "list_all (\<lambda>l. CR \<notin> set l \<and> l \<noteq> []) ls" "cp_header p = []"
  shows "consume_loop (concat (map (\<lambda>l. l @ crlf) ls) @ crlf @ body) p
    = (body, p\<lparr>cp_header := crlf, cp_headers := fold parse_header_line ls (cp_headers p), cp_completed := True\<rparr>,
       Some (fold parse_header_line ls (cp_headers p)))"
  using assms
proof (induction ls arbitrary: p)
  case Nil
  then show ?case by (simp add: crlf_def Let_def)
next
  case (Cons l ls)
  then show ?case by (simp add: consume_line)
qed

lemma header_line_split:
  assumes "pair_ok (k, v)"
  shows "skip_ws (k @ '': '' @ v) = k @ '': '' @ v" "tocken (k @ '': '' @ v) = '': '' @ v"
    "skip_ws ('' '' @ v) = v" "skip_ws ('': '' @ v) = '': '' @ v" "k \<noteq> []"
proof -
  have k: "k \<noteq> []" "list_all tchar k" and v: "v \<noteq> []" "CR \<notin> set v" "hd v \<noteq> CHR '' ''" "hd v \<noteq> TAB"
    using assms by (auto simp: pair_ok_def)
  show "skip_ws (k @ '': '' @ v) = k @ '': '' @ v" using k by (intro skip_ws_tchar) (cases k; simp)
  have n: "\<not> tchar (CHR '':'')" by code_simp
  show "tocken (k @ '': '' @ v) = '': '' @ v" using k(2) n by (intro tocken_append) simp_all
  obtain c w where "v = c # w" using v(1) by (cases v) auto
  then show "skip_ws ('' '' @ v) = v" using v by auto
  show "skip_ws ('': '' @ v) = '': '' @ v" by simp
  show "k \<noteq> []" by (rule k(1))
qed

lemma parse_header_pair:
  assumes "pair_ok (k, v)"
  shows "parse_header_line (header_line (k, v)) h = add_header k v h"
  unfolding parse_header_line_def header_line_def Let_def prod.case header_line_split(1,2,4) [OF assms]
  using header_line_split(3,5) [OF assms] by simp

definition special :: "string \<Rightarrow> bool" where
  "special k \<longleftrightarrow> compare_nocase k ''status'' = 0 \<or> compare_nocase k ''content-length'' = 0"

lemma mset_icmap_put: "icmap_find m k = None \<Longrightarrow> mset (icmap_put k v m) = add_mset (k, v) (mset m)"
  by (induction k v m rule: icmap_put.induct) (auto split: if_splits)

lemma special_fold: "fold_key k = fold_key k' \<Longrightarrow> special k \<longleftrightarrow> special k'"
  by (simp add: special_def compare_nocase_0)

lemma icmap_find_none: "\<forall>q \<in> set m. fold_key x \<noteq> fold_key (fst q) \<Longrightarrow> icmap_find m x = None"
  by (induction m) (auto simp: compare_nocase_0)

lemma icmap_find_append: "icmap_find (m @ m') x = (case icmap_find m x of None \<Rightarrow> icmap_find m' x | Some v \<Rightarrow> Some v)"
  by (induction m) auto

lemma fold_add_header:
  assumes "distinct (map (fold_key \<circ> fst) (filter (special \<circ> fst) L))" "list_all pair_ok L"
    and "\<forall>p \<in> set L. special (fst p) \<longrightarrow> icmap_find (rh_headers a) (fst p) = None"
  shows "mset (header_lines (fold (\<lambda>(k, v). add_header k v) L a)) = mset (map header_line L) + mset (header_lines a)
    \<and> (special x \<longrightarrow> icmap_find (rh_headers (fold (\<lambda>(k, v). add_header k v) L a)) x
         = (case icmap_find L x of Some v \<Rightarrow> Some v | None \<Rightarrow> icmap_find (rh_headers a) x))"
  using assms
proof (induction L arbitrary: a)
  case (Cons p L)
  obtain k v where p: "p = (k, v)" by (cases p)
  have v: "v \<noteq> []" using Cons.prems(2) p by (simp add: pair_ok_def)
  let ?a = "add_header k v a"
  have a: "?a = (if special k then a\<lparr>rh_headers := icmap_put k v (rh_headers a)\<rparr> else add_header_line (header_line p) a)"
    using v p by (simp add: add_header_def special_def set_header_def header_line_def)
  have "\<forall>q \<in> set L. special (fst q) \<longrightarrow> icmap_find (rh_headers ?a) (fst q) = None"
  proof (intro ballI impI)
    fix q assume q: "q \<in> set L" "special (fst q)"
    have "fold_key (fst q) \<in> (fold_key \<circ> fst) ` set (filter (special \<circ> fst) L)" using q by force
    moreover have "special k \<Longrightarrow> fold_key k \<notin> (fold_key \<circ> fst) ` set (filter (special \<circ> fst) L)" using Cons.prems(1) p by simp
    ultimately have "special k \<Longrightarrow> fold_key (fst q) \<noteq> fold_key k" by metis
    then show "icmap_find (rh_headers ?a) (fst q) = None"
      using Cons.prems(3) q unfolding a by (simp add: icmap_find_put add_header_line_def)
  qed
  note IH = Cons.IH [OF _ _ this]
  have m: "mset (header_lines ?a) = add_mset (header_line p) (mset (header_lines a))"
    using Cons.prems(3) p unfolding a by (auto simp: header_lines_def add_header_line_def mset_icmap_put)
  have f: "special x \<longrightarrow> icmap_find (rh_headers ?a) x = (if fold_key x = fold_key k then Some v else icmap_find (rh_headers a) x)"
    unfolding a using special_fold [of x k] by (auto simp: icmap_find_put add_header_line_def)
  have nf: "special x \<and> fold_key x = fold_key k \<longrightarrow> icmap_find L x = None"
  proof (intro impI)
    assume x: "special x \<and> fold_key x = fold_key k"
    then have "special k" using special_fold by blast
    then have "fold_key k \<notin> (fold_key \<circ> fst) ` set (filter (special \<circ> fst) L)" using Cons.prems(1) p by simp
    then have "\<forall>q \<in> set L. fold_key x \<noteq> fold_key (fst q)" using x special_fold [of x] by force
    then show "icmap_find L x = None" by (rule icmap_find_none)
  qed
  show ?case
    using IH Cons.prems(1,2) m f nf p by (auto simp: compare_nocase_0 split: if_splits option.splits)
qed (auto split: option.split)

lemma consume_append:
  "consume_loop (xs @ ys) p = (case consume_loop xs p of
     (rest, p', None) \<Rightarrow> consume_loop ys p' | (rest, p', Some h) \<Rightarrow> (rest @ ys, p', Some h))"
proof (induction xs arbitrary: p)
  case (Cons c xs)
  let ?h = "cp_header p @ [c]" and ?p = "p\<lparr>cp_header := cp_header p @ [c]\<rparr>"
  let ?q = "?p\<lparr>cp_headers := parse_header_line (take (length ?h - 2) ?h) (cp_headers ?p), cp_header := []\<rparr>"
  have u: "consume_loop (c # zs) p = (if length ?h \<ge> 2 \<and> ?h ! (length ?h - 2) = CR \<and> ?h ! (length ?h - 1) = LF
      then if length ?h = 2 then (zs, ?p\<lparr>cp_completed := True\<rparr>, Some (cp_headers ?p)) else consume_loop zs ?q
      else consume_loop zs ?p)" for zs
    by (simp only: consume_loop.simps(2) Let_def)
  show ?case
  proof (cases "length ?h \<ge> 2 \<and> ?h ! (length ?h - 2) = CR \<and> ?h ! (length ?h - 1) = LF")
    case True
    show ?thesis
    proof (cases "length ?h = 2")
      case two: True
      show ?thesis unfolding append_Cons u if_P [OF True] if_P [OF two] by simp
    next
      case False
      show ?thesis unfolding append_Cons u if_P [OF True] if_not_P [OF False] by (rule Cons.IH)
    qed
  next
    case False
    show ?thesis unfolding append_Cons u if_not_P [OF False] by (rule Cons.IH)
  qed
qed simp

lemma consume_None: "consume_loop xs p = (rest, p', None) \<Longrightarrow> rest = [] \<and> cp_completed p' = cp_completed p"
  by (induction xs p rule: consume_loop.induct) (auto simp: Let_def split: if_splits)

lemma header_line_no_cr: "list_all pair_ok L \<Longrightarrow> list_all (\<lambda>l. CR \<notin> set l \<and> l \<noteq> []) (map header_line L)"
proof (induction L)
  case (Cons p L)
  obtain k v where p: "p = (k, v)" by (cases p)
  have "CR \<notin> set k" "CR \<notin> set v" using Cons.prems p not_tchar(3) by (auto simp: pair_ok_def list_all_iff)
  then show ?case using Cons p by (simp add: header_line_def)
qed simp

lemma fold_parse_pairs:
  "list_all pair_ok L \<Longrightarrow> fold parse_header_line (map header_line L) a = fold (\<lambda>(k, v). add_header k v) L a"
  by (induction L arbitrary: a) (auto simp: parse_header_pair)

text \<open>
  Headers that the application writes itself are understood.  The text that \<^verbatim>\<open>format_cgi_headers\<close> writes
  for well-formed headers, followed by the body, is read as complete headers with the same status, the
  same content length and the same lines, up to their order, and the body is left; the same holds when
  the text comes in two pieces cut anywhere.
\<close>

theorem cgi_headers_read:
  assumes "icmap_ok (rh_headers h)" "list_all pair_ok (rh_headers h @ extra)" "list_all (\<lambda>(k, v). \<not> special k) extra"
    and "rh_added h = map header_line extra" "xs @ ys = format_cgi_headers True h @ body" "length xs < length (format_cgi_headers True h)"
  shows "\<exists>p' h'. (case consume xs cgi_headers_parser_new of (rest, p1, r) \<Rightarrow> rest = [] \<and> r = None \<and> consume ys p1 = (body, p', Some h'))
    \<and> mset (header_lines h') = mset (header_lines h)
    \<and> get_header ''Status'' h' = get_header ''Status'' h \<and> get_header ''Content-Length'' h' = get_header ''Content-Length'' h"
proof -
  let ?L = "rh_headers h @ extra" and ?F = "format_cgi_headers True h" and ?new = cgi_headers_parser_new
  let ?h = "fold (\<lambda>(k, v). add_header k v) ?L response_headers_new"
  have L: "header_lines h = map header_line ?L" by (simp add: header_lines_def assms(4))
  have ex: "filter (special \<circ> fst) extra = []" using assms(3) by (auto simp: filter_empty_conv list_all_iff)
  have "distinct (map (fold_key \<circ> fst) (rh_headers h))" using assms(1) by (auto simp: icmap_ok_def strict_sorted_iff)
  then have d: "distinct (map (fold_key \<circ> fst) (filter (special \<circ> fst) ?L))" using ex by (simp add: distinct_map_filter)
  note fa = fold_add_header [OF d assms(2), of response_headers_new, unfolded response_headers_new_def, simplified]
  have find: "get_header x ?h = get_header x h" if "special x" for x
  proof -
    have "\<forall>p \<in> set extra. fold_key x \<noteq> fold_key (fst p)" using that assms(3) special_fold [of x] by (fastforce simp: list_all_iff)
    then have "icmap_find ?L x = icmap_find (rh_headers h) x" by (simp add: icmap_find_append icmap_find_none split: option.split)
    then show ?thesis using fa [of x] that by (simp add: get_header_def response_headers_new_def split: option.splits)
  qed
  have "list_all (\<lambda>l. CR \<notin> set l \<and> l \<noteq> []) (header_lines h)" unfolding L using assms(2) by (rule header_line_no_cr)
  from consume_lines [OF this, of ?new body]
  have all: "consume_loop (?F @ body) ?new = (body, ?new\<lparr>cp_header := crlf, cp_headers := ?h, cp_completed := True\<rparr>, Some ?h)"
    using fold_parse_pairs [OF assms(2)] by (simp add: format_cgi_lines L cgi_headers_parser_new_def)
  obtain rest p1 r where c1: "consume_loop xs ?new = (rest, p1, r)" by (cases "consume_loop xs ?new")
  have r: "r = None"
  proof (rule ccontr)
    assume "r \<noteq> None"
    then have "rest @ ys = body" using all c1 consume_append [of xs ys ?new] unfolding assms(5) by auto
    then have "length xs \<ge> length ?F" using arg_cong [OF assms(5), of length] by auto
    with assms(6) show False by simp
  qed
  have "rest = []" "\<not> cp_completed p1" using consume_None [of xs ?new rest p1] c1 r by (simp_all add: cgi_headers_parser_new_def)
  moreover have "consume_loop ys p1 = (body, ?new\<lparr>cp_header := crlf, cp_headers := ?h, cp_completed := True\<rparr>, Some ?h)"
    using all c1 r consume_append [of xs ys ?new] unfolding assms(5) by simp
  moreover have "special ''Status''" "special ''Content-Length''" by code_simp+
  moreover have "mset (header_lines ?h) = mset (header_lines h)" using fa [of "[]"] L by (simp add: header_lines_def response_headers_new_def)
  ultimately show ?thesis
    using c1 r find by (intro exI [of _ "?new\<lparr>cp_header := crlf, cp_headers := ?h, cp_completed := True\<rparr>"] exI [of _ ?h])
      (simp add: consume_def cgi_headers_parser_new_def)
qed

theorem cgi_headers_read_witness:
  "\<exists>p' h'. (case consume ''Status: 200 Ok'' cgi_headers_parser_new of (rest, p1, r) \<Rightarrow> consume (crlf @ crlf @ ''text'') p1 = (''text'', p', Some h'))
    \<and> get_header ''Status'' h' = ''200 Ok''"
proof -
  let ?h = "\<lparr>rh_headers = [(''Status'', ''200 Ok'')], rh_added = []\<rparr>"
  have "list_all pair_ok [(''Status'', ''200 Ok'')]" by code_simp
  moreover have "format_cgi_headers True ?h = ''Status: 200 Ok'' @ crlf @ crlf" "get_header ''Status'' ?h = ''200 Ok''" by code_simp+
  ultimately show ?thesis
    using cgi_headers_read [of ?h "[]" "''Status: 200 Ok''" "crlf @ crlf @ ''text''" "''text''"]
    by (auto simp: icmap_ok_def crlf_def)
qed

end
