(* ===== verification/Http_Server.thy ===== *)
theory Http_Server
  imports String_Map Http_Parser Response_Headers Util_Codec Decimal
begin

text \<open>
  \<^verbatim>\<open>src/http_api.cpp\<close>: a connection of the embedded HTTP server.  It reads the headers of a request with the
  parser, turns them into CGI variables, and frames the response so that the client knows where it ends
  and the connection can serve the next request.
\<close>

section \<open>The connection\<close>

text \<open>
  \<^verbatim>\<open>atoll\<close>: blanks, a sign, digits; the rest is ignored and the result is clamped to the range of
  \<^verbatim>\<open>long long\<close>, as \<^verbatim>\<open>strtoll\<close> does.
\<close>

definition atoll :: "string \<Rightarrow> int" where
  "atoll s =
     (let s1 = dropWhile is_space s;
          neg = (s1 \<noteq> [] \<and> hd s1 = CHR ''-'');
          s2 = (if s1 \<noteq> [] \<and> (hd s1 = CHR ''-'' \<or> hd s1 = CHR ''+'') then tl s1 else s1);
          n = int (dec_value (takeWhile is_digit s2))
      in if neg then max (- (2 ^ 63)) (- n) else min (2 ^ 63 - 1) n)"

text \<open>The settings the connection reads; \<open>set_software\<close> is the name and version of the package.\<close>

record http_settings =
  set_software :: string
  set_ip :: string
  set_port :: int
  set_proxy_behind :: bool
  set_remote_addr_variables :: "string list"
  set_script_names :: "string list"

record http_conn =
  hs_request_method :: string
  hs_script_name :: string
  hs_path_info :: string
  hs_remote_addr :: string
  hs_query_string :: string
  hs_content_type :: string
  hs_content_length :: int
  hs_request_uri :: string
  hs_headers_done :: bool
  hs_first_header :: bool
  hs_total_read :: nat
  hs_is_http_11 :: bool
  hs_accepts_keep_alive :: bool
  hs_keep_alive :: bool
  hs_chunked :: bool
  hs_out_length :: int
  hs_out_written :: int
  hs_response_headers :: string
  hs_env :: string_map

text \<open>\<^verbatim>\<open>env_.add\<close>, which always returns (\<open>String_Map\<close>).\<close>

definition env_add :: "string \<Rightarrow> string \<Rightarrow> http_conn \<Rightarrow> http_conn" where
  "env_add k v c = (case map_add k v (hs_env c) of Some e \<Rightarrow> c\<lparr>hs_env := e\<rparr> | None \<Rightarrow> c)"

definition cgetenv :: "string \<Rightarrow> http_conn \<Rightarrow> string" where
  "cgetenv k c = (case map_get_safe k (hs_env c) of Some v \<Rightarrow> v | None \<Rightarrow> [])"

definition reset_all :: "http_settings \<Rightarrow> http_conn \<times> parser \<Rightarrow> http_conn \<times> parser" where
  "reset_all st = (\<lambda>(c, p).
     (env_add ''GATEWAY_INTERFACE'' ''CGI/1.0''
       (env_add ''SERVER_PORT'' (format_number (set_port st) 10)
         (env_add ''SERVER_NAME'' (cstr (set_ip st))
           (env_add ''SERVER_SOFTWARE'' (set_software st)
             (c\<lparr>hs_request_method := [], hs_script_name := [], hs_path_info := [], hs_remote_addr := [],
                hs_query_string := [], hs_content_type := [], hs_content_length := 0, hs_request_uri := [],
                hs_headers_done := False, hs_first_header := False, hs_total_read := 0, hs_is_http_11 := False,
                hs_accepts_keep_alive := False, hs_keep_alive := False, hs_chunked := False, hs_out_length := -1,
                hs_out_written := 0, hs_env := string_map_new\<rparr>)))),
      parser_reset p))"

definition http_conn_new :: "http_settings \<Rightarrow> http_conn \<times> parser" where
  "http_conn_new st =
     reset_all st
       (\<lparr>hs_request_method = [], hs_script_name = [], hs_path_info = [], hs_remote_addr = [], hs_query_string = [],
         hs_content_type = [], hs_content_length = 0, hs_request_uri = [], hs_headers_done = False,
         hs_first_header = False, hs_total_read = 0, hs_is_http_11 = False, hs_accepts_keep_alive = False,
         hs_keep_alive = False, hs_chunked = False, hs_out_length = -1, hs_out_written = 0, hs_response_headers = [],
         hs_env = string_map_new\<rparr>,
        parser_new (Body [] 0))"

section \<open>Headers of the request\<close>

definition upper_underscore :: "char \<Rightarrow> char" where
  "upper_underscore c =
     (if c = CHR ''-'' then CHR ''_''
      else if char_in (CHR ''a'') (CHR ''z'') c then ch (uc c - uc (CHR ''a'') + uc (CHR ''A'')) else c)"

definition parse_single_header :: "string \<Rightarrow> (string \<times> string) option" where
  "parse_single_header header =
     (let p = skip_ws header; name_end = tocken p
      in if length name_end = length p then None
         else
           (let q = skip_ws name_end
            in if q = [] \<or> hd q \<noteq> CHR '':'' then None
               else Some (map upper_underscore (str_range p name_end), cstr (skip_ws (tl q)))))"

definition request_line :: "string \<Rightarrow> (string \<times> string \<times> string) option" where
  "request_line header =
     (let rmethod = dropWhile (\<lambda>c. c \<noteq> CHR '' '') header
      in if rmethod = [] then None
         else
           (let query = dropWhile (\<lambda>c. c \<noteq> CHR '' '') (tl rmethod)
            in if query = [] then None
               else Some (cstr (str_range header rmethod), cstr (str_range (tl rmethod) query), cstr (tl query))))"

text \<open>The case \<^verbatim>\<open>parser::got_header\<close>; \<open>None\<close> is a protocol violation.\<close>

definition handle_header :: "http_conn \<Rightarrow> string \<Rightarrow> http_conn option" where
  "handle_header c header =
     (if \<not> hs_first_header c
      then (case request_line header of
              None \<Rightarrow> None
            | Some (m, uri, proto) \<Rightarrow>
                Some ((env_add ''SERVER_PROTOCOL'' proto
                        (c\<lparr>hs_first_header := True, hs_request_method := m, hs_request_uri := uri\<rparr>))
                      \<lparr>hs_is_http_11 := (proto = ''HTTP/1.1'')\<rparr>))
      else (case parse_single_header header of
              None \<Rightarrow> None
            | Some (name, v) \<Rightarrow>
                Some (if name = ''CONTENT_LENGTH''
                      then (env_add name v c)\<lparr>hs_content_length := (if v \<noteq> [] then atoll v else 0)\<rparr>
                      else if name = ''CONTENT_TYPE'' then env_add name v (c\<lparr>hs_content_type := v\<rparr>)
                      else env_add (''HTTP_'' @ name) v c)))"

text \<open>
  \<^verbatim>\<open>process_request\<close>.  The rewriter of URLs is an argument, \<open>None\<close> without one; \<open>remote_ip\<close> is what the socket
  says about the peer, \<open>None\<close> for an error.
\<close>

datatype http_result = Request_ready | Bad_request | Peer_error | Violation | Read_more | Input_error | Input_eof

definition proxy_addr :: "http_settings \<Rightarrow> http_conn \<Rightarrow> string option" where
  "proxy_addr st c =
     (if set_proxy_behind st
      then (case filter (\<lambda>r. r \<noteq> None) (map (\<lambda>k. case map_get k (hs_env c) of Some r \<Rightarrow> r | None \<Rightarrow> None) (set_remote_addr_variables st)) of
              r # _ \<Rightarrow> r | [] \<Rightarrow> None)
      else None)"

fun find_script :: "string list \<Rightarrow> string \<Rightarrow> string option" where
  "find_script [] path = None"
| "find_script (name # names) path =
     (if length path \<ge> length name \<and> take (length name) path = name
         \<and> (length path = length name \<or> path ! length name = CHR ''/'')
      then Some name else find_script names path)"

definition route_request :: "http_settings \<Rightarrow> http_conn \<Rightarrow> http_conn" where
  "route_request st c =
     (let uri = hs_request_uri c;
          path0 = takeWhile (\<lambda>x. x \<noteq> CHR ''?'') uri;
          query = dropWhile (\<lambda>x. x \<noteq> CHR ''?'') uri;
          c1 = (if query = [] then c else env_add ''QUERY_STRING'' (tl query) (c\<lparr>hs_query_string := tl query\<rparr>));
          (c2, path) = (case find_script (set_script_names st) path0 of
                          None \<Rightarrow> (c1, path0)
                        | Some name \<Rightarrow> (env_add ''SCRIPT_NAME'' (cstr name) (c1\<lparr>hs_script_name := cstr name\<rparr>), drop (length name) path0));
          info = cstr (urldecode path)
      in env_add ''PATH_INFO'' info (c2\<lparr>hs_path_info := info\<rparr>))"

definition process_request :: "http_settings \<Rightarrow> (string \<Rightarrow> string) option \<Rightarrow> string option \<Rightarrow> http_conn
    \<Rightarrow> http_result \<times> http_conn" where
  "process_request st rewrite remote_ip c =
     (let m = hs_request_method c
      in if m = [] \<or> tocken m \<noteq> [] then (Bad_request, c)
         else
           (let c1 = env_add ''REQUEST_METHOD'' m c;
                c2 = (case rewrite of Some f \<Rightarrow> c1\<lparr>hs_request_uri := f (hs_request_uri c1)\<rparr> | None \<Rightarrow> c1)
            in case (case proxy_addr st c2 of Some a \<Rightarrow> Some a | None \<Rightarrow> remote_ip) of
                 None \<Rightarrow> (Peer_error, c2)
               | Some a \<Rightarrow>
                   (let c3 = env_add ''REMOTE_ADDR'' a (env_add ''REMOTE_HOST'' a (c2\<lparr>hs_remote_addr := a\<rparr>))
                    in if hs_request_uri c3 = [] \<or> hd (hs_request_uri c3) \<noteq> CHR ''/'' then (Bad_request, c3)
                       else (Request_ready, route_request st c3))))"

text \<open>
  \<^verbatim>\<open>some_headers_data_read\<close>: \<open>readable\<close> is what \<^verbatim>\<open>bytes_readable\<close> answers, \<open>None\<close> for an error, and \<open>bytes\<close> what
  \<^verbatim>\<open>read_some\<close> delivers.
\<close>

definition input_buffer_empty :: "parser \<Rightarrow> bool" where
  "input_buffer_empty p = (case ps_source p of Body b i \<Rightarrow> b = [] \<or> i = length b | Area b i \<Rightarrow> i = length b)"

definition header_data :: "http_settings \<Rightarrow> (string \<Rightarrow> string) option \<Rightarrow> string option \<Rightarrow> http_conn \<times> parser
    \<Rightarrow> http_result \<times> http_conn \<times> parser" where
  "header_data st rewrite remote_ip = (\<lambda>(c, p).
     case parser_loop handle_header c p of
       (None, c', p') \<Rightarrow> (Violation, c', p')
     | (Some More_data, c', p') \<Rightarrow> if hs_total_read c' > 16384 then (Violation, c', p') else (Read_more, c', p')
     | (Some End_of_headers, c', p') \<Rightarrow> (let (r, c'') = process_request st rewrite remote_ip c' in (r, c'', p'))
     | (Some _, c', p') \<Rightarrow> (Violation, c', p'))"

definition some_headers_data_read :: "http_settings \<Rightarrow> (string \<Rightarrow> string) option \<Rightarrow> string option \<Rightarrow> nat option \<Rightarrow> string
    \<Rightarrow> http_conn \<times> parser \<Rightarrow> http_result \<times> http_conn \<times> parser" where
  "some_headers_data_read st rewrite remote_ip readable bytes = (\<lambda>(c, p).
     if input_buffer_empty p
     then (case readable of
             None \<Rightarrow> (Input_error, c, p)
           | Some n \<Rightarrow>
               if n = 0 then (Input_eof, c, p)
               else header_data st rewrite remote_ip
                      (c\<lparr>hs_total_read := hs_total_read c + length bytes\<rparr>, p\<lparr>ps_source := Body bytes 0\<rparr>))
     else header_data st rewrite remote_ip (c\<lparr>hs_total_read := hs_total_read c + length (source_rest (ps_source p))\<rparr>, p))"

text \<open>\<^verbatim>\<open>async_read_some\<close>: bytes of the body that came with the headers, or \<open>None\<close> when the socket has to be read.\<close>

definition read_buffered :: "nat \<Rightarrow> parser \<Rightarrow> string option \<times> parser" where
  "read_buffered s p =
     (if input_buffer_empty p then (None, p\<lparr>ps_source := Body [] 0\<rparr>)
      else
        (let rest = source_rest (ps_source p); n = min s (length rest)
         in (Some (take n rest),
             p\<lparr>ps_source := (if n = length rest then Body [] 0
                           else case ps_source p of Body b i \<Rightarrow> Body b (i + n) | Area b i \<Rightarrow> Area b (i + n))\<rparr>)))"

section \<open>The response\<close>

definition set_response_headers :: "response_headers \<Rightarrow> http_conn \<Rightarrow> http_conn" where
  "set_response_headers hdr c =
     (let cl = get_header ''Content-Length'' hdr
      in c\<lparr>hs_accepts_keep_alive := (compare_nocase (cgetenv ''HTTP_CONNECTION'' c) ''keep-alive'' = 0),
           hs_out_length := (if cl \<noteq> [] then atoll cl else -1), hs_out_written := 0,
           hs_response_headers := format_http_headers (if hs_is_http_11 c then ''1.1'' else ''1.0'') False hdr\<rparr>)"

text \<open>A size in hexadecimal, as \<^verbatim>\<open>std::hex\<close> writes it.\<close>

fun hex_size :: "nat \<Rightarrow> string" where
  "hex_size n = (if n < 16 then [hex_digits ! n] else hex_size (n div 16) @ [hex_digits ! (n mod 16)])"

declare hex_size.simps [simp del]

definition make_chunked_wrapper :: "string \<Rightarrow> bool \<Rightarrow> string" where
  "make_chunked_wrapper inp completed =
     (if inp = [] then (if completed then ''0'' @ crlf @ crlf else [])
      else hex_size (length inp) @ crlf @ inp @ (if completed then crlf @ ''0'' @ crlf @ crlf else crlf))"

text \<open>The bytes to send, whether the call reports a protocol violation, and the new state.\<close>

definition plain_output :: "string \<Rightarrow> http_conn \<Rightarrow> bool \<times> http_conn" where
  "plain_output inp c =
     (let w = hs_out_written c + int (length inp)
      in (hs_out_length c \<noteq> -1 \<and> w > hs_out_length c, c\<lparr>hs_out_written := w\<rparr>))"

definition response_prefix :: "bool \<Rightarrow> string \<Rightarrow> string \<Rightarrow> bool \<Rightarrow> http_conn \<Rightarrow> http_conn" where
  "response_prefix error_state server inp completed c0 =
     (let c = (if hs_response_headers c0 = [] then set_response_headers response_headers_new c0 else c0);
          c1 = c\<lparr>hs_chunked := False, hs_response_headers := hs_response_headers c @ server\<rparr>;
          c2 = (if hs_out_length c1 = -1 \<and> completed
                then c1\<lparr>hs_out_length := int (length inp),
                        hs_response_headers := hs_response_headers c1 @ ''Content-Length: '' @ format_number (int (length inp)) 23 @ crlf\<rparr>
                else c1);
          c3 = (if hs_accepts_keep_alive c2 \<and> \<not> error_state \<and> (hs_out_length c2 \<noteq> -1 \<or> hs_is_http_11 c2)
                then (let k = c2\<lparr>hs_response_headers := hs_response_headers c2 @ ''Connection: keep-alive'' @ crlf, hs_keep_alive := True\<rparr>
                      in if hs_out_length k = -1
                         then k\<lparr>hs_response_headers := hs_response_headers k @ ''Transfer-Encoding: chunked'' @ crlf, hs_chunked := True\<rparr>
                         else k)
                else c2\<lparr>hs_response_headers := hs_response_headers c2 @ ''Connection: close'' @ crlf, hs_keep_alive := False\<rparr>)
      in c3\<lparr>hs_response_headers := hs_response_headers c3 @ crlf\<rparr>)"

definition format_body :: "string \<Rightarrow> bool \<Rightarrow> http_conn \<Rightarrow> string \<times> bool \<times> http_conn" where
  "format_body inp completed c =
     (if hs_chunked c then (make_chunked_wrapper inp completed, False, c)
      else (let (e, c') = plain_output inp c in (inp, e, c')))"

definition format_output :: "bool \<Rightarrow> string \<Rightarrow> string \<Rightarrow> bool \<Rightarrow> http_conn \<Rightarrow> string \<times> bool \<times> http_conn" where
  "format_output error_state server inp completed c =
     (if hs_headers_done c then format_body inp completed c
      else
        (let c1 = response_prefix error_state server inp completed c;
             (out, e, c2) = format_body inp completed c1
         in (hs_response_headers c1 @ out, e, c2\<lparr>hs_headers_done := True\<rparr>)))"

text \<open>\<^verbatim>\<open>keep_alive()\<close>: whether the connection serves another request, and its state for it.\<close>

definition http_keep_alive :: "http_settings \<Rightarrow> http_conn \<times> parser \<Rightarrow> bool \<times> http_conn \<times> parser" where
  "http_keep_alive st = (\<lambda>(c, p). if hs_keep_alive c then (True, reset_all st (c, p)) else (False, c, p))"

section \<open>Timeouts\<close>

text \<open>
  \<^verbatim>\<open>http_watchdog::check\<close> on the connections with their times to die, \<open>None\<close> for one that is gone: the ones
  that stay and the ones to close.
\<close>

definition watchdog_check :: "time_t \<Rightarrow> ('c \<times> time_t option) list \<Rightarrow> ('c \<times> time_t option) list \<times> 'c list" where
  "watchdog_check now conns =
     (filter (\<lambda>(_, t). case t of None \<Rightarrow> False | Some d \<Rightarrow> \<not> d < now) conns,
      map fst (filter (\<lambda>(_, t). case t of None \<Rightarrow> False | Some d \<Rightarrow> d < now) conns))"

section \<open>The variables of a request\<close>

text \<open>\<open>env_is c L\<close>: the table of variables is well formed and holds what the list \<open>L\<close> says.\<close>

definition env_is :: "http_conn \<Rightarrow> (string \<times> string) list \<Rightarrow> bool" where
  "env_is c L \<longleftrightarrow> (\<exists>ps. map_inv (hs_env c) ps) \<and> mset (map_content (hs_env c)) = mset L"

lemma env_add_fields [simp]:
  "hs_request_method (env_add k v c) = hs_request_method c" "hs_script_name (env_add k v c) = hs_script_name c"
  "hs_path_info (env_add k v c) = hs_path_info c" "hs_remote_addr (env_add k v c) = hs_remote_addr c"
  "hs_query_string (env_add k v c) = hs_query_string c" "hs_content_type (env_add k v c) = hs_content_type c"
  "hs_content_length (env_add k v c) = hs_content_length c" "hs_request_uri (env_add k v c) = hs_request_uri c"
  "hs_headers_done (env_add k v c) = hs_headers_done c" "hs_first_header (env_add k v c) = hs_first_header c"
  "hs_total_read (env_add k v c) = hs_total_read c" "hs_is_http_11 (env_add k v c) = hs_is_http_11 c"
  by (simp_all add: env_add_def split: option.split)

lemma env_is_update [simp]:
  "env_is (c\<lparr>hs_request_method := a\<rparr>) L = env_is c L" "env_is (c\<lparr>hs_script_name := a\<rparr>) L = env_is c L"
  "env_is (c\<lparr>hs_path_info := a\<rparr>) L = env_is c L" "env_is (c\<lparr>hs_remote_addr := a\<rparr>) L = env_is c L"
  "env_is (c\<lparr>hs_query_string := a\<rparr>) L = env_is c L" "env_is (c\<lparr>hs_content_type := a\<rparr>) L = env_is c L"
  "env_is (c\<lparr>hs_content_length := i\<rparr>) L = env_is c L" "env_is (c\<lparr>hs_request_uri := a\<rparr>) L = env_is c L"
  "env_is (c\<lparr>hs_first_header := b\<rparr>) L = env_is c L" "env_is (c\<lparr>hs_is_http_11 := b\<rparr>) L = env_is c L"
  "env_is (c\<lparr>hs_total_read := n\<rparr>) L = env_is c L"
  by (simp_all add: env_is_def)

lemma env_is_add: "env_is c L \<Longrightarrow> env_is (env_add k v c) ((k, v) # L)"
proof -
  assume "env_is c L"
  then obtain ps where i: "map_inv (hs_env c) ps" and m: "mset (map_content (hs_env c)) = mset L" by (auto simp: env_is_def)
  obtain e ps' where e: "map_add k v (hs_env c) = Some e" "map_inv e ps'"
    "map_content e = (k, v) # (if 2 * mp_total (hs_env c) < length (mp_data (hs_env c)) then map_content (hs_env c) else rev (map_content (hs_env c)))"
    using map_add_ok [OF i refl] by blast
  moreover have "mset (map_content e) = mset ((k, v) # L)" using e(3) m by (simp split: if_splits)
  ultimately show ?thesis by (auto simp: env_is_def env_add_def)
qed

lemma env_is_get: "env_is c L \<Longrightarrow> distinct (map fst L) \<Longrightarrow> (k, v) \<in> set L \<Longrightarrow> cgetenv k c = v"
proof -
  assume a: "env_is c L" "distinct (map fst L)" "(k, v) \<in> set L"
  then obtain ps where i: "map_inv (hs_env c) ps" and m: "mset (map_content (hs_env c)) = mset L" by (auto simp: env_is_def)
  have s: "set (map_content (hs_env c)) = set L" using m by (metis set_mset_mset)
  obtain r where r: "map_get k (hs_env c) = Some r" "r = None \<longleftrightarrow> k \<notin> fst ` set L" "\<forall>w. r = Some w \<longrightarrow> (k, w) \<in> set L"
    using map_get_ok [OF i, of k] unfolding s by blast
  have "r = Some v"
  proof (cases r)
    case None
    then show ?thesis using r(2) a(3) by force
  next
    case (Some w)
    then show ?thesis using r(3) a(2,3) by (metis map_of_is_SomeI option.inject)
  qed
  then show ?thesis using r(1) by (simp add: cgetenv_def map_get_safe_def)
qed

section \<open>Reading a request\<close>

definition plain_text :: "string \<Rightarrow> bool" where
  "plain_text s \<longleftrightarrow> list_all (\<lambda>c. c \<noteq> CR \<and> c \<noteq> DQUOTE \<and> c \<noteq> CHR ''('' \<and> c \<noteq> ch 0) s"

definition text_line :: "string \<Rightarrow> piece list \<times> (char \<times> piece list) list" where
  "text_line s = (map Plain s, [])"

lemma text_line_simps [simp]: "header_wire (text_line s) = s @ crlf" "header_value (text_line s) = s"
  by (simp_all add: text_line_def header_wire_def header_value_def pieces_text_def crlf_def comp_def)

lemma text_line_ok: "plain_text s \<Longrightarrow> s \<noteq> [] \<Longrightarrow> \<not> blank (hd s) \<Longrightarrow> header_ok (text_line s)"
  by (cases s) (auto simp: text_line_def header_ok_def plain_text_def list_all_iff)

lemma cstr_plain: "plain_text s \<Longrightarrow> cstr s = s"
  by (simp add: cstr_def plain_text_def list_all_iff takeWhile_eq_all_conv)

definition var_name :: "string \<Rightarrow> string" where
  "var_name n = (let u = map upper_underscore n in if u = ''CONTENT_LENGTH'' \<or> u = ''CONTENT_TYPE'' then u else ''HTTP_'' @ u)"

lemma request_line_ok:
  assumes "CHR '' '' \<notin> set m" "CHR '' '' \<notin> set uri" "plain_text m" "plain_text uri" "plain_text proto"
  shows "request_line (m @ '' '' @ uri @ '' '' @ proto) = Some (m, uri, proto)"
proof -
  have "dropWhile (\<lambda>c. c \<noteq> CHR '' '') (a @ CHR '' '' # t) = CHR '' '' # t" if "CHR '' '' \<notin> set a" for a t
    using that by (induction a) auto
  then show ?thesis using assms by (simp add: request_line_def Let_def cstr_plain)
qed

lemma single_header_ok:
  assumes "pair_ok (n, v)" "plain_text v"
  shows "parse_single_header (header_line (n, v)) = Some (map upper_underscore n, v)"
  unfolding parse_single_header_def header_line_def Let_def prod.case header_line_split(1,2,4) [OF assms(1)]
  using header_line_split(3,5) [OF assms(1)] cstr_plain [OF assms(2)] by simp

lemma handle_header_total:
  "handle_header (c\<lparr>hs_total_read := n\<rparr>) h = map_option (\<lambda>c. c\<lparr>hs_total_read := n\<rparr>) (handle_header c h)"
  by (cases c) (simp add: handle_header_def env_add_def split: option.split prod.split)

lemma handle_headers_ok:
  assumes "env_is c L" "hs_first_header c" "list_all pair_ok hs" "list_all (\<lambda>p. plain_text (snd p)) hs"
  shows "\<exists>c'. fold_headers handle_header c (map header_line hs) = Some c'
    \<and> env_is c' (rev (map (\<lambda>(n, v). (var_name n, v)) hs) @ L) \<and> hs_request_method c' = hs_request_method c
    \<and> hs_request_uri c' = hs_request_uri c \<and> hs_is_http_11 c' = hs_is_http_11 c \<and> hs_query_string c' = hs_query_string c
    \<and> hs_script_name c' = hs_script_name c"
  using assms
proof (induction hs arbitrary: c L)
  case (Cons p hs)
  obtain n v where p: "p = (n, v)" by (cases p)
  have ok: "pair_ok (n, v)" "plain_text v" using Cons.prems(3,4) p by simp_all
  let ?u = "map upper_underscore n"
  let ?c = "if ?u = ''CONTENT_LENGTH'' then (env_add ?u v c)\<lparr>hs_content_length := (if v \<noteq> [] then atoll v else 0)\<rparr>
    else if ?u = ''CONTENT_TYPE'' then env_add ?u v (c\<lparr>hs_content_type := v\<rparr>) else env_add (''HTTP_'' @ ?u) v c"
  have h: "handle_header c (header_line p) = Some ?c"
    using Cons.prems(2) single_header_ok [OF ok] p by (simp add: handle_header_def)
  have e: "env_is ?c ((var_name n, v) # L)"
    using env_is_add [OF Cons.prems(1)] env_is_add [of "c\<lparr>hs_content_type := v\<rparr>" L] Cons.prems(1) by (simp add: var_name_def Let_def)
  have f: "hs_first_header ?c" "hs_request_method ?c = hs_request_method c" "hs_request_uri ?c = hs_request_uri c"
    "hs_is_http_11 ?c = hs_is_http_11 c" "hs_query_string ?c = hs_query_string c" "hs_script_name ?c = hs_script_name c"
    using Cons.prems(2) by simp_all
  have "list_all pair_ok hs" "list_all (\<lambda>p. plain_text (snd p)) hs" using Cons.prems(3,4) by simp_all
  from Cons.IH [OF e f(1) this] h f(2-) show ?case by (simp add: p) 
qed simp

text \<open>The position of the reader stays inside the buffer.\<close>

definition inside :: "parser \<Rightarrow> bool" where
  "inside p = (case ps_source p of Body b i \<Rightarrow> i \<le> length b | Area b i \<Rightarrow> i \<le> length b)"

lemma inside_step: "inside p \<Longrightarrow> inside (snd (parser_step p))"
proof (induction p rule: parser_step.induct)
  case (1 p)
  obtain a p1 where g: "getc p = (a, p1)" by (cases "getc p")
  have p1: "inside p1" using g "1.prems" by (auto simp: getc_def inside_def split: list.splits source.splits if_splits)
  have u: "inside (ungetc c p1)" for c using p1 by (auto simp: ungetc_def inside_def split: source.splits)
  have k: "inside (q\<lparr>ps_core := k\<rparr>) = inside q" for q k by (simp add: inside_def)
  show ?case
  proof (cases a)
    case None
    then show ?thesis using g p1 by (simp add: parser_step.simps [of p])
  next
    case (Some c)
    obtain r k1 where ck: "core_char c (ps_core p1) = (r, k1)" by (cases "core_char c (ps_core p1)")
    show ?thesis
    proof (cases r)
      case None
      then show ?thesis using "1.IH" [OF g [symmetric] Some ck [symmetric] None] g Some ck p1 k by (simp add: parser_step.simps [of p])
    next
      case r: (Some x)
      then show ?thesis using g Some ck p1 u k by (cases x) (simp_all add: parser_step.simps [of p])
    qed
  qed
qed

lemma inside_loop: "inside p \<Longrightarrow> inside (snd (snd (parser_loop h s p)))"
proof (induction h s p rule: parser_loop.induct)
  case (1 h s p)
  obtain r p1 where st: "parser_step p = (r, p1)" by (cases "parser_step p")
  have p1: "inside p1" using inside_step [OF "1.prems"] st by simp
  show ?case
  proof (cases "r = Got_header")
    case True
    show ?thesis
    proof (cases "h s (pc_header (ps_core p1))")
      case None
      then show ?thesis using st True p1 by (simp add: parser_loop.simps [of h s p])
    next
      case (Some s')
      then show ?thesis using "1.IH" [OF st [symmetric] True Some p1] st True by (simp add: parser_loop.simps [of h s p])
    qed
  next
    case False
    then show ?thesis using st p1 by (cases r) (simp_all add: parser_loop.simps [of h s p])
  qed
qed

lemma empty_buffer: "inside p \<Longrightarrow> pending p = [] \<Longrightarrow> input_buffer_empty p"
  by (auto simp: inside_def pending_def input_buffer_empty_def split: source.splits)

lemma scan_loop_total:
  "scan_loop handle_header (c\<lparr>hs_total_read := n\<rparr>) xs k =
     (case scan_loop handle_header c xs k of (r, c', k', z) \<Rightarrow> (r, c'\<lparr>hs_total_read := n\<rparr>, k', z))"
proof (induction handle_header c xs k rule: scan_loop.induct)
  case (1 c xs k)
  obtain r k1 zs where sc: "scan xs k = (r, k1, zs)" by (cases "scan xs k")
  show ?case
  proof (cases "r = Got_header")
    case True
    show ?thesis
    proof (cases "handle_header c (pc_header k1)")
      case None
      then show ?thesis using sc True by (simp add: scan_loop.simps [of _ _ xs] handle_header_total)
    next
      case (Some c')
      then show ?thesis using "1.hyps" [OF sc [symmetric] True refl Some] sc True
        by (simp add: scan_loop.simps [of _ _ xs] handle_header_total)
    qed
  next
    case False
    then show ?thesis using sc by (cases r) (simp_all add: scan_loop.simps [of _ _ xs])
  qed
qed

text \<open>The calls of \<^verbatim>\<open>some_headers_data_read\<close> for the pieces in which the request arrives.\<close>

fun read_pieces :: "http_settings \<Rightarrow> (string \<Rightarrow> string) option \<Rightarrow> string option \<Rightarrow> http_conn \<times> parser \<Rightarrow> string list
    \<Rightarrow> http_result \<times> http_conn \<times> parser \<times> string" where
  "read_pieces st rw ip (c, p) [] = (Read_more, c, p, [])"
| "read_pieces st rw ip (c, p) (x # xs) =
     (case some_headers_data_read st rw ip (Some (length x)) x (c, p) of
        (Read_more, c', p') \<Rightarrow> read_pieces st rw ip (c', p') xs
      | (r, c', p') \<Rightarrow> (r, c', p', concat xs))"

lemma read_pieces_scan:
  assumes "ps_ungot p = []" "pending p = []" "inside p" "list_all (\<lambda>x. x \<noteq> []) xs"
    and "hs_total_read c + length (concat xs) \<le> 16384"
    and "scan_loop handle_header c (concat xs) (ps_core p) = (Some End_of_headers, c', k', rest)"
  shows "\<exists>n p' z. read_pieces st rw ip (c, p) xs
      = (case process_request st rw ip (c'\<lparr>hs_total_read := n\<rparr>) of (r, c'') \<Rightarrow> (r, c'', p', z))
    \<and> pending p' @ z = rest \<and> ps_ungot p' = []"
  using assms
proof (induction xs arbitrary: c p c')
  case Nil
  then show ?case by (simp add: scan_loop.simps)
next
  case (Cons x xs)
  let ?c = "c\<lparr>hs_total_read := hs_total_read c + length x\<rparr>" and ?p = "p\<lparr>ps_source := Body x 0\<rparr>"
  have x: "x \<noteq> []" using Cons.prems(4) by simp
  have p: "ps_ungot ?p = []" "pending ?p = x" "ps_core ?p = ps_core p" "inside ?p" using Cons.prems(1) by (simp_all add: pending_def inside_def)
  have read: "some_headers_data_read st rw ip (Some (length x)) x (c, p) = header_data st rw ip (?c, ?p)"
    using empty_buffer [OF Cons.prems(3,2)] x by (simp add: some_headers_data_read_def)
  obtain r c1 k1 z1 where sl: "scan_loop handle_header c x (ps_core p) = (r, c1, k1, z1)" by (cases "scan_loop handle_header c x (ps_core p)")
  let ?c1 = "c1\<lparr>hs_total_read := hs_total_read c + length x\<rparr>"
  obtain p1 where p1: "parser_loop handle_header ?c ?p = (r, ?c1, p1)" "ps_core p1 = k1" "pending p1 = z1" "ps_ungot p1 = []"
    using parser_loop_scan [OF p(1), of handle_header ?c] sl p(2,3) by (auto simp: scan_loop_total)
  have in1: "inside p1" using inside_loop [OF p(4), of handle_header ?c] p1(1) by simp
  show ?case
  proof (cases "r = Some More_data")
    case True
    have z1: "z1 = []" using scan_loop_more sl True by simp
    have rest: "scan_loop handle_header ?c1 (concat xs) (ps_core p1)
        = (Some End_of_headers, c'\<lparr>hs_total_read := hs_total_read c + length x\<rparr>, k', rest)"
      using Cons.prems(6) sl True p1(2) by (simp add: scan_loop_append scan_loop_total)
    have "header_data st rw ip (?c, ?p) = (Read_more, ?c1, p1)"
      using p1(1) True Cons.prems(5) by (simp add: header_data_def)
    moreover have "pending p1 = []" "list_all (\<lambda>x. x \<noteq> []) xs" "hs_total_read ?c1 + length (concat xs) \<le> 16384"
      using z1 p1(3) Cons.prems(4,5) by simp_all
    ultimately show ?thesis using Cons.IH [OF p1(4) _ in1 _ _ rest] read by simp
  next
    case False
    then have fin: "r = Some End_of_headers" "c1 = c'" "k1 = k'" "z1 @ concat xs = rest"
      using Cons.prems(6) sl by (cases r; auto simp: scan_loop_append split: step_result.splits)+
    have "process_request st rw ip ?c1 \<noteq> (Read_more, y)" for y
      by (auto simp: process_request_def Let_def split: option.splits if_splits)
    then have "read_pieces st rw ip (c, p) (x # xs)
        = (case process_request st rw ip ?c1 of (r, c'') \<Rightarrow> (r, c'', p1, concat xs))"
      using p1(1) fin(1) read
      by (cases "process_request st rw ip ?c1") (auto simp: header_data_def split: http_result.split)
    then show ?thesis using fin p1 by blast
  qed
qed

definition request_vars :: "string list" where
  "request_vars = [''PATH_INFO'', ''SCRIPT_NAME'', ''QUERY_STRING'', ''REMOTE_ADDR'', ''REMOTE_HOST'', ''REQUEST_METHOD'']"

definition uri_path :: "string \<Rightarrow> string" where
  "uri_path uri = takeWhile (\<lambda>x. x \<noteq> CHR ''?'') uri"

definition uri_query :: "string \<Rightarrow> string" where
  "uri_query uri = tl (dropWhile (\<lambda>x. x \<noteq> CHR ''?'') uri)"

text \<open>How a path is divided between the script and the path inside it.\<close>

definition script_of :: "http_settings \<Rightarrow> string \<Rightarrow> string \<times> string" where
  "script_of st path = (case find_script (set_script_names st) path of
     None \<Rightarrow> ([], path) | Some n \<Rightarrow> (n, drop (length n) path))"

lemma route_request_ok:
  assumes "env_is c L" "hs_query_string c = []" "hs_script_name c = []"
  shows "\<exists>X. env_is (route_request st c) (X @ L) \<and> distinct (map fst X)
      \<and> set (map fst X) \<subseteq> {''PATH_INFO'', ''SCRIPT_NAME'', ''QUERY_STRING''}"
    "hs_request_method (route_request st c) = hs_request_method c" "hs_is_http_11 (route_request st c) = hs_is_http_11 c"
    "hs_query_string (route_request st c) = uri_query (hs_request_uri c)"
    "hs_script_name (route_request st c) = cstr (fst (script_of st (uri_path (hs_request_uri c))))"
    "hs_path_info (route_request st c) = cstr (urldecode (snd (script_of st (uri_path (hs_request_uri c)))))"
proof -
  let ?uri = "hs_request_uri c"
  define q where "q = dropWhile (\<lambda>x. x \<noteq> CHR ''?'') ?uri"
  define c1 where "c1 = (if q = [] then c else env_add ''QUERY_STRING'' (tl q) (c\<lparr>hs_query_string := tl q\<rparr>))"
  define c2 where "c2 = (case find_script (set_script_names st) (uri_path ?uri) of None \<Rightarrow> c1
    | Some name \<Rightarrow> env_add ''SCRIPT_NAME'' (cstr name) (c1\<lparr>hs_script_name := cstr name\<rparr>))"
  define info where "info = cstr (urldecode (snd (script_of st (uri_path ?uri))))"
  have route: "route_request st c = env_add ''PATH_INFO'' info (c2\<lparr>hs_path_info := info\<rparr>)"
    unfolding route_request_def Let_def q_def [symmetric] uri_path_def [symmetric] c1_def [symmetric]
    by (cases "find_script (set_script_names st) (uri_path ?uri)") (simp_all add: c2_def info_def script_of_def)
  obtain X1 where X1: "env_is c1 (X1 @ L)" "X1 = [] \<or> map fst X1 = [''QUERY_STRING'']"
  proof (cases "q = []")
    case True
    then show ?thesis using that [of "[]"] assms(1) by (simp add: c1_def)
  next
    case False
    then have "env_is c1 ([(''QUERY_STRING'', tl q)] @ L)"
      using env_is_add [of "c\<lparr>hs_query_string := tl q\<rparr>" L "''QUERY_STRING''" "tl q"] assms(1) by (simp add: c1_def)
    then show ?thesis by (rule that) simp
  qed
  obtain X2 where X2: "env_is c2 (X2 @ X1 @ L)" "X2 = [] \<or> map fst X2 = [''SCRIPT_NAME'']"
  proof (cases "find_script (set_script_names st) (uri_path ?uri)")
    case None
    then show ?thesis using that [of "[]"] X1(1) by (simp add: c2_def)
  next
    case (Some n)
    then have "env_is c2 ([(''SCRIPT_NAME'', cstr n)] @ X1 @ L)"
      using env_is_add [of "c1\<lparr>hs_script_name := cstr n\<rparr>" "X1 @ L" "''SCRIPT_NAME''" "cstr n"] X1(1) by (simp add: c2_def)
    then show ?thesis by (rule that) simp
  qed
  let ?X = "(''PATH_INFO'', info) # X2 @ X1"
  have "env_is (route_request st c) (?X @ L)"
    unfolding route using env_is_add [of "c2\<lparr>hs_path_info := info\<rparr>" "X2 @ X1 @ L"] X2(1) by simp
  moreover have "distinct (map fst ?X)" "set (map fst ?X) \<subseteq> {''PATH_INFO'', ''SCRIPT_NAME'', ''QUERY_STRING''}"
    using X1(2) X2(2) by (elim disjE; simp)+
  ultimately show "\<exists>X. env_is (route_request st c) (X @ L) \<and> distinct (map fst X)
      \<and> set (map fst X) \<subseteq> {''PATH_INFO'', ''SCRIPT_NAME'', ''QUERY_STRING''}" by blast
  have uq: "uri_query ?uri = tl q" by (simp add: uri_query_def q_def)
  have f1: "hs_request_method c1 = hs_request_method c" "hs_is_http_11 c1 = hs_is_http_11 c" "hs_query_string c1 = uri_query ?uri"
    "hs_script_name c1 = []" using assms(2,3) by (simp_all add: c1_def uq)
  have f2: "hs_request_method c2 = hs_request_method c" "hs_is_http_11 c2 = hs_is_http_11 c" "hs_query_string c2 = uri_query ?uri"
    "hs_script_name c2 = cstr (fst (script_of st (uri_path ?uri)))"
    using f1 by (simp_all add: c2_def script_of_def cstr_def split: option.split)
  show "hs_request_method (route_request st c) = hs_request_method c" "hs_is_http_11 (route_request st c) = hs_is_http_11 c"
    "hs_query_string (route_request st c) = uri_query ?uri"
    "hs_script_name (route_request st c) = cstr (fst (script_of st (uri_path ?uri)))"
    "hs_path_info (route_request st c) = cstr (urldecode (snd (script_of st (uri_path ?uri))))"
    unfolding route info_def [symmetric] by (simp_all add: f2)
qed

lemma process_request_ok:
  assumes "env_is c L" "hs_query_string c = []" "hs_script_name c = []" "hs_request_method c = m" "m \<noteq> []" "list_all tchar m"
    and "hs_request_uri c = uri" "uri \<noteq> []" "hd uri = CHR ''/''" "\<not> set_proxy_behind st"
  shows "\<exists>c' X. process_request st None (Some ip) c = (Request_ready, c') \<and> env_is c' (X @ L) \<and> distinct (map fst X)
    \<and> set (map fst X) \<subseteq> set request_vars \<and> (''REQUEST_METHOD'', m) \<in> set X \<and> (''REMOTE_ADDR'', ip) \<in> set X
    \<and> hs_request_method c' = m \<and> hs_is_http_11 c' = hs_is_http_11 c \<and> hs_query_string c' = uri_query uri
    \<and> hs_script_name c' = cstr (fst (script_of st (uri_path uri)))
    \<and> hs_path_info c' = cstr (urldecode (snd (script_of st (uri_path uri))))"
proof -
  let ?c1 = "env_add ''REQUEST_METHOD'' m c"
  let ?c3 = "env_add ''REMOTE_ADDR'' ip (env_add ''REMOTE_HOST'' ip (?c1\<lparr>hs_remote_addr := ip\<rparr>))"
  let ?Y = "[(''REMOTE_ADDR'', ip), (''REMOTE_HOST'', ip), (''REQUEST_METHOD'', m)]"
  have tok: "tocken m = []" using tocken_append [OF assms(6), of "[]"] by simp
  have e3: "env_is ?c3 (?Y @ L)" using assms(1) by (simp add: env_is_add)
  have f3: "hs_query_string ?c3 = []" "hs_script_name ?c3 = []" "hs_request_uri ?c3 = uri" "hs_request_method ?c3 = m"
    "hs_is_http_11 ?c3 = hs_is_http_11 c" using assms by simp_all
  have p: "process_request st None (Some ip) c = (Request_ready, route_request st ?c3)"
    using assms tok by (simp add: process_request_def proxy_addr_def Let_def)
  note r = route_request_ok [OF e3 f3(1,2), of st, unfolded f3(3,4,5)]
  obtain X where X: "env_is (route_request st ?c3) (X @ ?Y @ L)" "distinct (map fst X)"
    "set (map fst X) \<subseteq> {''PATH_INFO'', ''SCRIPT_NAME'', ''QUERY_STRING''}" using r(1) by auto
  have "x \<notin> set (map fst ?Y)" if "x \<in> {''PATH_INFO'', ''SCRIPT_NAME'', ''QUERY_STRING''}" for x using that by auto
  then have "set (map fst X) \<inter> set (map fst ?Y) = {}" using X(3) by blast
  then have "distinct (map fst (X @ ?Y))" using X(2) by (simp only: map_append distinct_append) simp
  moreover have "set (map fst (X @ ?Y)) \<subseteq> set request_vars"
    using X(3) by (simp only: map_append set_append Un_subset_iff) (auto simp: request_vars_def)
  ultimately show ?thesis using p X(1) r(2-) by (intro exI [of _ "route_request st ?c3"] exI [of _ "X @ ?Y"]) auto
qed

lemma var_name_prefix: "take 5 (var_name n) = ''HTTP_'' \<or> take 5 (var_name n) = ''CONTE''"
  by (auto simp: var_name_def Let_def)

lemma reset_all_ok:
  "\<exists>c' L. reset_all st (c, p) = (c', parser_reset p) \<and> env_is c' L
     \<and> map fst L = [''GATEWAY_INTERFACE'', ''SERVER_PORT'', ''SERVER_NAME'', ''SERVER_SOFTWARE'']
     \<and> \<not> hs_first_header c' \<and> hs_query_string c' = [] \<and> hs_script_name c' = [] \<and> hs_total_read c' = 0"
proof -
  define c0 where "c0 = c\<lparr>hs_request_method := [], hs_script_name := [], hs_path_info := [], hs_remote_addr := [],
    hs_query_string := [], hs_content_type := [], hs_content_length := 0, hs_request_uri := [],
    hs_headers_done := False, hs_first_header := False, hs_total_read := 0, hs_is_http_11 := False,
    hs_accepts_keep_alive := False, hs_keep_alive := False, hs_chunked := False, hs_out_length := -1,
    hs_out_written := 0, hs_env := string_map_new\<rparr>"
  have "env_is c0 []" using map_inv_new by (auto simp: env_is_def c0_def)
  note e = env_is_add [OF env_is_add [OF env_is_add [OF env_is_add [OF this]]]]
  have f: "\<not> hs_first_header c0" "hs_query_string c0 = []" "hs_script_name c0 = []" "hs_total_read c0 = 0" by (simp_all add: c0_def)
  show ?thesis
    unfolding reset_all_def prod.case c0_def [symmetric]
    by (rule exI, rule exI, intro conjI, rule refl, rule e) (simp_all add: f)
qed

definition request_text :: "string \<Rightarrow> string \<Rightarrow> string \<Rightarrow> (string \<times> string) list \<Rightarrow> string" where
  "request_text m uri proto hs =
     m @ '' '' @ uri @ '' '' @ proto @ crlf @ concat (map (\<lambda>h. header_line h @ crlf) hs) @ crlf"

lemma tchar_text: "list_all tchar m \<Longrightarrow> plain_text m \<and> CHR '' '' \<notin> set m"
proof -
  have "\<not> tchar (CHR ''('')" "\<not> tchar (ch 0)" by code_simp+
  then show "list_all tchar m \<Longrightarrow> ?thesis" using not_tchar by (auto simp: plain_text_def list_all_iff)
qed

lemma plain_text_append [simp]: "plain_text (a @ b) \<longleftrightarrow> plain_text a \<and> plain_text b"
  by (simp add: plain_text_def)

lemma plain_text_seps: "plain_text '' ''" "plain_text '': ''"
  by code_simp+

lemma header_line_text_ok:
  assumes "pair_ok (n, v)" "plain_text v"
  shows "header_ok (text_line (header_line (n, v)))"
proof -
  have n: "n \<noteq> []" "list_all tchar n" using assms(1) by (auto simp: pair_ok_def)
  then have "\<not> blank (hd n)" using not_tchar by (cases n) (auto simp: blank_def)
  moreover have "plain_text (n @ '': '' @ v)" using assms(2) tchar_text [OF n(2)] plain_text_seps unfolding plain_text_append by blast
  ultimately show ?thesis using n by (intro text_line_ok) (simp_all add: header_line_def del: plain_text_append)
qed

lemma parser_reset_new: "parser_reset (parser_new src) = parser_new src"
  by (simp add: parser_reset_def parser_new_def)

text \<open>The names of the variables do not clash.\<close>

lemma request_names_distinct:
  assumes "distinct (map fst X)" "set (map fst X) \<subseteq> set request_vars"
    and "map fst L0 = [''GATEWAY_INTERFACE'', ''SERVER_PORT'', ''SERVER_NAME'', ''SERVER_SOFTWARE'']" "distinct (map (var_name \<circ> fst) hs)"
  shows "distinct (map fst (X @ rev (map (\<lambda>(n, v). (var_name n, v)) hs) @ (''SERVER_PROTOCOL'', proto) # L0))"
proof -
  let ?F = "request_vars @ [''SERVER_PROTOCOL'', ''GATEWAY_INTERFACE'', ''SERVER_PORT'', ''SERVER_NAME'', ''SERVER_SOFTWARE'']"
  have F: "\<forall>k \<in> set ?F. take 5 k \<noteq> ''HTTP_'' \<and> take 5 k \<noteq> ''CONTE''" "distinct ?F" by code_simp+
  have v: "var_name n \<notin> set ?F" for n using F(1) var_name_prefix [of n] by blast
  have m: "map fst (rev (map (\<lambda>(n, v). (var_name n, v)) hs)) = rev (map (var_name \<circ> fst) hs)"
    by (simp add: rev_map case_prod_unfold comp_def)
  have "x \<notin> set ?F" if "x \<in> set (rev (map (var_name \<circ> fst) hs))" for x
  proof -
    from that obtain y where "x = var_name y" by auto
    then show ?thesis using v by simp
  qed
  then have s: "set (rev (map (var_name \<circ> fst) hs)) \<inter> set ?F = {}" by blast
  have "map fst (X @ rev (map (\<lambda>(n, v). (var_name n, v)) hs) @ (''SERVER_PROTOCOL'', proto) # L0)
      = map fst X @ rev (map (var_name \<circ> fst) hs) @ [''SERVER_PROTOCOL'', ''GATEWAY_INTERFACE'', ''SERVER_PORT'', ''SERVER_NAME'', ''SERVER_SOFTWARE'']"
    unfolding map_append m by (simp add: assms(3))
  moreover have "distinct (map fst X @ rev (map (var_name \<circ> fst) hs) @ [''SERVER_PROTOCOL'', ''GATEWAY_INTERFACE'', ''SERVER_PORT'', ''SERVER_NAME'', ''SERVER_SOFTWARE''])"
    using assms(1,2,4) s F(2) unfolding distinct_append set_append distinct_rev by blast
  ultimately show ?thesis by simp
qed

lemma request_read:
  assumes "m \<noteq> []" "list_all tchar m" "plain_text uri" "CHR '' '' \<notin> set uri" "uri \<noteq> []" "hd uri = CHR ''/''" "plain_text proto"
    and "list_all pair_ok hs" "list_all (\<lambda>p. plain_text (snd p)) hs" "distinct (map (var_name \<circ> fst) hs)" "\<not> set_proxy_behind st"
    and "concat xs = request_text m uri proto hs @ body" "list_all (\<lambda>x. x \<noteq> []) xs" "length (concat xs) \<le> 16384"
  shows "\<exists>c p rest. read_pieces st None (Some ip) (http_conn_new st) xs = (Request_ready, c, p, rest)
    \<and> pending p @ rest = body \<and> hs_request_method c = m \<and> hs_is_http_11 c = (proto = ''HTTP/1.1'')
    \<and> hs_query_string c = uri_query uri \<and> hs_script_name c = cstr (fst (script_of st (uri_path uri)))
    \<and> hs_path_info c = cstr (urldecode (snd (script_of st (uri_path uri))))
    \<and> cgetenv ''REQUEST_METHOD'' c = m \<and> cgetenv ''REMOTE_ADDR'' c = ip
    \<and> (\<forall>(n, v) \<in> set hs. cgetenv (var_name n) c = v)"
proof -
  let ?line = "m @ '' '' @ uri @ '' '' @ proto" and ?p = "parser_new (Body [] 0)"
  obtain c0 L0 where c0: "http_conn_new st = (c0, ?p)" "env_is c0 L0"
    "map fst L0 = [''GATEWAY_INTERFACE'', ''SERVER_PORT'', ''SERVER_NAME'', ''SERVER_SOFTWARE'']"
    "\<not> hs_first_header c0" "hs_query_string c0 = []" "hs_script_name c0 = []" "hs_total_read c0 = 0"
    using reset_all_ok [of st _ ?p] unfolding http_conn_new_def by (metis parser_reset_new)
  let ?c1 = "(env_add ''SERVER_PROTOCOL'' proto (c0\<lparr>hs_first_header := True, hs_request_method := m, hs_request_uri := uri\<rparr>))
      \<lparr>hs_is_http_11 := (proto = ''HTTP/1.1'')\<rparr>"
  have h1: "handle_header c0 ?line = Some ?c1"
    using request_line_ok [of m uri proto] tchar_text [OF assms(2)] assms(3,4,7) c0(4) by (simp add: handle_header_def)
  have e1: "env_is ?c1 ((''SERVER_PROTOCOL'', proto) # L0)" using c0(2) by (simp add: env_is_add)
  obtain c2 where c2: "fold_headers handle_header ?c1 (map header_line hs) = Some c2"
    "env_is c2 (rev (map (\<lambda>(n, v). (var_name n, v)) hs) @ (''SERVER_PROTOCOL'', proto) # L0)" "hs_request_method c2 = m"
    "hs_request_uri c2 = uri" "hs_is_http_11 c2 = (proto = ''HTTP/1.1'')" "hs_query_string c2 = []" "hs_script_name c2 = []"
    using handle_headers_ok [OF e1 _ assms(8,9)] c0(5,6) by auto
  let ?xs = "text_line ?line # map (text_line \<circ> header_line) hs"
  have "\<not> blank (hd ?line)" using assms(1,2) not_tchar by (cases m) (auto simp: blank_def)
  moreover have "plain_text ?line"
    using tchar_text [OF assms(2)] assms(3,7) plain_text_seps(1) unfolding plain_text_append by blast
  ultimately have "header_ok (text_line ?line)" using assms(1) by (intro text_line_ok) simp_all
  moreover have "list_all header_ok (map (text_line \<circ> header_line) hs)"
    using assms(8,9) header_line_text_ok by (auto simp: list_all_iff)
  ultimately have ok: "list_all header_ok ?xs" by simp
  have vals: "map header_value ?xs = ?line # map header_line hs" by simp
  have "fold_headers handle_header c0 (map header_value ?xs) = Some c2" unfolding vals using h1 c2(1) by simp
  from scan_loop_headers [OF ok this, of body "[]"]
  have sl: "scan_loop handle_header c0 (concat xs) (ps_core ?p)
      = (Some End_of_headers, c2, \<lparr>pc_state = Last_lf_expected, pc_brackets = 0, pc_header = []\<rparr>, body)"
    unfolding assms(12) by (simp add: request_text_def crlf_def comp_def parser_new_def core_new_def)
  have p: "ps_ungot ?p = []" "pending ?p = []" "inside ?p" by (simp_all add: parser_new_def pending_def inside_def)
  obtain n p' z where r: "read_pieces st None (Some ip) (c0, ?p) xs
      = (case process_request st None (Some ip) (c2\<lparr>hs_total_read := n\<rparr>) of (r, c'') \<Rightarrow> (r, c'', p', z))" "pending p' @ z = body"
    using read_pieces_scan [OF p assms(13) _ sl, of st None "Some ip"] c0(7) assms(14) by auto
  let ?c2 = "c2\<lparr>hs_total_read := n\<rparr>" and ?L = "rev (map (\<lambda>(n, v). (var_name n, v)) hs) @ (''SERVER_PROTOCOL'', proto) # L0"
  obtain c' X where c': "process_request st None (Some ip) ?c2 = (Request_ready, c')" "env_is c' (X @ ?L)" "distinct (map fst X)"
    "set (map fst X) \<subseteq> set request_vars" "(''REQUEST_METHOD'', m) \<in> set X" "(''REMOTE_ADDR'', ip) \<in> set X"
    "hs_request_method c' = m" "hs_is_http_11 c' = (proto = ''HTTP/1.1'')" "hs_query_string c' = uri_query uri"
    "hs_script_name c' = cstr (fst (script_of st (uri_path uri)))"
    "hs_path_info c' = cstr (urldecode (snd (script_of st (uri_path uri))))"
    using process_request_ok [of ?c2 ?L m uri st ip] c2(2-) assms(1,2,5,6,11) by auto
  have d: "distinct (map fst (X @ ?L))"
    using request_names_distinct [OF c'(3,4) c0(3) assms(10), of proto] .
  have "cgetenv (var_name n) c' = v" if "(n, v) \<in> set hs" for n v
  proof -
    have "(var_name n, v) \<in> set (X @ ?L)" using that by force
    then show ?thesis by (rule env_is_get [OF c'(2) d])
  qed
  moreover have "cgetenv ''REQUEST_METHOD'' c' = m" "cgetenv ''REMOTE_ADDR'' c' = ip"
    using env_is_get [OF c'(2) d] c'(5,6) by auto
  ultimately show ?thesis using r c'(1,7-) c0(1) by auto
qed


definition demo_http :: http_settings where
  "demo_http = \<lparr>set_software = ''CppCMS/2.0'', set_ip = ''127.0.0.1'', set_port = 8080, set_proxy_behind = False,
     set_remote_addr_variables = [], set_script_names = [''/app'']\<rparr>"


section \<open>The framing of a response\<close>

text \<open>The reader of the chunked transfer coding: the body and what follows it.\<close>

definition hex_value :: "string \<Rightarrow> nat" where
  "hex_value s = foldl (\<lambda>n c. 16 * n + xdigit_value c) 0 s"

function dechunk :: "string \<Rightarrow> (string \<times> string) option" where
  "dechunk s =
     (let size = takeWhile xdigit s; r = dropWhile xdigit s; n = hex_value size
      in if size = [] \<or> take 2 r \<noteq> crlf then None
         else if n = 0 then (if take 2 (drop 2 r) = crlf then Some ([], drop 4 r) else None)
         else if length r < n + 4 \<or> take 2 (drop (n + 2) r) \<noteq> crlf then None
         else (case dechunk (drop (n + 4) r) of None \<Rightarrow> None | Some (b, rest) \<Rightarrow> Some (take n (drop 2 r) @ b, rest)))"
  by pat_completeness auto
termination
proof (relation "measure length", goal_cases)
  case (2 s size r n)
  have "length (dropWhile xdigit s) \<le> length s" by (rule length_dropWhile_le)
  with 2 show ?case by (auto simp: Let_def)
qed simp

declare dechunk.simps [simp del]

lemma hex_value_size: "hex_value (hex_size n) = n"
proof (induction n rule: hex_size.induct)
  case (1 n)
  show ?case
  proof (cases "n < 16")
    case True
    then show ?thesis using hex_digit_ok [of n] by (simp add: hex_size.simps [of n] hex_value_def)
  next
    case False
    have "hex_digits ! (n mod 16) = hex_digits ! (n mod 16)" ..
    with False 1 hex_digit_ok [of "n mod 16"] show ?thesis by (simp add: hex_size.simps [of n] hex_value_def)
  qed
qed

lemma hex_size_xdigit: "list_all xdigit (hex_size n) \<and> hex_size n \<noteq> []"
proof (induction n rule: hex_size.induct)
  case (1 n)
  then show ?case using hex_digit_ok [of n] hex_digit_ok [of "n mod 16"] by (cases "n < 16") (simp_all add: hex_size.simps [of n])
qed

lemma dechunk_chunk:
  assumes "inp \<noteq> []"
  shows "dechunk (hex_size (length inp) @ crlf @ inp @ crlf @ t) = (case dechunk t of None \<Rightarrow> None | Some (b, rest) \<Rightarrow> Some (inp @ b, rest))"
proof -
  let ?s = "hex_size (length inp)" and ?r = "crlf @ inp @ crlf @ t"
  have "\<not> xdigit CR" by code_simp
  then have w: "takeWhile xdigit (?s @ ?r) = ?s" "dropWhile xdigit (?s @ ?r) = ?r"
    using hex_size_xdigit [of "length inp"] by (auto simp: crlf_def list_all_iff takeWhile_append takeWhile_eq_all_conv dropWhile_append)
  show ?thesis
    using assms hex_size_xdigit [of "length inp"]
    by (subst dechunk.simps) (simp add: w hex_value_size Let_def, cases "dechunk t", simp_all add: crlf_def hex_value_size)
qed

lemma dechunk_end: "dechunk (''0'' @ crlf @ crlf @ t) = Some ([], t)"
proof -
  have "\<not> xdigit CR" "xdigit (CHR ''0'')" "hex_value ''0'' = 0" by code_simp+
  then show ?thesis by (subst dechunk.simps) (simp add: crlf_def Let_def)
qed

text \<open>
  A whole response: the calls of \<^verbatim>\<open>format_output\<close> for the pieces of the body, the last one completed.  The
  result is all bytes sent, whether a call reported a protocol violation, and the state.
\<close>

fun send_all :: "bool \<Rightarrow> string \<Rightarrow> string list \<Rightarrow> http_conn \<Rightarrow> string \<times> bool \<times> http_conn" where
  "send_all es server [] c = ([], False, c)"
| "send_all es server (w # ws) c =
     (case format_output es server w (ws = []) c of
        (out, e, c1) \<Rightarrow> (case send_all es server ws c1 of (outs, e', c2) \<Rightarrow> (out @ outs, e \<or> e', c2)))"

lemma send_rest_chunked:
  "hs_headers_done c \<Longrightarrow> hs_chunked c \<Longrightarrow> \<exists>outs. send_all es server ws c = (outs, False, c)
     \<and> (ws \<noteq> [] \<longrightarrow> (\<forall>rest. dechunk (outs @ rest) = Some (concat ws, rest)))"
proof (induction ws)
  case (Cons w ws)
  then obtain outs where o: "send_all es server ws c = (outs, False, c)" "ws \<noteq> [] \<longrightarrow> (\<forall>rest. dechunk (outs @ rest) = Some (concat ws, rest))" by blast
  have f: "format_output es server w (ws = []) c = (make_chunked_wrapper w (ws = []), False, c)"
    using Cons.prems by (simp add: format_output_def format_body_def)
  have "dechunk ((make_chunked_wrapper w (ws = []) @ outs) @ rest) = Some (concat (w # ws), rest)" for rest
  proof (cases "ws = []")
    case True
    then have "outs = []" using o(1) by simp
    then show ?thesis using True dechunk_end [of rest] dechunk_chunk [of w "''0'' @ crlf @ crlf @ rest"]
      by (cases "w = []") (simp_all add: make_chunked_wrapper_def)
  next
    case False
    then show ?thesis using o(2) dechunk_chunk [of w "outs @ rest"] by (cases "w = []") (simp_all add: make_chunked_wrapper_def)
  qed
  then show ?case using f o(1) by simp
qed simp

lemma send_rest_plain:
  "hs_headers_done c \<Longrightarrow> \<not> hs_chunked c \<Longrightarrow> \<exists>e c'. send_all es server ws c = (concat ws, e, c')
     \<and> hs_out_length c' = hs_out_length c \<and> hs_keep_alive c' = hs_keep_alive c \<and> \<not> hs_chunked c'
     \<and> (ws \<noteq> [] \<longrightarrow> (e \<longleftrightarrow> hs_out_length c \<noteq> -1 \<and> hs_out_length c < hs_out_written c + int (length (concat ws))))
     \<and> hs_out_written c' = hs_out_written c + int (length (concat ws)) \<and> (ws = [] \<longrightarrow> \<not> e)"
proof (induction ws arbitrary: c)
  case (Cons w ws)
  let ?c = "c\<lparr>hs_out_written := hs_out_written c + int (length w)\<rparr>"
  have f: "format_output es server w (ws = []) c
      = (w, hs_out_length c \<noteq> -1 \<and> hs_out_length c < hs_out_written c + int (length w), ?c)"
    using Cons.prems by (simp add: format_output_def format_body_def plain_output_def Let_def)
  obtain e c' where r: "send_all es server ws ?c = (concat ws, e, c')" "hs_out_length c' = hs_out_length c"
    "hs_keep_alive c' = hs_keep_alive c" "\<not> hs_chunked c'"
    "ws \<noteq> [] \<longrightarrow> (e \<longleftrightarrow> hs_out_length c \<noteq> -1 \<and> hs_out_length c < hs_out_written c + int (length w) + int (length (concat ws)))"
    "hs_out_written c' = hs_out_written c + int (length w) + int (length (concat ws))" "ws = [] \<longrightarrow> \<not> e"
    using Cons.IH [of ?c] Cons.prems by auto
  then show ?case using f by (cases "ws = []") auto
qed auto

lemma response_prefix_framing:
  assumes "c1 = response_prefix es server inp completed c"
  shows "(hs_keep_alive c1 \<longrightarrow> hs_chunked c1 \<or> hs_out_length c1 \<noteq> -1)
    \<and> (hs_chunked c1 \<longrightarrow> hs_keep_alive c1 \<and> hs_out_length c1 = -1
         \<and> (\<exists>h. hs_response_headers c1 = h @ ''Transfer-Encoding: chunked'' @ crlf @ crlf))"
  unfolding assms response_prefix_def Let_def by auto



end
