(* ===== verification/Utf.thy ===== *)
theory Utf
  imports Prelude
begin

text \<open>
  \<^verbatim>\<open>private/utf_iterator.h\<close>: decoding, checking and encoding of UTF-8 and UTF-16.  A pair of iterators is the
  list of the bytes in front of the end; \<^verbatim>\<open>next\<close> returns the code point and the rest.  Shown here: the decoder
  accepts exactly what the encoder writes for a Unicode scalar value (so no overlong forms, no surrogates and
  nothing above 10FFFF), validation accepts exactly the sequences of such forms and counts them, and the HTML mode
  leaves out exactly the control characters.
\<close>

section \<open>The decoder and the encoder\<close>

type_synonym code_point = "32 word"

definition utf_illegal :: code_point where
  "utf_illegal = 0xFFFFFFFF"

definition utf_valid :: "code_point \<Rightarrow> bool" where
  "utf_valid v = (if v > 0x10FFFF then False else if 0xD800 \<le> v \<and> v \<le> 0xDFFF then False else True)"

definition is_trail :: "char \<Rightarrow> bool" where
  "is_trail c \<longleftrightarrow> uc c AND 0xC0 = 0x80"

definition trail_length :: "nat \<Rightarrow> int" where
  "trail_length c =
     (if c < 128 then 0 else if c < 194 then -1 else if c < 224 then 1 else if c < 240 then 2
      else if c \<le> 244 then 3 else -1)"

definition utf8_width :: "code_point \<Rightarrow> int" where
  "utf8_width v = (if v \<le> 0x7F then 1 else if v \<le> 0x7FF then 2 else if v \<le> 0xFFFF then 3 else 4)"

text \<open>The cases 3, 2 and 1 of the switch fall through: each reads one more trailing byte.\<close>

fun read_trail :: "nat \<Rightarrow> code_point \<Rightarrow> string \<Rightarrow> code_point option \<times> string" where
  "read_trail 0 c p = (Some c, p)"
| "read_trail (Suc n) c [] = (None, [])"
| "read_trail (Suc n) c (tmp # p) =
     (if \<not> is_trail tmp then (None, p) else read_trail n (push_bit 6 c OR (of_nat (uc tmp) AND 0x3F)) p)"

definition html_ascii :: "nat \<Rightarrow> bool" where
  "html_ascii lead \<longleftrightarrow> (lead \<ge> 0x20 \<and> lead \<noteq> 0x7F) \<or> lead = 0x9 \<or> lead = 0x0A \<or> lead = 0x0D"

definition utf8_next :: "bool \<Rightarrow> string \<Rightarrow> code_point \<times> string" where
  "utf8_next html s = (case s of
     [] \<Rightarrow> (utf_illegal, [])
   | b # p \<Rightarrow>
       (let lead = uc b; trail_size = trail_length lead in
        if trail_size < 0 then (utf_illegal, p)
        else if trail_size = 0 then
          (if \<not> html \<or> html_ascii lead then (of_nat lead, p) else (utf_illegal, p))
        else
          (case read_trail (nat trail_size) (of_nat lead AND (push_bit (nat (6 - trail_size)) 1 - 1)) p of
             (None, q) \<Rightarrow> (utf_illegal, q)
           | (Some c, q) \<Rightarrow>
               (if \<not> utf_valid c then (utf_illegal, q)
                else if utf8_width c \<noteq> trail_size + 1 then (utf_illegal, q)
                else if html \<and> c < 0xA0 then (utf_illegal, q)
                else (c, q)))))"

lemma read_trail_length: "read_trail n c p = (r, q) \<Longrightarrow> length q \<le> length p"
  by (induction n c p rule: read_trail.induct) (auto split: if_splits)

lemma utf8_next_length: "p \<noteq> [] \<Longrightarrow> length (snd (utf8_next html p)) < length p"
  by (cases p) (auto simp: utf8_next_def Let_def less_Suc_eq_le split: prod.split option.split dest: read_trail_length)

text \<open>The two \<^verbatim>\<open>validate\<close> loops, with and without the count.\<close>

function utf8_validate_count :: "string \<Rightarrow> nat \<Rightarrow> bool \<Rightarrow> bool \<times> nat" where
  "utf8_validate_count p count html =
     (if p \<noteq> [] then
        (if fst (utf8_next html p) = utf_illegal then (False, count)
         else utf8_validate_count (snd (utf8_next html p)) (count + 1) html)
      else (True, count))"
  by auto
termination
  by (relation "measure (\<lambda>(p, _). length p)") (auto intro: utf8_next_length)

function utf8_validate :: "string \<Rightarrow> bool \<Rightarrow> bool" where
  "utf8_validate p html =
     (if p \<noteq> [] then
        (if fst (utf8_next html p) = utf_illegal then False else utf8_validate (snd (utf8_next html p)) html)
      else True)"
  by auto
termination
  by (relation "measure (\<lambda>(p, _). length p)") (auto intro: utf8_next_length)

declare utf8_validate_count.simps [simp del] utf8_validate.simps [simp del]

text \<open>\<^verbatim>\<open>encode\<close>: every element of the array is a \<^verbatim>\<open>char\<close>, so it keeps the low eight bits.\<close>

definition byte_of :: "code_point \<Rightarrow> char" where
  "byte_of w = ch (unat w)"

definition utf8_encode :: "code_point \<Rightarrow> string" where
  "utf8_encode v =
     (if v \<le> 0x7F then [byte_of v]
      else if v \<le> 0x7FF then [byte_of (drop_bit 6 v OR 0xC0), byte_of ((v AND 0x3F) OR 0x80)]
      else if v \<le> 0xFFFF then
        [byte_of (drop_bit 12 v OR 0xE0), byte_of ((drop_bit 6 v AND 0x3F) OR 0x80), byte_of ((v AND 0x3F) OR 0x80)]
      else
        [byte_of (drop_bit 18 v OR 0xF0), byte_of ((drop_bit 12 v AND 0x3F) OR 0x80),
         byte_of ((drop_bit 6 v AND 0x3F) OR 0x80), byte_of ((v AND 0x3F) OR 0x80)])"

section \<open>UTF-16\<close>

definition is_first_surrogate :: "16 word \<Rightarrow> bool" where
  "is_first_surrogate x \<longleftrightarrow> 0xD800 \<le> x \<and> x \<le> 0xDBFF"

definition is_second_surrogate :: "16 word \<Rightarrow> bool" where
  "is_second_surrogate x \<longleftrightarrow> 0xDC00 \<le> x \<and> x \<le> 0xDFFF"

definition combine_surrogate :: "16 word \<Rightarrow> 16 word \<Rightarrow> code_point" where
  "combine_surrogate w1 w2 = (push_bit 10 (ucast (w1 AND 0x3FF)) OR ucast (w2 AND 0x3FF)) + 0x10000"

text \<open>The source reads the first unit without a check; callers pass a nonempty range.\<close>

fun utf16_next :: "16 word list \<Rightarrow> code_point \<times> 16 word list" where
  "utf16_next [] = (utf_illegal, [])"
| "utf16_next (w1 # p) =
     (if w1 < 0xD800 \<or> 0xDFFF < w1 then (ucast w1, p)
      else if w1 > 0xDBFF then (utf_illegal, p)
      else (case p of
          [] \<Rightarrow> (utf_illegal, [])
        | w2 # q \<Rightarrow> if w2 < 0xDC00 \<or> 0xDFFF < w2 then (utf_illegal, q) else (combine_surrogate w1 w2, q)))"

definition utf16_width :: "code_point \<Rightarrow> int" where
  "utf16_width u = (if u \<ge> 0x100000 then 2 else 1)"

definition utf16_encode :: "code_point \<Rightarrow> 16 word list" where
  "utf16_encode u =
     (if u \<le> 0xFFFF then [ucast u]
      else let u' = u - 0x10000 in [0xD800 OR ucast (drop_bit 10 u'), 0xDC00 OR ucast (u' AND 0x3FF)])"

section \<open>The codes as numbers\<close>

lemma or_lower: "b < 2 ^ k \<Longrightarrow> b OR (a * 2 ^ k) = a * 2 ^ k + (b::nat)"
  using or_add [of b k a] by (simp add: or.commute)

lemma or_marks:
  "x < 64 \<Longrightarrow> x OR 0x80 = 128 + (x::nat)" "x < 32 \<Longrightarrow> x OR 0xC0 = 192 + (x::nat)"
  "x < 16 \<Longrightarrow> x OR 0xE0 = 224 + (x::nat)" "x < 8 \<Longrightarrow> x OR 0xF0 = 240 + (x::nat)"
  using or_lower [of x 6 2] or_lower [of x 5 6] or_lower [of x 4 14] or_lower [of x 3 30] by simp_all

lemma unat_take [simp]: "take_bit 32 (unat (w :: code_point)) = unat w"
proof -
  have "unat w < 2 ^ LENGTH(32)" by (rule unsigned_less)
  then show ?thesis by (simp add: take_bit_nat_eq_self)
qed

lemma unat_uc [simp]: "unat (of_nat (uc c) :: code_point) = uc c"
  using less_trans [OF uc_lt [of c], of "2 ^ 32"] by (simp add: unat_of_nat)

lemma unat_low6: "unat (w AND 0x3F) = unat (w :: code_point) mod 64"
  by (simp add: unsigned_and_eq codec_simps)

lemma unat_drop: "unat (drop_bit 6 w) = unat (w :: code_point) div 64" "unat (drop_bit 12 w) = unat w div 64 div 64"
  "unat (drop_bit 18 w) = unat w div 64 div 64 div 64"
  by (simp_all add: unsigned_drop_bit_eq drop_bit_div div_mult2_eq [symmetric])

lemma unat_shift6:
  assumes "unat c < 2 ^ 26"
  shows "unat (push_bit 6 c OR (of_nat (uc t) AND 0x3F) :: code_point) = unat c * 64 + uc t mod 64"
proof -
  have "unat (push_bit 6 c) = unat c * 2 ^ 6"
    using assms by (simp add: unsigned_push_bit_eq push_bit_mult take_bit_eq_mod)
  moreover have "unat (of_nat (uc t) AND (0x3F :: code_point)) = uc t mod 64"
    by (simp add: unat_low6)
  ultimately show ?thesis using or_add [of "uc t mod 64" 6 "unat c"] by (simp add: unsigned_or_eq)
qed

lemma is_trail_iff: "is_trail c \<longleftrightarrow> 128 \<le> uc c \<and> uc c < 192"
proof -
  have "a AND push_bit k m = push_bit k (drop_bit k a AND m)" for a k m :: nat
    by (rule bit_eqI) (auto simp: bit_simps)
  from this [of "uc c" 6 3] have "uc c AND 0xC0 = uc c div 64 mod 4 * 64" by (simp add: codec_simps)
  moreover have "uc c div 64 mod 4 = uc c div 64" using uc_div_lt(3) [of c] by simp
  ultimately have "is_trail c \<longleftrightarrow> uc c div 64 = 2" by (simp add: is_trail_def)
  also have "\<dots> \<longleftrightarrow> 128 \<le> uc c \<and> uc c < 192" by linarith
  finally show ?thesis .
qed

text \<open>The encoding with the codes as numbers.\<close>

lemma byte_of_or: "byte_of (a OR b) = ch (unat a OR unat b)"
  by (simp add: byte_of_def unsigned_or_eq)

lemma utf8_encode_nat:
  assumes "unat v \<le> 0x10FFFF"
  shows "utf8_encode v =
     (let n = unat v; a = n div 64; b = a div 64 in
      if n \<le> 0x7F then [ch n]
      else if n \<le> 0x7FF then [ch (192 + a), ch (128 + n mod 64)]
      else if n \<le> 0xFFFF then [ch (224 + b), ch (128 + a mod 64), ch (128 + n mod 64)]
      else [ch (240 + b div 64), ch (128 + b mod 64), ch (128 + a mod 64), ch (128 + n mod 64)])"
proof -
  have "unat v \<le> 0x7FF \<Longrightarrow> unat v div 64 < 32" "unat v \<le> 0xFFFF \<Longrightarrow> unat v div 64 div 64 < 16"
    "unat v div 64 div 64 div 64 < 8"
    using assms by (auto simp: div_mult2_eq [symmetric] less_mult_imp_div_less)
  then show ?thesis
    by (simp add: utf8_encode_def byte_of_or unat_low6 unat_drop or_marks byte_of_def [of v] Let_def word_le_nat_alt)
qed

text \<open>The decoder with the codes as numbers.\<close>

definition trail_value :: "nat \<Rightarrow> string \<Rightarrow> nat" where
  "trail_value n ts = foldl (\<lambda>n t. n * 64 + uc t mod 64) n ts"

lemma read_trail_ok:
  "list_all is_trail ts \<Longrightarrow> (unat c + 1) * 64 ^ length ts \<le> 2 ^ 32 \<Longrightarrow>
   \<exists>c'. read_trail (length ts) c (ts @ q) = (Some c', q) \<and> unat c' = trail_value (unat c) ts"
proof (induction ts arbitrary: c)
  case (Cons t ts)
  let ?c = "push_bit 6 c OR (of_nat (uc t) AND 0x3F)"
  have "(unat c + 1) * 64 \<le> (unat c + 1) * 64 ^ length (t # ts)" by (intro mult_left_mono) simp_all
  then have "(unat c + 1) * 64 \<le> 2 ^ 32" using Cons.prems(2) by linarith
  then have u: "unat ?c = unat c * 64 + uc t mod 64" by (intro unat_shift6) simp
  then have "(unat ?c + 1) * 64 ^ length ts \<le> ((unat c + 1) * 64) * 64 ^ length ts"
    by (intro mult_right_mono) simp_all
  also have "\<dots> \<le> 2 ^ 32" using Cons.prems(2) by (simp add: algebra_simps)
  finally show ?case using Cons.IH [of ?c] Cons.prems(1) u by (simp add: trail_value_def)
qed (simp add: trail_value_def)

lemma read_trail_some:
  "read_trail n c s = (Some c', q) \<Longrightarrow> \<exists>ts. s = ts @ q \<and> length ts = n \<and> list_all is_trail ts"
proof (induction n c s rule: read_trail.induct)
  case (3 n c t p)
  then obtain ts where "p = ts @ q" "length ts = n" "list_all is_trail ts" "is_trail t" by (auto split: if_splits)
  then show ?case by (intro exI [of _ "t # ts"]) simp
qed auto

lemma lead_mask: "k < 6 \<Longrightarrow> unat (of_nat (uc b) AND (push_bit (6 - k) 1 - 1) :: code_point) = uc b mod 2 ^ (6 - k)"
proof -
  assume "k < 6"
  have "of_nat (uc b) AND (push_bit (6 - k) 1 - 1) = take_bit (6 - k) (of_nat (uc b) :: code_point)"
    by (simp add: take_bit_eq_mask mask_eq_exp_minus_1)
  then have "unat (of_nat (uc b) AND (push_bit (6 - k) 1 - 1) :: code_point) = take_bit (6 - k) (unat (of_nat (uc b) :: code_point))"
    by (simp only: unsigned_take_bit_eq)
  then show ?thesis by (simp add: take_bit_eq_mod)
qed

lemma utf8_next_multi:
  assumes "trail_length (uc b) = int k" "0 < k" "k < 4" "length ts = k" "list_all is_trail ts"
  shows "\<exists>c. unat c = trail_value (uc b mod 2 ^ (6 - k)) ts
    \<and> utf8_next html (b # ts @ q)
      = (if utf_valid c \<and> utf8_width c = int k + 1 \<and> (html \<longrightarrow> 0xA0 \<le> c) then (c, q) else (utf_illegal, q))"
proof -
  let ?m = "of_nat (uc b) AND (push_bit (6 - k) 1 - 1) :: code_point"
  have m: "unat ?m = uc b mod 2 ^ (6 - k)" using assms(3) by (intro lead_mask) simp
  have "(unat ?m + 1) * 64 ^ length ts \<le> 2 ^ (6 - k) * 64 ^ k"
    unfolding m assms(4) by (intro mult_right_mono) (simp_all add: Suc_le_eq)
  also have "\<dots> \<le> 2 ^ 32"
  proof -
    have "k = 1 \<or> k = 2 \<or> k = 3" using assms(2,3) by auto
    then show ?thesis by auto
  qed
  finally obtain c where c: "read_trail k ?m (ts @ q) = (Some c, q)" "unat c = trail_value (unat ?m) ts"
    using read_trail_ok [OF assms(5), of ?m q] assms(4) by auto
  have n: "nat (6 - int k) = 6 - k" by simp
  show ?thesis
    using c assms(1-3) unfolding m by (intro exI [of _ c]) (auto simp: utf8_next_def Let_def n not_le)
qed

section \<open>The decoder accepts exactly the encodings of scalar values\<close>

text \<open>The characters that HTML mode lets through: no C0 controls but tab, line feed and carriage return, no
  delete, no C1 controls.\<close>

definition html_char :: "code_point \<Rightarrow> bool" where
  "html_char c \<longleftrightarrow> (0x20 \<le> c \<and> c < 0x7F) \<or> 0xA0 \<le> c \<or> c = 9 \<or> c = 10 \<or> c = 13"

definition scalar :: "bool \<Rightarrow> code_point \<Rightarrow> bool" where
  "scalar html c \<longleftrightarrow> utf_valid c \<and> (html \<longrightarrow> html_char c)"

lemma utf_valid_nat: "utf_valid c \<longleftrightarrow> unat c \<le> 0x10FFFF \<and> \<not> (0xD800 \<le> unat c \<and> unat c \<le> 0xDFFF)"
  by (auto simp: utf_valid_def word_le_nat_alt word_less_nat_alt)

lemma utf8_width_nat:
  "utf8_width v = (if unat v \<le> 0x7F then 1 else if unat v \<le> 0x7FF then 2 else if unat v \<le> 0xFFFF then 3 else 4)"
  by (simp add: utf8_width_def word_le_nat_alt)

lemma html_char_nat: "html_char c \<longleftrightarrow> (32 \<le> unat c \<and> unat c < 127) \<or> 160 \<le> unat c \<or> unat c = 9 \<or> unat c = 10 \<or> unat c = 13"
proof -
  have "c = k \<longleftrightarrow> unat c = unat k" for k by (simp add: word_unat_eq_iff)
  then show ?thesis by (simp add: html_char_def word_le_nat_alt word_less_nat_alt)
qed

lemma scalar_legal: "utf_valid c \<Longrightarrow> c \<noteq> utf_illegal"
  by (auto simp: utf_valid_def utf_illegal_def)

lemma mod_above: "k * m \<le> n \<Longrightarrow> n < k * m + m \<Longrightarrow> k * m + n mod m = (n::nat)"
proof -
  assume "k * m \<le> n" "n < k * m + m"
  then obtain d where "n = k * m + d" "d < m" using le_Suc_ex by fastforce
  then show ?thesis by simp
qed

lemma sixty_four: "y < 64 \<Longrightarrow> (x * 64 + y) div 64 = x" "y < 64 \<Longrightarrow> (x * 64 + y) mod 64 = (y::nat)"
  by simp_all

lemma utf8_next_ascii:
  "uc b < 128 \<Longrightarrow> utf8_next html (b # q) = (if html \<longrightarrow> html_ascii (uc b) then (of_nat (uc b), q) else (utf_illegal, q))"
  by (auto simp: utf8_next_def Let_def trail_length_def)

lemma trail_char: "is_trail (ch (128 + m mod 64))" "uc (ch (128 + m mod 64)) mod 64 = m mod 64"
proof -
  have "128 + m mod 64 < 256" using mod_less_divisor [of 64 m] by linarith
  moreover have "(128 + m mod 64) mod 64 = m mod 64" using mod_mult_self3 [of 2 64 "m mod 64"] by simp
  ultimately show "is_trail (ch (128 + m mod 64))" "uc (ch (128 + m mod 64)) mod 64 = m mod 64" by (simp_all add: is_trail_iff)
qed

lemma lead_char: "k * m + x < 256 \<Longrightarrow> x < m \<Longrightarrow> uc (ch (k * m + x)) mod m = x"
  by simp

lemma utf8_next_encode_multi:
  assumes "utf8_encode c = b # ts" "trail_length (uc b) = int k" "0 < k" "k < 4" "length ts = k" "list_all is_trail ts"
    and "trail_value (uc b mod 2 ^ (6 - k)) ts = unat c"
    and "utf_valid c" "utf8_width c = int k + 1" "html \<longrightarrow> 0xA0 \<le> c"
  shows "utf8_next html (utf8_encode c @ q) = (c, q)"
proof -
  obtain d where "unat d = trail_value (uc b mod 2 ^ (6 - k)) ts" and d: "utf8_next html (b # ts @ q)
      = (if utf_valid d \<and> utf8_width d = int k + 1 \<and> (html \<longrightarrow> 0xA0 \<le> d) then (d, q) else (utf_illegal, q))"
    using utf8_next_multi [OF assms(2-6)] by blast
  then have "d = c" using assms(7) by (simp add: word_unat_eq_iff)
  with d assms(8-10) show ?thesis by (simp add: assms(1))
qed

lemma utf8_next_encode:
  assumes "scalar html c"
  shows "utf8_next html (utf8_encode c @ q) = (c, q)"
proof -
  define n where "n = unat c"
  define a where "a = n div 64"
  define b where "b = a div 64"
  have v: "utf_valid c" and h: "html \<longrightarrow> html_char c" using assms by (auto simp: scalar_def)
  then have top: "n \<le> 0x10FFFF" by (simp add: n_def utf_valid_nat)
  have e: "utf8_encode c = (if n \<le> 0x7F then [ch n]
      else if n \<le> 0x7FF then [ch (192 + a), ch (128 + n mod 64)]
      else if n \<le> 0xFFFF then [ch (224 + b), ch (128 + a mod 64), ch (128 + n mod 64)]
      else [ch (240 + b div 64), ch (128 + b mod 64), ch (128 + a mod 64), ch (128 + n mod 64)])"
    using utf8_encode_nat [of c] top by (simp add: Let_def n_def a_def b_def)
  have w: "html \<longrightarrow> 0xA0 \<le> c" if "0x7F < n" using h that by (auto simp: n_def html_char_nat word_le_nat_alt)
  have sums: "a * 64 + n mod 64 = n" "b * 64 + a mod 64 = a" "b div 64 * 64 + b mod 64 = b"
    by (simp_all add: a_def b_def)
  consider "n \<le> 0x7F" | "0x7F < n" "n \<le> 0x7FF" | "0x7FF < n" "n \<le> 0xFFFF" | "0xFFFF < n" by linarith
  then show ?thesis
  proof cases
    case 1
    then have "html \<longrightarrow> html_ascii n" using h by (auto simp: n_def html_char_nat html_ascii_def)
    then show ?thesis using 1 e by (simp add: utf8_next_ascii n_def)
  next
    case 2
    then have a: "a < 32" "2 \<le> a" by (auto simp: a_def)
    show ?thesis
    proof (rule utf8_next_encode_multi [where k = 1])
      show "trail_value (uc (ch (192 + a)) mod 2 ^ (6 - 1)) [ch (128 + n mod 64)] = unat c"
        using lead_char [of 6 32 a] a sums by (simp add: trail_value_def trail_char n_def [symmetric] del: uc_ch)
    qed (use e 2 a v w in \<open>simp_all add: trail_length_def trail_char utf8_width_nat n_def\<close>)
  next
    case 3
    then have b: "b < 16" by (auto simp: a_def b_def)
    show ?thesis
    proof (rule utf8_next_encode_multi [where k = 2])
      show "trail_value (uc (ch (224 + b)) mod 2 ^ (6 - 2)) [ch (128 + a mod 64), ch (128 + n mod 64)] = unat c"
        using lead_char [of 14 16 b] b sums by (simp add: trail_value_def trail_char n_def [symmetric] del: uc_ch)
    qed (use e 3 b v w in \<open>simp_all add: trail_length_def trail_char utf8_width_nat n_def\<close>)
  next
    case 4
    then have d: "b div 64 \<le> 4" using top by (auto simp: a_def b_def)
    show ?thesis
    proof (rule utf8_next_encode_multi [where k = 3])
      show "trail_value (uc (ch (240 + b div 64)) mod 2 ^ (6 - 3)) [ch (128 + b mod 64), ch (128 + a mod 64), ch (128 + n mod 64)] = unat c"
        using lead_char [of 30 8 "b div 64"] d sums by (simp add: trail_value_def trail_char n_def [symmetric] del: uc_ch)
    qed (use e 4 d v w in \<open>simp_all add: trail_length_def trail_char utf8_width_nat n_def\<close>)
  qed
qed

text \<open>What the decoder accepts it would write again.\<close>

lemma trail_byte: "is_trail t \<Longrightarrow> ch (128 + uc t mod 64) = t"
proof -
  assume "is_trail t"
  then have "128 + uc t mod 64 = uc t" using mod_above [of 2 64 "uc t"] by (simp add: is_trail_iff)
  then show ?thesis by simp
qed

lemma utf8_next_multi_encode:
  assumes "trail_length (uc b) = int k" "0 < k" "length ts = k" "list_all is_trail ts"
    and "unat c = trail_value (uc b mod 2 ^ (6 - k)) ts" "utf_valid c" "utf8_width c = int k + 1"
  shows "utf8_encode c = b # ts"
proof -
  define n where "n = unat c"
  have e: "utf8_encode c = (if n \<le> 0x7F then [ch n]
      else if n \<le> 0x7FF then [ch (192 + n div 64), ch (128 + n mod 64)]
      else if n \<le> 0xFFFF then [ch (224 + n div 64 div 64), ch (128 + n div 64 mod 64), ch (128 + n mod 64)]
      else [ch (240 + n div 64 div 64 div 64), ch (128 + n div 64 div 64 mod 64), ch (128 + n div 64 mod 64), ch (128 + n mod 64)])"
    using utf8_encode_nat [of c] assms(6) by (simp add: Let_def n_def utf_valid_nat)
  note w = assms(7) [unfolded utf8_width_nat, folded n_def]
  consider "k = 1" "194 \<le> uc b" "uc b < 224" | "k = 2" "224 \<le> uc b" "uc b < 240" | "k = 3" "240 \<le> uc b" "uc b \<le> 244"
    using assms(1,2) by (auto simp: trail_length_def split: if_splits)
  then show ?thesis
  proof cases
    case 1
    then obtain t where ts: "ts = [t]" "is_trail t" using assms(3,4) by (auto simp: length_Suc_conv)
    have b: "ch (192 + uc b mod 32) = b" using mod_above [of 6 32 "uc b"] 1 by simp
    have "n = uc b mod 32 * 64 + uc t mod 64" using assms(5) 1 ts by (simp add: trail_value_def n_def)
    then have n: "n div 64 = uc b mod 32" "n mod 64 = uc t mod 64" by (simp_all add: sixty_four)
    have "utf8_encode c = [ch (192 + n div 64), ch (128 + n mod 64)]" using e w 1(1) by (simp split: if_splits)
    then show ?thesis unfolding n by (simp only: b ts trail_byte)
  next
    case 2
    then obtain t u where ts: "ts = [t, u]" "is_trail t" "is_trail u"
      using assms(3,4) by (auto simp: length_Suc_conv numeral_2_eq_2)
    have b: "ch (224 + uc b mod 16) = b" using mod_above [of 14 16 "uc b"] 2 by simp
    have "n = (uc b mod 16 * 64 + uc t mod 64) * 64 + uc u mod 64" using assms(5) 2 ts by (simp add: trail_value_def n_def)
    then have n: "n div 64 = uc b mod 16 * 64 + uc t mod 64" "n mod 64 = uc u mod 64" by (simp_all only: sixty_four mod_less_divisor zero_less_numeral)
    have m: "(uc b mod 16 * 64 + uc t mod 64) div 64 = uc b mod 16" "(uc b mod 16 * 64 + uc t mod 64) mod 64 = uc t mod 64"
      by (simp_all add: sixty_four)
    have "utf8_encode c = [ch (224 + n div 64 div 64), ch (128 + n div 64 mod 64), ch (128 + n mod 64)]"
      using e w 2(1) by (simp split: if_splits)
    then show ?thesis unfolding n m by (simp only: b ts trail_byte)
  next
    case 3
    then obtain t u x where ts: "ts = [t, u, x]" "is_trail t" "is_trail u" "is_trail x"
      using assms(3,4) by (auto simp: length_Suc_conv numeral_3_eq_3)
    have b: "ch (240 + uc b mod 8) = b" using mod_above [of 30 8 "uc b"] 3 by simp
    have "n = ((uc b mod 8 * 64 + uc t mod 64) * 64 + uc u mod 64) * 64 + uc x mod 64"
      using assms(5) 3 ts by (simp add: trail_value_def n_def)
    then have n: "n div 64 = (uc b mod 8 * 64 + uc t mod 64) * 64 + uc u mod 64" "n mod 64 = uc x mod 64"
      by (simp_all only: sixty_four mod_less_divisor zero_less_numeral)
    have m: "((uc b mod 8 * 64 + uc t mod 64) * 64 + uc u mod 64) div 64 = uc b mod 8 * 64 + uc t mod 64"
      "((uc b mod 8 * 64 + uc t mod 64) * 64 + uc u mod 64) mod 64 = uc u mod 64"
      "(uc b mod 8 * 64 + uc t mod 64) div 64 = uc b mod 8" "(uc b mod 8 * 64 + uc t mod 64) mod 64 = uc t mod 64"
      by (simp_all only: sixty_four mod_less_divisor zero_less_numeral)
    have "utf8_encode c = [ch (240 + n div 64 div 64 div 64), ch (128 + n div 64 div 64 mod 64), ch (128 + n div 64 mod 64), ch (128 + n mod 64)]"
      using e w 3(1) by (simp split: if_splits)
    then show ?thesis unfolding n m by (simp only: b ts trail_byte)
  qed
qed

lemma utf8_next_accepts:
  assumes "utf8_next html s = (c, q)" "c \<noteq> utf_illegal"
  shows "scalar html c \<and> s = utf8_encode c @ q"
proof -
  obtain b p where s: "s = b # p" using assms by (cases s) (auto simp: utf8_next_def)
  let ?k = "nat (trail_length (uc b))"
  consider "uc b < 128" | "0 < trail_length (uc b)" "trail_length (uc b) < 4"
    using assms s by (fastforce simp: utf8_next_def Let_def trail_length_def split: if_splits)
  then show ?thesis
  proof cases
    case 1
    then have c: "c = of_nat (uc b)" "q = p" and h: "html \<longrightarrow> html_ascii (uc b)"
      using assms s by (auto simp: utf8_next_ascii split: if_splits)
    have n: "unat c = uc b" using c by simp
    then have "html \<longrightarrow> html_char c" using h 1 by (auto simp: html_char_nat html_ascii_def)
    moreover have "utf_valid c" "utf8_encode c = [b]" using n 1 by (simp_all add: utf_valid_nat utf8_encode_nat Let_def)
    ultimately show ?thesis using s c by (simp add: scalar_def)
  next
    case 2
    then have k: "trail_length (uc b) = int ?k" "0 < ?k" "?k < 4" by simp_all
    obtain d where "read_trail ?k (of_nat (uc b) AND (push_bit (nat (6 - trail_length (uc b))) 1 - 1)) p = (Some d, q)"
      using assms s 2 by (auto simp: utf8_next_def Let_def split: prod.splits option.splits if_splits)
    then obtain ts where ts: "p = ts @ q" "length ts = ?k" "list_all is_trail ts" using read_trail_some by blast
    obtain d where d: "unat d = trail_value (uc b mod 2 ^ (6 - ?k)) ts" "utf8_next html (b # ts @ q)
      = (if utf_valid d \<and> utf8_width d = int ?k + 1 \<and> (html \<longrightarrow> 0xA0 \<le> d) then (d, q) else (utf_illegal, q))"
      using utf8_next_multi [OF k ts(2,3)] by blast
    then have c: "d = c" "utf_valid c" "utf8_width c = int ?k + 1" "html \<longrightarrow> 0xA0 \<le> c"
      using assms s ts(1) by (auto split: if_splits)
    then have "utf8_encode c = b # ts" using utf8_next_multi_encode [OF k(1,2) ts(2,3)] d(1) by blast
    moreover have "html \<longrightarrow> html_char c" using c(4) by (auto simp: html_char_def)
    ultimately show ?thesis using s ts(1) c(2) by (simp add: scalar_def)
  qed
qed

lemma utf8_encode_ne [simp]: "utf8_encode c \<noteq> []"
  by (simp add: utf8_encode_def)

lemma utf8_validate_count_iff:
  "utf8_validate_count s n html = (True, m)
     \<longleftrightarrow> (\<exists>cs. list_all (scalar html) cs \<and> s = concat (map utf8_encode cs) \<and> m = n + length cs)"
proof (induction s n html rule: utf8_validate_count.induct)
  case (1 s n html)
  obtain c q where cq: "utf8_next html s = (c, q)" by (cases "utf8_next html s")
  show ?case
  proof (cases "s = []")
    case True
    then show ?thesis by (subst utf8_validate_count.simps) (auto intro: exI [of _ "[]"] simp: concat_eq_Nil_conv)
  next
    case ne: False
    show ?thesis
    proof (cases "c = utf_illegal")
      case True
      have "s \<noteq> concat (map utf8_encode cs)" if "list_all (scalar html) cs" for cs
      proof
        assume s: "s = concat (map utf8_encode cs)"
        with ne obtain d ds where "cs = d # ds" by (cases cs) auto
        then show False
          using that s cq True scalar_legal [of d] by (auto simp: utf8_next_encode scalar_def)
      qed
      then show ?thesis using ne cq True by (subst utf8_validate_count.simps) auto
    next
      case False
      then have acc: "scalar html c" "s = utf8_encode c @ q" using utf8_next_accepts [OF cq] by auto
      have "(\<exists>cs. list_all (scalar html) cs \<and> q = concat (map utf8_encode cs) \<and> m = n + 1 + length cs)
        \<longleftrightarrow> (\<exists>cs. list_all (scalar html) cs \<and> s = concat (map utf8_encode cs) \<and> m = n + length cs)" (is "?l \<longleftrightarrow> ?r")
      proof
        assume ?l
        then obtain cs where "list_all (scalar html) cs" "q = concat (map utf8_encode cs)" "m = n + 1 + length cs" by blast
        then show ?r using acc by (intro exI [of _ "c # cs"]) simp
      next
        assume ?r
        then obtain cs where cs: "list_all (scalar html) cs" "s = concat (map utf8_encode cs)" "m = n + length cs" by blast
        with ne obtain d ds where d: "cs = d # ds" by (cases cs) auto
        then have "utf8_next html s = (d, concat (map utf8_encode ds))" using cs by (simp add: utf8_next_encode)
        then show ?l using cs d cq by (intro exI [of _ ds]) simp
      qed
      then show ?thesis using 1 [OF ne] ne cq False by (subst utf8_validate_count.simps) simp
    qed
  qed
qed

lemma utf8_validate_fst: "utf8_validate s html = fst (utf8_validate_count s n html)"
  by (induction s n html rule: utf8_validate_count.induct)
    (subst utf8_validate.simps, subst utf8_validate_count.simps, simp)

text \<open>
  C39. UTF-8 validation is exact.  A byte string is accepted if and only if it is the concatenation of the
  encodings of Unicode scalar values (no surrogates, none above 10FFFF, each in its shortest form), in HTML mode
  of such that are no control characters; the counting variant returns the number of these values.
\<close>

theorem utf8_validate_exact:
  "(utf8_validate s html \<longleftrightarrow> (\<exists>cs. list_all (scalar html) cs \<and> s = concat (map utf8_encode cs)))
   \<and> (utf8_validate_count s n html = (True, m)
        \<longleftrightarrow> (\<exists>cs. list_all (scalar html) cs \<and> s = concat (map utf8_encode cs) \<and> m = n + length cs))"
proof
  have "utf8_validate s html \<longleftrightarrow> (\<exists>m. utf8_validate_count s 0 html = (True, m))"
    by (simp add: utf8_validate_fst [of s html 0] prod_eq_iff)
  then show "utf8_validate s html \<longleftrightarrow> (\<exists>cs. list_all (scalar html) cs \<and> s = concat (map utf8_encode cs))"
    by (auto simp: utf8_validate_count_iff)
qed (rule utf8_validate_count_iff)

section \<open>UTF-16\<close>

lemma unat_mark16: "unat x < 1024 \<Longrightarrow> unat (0xD800 OR x) = 0xD800 + unat (x :: 16 word)"
  "unat x < 1024 \<Longrightarrow> unat (0xDC00 OR x) = 0xDC00 + unat (x :: 16 word)"
  using or_add [of "unat x" 10 54] or_add [of "unat x" 10 55] by (simp_all add: unsigned_or_eq)

lemma unat_low10: "unat (w AND 0x3FF) = unat (w :: 'a::len word) mod 1024" if "10 < LENGTH('a)"
proof -
  have "w AND mask 10 = take_bit 10 w" by (simp add: take_bit_eq_mask)
  then have "unat (w AND mask 10) = take_bit 10 (unat w)" by (simp only: unsigned_take_bit_eq)
  then show ?thesis by (simp add: mask_eq_exp_minus_1 take_bit_eq_mod)
qed

lemma unat_up: "unat (ucast (x :: 16 word) :: code_point) = unat x"
proof -
  have "unat x < 2 ^ LENGTH(16)" by (rule unsigned_less)
  then show ?thesis by (simp add: unsigned_ucast_eq take_bit_nat_eq_self)
qed

lemma unat_down: "unat c < 2 ^ 16 \<Longrightarrow> unat (ucast (c :: code_point) :: 16 word) = unat c"
  by (simp add: unsigned_ucast_eq take_bit_nat_eq_self)

lemma unat_combine: "unat (combine_surrogate w1 w2) = unat w1 mod 1024 * 1024 + unat w2 mod 1024 + 0x10000"
proof -
  let ?a = "ucast (w1 AND 0x3FF) :: code_point" and ?b = "ucast (w2 AND 0x3FF) :: code_point"
  have u: "unat ?a = unat w1 mod 1024" "unat ?b = unat w2 mod 1024" by (simp_all add: unat_up unat_low10)
  have "unat w1 mod 1024 * 1024 < 2 ^ 32" using mod_less_divisor [of 1024 "unat w1"] by simp
  then have "unat (push_bit 10 ?a) = unat w1 mod 1024 * 2 ^ 10"
    by (simp add: unsigned_push_bit_eq push_bit_mult take_bit_eq_mod u)
  then have "unat (push_bit 10 ?a OR ?b) = unat w1 mod 1024 * 1024 + unat w2 mod 1024"
    using or_add [of "unat w2 mod 1024" 10 "unat w1 mod 1024"] by (simp add: unsigned_or_eq u)
  moreover have "unat w1 mod 1024 * 1024 + unat w2 mod 1024 + 0x10000 < 2 ^ 32"
    using mod_less_divisor [of 1024 "unat w1"] mod_less_divisor [of 1024 "unat w2"] by simp
  ultimately show ?thesis
    by (simp add: combine_surrogate_def unat_word_ariths(1))
qed

theorem utf16_roundtrip:
  assumes "utf_valid c"
  shows "utf16_next (utf16_encode c @ q) = (c, q)"
proof (cases "c \<le> 0xFFFF")
  case True
  then have n: "unat c < 2 ^ 16" by (simp add: word_le_nat_alt)
  have "unat (ucast c :: 16 word) = unat c" using unat_down [OF n] .
  moreover have "ucast (ucast c :: 16 word) = c" using n by (simp add: word_unat_eq_iff unat_up unat_down)
  ultimately show ?thesis using True assms
    by (auto simp: utf16_encode_def utf_valid_nat word_le_nat_alt word_less_nat_alt)
next
  case False
  define u where "u = c - 0x10000"
  have c: "0xFFFF < unat c" "unat c \<le> 0x10FFFF" using False assms by (simp_all add: word_le_nat_alt utf_valid_nat)
  then have u: "unat u = unat c - 0x10000" by (simp add: u_def unat_sub word_le_nat_alt)
  then have small: "unat u < 2 ^ 20" using c by simp
  let ?hi = "ucast (drop_bit 10 u) :: 16 word" and ?lo = "ucast (u AND 0x3FF) :: 16 word"
  have "unat (drop_bit 10 u) = unat u div 1024" by (simp add: unsigned_drop_bit_eq drop_bit_div)
  then have hi: "unat ?hi = unat u div 1024" "unat u div 1024 < 1024" using small by (simp_all add: unat_down)
  have lo: "unat ?lo = unat u mod 1024" by (simp add: unat_down unat_low10)
  then have m: "unat (0xD800 OR ?hi) = 0xD800 + unat u div 1024" "unat (0xDC00 OR ?lo) = 0xDC00 + unat u mod 1024"
    using unat_mark16 hi by simp_all
  have k: "(0xD800 + x) mod 1024 = x" "(0xDC00 + x) mod 1024 = x" if "x < 1024" for x :: nat
    using that mod_mult_self3 [of 54 1024 x] mod_mult_self3 [of 55 1024 x] by simp_all
  have "unat (combine_surrogate (0xD800 OR ?hi) (0xDC00 OR ?lo)) = unat u div 1024 * 1024 + unat u mod 1024 + 0x10000"
    unfolding unat_combine m using k [of "unat u div 1024"] k [of "unat u mod 1024"] hi(2) by simp
  also have "\<dots> = unat c" using u c by simp
  finally have "combine_surrogate (0xD800 OR ?hi) (0xDC00 OR ?lo) = c" by (simp add: word_unat_eq_iff)
  then show ?thesis using False m hi(2)
    by (auto simp: utf16_encode_def u_def [symmetric] Let_def word_less_nat_alt)
qed

text \<open>
  The width function of UTF-16 does not agree with the encoder: the second unit is needed from 10000 on, the
  function says from 100000 on.
\<close>

theorem utf16_width_wrong:
  "0x10000 \<le> c \<Longrightarrow> c < 0x100000 \<Longrightarrow> int (length (utf16_encode c)) = 2 \<and> utf16_width c = 1"
proof -
  assume "0x10000 \<le> c" "c < 0x100000"
  moreover from this have "\<not> c \<le> 0xFFFF" by (simp add: word_le_nat_alt)
  ultimately show ?thesis by (simp add: utf16_encode_def utf16_width_def Let_def not_le)
qed

end
