(* ===== verification/Encoding.thy ===== *)
theory Encoding
  imports Utf
begin

text \<open>
  \<^verbatim>\<open>private/encoding_validators.h\<close> and \<^verbatim>\<open>src/encoding.cpp\<close>: is a text valid in a named character encoding and
  fit for HTML, and if not, which text is left when the bad characters are dropped or replaced.  The conversion
  between encodings is done by iconv or ICU behind \<^verbatim>\<open>booster::locale::conv\<close> and is a parameter.
\<close>

section \<open>The validators\<close>

type_synonym encoding_tester = "string \<Rightarrow> nat \<Rightarrow> bool \<times> nat"

definition utf8_valid :: encoding_tester where
  "utf8_valid p count = utf8_validate_count p count True"

text \<open>
  The loop of the validators for the single byte encodings, which differ in the codes they refuse: count, let the
  white space controls pass, refuse the bad codes.
\<close>

fun byte_loop :: "(nat \<Rightarrow> bool) \<Rightarrow> encoding_tester" where
  "byte_loop bad [] count = (True, count)"
| "byte_loop bad (c # p) count =
     (if uc c = 0x09 \<or> uc c = 0xA \<or> uc c = 0xD then byte_loop bad p (count + 1)
      else if bad (uc c) then (False, count + 1)
      else byte_loop bad p (count + 1))"

definition ascii_valid :: encoding_tester where
  "ascii_valid = byte_loop (\<lambda>c. c < 0x20 \<or> 0x7E < c)"

definition iso_8859_control :: "nat \<Rightarrow> bool" where
  "iso_8859_control c \<longleftrightarrow> c < 0x20 \<or> (0x7F \<le> c \<and> c < 0xA0)"

definition iso_8859_1_2_4_5_9_10_13_14_15_16_valid :: encoding_tester where
  "iso_8859_1_2_4_5_9_10_13_14_15_16_valid = byte_loop iso_8859_control"

definition iso_8859_3_valid :: encoding_tester where
  "iso_8859_3_valid = byte_loop (\<lambda>c. iso_8859_control c \<or> c \<in> set [0xA5, 0xAE, 0xBE, 0xC3, 0xD0, 0xE3, 0xF0])"

definition iso_8859_6_valid :: encoding_tester where
  "iso_8859_6_valid = byte_loop (\<lambda>c. iso_8859_control c \<or>
     (0xA1 \<le> c \<and> c \<le> 0xA3) \<or> (0xA5 \<le> c \<and> c \<le> 0xAB) \<or> (0xAE \<le> c \<and> c \<le> 0xBA) \<or> (0xBC \<le> c \<and> c \<le> 0xBE) \<or>
     0xC0 = c \<or> (0xDB \<le> c \<and> c \<le> 0xDF) \<or> (0xF3 \<le> c \<and> c \<le> 0xFF))"

definition iso_8859_7_valid :: encoding_tester where
  "iso_8859_7_valid = byte_loop (\<lambda>c. iso_8859_control c \<or> c \<in> set [0xAE, 0xD2, 0xFF])"

definition iso_8859_8_valid :: encoding_tester where
  "iso_8859_8_valid = byte_loop (\<lambda>c. iso_8859_control c \<or> c \<in> set [0xA1, 0xFB, 0xFC, 0xFF] \<or> (0xBF \<le> c \<and> c \<le> 0xDE))"

definition iso_8859_11_valid :: encoding_tester where
  "iso_8859_11_valid = byte_loop (\<lambda>c. iso_8859_control c \<or> c \<in> set [0xDB, 0xDC, 0xDD, 0xDE, 0xFC, 0xFD, 0xFE, 0xFF])"

definition control_or_delete :: "nat \<Rightarrow> bool" where
  "control_or_delete c \<longleftrightarrow> c < 0x20 \<or> 0x7F = c"

definition windows_1250_valid :: encoding_tester where
  "windows_1250_valid = byte_loop (\<lambda>c. control_or_delete c \<or> c \<in> set [0x81, 0x83, 0x88, 0x90, 0x98])"

definition windows_1251_valid :: encoding_tester where
  "windows_1251_valid = byte_loop (\<lambda>c. control_or_delete c \<or> c = 152)"

definition windows_1252_valid :: encoding_tester where
  "windows_1252_valid = byte_loop (\<lambda>c. control_or_delete c \<or> c \<in> set [0x81, 0x8D, 0x8F, 0x90, 0x9D])"

definition windows_1253_valid :: encoding_tester where
  "windows_1253_valid = byte_loop (\<lambda>c. control_or_delete c \<or>
     c \<in> set [0x81, 0x88, 0x8A, 0x8C, 0x8D, 0x8E, 0x8F, 0x90, 0x98, 0x9A, 0x9C, 0x9D, 0x9E, 0x9F, 0xAA, 0xD2, 0xFF])"

definition windows_1254_valid :: encoding_tester where
  "windows_1254_valid = byte_loop (\<lambda>c. control_or_delete c \<or> c \<in> set [0x81, 0x8D, 0x8E, 0x8F, 0x90, 0x9D, 0x9E])"

definition windows_1255_valid :: encoding_tester where
  "windows_1255_valid = byte_loop (\<lambda>c. control_or_delete c \<or>
     c \<in> set [0x81, 0x8A, 0x8C, 0x8D, 0x8E, 0x8F, 0x90, 0x9A, 0x9C, 0x9D, 0x9E, 0x9F,
       0xD9, 0xDA, 0xDB, 0xDC, 0xDD, 0xDE, 0xDF, 0xCA, 0xFB, 0xFC, 0xFF])"

definition windows_1256_valid :: encoding_tester where
  "windows_1256_valid = byte_loop control_or_delete"

definition windows_1257_valid :: encoding_tester where
  "windows_1257_valid = byte_loop (\<lambda>c. control_or_delete c \<or>
     c \<in> set [0x81, 0x83, 0x88, 0x8A, 0x8C, 0x90, 0x98, 0x9A, 0x9C, 0x9F, 0xA1, 0xA5])"

definition windows_1258_valid :: encoding_tester where
  "windows_1258_valid = byte_loop (\<lambda>c. control_or_delete c \<or>
     c \<in> set [0x81, 0x8A, 0x8D, 0x8E, 0x8F, 0x90, 0x9A, 0x9D, 0x9E])"

definition koi8_valid :: encoding_tester where
  "koi8_valid = byte_loop control_or_delete"

section \<open>Names of encodings\<close>

text \<open>\<^verbatim>\<open>encodings_comparator::next\<close>: the next letter or digit, letters in lower case, zero at the end.\<close>

fun enc_next :: "string \<Rightarrow> char \<times> string" where
  "enc_next [] = (ch 0, [])"
| "enc_next (c # p) =
     (if char_in (CHR ''0'') (CHR ''9'') c then (c, p)
      else if char_in (CHR ''a'') (CHR ''z'') c then (c, p)
      else if char_in (CHR ''A'') (CHR ''Z'') c then (ch (uc c - uc (CHR ''A'') + uc (CHR ''a'')), p)
      else enc_next p)"

lemma enc_next_length: "length (snd (enc_next p)) \<le> length p"
  by (induction p rule: enc_next.induct) auto

lemma enc_next_shorter: "fst (enc_next p) \<noteq> ch 0 \<Longrightarrow> length (snd (enc_next p)) < length p"
  by (induction p rule: enc_next.induct) (auto split: if_splits)

function enc_less :: "string \<Rightarrow> string \<Rightarrow> bool" where
  "enc_less lp rp =
     (let left = fst (enc_next lp); right = fst (enc_next rp) in
      if sc left < sc right then True
      else if sc left > sc right then False
      else if left = ch 0 then False
      else enc_less (snd (enc_next lp)) (snd (enc_next rp)))"
  by auto
termination
  by (relation "measure (\<lambda>(lp, _). length lp)") (auto intro: enc_next_shorter)

declare enc_less.simps [simp del]

text \<open>\<^verbatim>\<open>encodings_comparator::operator()\<close> on strings reads them as C strings.\<close>

definition encodings_comparator :: "string \<Rightarrow> string \<Rightarrow> bool" where
  "encodings_comparator l r = enc_less (cstr l) (cstr r)"

definition all_validators :: "(string \<times> encoding_tester) list" where
  "all_validators =
     map (\<lambda>n. (n, iso_8859_1_2_4_5_9_10_13_14_15_16_valid))
       [''latin1'', ''iso88591'', ''iso88592'', ''iso88594'', ''iso88595'', ''iso88599'', ''iso885910'', ''iso885913'',
        ''iso885914'', ''iso885915'', ''iso885916'']
     @ [(''iso88593'', iso_8859_3_valid), (''iso88596'', iso_8859_6_valid), (''iso88597'', iso_8859_7_valid),
        (''iso88598'', iso_8859_8_valid), (''iso885911'', iso_8859_11_valid),
        (''windows1250'', windows_1250_valid), (''windows1251'', windows_1251_valid), (''windows1252'', windows_1252_valid),
        (''windows1253'', windows_1253_valid), (''windows1255'', windows_1255_valid), (''windows1256'', windows_1256_valid),
        (''windows1257'', windows_1257_valid), (''windows1258'', windows_1258_valid),
        (''cp1250'', windows_1250_valid), (''cp1251'', windows_1251_valid), (''cp1252'', windows_1252_valid),
        (''cp1253'', windows_1253_valid), (''cp1255'', windows_1255_valid), (''cp1256'', windows_1256_valid),
        (''cp1257'', windows_1257_valid), (''cp1258'', windows_1258_valid),
        (''koi8r'', koi8_valid), (''koi8u'', koi8_valid),
        (''utf8'', utf8_valid), (''ascii'', ascii_valid), (''usascii'', ascii_valid)]"

text \<open>\<^verbatim>\<open>predefined_.find\<close>: the element whose name is equivalent under the comparator of the map.\<close>

definition validators_get :: "string \<Rightarrow> encoding_tester option" where
  "validators_get name =
     map_option snd (find (\<lambda>(n, _). \<not> encodings_comparator n name \<and> \<not> encodings_comparator name n) all_validators)"

definition is_utf8 :: "string \<Rightarrow> bool" where
  "is_utf8 c_encoding \<longleftrightarrow> \<not> encodings_comparator c_encoding ''utf8'' \<and> \<not> encodings_comparator ''utf8'' c_encoding"

definition is_ascii_compatible :: "string \<Rightarrow> bool" where
  "is_ascii_compatible encoding \<longleftrightarrow> validators_get encoding \<noteq> None"

section \<open>Validation and filtering\<close>

text \<open>\<^verbatim>\<open>conv::between\<close>, from the last to the second encoding; no value stands for an exception.\<close>

record conv_between =
  conv_stop :: "string \<Rightarrow> string \<Rightarrow> string \<Rightarrow> string option"
  conv_skip :: "string \<Rightarrow> string \<Rightarrow> string \<Rightarrow> string option"

definition encoding_valid :: "conv_between \<Rightarrow> string \<Rightarrow> encoding_tester" where
  "encoding_valid conv encoding s count =
     (case validators_get encoding of
        Some tester \<Rightarrow> tester s count
      | None \<Rightarrow>
          (case conv_stop conv s ''UTF-8'' encoding of
             Some utf8_string \<Rightarrow> utf8_valid utf8_string count
           | None \<Rightarrow> (False, count)))"

text \<open>The first loop of \<^verbatim>\<open>validate_or_filter_utf8\<close>: the place of the first bad character.\<close>

function first_bad :: "string \<Rightarrow> string option" where
  "first_bad ptr =
     (if ptr \<noteq> [] then
        (if fst (utf8_next True ptr) = utf_illegal then Some ptr else first_bad (snd (utf8_next True ptr)))
      else None)"
  by auto
termination
  by (relation "measure length") (auto intro: utf8_next_length)

function filter_loop :: "char \<Rightarrow> string \<Rightarrow> string \<Rightarrow> string" where
  "filter_loop replace prev output =
     (if prev \<noteq> [] then
        (if fst (utf8_next True prev) \<noteq> utf_illegal then
           filter_loop replace (snd (utf8_next True prev)) (output @ str_range prev (snd (utf8_next True prev)))
         else
           (let output = (if replace \<noteq> ch 0 then output @ [replace] else output) in
            if fst (utf8_next False prev) = utf_illegal then filter_loop replace (tl prev) output
            else filter_loop replace (snd (utf8_next False prev)) output))
      else output)"
  by auto
termination
  by (relation "measure (\<lambda>(_, prev, _). length prev)") (auto intro: utf8_next_length)

declare first_bad.simps [simp del] filter_loop.simps [simp del]

definition validate_or_filter_utf8 :: "string \<Rightarrow> string \<Rightarrow> char \<Rightarrow> bool \<times> string" where
  "validate_or_filter_utf8 s output replace =
     (case first_bad s of
        None \<Rightarrow> (True, output)
      | Some prev \<Rightarrow> (False, filter_loop replace prev (str_range s prev)))"

fun filter_bytes :: "encoding_tester \<Rightarrow> char \<Rightarrow> string \<Rightarrow> string \<Rightarrow> string" where
  "filter_bytes tester repl [] output = output"
| "filter_bytes tester repl (p # rest) output =
     filter_bytes tester repl rest
       (if fst (tester [p] 0) then output @ [p] else if repl \<noteq> ch 0 then output @ [repl] else output)"

definition validate_or_filter_single_byte_charset :: "encoding_tester \<Rightarrow> string \<Rightarrow> string \<Rightarrow> char \<Rightarrow> bool \<times> string" where
  "validate_or_filter_single_byte_charset tester s output repl =
     (if fst (tester s 0) then (True, output) else (False, filter_bytes tester repl s []))"

definition validate_or_filter :: "conv_between \<Rightarrow> string \<Rightarrow> string \<Rightarrow> string \<Rightarrow> char \<Rightarrow> (bool \<times> string) option" where
  "validate_or_filter conv encoding s output replace =
     (if is_utf8 encoding then Some (validate_or_filter_utf8 s output replace)
      else (case validators_get encoding of
          Some tester \<Rightarrow> Some (validate_or_filter_single_byte_charset tester s output replace)
        | None \<Rightarrow>
            if fst (encoding_valid conv encoding s 0) then Some (True, output)
            else (case conv_skip conv s ''UTF-8'' encoding of
                None \<Rightarrow> None
              | Some utf8_string \<Rightarrow>
                  (let (ok, tmp_out) = validate_or_filter_utf8 utf8_string [] (ch 0);
                       tmp_out = (if ok then utf8_string else tmp_out)
                   in map_option (Pair False) (conv_skip conv tmp_out encoding ''UTF-8'')))))"

section \<open>Names are compared by letters and digits\<close>

fun enc_key :: "string \<Rightarrow> string" where
  "enc_key [] = []"
| "enc_key (c # p) =
     (if char_in (CHR ''0'') (CHR ''9'') c \<or> char_in (CHR ''a'') (CHR ''z'') c then c # enc_key p
      else if char_in (CHR ''A'') (CHR ''Z'') c then ch (uc c - uc (CHR ''A'') + uc (CHR ''a'')) # enc_key p
      else enc_key p)"

lemma alnum_codes:
  "char_in (CHR ''0'') (CHR ''9'') c \<longleftrightarrow> 48 \<le> uc c \<and> uc c \<le> 57" "char_in (CHR ''a'') (CHR ''z'') c \<longleftrightarrow> 97 \<le> uc c \<and> uc c \<le> 122"
  "char_in (CHR ''A'') (CHR ''Z'') c \<longleftrightarrow> 65 \<le> uc c \<and> uc c \<le> 90" "uc (CHR ''A'') = 65" "uc (CHR ''a'') = 97"
proof -
  have n: "sc (CHR ''0'') = 48" "sc (CHR ''9'') = 57" "sc (CHR ''a'') = 97" "sc (CHR ''z'') = 122" "sc (CHR ''A'') = 65" "sc (CHR ''Z'') = 90"
    by code_simp+
  show "char_in (CHR ''0'') (CHR ''9'') c \<longleftrightarrow> 48 \<le> uc c \<and> uc c \<le> 57" "char_in (CHR ''a'') (CHR ''z'') c \<longleftrightarrow> 97 \<le> uc c \<and> uc c \<le> 122"
    "char_in (CHR ''A'') (CHR ''Z'') c \<longleftrightarrow> 65 \<le> uc c \<and> uc c \<le> 90"
    unfolding char_in_def n using uc_lt [of c] by (auto simp: sc_def simp del: uc_lt uc_lt_numeral split: if_splits)
qed code_simp+

lemma enc_key_chars: "c \<in> set (enc_key p) \<Longrightarrow> 48 \<le> uc c \<and> uc c < 128"
  by (induction p rule: enc_key.induct) (auto simp: alnum_codes split: if_splits)

lemma enc_next_key:
  "fst (enc_next p) = (case enc_key p of [] \<Rightarrow> ch 0 | c # _ \<Rightarrow> c) \<and> enc_key (snd (enc_next p)) = tl (enc_key p)"
  by (induction p rule: enc_next.induct) auto

lemma enc_less_same:
  "\<not> enc_less a b \<and> \<not> enc_less b a \<longleftrightarrow> enc_key a = enc_key b"
proof (induction a b rule: enc_less.induct)
  case (1 a b)
  let ?l = "fst (enc_next a)" and ?r = "fst (enc_next b)"
  note k = enc_next_key [of a] enc_next_key [of b]
  have sgn: "sc c = int (uc c)" if "c \<in> set (enc_key p) \<or> c = ch 0" for c p
    using that enc_key_chars [of c p] by (auto simp: sc_def)
  have l: "sc ?l = int (uc ?l)" "sc ?r = int (uc ?r)"
    using k sgn [of ?l a] sgn [of ?r b] by (auto split: list.splits)
  consider "uc ?l \<noteq> uc ?r" | "?l = ?r" "?l = ch 0" | "?l = ?r" "?l \<noteq> ch 0" by (metis uc_inject)
  then show ?case
  proof cases
    case 1
    then have "enc_key a \<noteq> enc_key b" using k by (auto split: list.splits)
    moreover have "enc_less a b \<or> enc_less b a"
      using 1 l by (subst (1) enc_less.simps, subst (2) enc_less.simps) (auto simp: Let_def)
    ultimately show ?thesis by blast
  next
    case 2
    have "\<not> enc_less a b" "\<not> enc_less b a" using 2 by (subst enc_less.simps, simp add: Let_def)+
    moreover have "ch 0 \<notin> set (enc_key a)" "ch 0 \<notin> set (enc_key b)" using enc_key_chars [of "ch 0"] by auto
    ultimately show ?thesis using k 2 by (auto split: list.splits)
  next
    case 3
    have "enc_less a b = enc_less (snd (enc_next a)) (snd (enc_next b))" "enc_less b a = enc_less (snd (enc_next b)) (snd (enc_next a))"
      using 3 by (subst enc_less.simps, simp add: Let_def)+
    moreover have "enc_key a = ?l # tl (enc_key a)" "enc_key b = ?l # tl (enc_key b)"
      using k 3 by (auto split: list.splits)
    ultimately show ?thesis using "1.IH" [OF refl refl] 3 k by (metis less_irrefl list.inject)
  qed
qed

lemma validators_get_eq:
  "validators_get name = map_option snd (find (\<lambda>(n, _). enc_key (cstr n) = enc_key (cstr name)) all_validators)"
  using enc_less_same by (simp add: validators_get_def encodings_comparator_def case_prod_unfold cong: find_cong)

lemma is_utf8_eq: "is_utf8 name \<longleftrightarrow> enc_key (cstr name) = ''utf8''"
proof -
  have "enc_key (cstr ''utf8'') = ''utf8''" by code_simp
  then show ?thesis using enc_less_same [of "cstr name" "cstr ''utf8''"] by (simp add: is_utf8_def encodings_comparator_def)
qed

section \<open>What the filter leaves is valid\<close>

lemma byte_loop_iff: "fst (byte_loop bad s n) \<longleftrightarrow> list_all (\<lambda>c. uc c \<in> {9, 10, 13} \<or> \<not> bad (uc c)) s"
  by (induction bad s n rule: byte_loop.induct) auto

lemma filter_bytes_loop:
  "filter_bytes (byte_loop bad) repl s out
     = out @ concat (map (\<lambda>c. if uc c \<in> {9, 10, 13} \<or> \<not> bad (uc c) then [c] else if repl \<noteq> ch 0 then [repl] else []) s)"
  by (induction "byte_loop bad" repl s out rule: filter_bytes.induct) simp_all

lemma filter_bytes_valid:
  assumes "repl = ch 0 \<or> fst (byte_loop bad [repl] 0)"
  shows "fst (byte_loop bad (filter_bytes (byte_loop bad) repl s []) n)"
  using assms unfolding byte_loop_iff filter_bytes_loop by (auto simp: list_all_iff)

lemma filter_bytes_subseq: "subseq (filter_bytes (byte_loop bad) (ch 0) s []) s"
proof -
  have "concat (map (\<lambda>c. if P c then [c] else if ch 0 \<noteq> ch 0 then [ch 0] else []) s) = filter P s" for P
    by (induction s) simp_all
  then show ?thesis unfolding filter_bytes_loop by simp
qed

text \<open>The filter for UTF-8 in terms of the code points.\<close>

lemma first_bad_None: "first_bad s = None \<longleftrightarrow> utf8_validate s True"
  by (induction s rule: first_bad.induct) (subst first_bad.simps, subst utf8_validate.simps, simp)

lemma utf8_validate_step: "scalar html c \<Longrightarrow> utf8_validate (utf8_encode c @ q) html = utf8_validate q html"
  by (subst utf8_validate.simps) (simp add: utf8_next_encode scalar_def scalar_legal)

lemma utf8_validate_append: "utf8_validate a html \<Longrightarrow> utf8_validate (a @ b) html = utf8_validate b html"
proof (induction a html rule: utf8_validate.induct)
  case (1 a html)
  obtain c q where cq: "utf8_next html a = (c, q)" by (cases "utf8_next html a")
  show ?case
  proof (cases "a = []")
    case False
    then have c: "c \<noteq> utf_illegal" "utf8_validate q html" using "1.prems" cq by (auto simp: utf8_validate.simps [of a] split: if_splits)
    then have "scalar html c" "a = utf8_encode c @ q" using utf8_next_accepts [OF cq] by auto
    with "1.IH" [OF False] c cq show ?thesis by (simp add: utf8_validate_step)
  qed simp
qed

lemma utf8_validate_Nil [simp]: "utf8_validate [] html"
  by (subst utf8_validate.simps) simp

lemma first_bad_Some: "first_bad s = Some r \<Longrightarrow> \<exists>a. s = a @ r \<and> utf8_validate a True"
proof (induction s rule: first_bad.induct)
  case (1 s)
  obtain c q where cq: "utf8_next True s = (c, q)" by (cases "utf8_next True s")
  show ?case
  proof (cases "c = utf_illegal")
    case True
    then show ?thesis using "1.prems" cq by (auto simp: first_bad.simps [of s] split: if_splits)
  next
    case False
    then have acc: "scalar True c" "s = utf8_encode c @ q" using utf8_next_accepts [OF cq] by auto
    then obtain a where "q = a @ r" "utf8_validate a True"
      using "1.IH" "1.prems" cq False unfolding first_bad.simps [of s] by (auto split: if_splits)
    with acc show ?thesis by (intro exI [of _ "utf8_encode c @ a"]) (simp add: utf8_validate_step)
  qed
qed

lemma filter_loop_valid:
  assumes "replace = ch 0 \<or> utf8_validate [replace] True"
  shows "utf8_validate out True \<Longrightarrow> utf8_validate (filter_loop replace s out) True"
  using assms
proof (induction replace s out rule: filter_loop.induct)
  case (1 replace s out)
  obtain c q where cq: "utf8_next True s = (c, q)" by (cases "utf8_next True s")
  show ?case
  proof (cases "s = [] \<or> c = utf_illegal")
    case True
    let ?out = "if replace \<noteq> ch 0 then out @ [replace] else out"
    have "utf8_validate ?out True" using "1.prems" by (auto simp: utf8_validate_append)
    then show ?thesis using True "1.IH"(2,3) "1.prems" cq by (subst filter_loop.simps) (auto simp: Let_def)
  next
    case False
    then have acc: "scalar True c" "s = utf8_encode c @ q" using utf8_next_accepts [OF cq] by auto
    then have "utf8_validate (utf8_encode c) True" using utf8_validate_step [of True c "[]"] by simp
    then have "utf8_validate (out @ utf8_encode c) True" using "1.prems"(1) by (simp add: utf8_validate_append)
    then show ?thesis using False "1.IH"(1) "1.prems" cq acc by (subst filter_loop.simps) simp
  qed
qed

lemma filter_loop_subseq: "\<exists>x. filter_loop (ch 0) s out = out @ x \<and> subseq x s"
proof (induction "ch 0" s out rule: filter_loop.induct)
  case (1 s out)
  obtain c q where cq: "utf8_next True s = (c, q)" by (cases "utf8_next True s")
  consider "s = []" | "s \<noteq> []" "c = utf_illegal" | "s \<noteq> []" "c \<noteq> utf_illegal" by blast
  then show ?case
  proof cases
    case 2
    obtain d r where dr: "utf8_next False s = (d, r)" by (cases "utf8_next False s")
    let ?n = "if d = utf_illegal then tl s else r"
    have "\<exists>x. filter_loop (ch 0) ?n out = out @ x \<and> subseq x ?n"
      using "1.hyps"(2,3) 2 cq dr by auto
    moreover have "subseq ?n s" using utf8_next_accepts [OF dr] 2(1) by (cases s) auto
    moreover have "filter_loop (ch 0) s out = filter_loop (ch 0) ?n out"
      using 2 cq dr by (subst filter_loop.simps) simp
    ultimately show ?thesis by (metis subseq_order.order_trans)
  next
    case 3
    then have acc: "s = utf8_encode c @ q" using utf8_next_accepts [OF cq] by auto
    then obtain x where "filter_loop (ch 0) q (out @ utf8_encode c) = (out @ utf8_encode c) @ x" "subseq x q"
      using "1.hyps"(1) 3 cq by auto
    moreover have "filter_loop (ch 0) s out = filter_loop (ch 0) q (out @ utf8_encode c)"
      using 3 cq acc by (subst filter_loop.simps) simp
    ultimately show ?thesis using acc by (intro exI [of _ "utf8_encode c @ x"]) (simp add: list_emb_append_mono)
  qed (subst filter_loop.simps, simp)
qed

lemma filter_utf8:
  assumes "replace = ch 0 \<or> utf8_validate [replace] True" "validate_or_filter_utf8 s out replace = (ok, out')"
  shows "(ok \<longleftrightarrow> utf8_validate s True) \<and> (ok \<longrightarrow> out' = out) \<and> (\<not> ok \<longrightarrow> utf8_validate out' True)
    \<and> (\<not> ok \<and> replace = ch 0 \<longrightarrow> subseq out' s)"
proof (cases "first_bad s")
  case None
  then show ?thesis using assms(2) by (auto simp: validate_or_filter_utf8_def first_bad_None [symmetric])
next
  case (Some r)
  then obtain a where a: "s = a @ r" "utf8_validate a True" using first_bad_Some by blast
  then have r: "ok = False" "out' = filter_loop replace r a" using assms(2) Some by (simp_all add: validate_or_filter_utf8_def)
  moreover have "utf8_validate out' True" using filter_loop_valid [OF assms(1) a(2)] r by simp
  moreover have "subseq out' s" if "replace = ch 0" using filter_loop_subseq [of r a] r a that by (auto intro: list_emb_append_mono)
  ultimately show ?thesis using Some first_bad_None [of s] by auto
qed

text \<open>The table holds one UTF-8 tester, under its name, and otherwise loops over bytes.\<close>

lemma enc_key_name:
  "list_all (\<lambda>c. char_in (CHR ''0'') (CHR ''9'') c \<or> char_in (CHR ''a'') (CHR ''z'') c) n \<Longrightarrow> enc_key (cstr n) = n"
proof -
  assume n: "list_all (\<lambda>c. char_in (CHR ''0'') (CHR ''9'') c \<or> char_in (CHR ''a'') (CHR ''z'') c) n"
  then have "c \<noteq> ch 0" if "c \<in> set n" for c using that by (auto simp: alnum_codes list_all_iff)
  then have "cstr n = n" unfolding cstr_def by (intro takeWhile_eq_all_conv [THEN iffD2]) auto
  moreover have "enc_key n = n" using n by (induction n) auto
  ultimately show ?thesis by simp
qed

lemma all_validators_names: "n \<in> fst ` set all_validators \<Longrightarrow> enc_key (cstr n) = n"
proof (rule enc_key_name)
  assume n: "n \<in> fst ` set all_validators"
  have "\<forall>c \<in> set ''abcdefghijklmnopqrstuvwxyz0123456789''. char_in (CHR ''0'') (CHR ''9'') c \<or> char_in (CHR ''a'') (CHR ''z'') c"
    by code_simp
  moreover have "\<forall>n \<in> fst ` set all_validators. set n \<subseteq> set ''abcdefghijklmnopqrstuvwxyz0123456789''"
    unfolding all_validators_def by simp
  ultimately show "list_all (\<lambda>c. char_in (CHR ''0'') (CHR ''9'') c \<or> char_in (CHR ''a'') (CHR ''z'') c) n"
    using n unfolding list_all_iff by blast
qed

lemma all_validators_testers:
  "list_all (\<lambda>(n, t). (\<exists>bad. t = byte_loop bad) \<and> n \<noteq> ''utf8'' \<or> t = utf8_valid \<and> n = ''utf8'') all_validators"
  unfolding all_validators_def ascii_valid_def iso_8859_1_2_4_5_9_10_13_14_15_16_valid_def iso_8859_3_valid_def iso_8859_6_valid_def
    iso_8859_7_valid_def iso_8859_8_valid_def iso_8859_11_valid_def windows_1250_valid_def windows_1251_valid_def windows_1252_valid_def
    windows_1253_valid_def windows_1255_valid_def windows_1256_valid_def windows_1257_valid_def windows_1258_valid_def koi8_valid_def
  by (simp del: ex_simps) blast?

lemma validators_get_cases:
  assumes "validators_get enc = Some t"
  obtains "is_utf8 enc" "t = utf8_valid" | bad where "\<not> is_utf8 enc" "t = byte_loop bad"
proof -
  obtain n where n: "(n, t) \<in> set all_validators" "enc_key (cstr n) = enc_key (cstr enc)"
    using assms unfolding validators_get_eq by (auto simp: find_Some_iff) (metis nth_mem)
  then have "enc_key (cstr n) = n" by (intro all_validators_names) force
  moreover have "(\<exists>bad. t = byte_loop bad) \<and> n \<noteq> ''utf8'' \<or> t = utf8_valid \<and> n = ''utf8''"
    using all_validators_testers n(1) by (auto simp: list_all_iff)
  ultimately show thesis using that n(2) is_utf8_eq [of enc] by metis
qed

text \<open>
  C40. Text that passed the filter is valid.  For every encoding the library has a validator for, under any
  spelling of its name, \<^verbatim>\<open>validate_or_filter\<close> answers true exactly for valid texts and then leaves the output alone;
  otherwise the output is valid, if the replacement character is (or there is none), and without a replacement it
  is the input with characters left out.
\<close>

theorem filter_makes_valid:
  assumes "validators_get enc = Some t" "replace = ch 0 \<or> fst (t [replace] 0)"
  shows "\<exists>ok out'. validate_or_filter conv enc s out replace = Some (ok, out')
    \<and> (ok \<longleftrightarrow> fst (encoding_valid conv enc s 0)) \<and> (ok \<longrightarrow> out' = out)
    \<and> (\<not> ok \<longrightarrow> fst (encoding_valid conv enc out' 0)) \<and> (\<not> ok \<and> replace = ch 0 \<longrightarrow> subseq out' s)"
  using assms(1)
proof (cases rule: validators_get_cases)
  case 1
  have u: "fst (utf8_valid x 0) = utf8_validate x True" for x by (simp add: utf8_valid_def utf8_validate_fst [of x True 0])
  obtain ok out' where r: "validate_or_filter_utf8 s out replace = (ok, out')" by (cases "validate_or_filter_utf8 s out replace")
  have "replace = ch 0 \<or> utf8_validate [replace] True" using assms(2) 1 u by auto
  from filter_utf8 [OF this r] show ?thesis
    using 1 assms(1) r by (simp add: validate_or_filter_def encoding_valid_def u)
next
  case (2 bad)
  have "fst (byte_loop bad (filter_bytes (byte_loop bad) replace s []) 0)"
    using filter_bytes_valid [of replace bad s 0] assms(2) 2 by simp
  then show ?thesis
    using 2 assms(1) filter_bytes_subseq [of bad s]
    by (simp add: validate_or_filter_def encoding_valid_def validate_or_filter_single_byte_charset_def)
qed

theorem filter_makes_valid_witness:
  "\<exists>ok out'. validate_or_filter \<lparr>conv_stop = \<lambda>_ _ _. None, conv_skip = \<lambda>_ _ _. None\<rparr> ''Latin-1'' [ch 65, ch 0, ch 233] [] (CHR ''?'') = Some (ok, out')
    \<and> (ok \<longleftrightarrow> fst (encoding_valid \<lparr>conv_stop = \<lambda>_ _ _. None, conv_skip = \<lambda>_ _ _. None\<rparr> ''Latin-1'' [ch 65, ch 0, ch 233] 0))
    \<and> (\<not> ok \<longrightarrow> fst (encoding_valid \<lparr>conv_stop = \<lambda>_ _ _. None, conv_skip = \<lambda>_ _ _. None\<rparr> ''Latin-1'' out' 0))"
proof -
  have "enc_key (cstr ''Latin-1'') = ''latin1''" by code_simp
  moreover have "enc_key (cstr ''latin1'') = ''latin1''" by code_simp
  ultimately have "validators_get ''Latin-1'' = Some iso_8859_1_2_4_5_9_10_13_14_15_16_valid"
    by (simp add: validators_get_eq all_validators_def)
  moreover have "fst (iso_8859_1_2_4_5_9_10_13_14_15_16_valid [CHR ''?''] 0)" by code_simp
  ultimately show ?thesis
    using filter_makes_valid [of "''Latin-1''" _ "CHR ''?''" "\<lparr>conv_stop = \<lambda>_ _ _. None, conv_skip = \<lambda>_ _ _. None\<rparr>" "[ch 65, ch 0, ch 233]" "[]"]
    by blast
qed

lemma validators_get_None:
  assumes "enc_key (cstr name) \<notin> fst ` set all_validators"
  shows "validators_get name = None"
proof -
  have "enc_key (cstr (fst x)) \<noteq> enc_key (cstr name)" if "x \<in> set all_validators" for x
    using assms that all_validators_names [of "fst x"] by (metis imageI)
  then show ?thesis by (fastforce simp: validators_get_eq find_None_iff)
qed

text \<open>The validator of Windows-1254 is not in the table, so this encoding is not known to be compatible with ASCII.\<close>

theorem windows_1254_missing: "\<not> is_ascii_compatible ''windows-1254'' \<and> \<not> is_ascii_compatible ''cp1254''"
proof -
  have "enc_key (cstr ''windows-1254'') = ''windows1254''" "enc_key (cstr ''cp1254'') = ''cp1254''" by code_simp+
  moreover have "''windows1254'' \<notin> fst ` set all_validators" "''cp1254'' \<notin> fst ` set all_validators"
    unfolding all_validators_def by simp_all
  ultimately show ?thesis unfolding is_ascii_compatible_def using validators_get_None by metis
qed

end
