(* ===== verification/Json_Value.thy ===== *)
theory Json_Value
  imports Utf Util_Codec Http_Protocol
begin

text \<open>
  \<^verbatim>\<open>cppcms/json.h\<close>, the first half of \<^verbatim>\<open>src/json.cpp\<close> and \<^verbatim>\<open>cppcms/string_key.h\<close>: JSON values, access to members by path,
  and the writer.  A \<^verbatim>\<open>double\<close> is a value of the parameter type \<open>'n\<close>: the text of a number is made and read by the
  stream operators of the C++ library, which are arguments of the writer and of the parser.
\<close>

section \<open>Keys\<close>

text \<open>\<^verbatim>\<open>string_key\<close>: positions in a text, with \<open>None\<close> for \<^verbatim>\<open>npos\<close>.\<close>

function key_scan :: "char \<Rightarrow> string \<Rightarrow> nat \<Rightarrow> nat" where
  "key_scan c s pos = (if pos < length s \<and> s ! pos \<noteq> c then key_scan c s (pos + 1) else pos)"
  by auto
termination
  by (relation "measure (\<lambda>(_, s, pos). length s - pos)") auto

declare key_scan.simps [simp del]

definition key_find :: "string \<Rightarrow> char \<Rightarrow> nat \<Rightarrow> nat option" where
  "key_find s c pos =
     (if pos \<ge> length s then None
      else (let pos = key_scan c s pos in if pos \<ge> length s then None else Some pos))"

definition unowned_substr :: "string \<Rightarrow> nat \<Rightarrow> nat option \<Rightarrow> string" where
  "unowned_substr s pos n =
     (if pos \<ge> length s then []
      else (case n of None \<Rightarrow> drop pos s
        | Some n \<Rightarrow> if n > length s - pos then drop pos s else take n (drop pos s)))"

section \<open>Values\<close>

datatype 'n json =
    Jundefined
  | Jnull
  | Jboolean bool
  | Jnumber 'n
  | Jstring string
  | Jobject "(string \<times> 'n json) list"
  | Jarray "'n json list"

datatype json_type = Is_undefined | Is_null | Is_boolean | Is_number | Is_string | Is_object | Is_array

fun json_type_of :: "'n json \<Rightarrow> json_type" where
  "json_type_of Jundefined = Is_undefined"
| "json_type_of Jnull = Is_null"
| "json_type_of (Jboolean _) = Is_boolean"
| "json_type_of (Jnumber _) = Is_number"
| "json_type_of (Jstring _) = Is_string"
| "json_type_of (Jobject _) = Is_object"
| "json_type_of (Jarray _) = Is_array"

text \<open>\<^verbatim>\<open>bad_value_cast\<close> with what its message tells.\<close>

datatype json_error =
    Invalid_type json_type json_type
  | Invalid_path
  | Member_not_found string
  | Value_not_found string
  | Index_out_of_range
  | Undefined_value

text \<open>\<^verbatim>\<open>variant::get<T>\<close> for the types that can be fetched.\<close>

fun get_boolean :: "'n json \<Rightarrow> json_error + bool" where
  "get_boolean (Jboolean b) = Inr b"
| "get_boolean v = Inl (Invalid_type Is_boolean (json_type_of v))"

fun get_number :: "'n json \<Rightarrow> json_error + 'n" where
  "get_number (Jnumber x) = Inr x"
| "get_number v = Inl (Invalid_type Is_number (json_type_of v))"

fun get_str :: "'n json \<Rightarrow> json_error + string" where
  "get_str (Jstring s) = Inr s"
| "get_str v = Inl (Invalid_type Is_string (json_type_of v))"

fun get_object :: "'n json \<Rightarrow> json_error + (string, 'n json) smap" where
  "get_object (Jobject m) = Inr m"
| "get_object v = Inl (Invalid_type Is_object (json_type_of v))"

fun get_array :: "'n json \<Rightarrow> json_error + 'n json list" where
  "get_array (Jarray a) = Inr a"
| "get_array v = Inl (Invalid_type Is_array (json_type_of v))"

section \<open>Access by path\<close>

text \<open>The head of the three loops: the next dot and the part in front of it.\<close>

definition path_part :: "string \<Rightarrow> nat \<Rightarrow> string \<times> nat option" where
  "path_part path pos =
     (let new_pos = key_find path (CHR ''.'') pos
      in (unowned_substr path pos (map_option (\<lambda>n. n - pos) new_pos), map_option Suc new_pos))"

lemma key_scan_ge: "pos \<le> key_scan c s pos"
  by (induction c s pos rule: key_scan.induct) (subst key_scan.simps, auto)

lemma path_part_forward: "path_part path pos = (part, Some p) \<Longrightarrow> pos < p \<and> pos < length path"
  using key_scan_ge [of pos "CHR ''.''" path]
  by (auto simp: path_part_def Let_def key_find_def split: if_splits)

text \<open>\<^verbatim>\<open>find\<close>: an undefined value when there is nothing at the path.\<close>

function find_from :: "string \<Rightarrow> nat \<Rightarrow> 'n json \<Rightarrow> 'n json" where
  "find_from path pos ptr =
     (case path_part path pos of (part, new_pos) \<Rightarrow>
        if part = [] then Jundefined
        else (case ptr of
            Jobject m \<Rightarrow>
              (case smap_find m part of
                 None \<Rightarrow> Jundefined
               | Some p \<Rightarrow>
                   (case new_pos of
                      None \<Rightarrow> p
                    | Some q \<Rightarrow> if q < length path then find_from path q p else p))
          | _ \<Rightarrow> Jundefined))"
  by auto
termination
  by (relation "measure (\<lambda>(path, pos, _). length path - pos)") (auto dest: path_part_forward [OF sym])

definition json_find :: "string \<Rightarrow> 'n json \<Rightarrow> 'n json" where
  "json_find path v = find_from (cstr path) 0 v"

text \<open>The \<^verbatim>\<open>const\<close> variant of \<^verbatim>\<open>at\<close>.\<close>

definition json_at_const :: "string \<Rightarrow> 'n json \<Rightarrow> json_error + 'n json" where
  "json_at_const path v =
     (let r = json_find path v
      in if json_type_of r = Is_undefined then Inl (Value_not_found (cstr path)) else Inr r)"

text \<open>\<^verbatim>\<open>at\<close> as a reference for change: it differs in what it throws.\<close>

function at_from :: "string \<Rightarrow> nat \<Rightarrow> 'n json \<Rightarrow> json_error + 'n json" where
  "at_from path pos ptr =
     (case path_part path pos of (part, new_pos) \<Rightarrow>
        if part = [] then Inl Invalid_path
        else (case ptr of
            Jobject m \<Rightarrow>
              (case smap_find m part of
                 None \<Rightarrow> Inl (Member_not_found part)
               | Some p \<Rightarrow>
                   (case new_pos of
                      None \<Rightarrow> Inr p
                    | Some q \<Rightarrow> if q < length path then at_from path q p else Inr p))
          | _ \<Rightarrow> Inl (Invalid_type (json_type_of ptr) Is_object)))"
  by auto
termination
  by (relation "measure (\<lambda>(path, pos, _). length path - pos)") (auto dest: path_part_forward [OF sym])

definition json_at :: "string \<Rightarrow> 'n json \<Rightarrow> json_error + 'n json" where
  "json_at path v = at_from (cstr path) 0 v"

text \<open>
  \<^verbatim>\<open>at(path,v)\<close>: makes the objects on the way.  When a later part of the path is empty, the exception leaves the
  members that were made so far.
\<close>

function put_from :: "string \<Rightarrow> nat \<Rightarrow> 'n json \<Rightarrow> 'n json \<Rightarrow> json_error option \<times> 'n json" where
  "put_from path pos v ptr =
     (case path_part path pos of (part, new_pos) \<Rightarrow>
        if part = [] then (Some Invalid_path, ptr)
        else
          (let m = (case ptr of Jobject m \<Rightarrow> m | _ \<Rightarrow> []);
               old = (case smap_find m part of None \<Rightarrow> Jundefined | Some p \<Rightarrow> p);
               r = (case new_pos of
                      None \<Rightarrow> (None, v)
                    | Some q \<Rightarrow> if q < length path then put_from path q v old else (None, v))
           in (fst r, Jobject (smap_put part (snd r) m))))"
  by auto
termination
  by (relation "measure (\<lambda>(path, pos, _). length path - pos)") (auto dest: path_part_forward [OF sym])

declare find_from.simps [simp del] at_from.simps [simp del] put_from.simps [simp del]

definition json_at_put :: "string \<Rightarrow> 'n json \<Rightarrow> 'n json \<Rightarrow> json_error option \<times> 'n json" where
  "json_at_put path v ptr = put_from (cstr path) 0 v ptr"

text \<open>
  \<^verbatim>\<open>operator[]\<close>.  The variants for change make the value an object or an array and the slot; they are given as the
  changed value and the contents of the slot.
\<close>

definition index_name :: "string \<Rightarrow> 'n json \<Rightarrow> 'n json \<times> 'n json" where
  "index_name name v =
     (let self = (case v of Jobject m \<Rightarrow> m | _ \<Rightarrow> [])
      in case smap_find self name of
           None \<Rightarrow> (Jobject (smap_put name Jundefined self), Jundefined)
         | Some p \<Rightarrow> (Jobject self, p))"

definition index_name_const :: "string \<Rightarrow> 'n json \<Rightarrow> json_error + 'n json" where
  "index_name_const name v =
     (case v of
        Jobject m \<Rightarrow> (case smap_find m name of None \<Rightarrow> Inl (Member_not_found name) | Some p \<Rightarrow> Inr p)
      | _ \<Rightarrow> Inl (Invalid_type (json_type_of v) Is_object))"

definition index_number :: "nat \<Rightarrow> 'n json \<Rightarrow> 'n json \<times> 'n json" where
  "index_number n v =
     (let self = (case v of Jarray a \<Rightarrow> a | _ \<Rightarrow> []);
          self = (if n \<ge> length self then self @ replicate (n + 1 - length self) Jnull else self)
      in (Jarray self, self ! n))"

definition index_number_const :: "nat \<Rightarrow> 'n json \<Rightarrow> json_error + 'n json" where
  "index_number_const n v =
     (case v of
        Jarray a \<Rightarrow> if n \<ge> length a then Inl Index_out_of_range else Inr (a ! n)
      | _ \<Rightarrow> Inl (Invalid_type (json_type_of v) Is_array))"

section \<open>The writer\<close>

text \<open>\<^verbatim>\<open>generic_append\<close>: the runs of characters that need no escape are copied as they are.\<close>

definition json_addon :: "char \<Rightarrow> string option" where
  "json_addon c =
     (if uc c = 0x22 then Some [BSLASH, DQUOTE]
      else if uc c = 0x5C then Some [BSLASH, BSLASH]
      else if uc c = 0x08 then Some (BSLASH # ''b'')
      else if uc c = 0x0C then Some (BSLASH # ''f'')
      else if uc c = 0x0A then Some (BSLASH # ''n'')
      else if uc c = 0x0D then Some (BSLASH # ''r'')
      else if uc c = 0x09 then Some (BSLASH # ''t'')
      else if uc c \<le> 0x1F then Some (BSLASH # ''u00'' @ [hex_digits ! drop_bit 4 (uc c), hex_digits ! (uc c AND 0xF)])
      else None)"

fun append_loop :: "string \<Rightarrow> string \<Rightarrow> string \<Rightarrow> string" where
  "append_loop [] run out = out @ run"
| "append_loop (c # i) run out =
     (case json_addon c of
        Some addon \<Rightarrow> append_loop i [] (out @ run @ addon)
      | None \<Rightarrow> append_loop i (run @ [c]) out)"

definition to_json :: "string \<Rightarrow> string" where
  "to_json s = append_loop s [] [DQUOTE] @ [DQUOTE]"

definition json_pad :: "int \<Rightarrow> string" where
  "json_pad tb = replicate (nat tb) TAB"

text \<open>\<^verbatim>\<open>indent\<close>: what is written and the new indentation; a negative one asks for the compact form.\<close>

definition indent :: "char \<Rightarrow> int \<Rightarrow> string \<times> int" where
  "indent c tabs =
     (if tabs < 0 then ([c], tabs)
      else if c = CHR ''{'' \<or> c = CHR ''['' then ([c, LF] @ json_pad (tabs + 1), tabs + 1)
      else if c = CHR '','' then ([c, LF] @ json_pad tabs, tabs)
      else if c = CHR '':'' then ('' :'' @ [TAB], tabs)
      else if c = CHR ''}'' \<or> c = CHR '']'' then ([LF] @ json_pad (tabs - 1) @ [c, LF] @ json_pad (tabs - 1), tabs - 1)
      else ([], tabs))"

text \<open>Output up to the end or to the exception.\<close>

type_synonym json_written = "string \<times> json_error option"

definition then_write :: "json_written \<Rightarrow> json_written \<Rightarrow> json_written" where
  "then_write a b = (case snd a of Some _ \<Rightarrow> a | None \<Rightarrow> (fst a @ fst b, snd b))"

fun write_value :: "('n \<Rightarrow> string) \<Rightarrow> int \<Rightarrow> 'n json \<Rightarrow> json_written"
  and write_items :: "('n \<Rightarrow> string) \<Rightarrow> int \<Rightarrow> 'n json list \<Rightarrow> json_written"
  and write_members :: "('n \<Rightarrow> string) \<Rightarrow> int \<Rightarrow> (string \<times> 'n json) list \<Rightarrow> json_written" where
  "write_value pr tabs Jundefined = ([], Some Undefined_value)"
| "write_value pr tabs Jnull = (''null'', None)"
| "write_value pr tabs (Jnumber x) = (pr x, None)"
| "write_value pr tabs (Jstring s) = (to_json s, None)"
| "write_value pr tabs (Jboolean b) = (if b then ''true'' else ''false'', None)"
| "write_value pr tabs (Jarray a) =
     (case indent (CHR ''['') tabs of (open, tabs) \<Rightarrow>
        then_write (open, None) (then_write (write_items pr tabs a) (fst (indent (CHR '']'') tabs), None)))"
| "write_value pr tabs (Jobject m) =
     (case indent (CHR ''{'') tabs of (open, tabs) \<Rightarrow>
        then_write (open, None) (then_write (write_members pr tabs m) (fst (indent (CHR ''}'') tabs), None)))"
| "write_items pr tabs [] = ([], None)"
| "write_items pr tabs (v # a) =
     then_write (write_value pr tabs v)
       (if a \<noteq> [] then then_write (fst (indent (CHR '','') tabs), None) (write_items pr tabs a) else ([], None))"
| "write_members pr tabs [] = ([], None)"
| "write_members pr tabs ((k, v) # m) =
     then_write (to_json k @ fst (indent (CHR '':'') tabs), None)
       (then_write (write_value pr tabs v)
         (if m \<noteq> [] then then_write (fst (indent (CHR '','') tabs), None) (write_members pr tabs m) else ([], None)))"

text \<open>\<^verbatim>\<open>save\<close> to a string.\<close>

definition json_save :: "('n \<Rightarrow> string) \<Rightarrow> bool \<Rightarrow> 'n json \<Rightarrow> json_error + string" where
  "json_save pr readable v =
     (case write_value pr (if readable then 0 else -1) v of
        (s, None) \<Rightarrow> Inr s
      | (_, Some e) \<Rightarrow> Inl e)"

section \<open>Paths are lists of keys\<close>

lemma takeWhile_shorter: "length (takeWhile P s) < length s \<longleftrightarrow> (\<exists>x \<in> set s. \<not> P x)"
  by (induction s) auto

lemma key_scan_eq: "pos \<le> length s \<Longrightarrow> key_scan c s pos = pos + length (takeWhile (\<lambda>d. d \<noteq> c) (drop pos s))"
proof (induction c s pos rule: key_scan.induct)
  case (1 c s pos)
  show ?case
  proof (cases "pos < length s")
    case True
    then show ?thesis using 1 Cons_nth_drop_Suc [OF True] by (subst key_scan.simps) (auto simp flip: Cons_nth_drop_Suc)
  qed (use 1 in \<open>subst key_scan.simps, simp\<close>)
qed

lemma path_part_eq:
  assumes "pos < length path"
  shows "path_part path pos = (takeWhile (\<lambda>d. d \<noteq> CHR ''.'') (drop pos path),
    if CHR ''.'' \<in> set (drop pos path) then Some (Suc (pos + length (takeWhile (\<lambda>d. d \<noteq> CHR ''.'') (drop pos path)))) else None)"
proof -
  define w where "w = takeWhile (\<lambda>d. d \<noteq> CHR ''.'') (drop pos path)"
  have scan: "key_scan (CHR ''.'') path pos = pos + length w" using key_scan_eq assms by (simp add: w_def)
  have dot: "length w < length path - pos \<longleftrightarrow> CHR ''.'' \<in> set (drop pos path)"
    using takeWhile_shorter [of "\<lambda>d. d \<noteq> CHR ''.''" "drop pos path"] by (simp add: w_def)
  have len: "length w \<le> length path - pos" using length_takeWhile_le [of _ "drop pos path"] by (simp add: w_def)
  have w: "take (length w) (drop pos path) = w" unfolding w_def by (rule takeWhile_eq_take [symmetric])
  show ?thesis
  proof (cases "length w < length path - pos")
    case True
    then show ?thesis unfolding w_def [symmetric] using dot assms w
      by (simp add: path_part_def Let_def key_find_def scan unowned_substr_def)
  next
    case False
    then have "drop pos path = w" using w len by simp
    then show ?thesis unfolding w_def [symmetric] using dot assms False
      by (simp add: path_part_def Let_def key_find_def scan unowned_substr_def)
  qed
qed

text \<open>The keys of a path; none when a part is empty.  A dot at the end of the path is ignored.\<close>

function path_keys :: "string \<Rightarrow> string list option" where
  "path_keys s =
     (let part = takeWhile (\<lambda>d. d \<noteq> CHR ''.'') s; rest = drop (Suc (length part)) s
      in if part = [] then None
         else if rest \<noteq> [] then map_option (Cons part) (path_keys rest)
         else Some [part])"
  by auto
termination
  by (relation "measure length") auto

declare path_keys.simps [simp del]

fun walk :: "string list \<Rightarrow> 'n json \<Rightarrow> 'n json" where
  "walk [] v = v"
| "walk (k # ks) (Jobject m) = (case smap_find m k of None \<Rightarrow> Jundefined | Some p \<Rightarrow> walk ks p)"
| "walk (k # ks) _ = Jundefined"

fun put_keys :: "string list \<Rightarrow> 'n json \<Rightarrow> 'n json \<Rightarrow> 'n json" where
  "put_keys [] v ptr = v"
| "put_keys (k # ks) v ptr =
     (let m = (case ptr of Jobject m \<Rightarrow> m | _ \<Rightarrow> [])
      in Jobject (smap_put k (put_keys ks v (case smap_find m k of None \<Rightarrow> Jundefined | Some p \<Rightarrow> p)) m))"

lemma path_part_keys:
  assumes "pos < length path" "path_part path pos = (part, np)"
  shows "part = takeWhile (\<lambda>d. d \<noteq> CHR ''.'') (drop pos path)"
    "(case np of None \<Rightarrow> [] | Some q \<Rightarrow> drop q path) = drop (Suc (length part)) (drop pos path)"
    "(case np of None \<Rightarrow> False | Some q \<Rightarrow> q < length path) \<longleftrightarrow> drop (Suc (length part)) (drop pos path) \<noteq> []"
proof -
  have "length (takeWhile (\<lambda>d. d \<noteq> CHR ''.'') (drop pos path)) < length path - pos \<longleftrightarrow> CHR ''.'' \<in> set (drop pos path)"
    using takeWhile_shorter [of "\<lambda>d. d \<noteq> CHR ''.''" "drop pos path"] by simp
  then show "part = takeWhile (\<lambda>d. d \<noteq> CHR ''.'') (drop pos path)"
    "(case np of None \<Rightarrow> [] | Some q \<Rightarrow> drop q path) = drop (Suc (length part)) (drop pos path)"
    "(case np of None \<Rightarrow> False | Some q \<Rightarrow> q < length path) \<longleftrightarrow> drop (Suc (length part)) (drop pos path) \<noteq> []"
    using assms by (auto simp: path_part_eq add.commute split: if_splits)
qed

lemma path_part_end: "length path \<le> pos \<Longrightarrow> path_part path pos = ([], None)"
  by (simp add: path_part_def key_find_def unowned_substr_def)

text \<open>One round of the loops: the part is a key and either the loop goes on behind the dot or it ends.\<close>

definition goes_on :: "string \<Rightarrow> nat option \<Rightarrow> bool" where
  "goes_on path np \<longleftrightarrow> (case np of None \<Rightarrow> False | Some q \<Rightarrow> q < length path)"

lemma path_keys_step:
  assumes "path_part path pos = (part, np)"
  shows "path_keys (drop pos path) =
    (if part = [] then None
     else if goes_on path np then map_option (Cons part) (path_keys (drop (the np) path))
     else Some [part])"
proof (cases "pos < length path")
  case True
  note k = path_part_keys [OF True assms]
  have "goes_on path np \<Longrightarrow> drop (the np) path = drop (Suc (length part)) (drop pos path)"
    using k(2) by (auto simp: goes_on_def split: option.splits)
  then show ?thesis using k(1,3) by (subst path_keys.simps) (auto simp: Let_def goes_on_def split: option.splits)
next
  case False
  then show ?thesis using assms by (subst path_keys.simps) (simp add: path_part_end)
qed

lemma loops_step:
  fixes v w :: "'n json"
  assumes "path_part path pos = (part, np)" "part \<noteq> []"
  shows "find_from path pos v = (if goes_on path np then find_from path (the np) (walk [part] v) else walk [part] v)"
    and "put_from path pos w v =
      (let m = (case v of Jobject m \<Rightarrow> m | _ \<Rightarrow> []); old = (case smap_find m part of None \<Rightarrow> Jundefined | Some p \<Rightarrow> p);
           r = (if goes_on path np then put_from path (the np) w old else (None, w))
       in (fst r, Jobject (smap_put part (snd r) m)))"
proof -
  have u: "find_from path q (Jundefined :: 'n json) = Jundefined" for q
    by (subst find_from.simps) (simp split: prod.split)
  show "find_from path pos v = (if goes_on path np then find_from path (the np) (walk [part] v) else walk [part] v)"
    using assms u by (subst find_from.simps) (auto simp: goes_on_def split: json.split option.split)
  show "put_from path pos w v =
      (let m = (case v of Jobject m \<Rightarrow> m | _ \<Rightarrow> []); old = (case smap_find m part of None \<Rightarrow> Jundefined | Some p \<Rightarrow> p);
           r = (if goes_on path np then put_from path (the np) w old else (None, w))
       in (fst r, Jobject (smap_put part (snd r) m)))"
    using assms by (subst put_from.simps) (auto simp: goes_on_def Let_def split: option.split)
qed

lemma walk_Jundefined: "ks \<noteq> [] \<Longrightarrow> walk ks Jundefined = Jundefined"
  by (cases ks) simp_all

lemma walk_Cons: "walk (k # ks) v = walk ks (walk [k] v)"
  by (cases ks; cases v) (simp_all split: option.split)

lemma path_keys_ne: "path_keys s = Some ks \<Longrightarrow> ks \<noteq> []"
  by (subst (asm) path_keys.simps) (auto simp: Let_def split: if_splits)

lemma find_put_keys:
  "path_keys (drop pos path) = Some ks \<Longrightarrow> find_from path pos v = walk ks v \<and> put_from path pos w v = (None, put_keys ks w v)"
proof (induction ks arbitrary: pos v)
  case Nil
  then show ?case using path_keys_ne by blast
next
  case (Cons k ks)
  obtain part np where pp: "path_part path pos = (part, np)" by (cases "path_part path pos")
  note st = path_keys_step [OF pp]
  have ne: "part \<noteq> []" using st Cons.prems by auto
  show ?case
  proof (cases "goes_on path np")
    case True
    then have "path_keys (drop (the np) path) = Some ks" "part = k"
      using st ne Cons.prems by (cases "path_keys (drop (the np) path)", auto)+
    then show ?thesis using loops_step(1) [OF pp ne, of v] loops_step(2) [OF pp ne, of w v] True Cons.IH [of "the np" "walk [k] v"]
        Cons.IH [of "the np" "case smap_find (case v of Jobject m \<Rightarrow> m | _ \<Rightarrow> []) k of None \<Rightarrow> Jundefined | Some p \<Rightarrow> p"]
        walk_Cons [of k ks v] by (simp add: Let_def)
  next
    case False
    then have "ks = []" "part = k" using st ne Cons.prems by auto
    then show ?thesis using loops_step(1) [OF pp ne, of v] loops_step(2) [OF pp ne, of w v] False by (simp add: Let_def)
  qed
qed

lemma find_put_bad_path:
  "path_keys (drop pos path) = None \<Longrightarrow> find_from path pos v = Jundefined \<and> fst (put_from path pos w v) = Some Invalid_path"
proof (induction "length path - pos" arbitrary: pos v rule: less_induct)
  case less
  obtain part np where pp: "path_part path pos = (part, np)" by (cases "path_part path pos")
  note st = path_keys_step [OF pp]
  show ?case
  proof (cases "part = []")
    case True
    then show ?thesis using pp by (subst find_from.simps, subst put_from.simps) simp
  next
    case ne: False
    then have go: "goes_on path np" "path_keys (drop (the np) path) = None" using st less.prems by (auto split: if_splits)
    then obtain q where "np = Some q" by (auto simp: goes_on_def split: option.splits)
    then have "length path - the np < length path - pos" using path_part_forward [of path pos part q] pp by (simp add: diff_less_mono2)
    note IH = less.hyps [OF this go(2)]
    show ?thesis
      using IH [of "walk [part] v"] IH [of "case smap_find (case v of Jobject m \<Rightarrow> m | _ \<Rightarrow> []) part of None \<Rightarrow> Jundefined | Some p \<Rightarrow> p"]
        loops_step(1) [OF pp ne, of v] loops_step(2) [OF pp ne, of w v] go(1) by (simp add: Let_def)
  qed
qed

text \<open>The path of a list of keys.\<close>

fun join_path :: "string list \<Rightarrow> string" where
  "join_path [] = []"
| "join_path [k] = k"
| "join_path (k # ks) = k @ ''.'' @ join_path ks"

definition path_key :: "string \<Rightarrow> bool" where
  "path_key k \<longleftrightarrow> k \<noteq> [] \<and> CHR ''.'' \<notin> set k \<and> ch 0 \<notin> set k"

lemma join_path_ne: "list_all path_key ks \<Longrightarrow> ks \<noteq> [] \<Longrightarrow> join_path ks \<noteq> []"
  by (cases ks rule: join_path.cases) (auto simp: path_key_def)

lemma path_keys_join: "list_all path_key ks \<Longrightarrow> ks \<noteq> [] \<Longrightarrow> path_keys (join_path ks) = Some ks"
proof (induction ks rule: join_path.induct)
  case (2 k)
  then have tw: "takeWhile (\<lambda>d. d \<noteq> CHR ''.'') k = k" by (intro takeWhile_eq_all_conv [THEN iffD2]) (auto simp: path_key_def)
  show ?case using 2 by (subst path_keys.simps) (simp add: Let_def tw path_key_def)
next
  case (3 k k' ks)
  then have "takeWhile (\<lambda>d. d \<noteq> CHR ''.'') (k @ ''.'' @ join_path (k' # ks)) = k"
    by (subst takeWhile_append2) (auto simp: path_key_def)
  moreover have "join_path (k' # ks) \<noteq> []" using 3 by (intro join_path_ne) auto
  moreover have "k \<noteq> []" using 3 by (simp add: path_key_def)
  ultimately show ?case using 3 by (subst path_keys.simps) (simp add: Let_def)
qed simp

lemma cstr_join: "list_all path_key ks \<Longrightarrow> cstr (join_path ks) = join_path ks"
proof -
  have z: "CHR ''.'' \<noteq> ch 0" by code_simp
  assume "list_all path_key ks"
  then have "ch 0 \<notin> set (join_path ks)" using z by (induction ks rule: join_path.induct) (auto simp: path_key_def)
  then show ?thesis by (auto simp: cstr_def takeWhile_eq_all_conv)
qed

lemma walk_put_same: "walk ks (put_keys ks w v) = w"
  by (induction ks w v rule: put_keys.induct) (simp_all add: Let_def smap_find_put)

lemma walk_put_other:
  "\<not> prefix ks ks' \<Longrightarrow> \<not> prefix ks' ks \<Longrightarrow> walk ks' (put_keys ks w v) = walk ks' v"
proof (induction ks w v arbitrary: ks' rule: put_keys.induct)
  case (2 k ks w v)
  then obtain k' r where k': "ks' = k' # r" by (cases ks') auto
  let ?m = "case v of Jobject m \<Rightarrow> m | _ \<Rightarrow> []"
  let ?old = "case smap_find ?m k of None \<Rightarrow> Jundefined | Some p \<Rightarrow> p"
  have v: "walk (k' # r) v = (case smap_find ?m k' of None \<Rightarrow> Jundefined | Some p \<Rightarrow> walk r p)"
    by (cases v) simp_all
  show ?case
  proof (cases "k = k'")
    case True
    then have p: "\<not> prefix ks r" "\<not> prefix r ks" using "2.prems" k' by auto
    then have "r \<noteq> []" by auto
    then have "walk r ?old = (case smap_find ?m k of None \<Rightarrow> Jundefined | Some p \<Rightarrow> walk r p)"
      by (simp add: walk_Jundefined split: option.split)
    then show ?thesis using "2.IH" [OF refl p] True v by (simp add: k' Let_def smap_find_put)
  next
    case False
    then show ?thesis using v by (simp add: k' Let_def smap_find_put)
  qed
qed simp

text \<open>
  Access by path is lawful.  Setting a value at a path of keys, whatever the value was before, makes the path lead
  to the new value and leaves what every independent path leads to unchanged; a path with an empty part is refused by
  \<^verbatim>\<open>at\<close> with the exception and leads to nothing for \<^verbatim>\<open>find\<close>.
\<close>

theorem json_path_laws:
  assumes "list_all path_key ks" "ks \<noteq> []" "list_all path_key ks'" "ks' \<noteq> []"
    and "\<not> prefix ks ks'" "\<not> prefix ks' ks" "path_keys (cstr bad) = None"
  shows "\<exists>v'. json_at_put (join_path ks) w v = (None, v') \<and> json_find (join_path ks) v' = w
    \<and> json_find (join_path ks') v' = json_find (join_path ks') v
    \<and> fst (json_at_put bad w v) = Some Invalid_path \<and> json_find bad v = Jundefined"
proof -
  have f: "json_find (join_path l) u = walk l u \<and> json_at_put (join_path l) w u = (None, put_keys l w u)"
    if "list_all path_key l" "l \<noteq> []" for l u
    using find_put_keys [of 0 "join_path l" l u w] path_keys_join [OF that] cstr_join [OF that(1)]
    by (simp add: json_find_def json_at_put_def)
  show ?thesis
    using f [OF assms(1,2)] f [OF assms(3,4)] walk_put_other [OF assms(5,6), of w v] find_put_bad_path [of 0 "cstr bad" v w] assms(7)
    by (simp add: walk_put_same json_find_def json_at_put_def)
qed

theorem json_path_laws_witness:
  "\<exists>v'. json_at_put ''db.host'' (Jstring ''localhost'') (Jobject [(''db'', Jobject [(''port'', Jnumber 5)])]) = (None, v')
    \<and> json_find ''db.host'' v' = Jstring ''localhost'' \<and> json_find ''db.port'' v' = Jnumber (5::int)
    \<and> fst (json_at_put ''db..x'' (Jstring ''localhost'') (Jobject [(''db'', Jobject [(''port'', Jnumber (5::int))])])) = Some Invalid_path"
proof -
  have "list_all path_key [''db'', ''host'']" "list_all path_key [''db'', ''port'']" "path_keys (cstr ''db..x'') = None"
    "json_find ''db.port'' (Jobject [(''db'', Jobject [(''port'', Jnumber (5::int))])]) = Jnumber 5" by code_simp+
  then show ?thesis
    using json_path_laws [of "[''db'', ''host'']" "[''db'', ''port'']" "''db..x''" "Jstring ''localhost''"
        "Jobject [(''db'', Jobject [(''port'', Jnumber (5::int))])]"] by auto
qed

end
