(* ===== verification/Json_Parser.thy ===== *)
theory Json_Parser
  imports Json_Value Decimal
begin

text \<open>
  The second half of \<^verbatim>\<open>src/json.cpp\<close>: the tokenizer and the parser, a loop over tokens with a stack of open values
  instead of recursion, and a limit on the depth of that stack.  A pointer to a value that is being filled is the
  list of the steps that lead to it from the result.
\<close>

section \<open>The tokenizer\<close>

text \<open>
  \<^verbatim>\<open>is_ >> real\<close> on a text that starts with a digit or a minus sign: the number, if the field is one, and how many
  characters behind the first one the stream took.
\<close>

type_synonym 'n number_reader = "string \<Rightarrow> 'n option \<times> nat"

datatype 'n tock =
    Tock_char char
  | Tock_eof
  | Tock_err
  | Tock_str string
  | Tock_number 'n
  | Tock_true
  | Tock_false
  | Tock_null

text \<open>\<^verbatim>\<open>check\<close>: also the first character that differs is taken.\<close>

fun check :: "string \<Rightarrow> string \<Rightarrow> bool \<times> string" where
  "check [] buf = (True, buf)"
| "check (s # ss) [] = (False, [])"
| "check (s # ss) (c # buf) = (if c = s then check ss buf else (False, buf))"

text \<open>\<^verbatim>\<open>is_.get(buf,5)\<close> stops in front of a line feed; \<^verbatim>\<open>sscanf\<close> then reads the four digits.\<close>

definition read_4_digits :: "string \<Rightarrow> 16 word option \<times> string" where
  "read_4_digits s =
     (let buf = takeWhile (\<lambda>c. c \<noteq> LF) (take 4 s) in
      (if length buf = 4 \<and> list_all xdigit buf
       then Some (of_nat (foldl (\<lambda>n c. 16 * n + xdigit_value c) 0 buf)) else None,
       drop (length buf) s))"

text \<open>
  The loop of \<^verbatim>\<open>parse_string\<close> behind the opening quote: the first surrogate that waits for the second one, and the
  text so far.
\<close>

definition escape_of :: "char \<Rightarrow> char option" where
  "escape_of c =
     (if c = DQUOTE \<or> c = BSLASH \<or> c = CHR ''/'' then Some c
      else if c = CHR ''b'' then Some (CHR 0x08)
      else if c = CHR ''f'' then Some (CHR 0x0C)
      else if c = CHR ''n'' then Some LF
      else if c = CHR ''r'' then Some CR
      else if c = CHR ''t'' then Some TAB
      else None)"

text \<open>A round of the loop returns, or goes on with the rest.\<close>

definition string_escape :: "16 word option \<Rightarrow> string \<Rightarrow> char \<Rightarrow> string
    \<Rightarrow> (string option \<times> string) + (16 word option \<times> string \<times> string)" where
  "string_escape first str c buf =
     (if first \<noteq> None \<and> c \<noteq> CHR ''u'' then Inl (None, buf)
      else if c = CHR ''u'' then
        (case read_4_digits buf of (x, r) \<Rightarrow>
           (case x of
              None \<Rightarrow> Inl (None, r)
            | Some x \<Rightarrow>
                (case first of
                   Some w1 \<Rightarrow>
                     if \<not> is_second_surrogate x then Inl (None, r)
                     else Inr (None, str @ utf8_encode (combine_surrogate w1 x), r)
                 | None \<Rightarrow>
                     if is_first_surrogate x then Inr (Some x, str, r)
                     else Inr (None, str @ utf8_encode (ucast x), r))))
      else
        (case escape_of c of
           Some e \<Rightarrow> Inr (first, str @ [e], buf)
         | None \<Rightarrow> Inl (None, buf)))"

definition string_round :: "16 word option \<Rightarrow> string \<Rightarrow> char \<Rightarrow> string
    \<Rightarrow> (string option \<times> string) + (16 word option \<times> string \<times> string)" where
  "string_round first str c buf =
     (if first \<noteq> None \<and> c \<noteq> BSLASH then Inl (None, buf)
      else if uc c \<le> 0x1F then Inl (None, buf)
      else if c = DQUOTE then Inl (if utf8_validate str False then Some str else None, buf)
      else if c = BSLASH then (case buf of [] \<Rightarrow> Inl (None, []) | d # r \<Rightarrow> string_escape first str d r)
      else Inr (first, str @ [c], buf))"

lemma read_4_digits_length: "read_4_digits s = (x, r) \<Longrightarrow> length r \<le> length s"
  by (auto simp: read_4_digits_def Let_def)

lemma string_escape_length:
  "string_escape first str c buf = Inl (x, r) \<Longrightarrow> length r \<le> length buf"
  "string_escape first str c buf = Inr (f, s, r) \<Longrightarrow> length r \<le> length buf"
  unfolding string_escape_def
  by (auto split: prod.splits option.splits if_splits dest!: read_4_digits_length)

lemma string_round_length:
  "string_round first str c buf = Inl (x, r) \<Longrightarrow> length r \<le> length buf"
  "string_round first str c buf = Inr (f, s, r) \<Longrightarrow> length r \<le> length buf"
  unfolding string_round_def
  by (auto split: list.splits if_splits dest!: string_escape_length)

function string_loop :: "16 word option \<Rightarrow> string \<Rightarrow> string \<Rightarrow> string option \<times> string" where
  "string_loop first str [] = (None, [])"
| "string_loop first str (c # buf) =
     (case string_round first str c buf of Inl r \<Rightarrow> r | Inr (f, s, r) \<Rightarrow> string_loop f s r)"
  by pat_completeness auto
termination
  by (relation "measure (\<lambda>(_, _, buf). length buf)") (auto dest!: string_round_length(2))

definition parse_string :: "string \<Rightarrow> string option \<times> string" where
  "parse_string s =
     (case s of
        [] \<Rightarrow> (None, [])
      | c # buf \<Rightarrow> if c \<noteq> DQUOTE then (None, buf) else string_loop None [] buf)"

definition parse_number :: "'n number_reader \<Rightarrow> string \<Rightarrow> 'n option \<times> string" where
  "parse_number rd s = (case rd s of (r, k) \<Rightarrow> (r, drop (Suc k) s))"

lemma check_length: "check s buf = (b, r) \<Longrightarrow> length r \<le> length buf"
  by (induction s buf rule: check.induct) (auto split: if_splits)

text \<open>\<^verbatim>\<open>next\<close>: a round returns the token, the rest of the stream and the line, or goes on with the rest.\<close>

definition literal :: "string \<Rightarrow> 'n tock \<Rightarrow> string \<Rightarrow> nat \<Rightarrow> 'n tock \<times> string \<times> nat" where
  "literal s t buf line = (case check s buf of (ok, r) \<Rightarrow> (if ok then t else Tock_err, r, line))"

definition tock_round :: "'n number_reader \<Rightarrow> char \<Rightarrow> string \<Rightarrow> nat \<Rightarrow> ('n tock \<times> string \<times> nat) + (string \<times> nat)" where
  "tock_round rd c buf line =
     (if c \<in> set ''[{:,}]'' then Inl (Tock_char c, buf, line)
      else if c = CHR '' '' \<or> c = TAB \<or> c = CR then Inr (buf, line)
      else if c = LF then Inr (buf, line + 1)
      else if c = DQUOTE then
        Inl (case parse_string (c # buf) of (x, r) \<Rightarrow> (case x of Some s \<Rightarrow> Tock_str s | None \<Rightarrow> Tock_err, r, line))
      else if c = CHR ''t'' then Inl (literal ''rue'' Tock_true buf line)
      else if c = CHR ''n'' then Inl (literal ''ull'' Tock_null buf line)
      else if c = CHR ''f'' then Inl (literal ''alse'' Tock_false buf line)
      else if c = CHR ''-'' \<or> is_digit c then
        Inl (case parse_number rd (c # buf) of (x, r) \<Rightarrow> (case x of Some d \<Rightarrow> Tock_number d | None \<Rightarrow> Tock_err, r, line))
      else if c = CHR ''/'' then
        (case check ''/'' buf of (ok, r) \<Rightarrow>
           if ok then
             (case dropWhile (\<lambda>c. c \<noteq> LF) r of [] \<Rightarrow> Inl (Tock_eof, [], line) | _ # q \<Rightarrow> Inr (q, line))
           else Inl (Tock_err, r, line))
      else Inl (Tock_err, buf, line))"

lemma comment_length: "dropWhile P r = x # q \<Longrightarrow> length q < length r"
  using length_dropWhile_le [of P r] by simp

lemma string_loop_length: "string_loop first str buf = (x, r) \<Longrightarrow> length r \<le> length buf"
proof (induction first str buf rule: string_loop.induct)
  case (2 first str c buf)
  show ?case
  proof (cases "string_round first str c buf")
    case (Inl a)
    then show ?thesis using "2.prems" string_round_length(1) [of first str c buf x r] by simp
  next
    case (Inr y)
    obtain f s q where y: "y = (f, s, q)" by (cases y)
    then have "length q \<le> length buf" using string_round_length(2) Inr by blast
    then show ?thesis using "2.IH" [OF Inr y [symmetric] refl] "2.prems" Inr y by simp
  qed
qed simp

lemma parse_string_length: "parse_string (c # buf) = (x, r) \<Longrightarrow> length r \<le> length buf"
  by (auto simp: parse_string_def split: if_splits dest!: string_loop_length)

lemma parse_number_length: "parse_number rd (c # buf) = (x, r) \<Longrightarrow> length r \<le> length buf"
  by (auto simp: parse_number_def split: prod.splits)

lemma literal_length: "literal s t buf line = (c, r, l) \<Longrightarrow> length r \<le> length buf"
  by (auto simp: literal_def split: prod.splits dest!: check_length)

lemma tock_round_length:
  "tock_round rd c buf line = Inl (t, r, l) \<Longrightarrow> length r \<le> length buf"
  "tock_round rd c buf line = Inr (r, l) \<Longrightarrow> length r \<le> length buf"
  unfolding tock_round_def
  by (auto split: prod.splits if_splits list.splits
      dest!: check_length parse_string_length parse_number_length literal_length comment_length)

function tock_next :: "'n number_reader \<Rightarrow> string \<Rightarrow> nat \<Rightarrow> 'n tock \<times> string \<times> nat" where
  "tock_next rd [] line = (Tock_eof, [], line)"
| "tock_next rd (c # buf) line =
     (case tock_round rd c buf line of Inl r \<Rightarrow> r | Inr (r, l) \<Rightarrow> tock_next rd r l)"
  by pat_completeness auto
termination
  by (relation "measure (\<lambda>(_, buf, _). length buf)") (auto dest!: tock_round_length(2))

lemma tock_next_length:
  "tock_next rd buf line = (c, r, l) \<Longrightarrow> if buf = [] then c = Tock_eof \<and> r = [] else length r < length buf"
proof (induction rd buf line rule: tock_next.induct)
  case (2 rd d buf line)
  show ?case
  proof (cases "tock_round rd d buf line")
    case (Inl a)
    then show ?thesis using "2.prems" tock_round_length(1) [of rd d buf line c r l] by simp
  next
    case (Inr y)
    obtain q m where y: "y = (q, m)" by (cases y)
    then have "length q \<le> length buf" using tock_round_length(2) Inr by blast
    then show ?thesis using "2.IH" [OF Inr y [symmetric]] "2.prems" Inr y by (auto split: if_splits)
  qed
qed simp

section \<open>The parser\<close>

datatype state_type =
    St_object_or_array_or_value_expected
  | St_object_key_or_close_expected
  | St_object_colon_expected
  | St_object_value_expected
  | St_object_close_or_comma_expected
  | St_array_value_or_close_expected
  | St_array_close_or_comma_expected
  | St_error
  | St_done

datatype json_step = Member string | Element nat

type_synonym json_ref = "json_step list"

text \<open>The value at a reference, and a change of it.\<close>

fun deref :: "'n json \<Rightarrow> json_ref \<Rightarrow> 'n json" where
  "deref v [] = v"
| "deref (Jobject m) (Member k # p) = (case smap_find m k of Some v \<Rightarrow> deref v p | None \<Rightarrow> Jundefined)"
| "deref (Jarray a) (Element i # p) = (if i < length a then deref (a ! i) p else Jundefined)"
| "deref _ _ = Jundefined"

fun assign :: "'n json \<Rightarrow> json_ref \<Rightarrow> ('n json \<Rightarrow> 'n json) \<Rightarrow> 'n json" where
  "assign v [] f = f v"
| "assign (Jobject m) (Member k # p) f =
     (case smap_find m k of Some v \<Rightarrow> Jobject (smap_put k (assign v p f) m) | None \<Rightarrow> Jobject m)"
| "assign (Jarray a) (Element i # p) f = (if i < length a then Jarray (a[i := assign (a ! i) p f]) else Jarray a)"
| "assign v _ _ = v"

record 'n json_parser =
  ps_result :: "'n json"
  ps_state :: state_type
  ps_key :: string
  ps_stack :: "(state_type \<times> json_ref) list"

definition json_parser_new :: "'n json_parser" where
  "json_parser_new = \<lparr>ps_result = Jundefined, ps_state = St_object_or_array_or_value_expected, ps_key = [],
     ps_stack = [(St_done, [])]\<rparr>"

text \<open>The five tokens that are values.\<close>

fun tock_value :: "'n tock \<Rightarrow> 'n json option" where
  "tock_value (Tock_str s) = Some (Jstring s)"
| "tock_value Tock_true = Some (Jboolean True)"
| "tock_value Tock_false = Some (Jboolean False)"
| "tock_value Tock_null = Some Jnull"
| "tock_value (Tock_number x) = Some (Jnumber x)"
| "tock_value _ = None"

text \<open>
  A value below the top of the stack, at \<open>ref\<close>, after which the parser is to be in state \<open>after\<close>: a scalar is stored, an
  array or an object is made and pushed, anything else is an error.
\<close>

definition member_value :: "'n tock \<Rightarrow> json_ref \<Rightarrow> state_type \<Rightarrow> 'n json_parser \<Rightarrow> 'n json_parser" where
  "member_value c ref after p =
     (case tock_value c of
        Some v \<Rightarrow> p\<lparr>ps_result := assign (ps_result p) ref (\<lambda>_. v), ps_state := after\<rparr>
      | None \<Rightarrow>
          if c = Tock_char (CHR ''['') then
            p\<lparr>ps_result := assign (ps_result p) ref (\<lambda>_. Jarray []), ps_state := St_array_value_or_close_expected,
              ps_stack := (after, ref) # ps_stack p\<rparr>
          else if c = Tock_char (CHR ''{'') then
            p\<lparr>ps_result := assign (ps_result p) ref (\<lambda>_. Jobject []), ps_state := St_object_key_or_close_expected,
              ps_stack := (after, ref) # ps_stack p\<rparr>
          else p\<lparr>ps_state := St_error\<rparr>)"

text \<open>
  One round of the loop: the switch over the state, with \<open>Inl\<close> for the exception of \<^verbatim>\<open>object()\<close> and \<^verbatim>\<open>array()\<close> on a value of
  another type.  The stack is not empty here.
\<close>

definition json_step :: "'n tock \<Rightarrow> 'n json_parser \<Rightarrow> json_error + 'n json_parser" where
  "json_step c p =
     (let top = hd (ps_stack p);
          pop = p\<lparr>ps_state := fst top, ps_stack := tl (ps_stack p)\<rparr>;
          err = p\<lparr>ps_state := St_error\<rparr>
      in case ps_state p of
        St_object_or_array_or_value_expected \<Rightarrow>
          Inr (if c = Tock_char (CHR ''['') then
                 p\<lparr>ps_result := assign (ps_result p) (snd top) (\<lambda>_. Jarray []), ps_state := St_array_value_or_close_expected\<rparr>
               else if c = Tock_char (CHR ''{'') then
                 p\<lparr>ps_result := assign (ps_result p) (snd top) (\<lambda>_. Jobject []), ps_state := St_object_key_or_close_expected\<rparr>
               else (case tock_value c of
                   Some v \<Rightarrow> pop\<lparr>ps_result := assign (ps_result p) (snd top) (\<lambda>_. v)\<rparr>
                 | None \<Rightarrow> err))
      | St_object_key_or_close_expected \<Rightarrow>
          Inr (if c = Tock_char (CHR ''}'') then pop
               else (case c of Tock_str s \<Rightarrow> p\<lparr>ps_key := s, ps_state := St_object_colon_expected\<rparr> | _ \<Rightarrow> err))
      | St_object_colon_expected \<Rightarrow>
          Inr (if c \<noteq> Tock_char (CHR '':'') then err else p\<lparr>ps_state := St_object_value_expected\<rparr>)
      | St_object_value_expected \<Rightarrow>
          (case get_object (deref (ps_result p) (snd top)) of
             Inl e \<Rightarrow> Inl e
           | Inr obj \<Rightarrow>
               Inr (if smap_find obj (ps_key p) \<noteq> None then err
                    else member_value c (snd top @ [Member (ps_key p)]) St_object_close_or_comma_expected
                      (p\<lparr>ps_result := assign (ps_result p) (snd top) (\<lambda>_. Jobject (smap_put (ps_key p) Jundefined obj))\<rparr>)))
      | St_object_close_or_comma_expected \<Rightarrow>
          Inr (if c = Tock_char (CHR '','') then p\<lparr>ps_state := St_object_key_or_close_expected\<rparr>
               else if c = Tock_char (CHR ''}'') then pop else err)
      | St_array_value_or_close_expected \<Rightarrow>
          if c = Tock_char (CHR '']'') then Inr pop
          else (case get_array (deref (ps_result p) (snd top)) of
             Inl e \<Rightarrow> Inl e
           | Inr ar \<Rightarrow>
               Inr (member_value c (snd top @ [Element (length ar)]) St_array_close_or_comma_expected
                      (p\<lparr>ps_result := assign (ps_result p) (snd top) (\<lambda>_. Jarray (ar @ [Jundefined]))\<rparr>)))
      | St_array_close_or_comma_expected \<Rightarrow>
          Inr (if c = Tock_char (CHR '']'') then pop
               else if c = Tock_char (CHR '','') then p\<lparr>ps_state := St_array_value_or_close_expected\<rparr> else err)
      | St_done \<Rightarrow> Inr p
      | St_error \<Rightarrow> Inr p)"

definition json_max_depth :: nat where
  "json_max_depth = 512"

definition runs :: "'n json_parser \<Rightarrow> bool" where
  "runs p \<longleftrightarrow> ps_stack p \<noteq> [] \<and> ps_state p \<noteq> St_error \<and> ps_state p \<noteq> St_done \<and> length (ps_stack p) \<le> json_max_depth"

lemma runs_step_eof: "runs p \<Longrightarrow> json_step Tock_eof p = Inr p' \<Longrightarrow> \<not> runs p'"
  by (cases "ps_state p")
    (auto simp: json_step_def runs_def member_value_def Let_def split: if_splits sum.splits)

text \<open>The loop of \<^verbatim>\<open>parse_stream\<close>.  It ends: a token takes at least one character, and at the end of the input every state
  is left for the error state.\<close>

function json_loop :: "'n number_reader \<Rightarrow> 'n json_parser \<Rightarrow> string \<Rightarrow> nat \<Rightarrow> json_error + ('n json_parser \<times> string \<times> nat)" where
  "json_loop rd p buf line =
     (if runs p then
        (case tock_next rd buf line of (c, r, l) \<Rightarrow>
           (case json_step c p of Inl e \<Rightarrow> Inl e | Inr p' \<Rightarrow> json_loop rd p' r l))
      else Inr (p, buf, line))"
  by auto
termination
  by (relation "measure (\<lambda>(_, p, buf, _). length buf + of_bool (runs p))")
    (auto dest!: tock_next_length [OF sym] dest: runs_step_eof split: if_splits)

declare json_loop.simps [simp del]

text \<open>
  \<^verbatim>\<open>parse_stream\<close>: the value or nothing, the rest of the stream and the line; only a value that was read completely
  replaces the old one.
\<close>

definition parse_stream :: "'n number_reader \<Rightarrow> string \<Rightarrow> bool \<Rightarrow> json_error + ('n json option \<times> string \<times> nat)" where
  "parse_stream rd buf force_eof =
     (case json_loop rd json_parser_new buf 1 of
        Inl e \<Rightarrow> Inl e
      | Inr (p, r, l) \<Rightarrow>
          Inr (if ps_state p = St_done then
                 (if force_eof then
                    (case tock_next rd r l of (c, r', l') \<Rightarrow>
                       (case c of Tock_eof \<Rightarrow> Some (ps_result p) | _ \<Rightarrow> None, r', l'))
                  else (Some (ps_result p), r, l))
               else (None, r, l)))"

text \<open>\<^verbatim>\<open>load\<close>: whether it worked, the new value and the line number of an error.\<close>

definition json_load :: "'n number_reader \<Rightarrow> string \<Rightarrow> bool \<Rightarrow> 'n json \<Rightarrow> json_error + (bool \<times> 'n json \<times> nat option)" where
  "json_load rd buf full v =
     (case parse_stream rd buf full of
        Inl e \<Rightarrow> Inl e
      | Inr (Some w, _, _) \<Rightarrow> Inr (True, w, None)
      | Inr (None, _, l) \<Rightarrow> Inr (False, v, Some l))"

end
