(* ===== verification/Json_Correct.thy ===== *)
theory Json_Correct
  imports Json_Parser
begin

text \<open>
  What the JSON parser and writer do together: a value that was written, in the compact or in the readable form, is read
  back; the parser never meets a value of an unexpected type; what it returns is well formed and can be written again;
  and exactly the values up to the depth limit are accepted.
\<close>

section \<open>References\<close>

fun valid_ref :: "'n json \<Rightarrow> json_ref \<Rightarrow> bool" where
  "valid_ref v [] = True"
| "valid_ref (Jobject m) (Member k # p) = (case smap_find m k of Some v \<Rightarrow> valid_ref v p | None \<Rightarrow> False)"
| "valid_ref (Jarray a) (Element i # p) = (i < length a \<and> valid_ref (a ! i) p)"
| "valid_ref _ _ = False"

lemma deref_assign: "valid_ref v ref \<Longrightarrow> deref (assign v ref f) ref = f (deref v ref)"
  by (induction v ref rule: valid_ref.induct) (auto simp: smap_find_put split: option.splits)

lemma valid_ref_assign: "valid_ref v ref \<Longrightarrow> valid_ref (assign v ref f) ref"
  by (induction v ref rule: valid_ref.induct) (auto simp: smap_find_put split: option.splits)

lemma assign_assign: "valid_ref v ref \<Longrightarrow> assign (assign v ref f) ref g = assign v ref (\<lambda>u. g (f u))"
  by (induction v ref rule: valid_ref.induct) (auto simp: smap_find_put smap_put_put split: option.splits)

lemma assign_append: "assign v (ref @ ref') f = assign v ref (\<lambda>u. assign u ref' f)"
  by (induction v ref f rule: assign.induct) (auto split: option.split)

lemma valid_ref_append: "valid_ref v (ref @ ref') \<longleftrightarrow> valid_ref v ref \<and> valid_ref (deref v ref) ref'"
  by (induction v ref rule: valid_ref.induct) (auto split: option.split)

lemma assign_here: "valid_ref v ref \<Longrightarrow> assign v ref f = assign v ref (\<lambda>_. f (deref v ref))"
  by (induction v ref rule: valid_ref.induct) (auto split: option.splits)

section \<open>The tokens of a value\<close>

fun tocks_of :: "'n json \<Rightarrow> 'n tock list"
  and tocks_items :: "'n json list \<Rightarrow> 'n tock list"
  and tocks_members :: "(string \<times> 'n json) list \<Rightarrow> 'n tock list" where
  "tocks_of Jundefined = []"
| "tocks_of Jnull = [Tock_null]"
| "tocks_of (Jnumber x) = [Tock_number x]"
| "tocks_of (Jstring s) = [Tock_str s]"
| "tocks_of (Jboolean b) = [if b then Tock_true else Tock_false]"
| "tocks_of (Jarray a) = Tock_char (CHR ''['') # tocks_items a @ [Tock_char (CHR '']'')]"
| "tocks_of (Jobject m) = Tock_char (CHR ''{'') # tocks_members m @ [Tock_char (CHR ''}'')]"
| "tocks_items [] = []"
| "tocks_items (v # a) = tocks_of v @ (if a \<noteq> [] then Tock_char (CHR '','') # tocks_items a else [])"
| "tocks_members [] = []"
| "tocks_members ((k, v) # m) =
     Tock_str k # Tock_char (CHR '':'') # tocks_of v @ (if m \<noteq> [] then Tock_char (CHR '','') # tocks_members m else [])"

text \<open>Depth, and the values without undefined parts whose objects are sorted and whose strings are valid UTF-8.\<close>

fun json_depth :: "'n json \<Rightarrow> nat"
  and items_depth :: "'n json list \<Rightarrow> nat"
  and members_depth :: "(string \<times> 'n json) list \<Rightarrow> nat" where
  "json_depth (Jarray a) = Suc (items_depth a)"
| "json_depth (Jobject m) = Suc (members_depth m)"
| "json_depth _ = 0"
| "items_depth [] = 0"
| "items_depth (v # a) = max (json_depth v) (items_depth a)"
| "members_depth [] = 0"
| "members_depth ((k, v) # m) = max (json_depth v) (members_depth m)"

fun json_wf :: "'n json \<Rightarrow> bool"
  and items_wf :: "'n json list \<Rightarrow> bool"
  and members_wf :: "(string \<times> 'n json) list \<Rightarrow> bool" where
  "json_wf Jundefined = False"
| "json_wf (Jstring s) = utf8_validate s False"
| "json_wf (Jarray a) = items_wf a"
| "json_wf (Jobject m) = (smap_ok m \<and> members_wf m)"
| "json_wf _ = True"
| "items_wf [] = True"
| "items_wf (v # a) = (json_wf v \<and> items_wf a)"
| "members_wf [] = True"
| "members_wf ((k, v) # m) = (utf8_validate k False \<and> json_wf v \<and> members_wf m)"

section \<open>The parser on the tokens of a value\<close>

fun run_ok :: "'n tock list \<Rightarrow> 'n json_parser \<Rightarrow> 'n json_parser option" where
  "run_ok [] p = Some p"
| "run_ok (t # ts) p = (if runs p then (case json_step t p of Inl _ \<Rightarrow> None | Inr p' \<Rightarrow> run_ok ts p') else None)"

lemma run_ok_append: "run_ok (a @ b) p = Option.bind (run_ok a p) (run_ok b)"
  by (induction a p rule: run_ok.induct) (auto split: sum.split)

lemma tocks_of_cases:
  "json_wf v \<Longrightarrow> tocks_of v \<noteq> [] \<and> hd (tocks_of v) \<noteq> Tock_char (CHR '']'')
    \<and> (\<forall>w. tock_value (hd (tocks_of v)) = Some w \<longrightarrow> v = w \<and> tl (tocks_of v) = [])"
  by (cases v) auto

text \<open>
  The three statements of the induction.  A value below the top of the stack is stored and the parser goes on in the
  state \<open>after\<close>; the rest of an array or an object is added to what is there and the container is closed.
\<close>

definition reads_value :: "'n json \<Rightarrow> bool" where
  "reads_value v \<longleftrightarrow> (\<forall>p ref after.
     valid_ref (ps_result p) ref \<and> length (ps_stack p) + json_depth v \<le> json_max_depth \<and> ps_stack p \<noteq> []
     \<longrightarrow> (\<exists>k. run_ok (tl (tocks_of v)) (member_value (hd (tocks_of v)) ref after p)
           = Some (p\<lparr>ps_result := assign (ps_result p) ref (\<lambda>_. v), ps_state := after, ps_key := k\<rparr>)))"

definition reads_items :: "'n json list \<Rightarrow> bool" where
  "reads_items a \<longleftrightarrow> (\<forall>p ref after S xs R.
     ps_stack p = (after, ref) # S \<and> ps_state p = St_array_value_or_close_expected
     \<and> valid_ref R ref \<and> ps_result p = assign R ref (\<lambda>_. Jarray xs) \<and> Suc (length S) + items_depth a \<le> json_max_depth
     \<longrightarrow> (\<exists>k. run_ok (tocks_items a @ [Tock_char (CHR '']'')]) p
           = Some (p\<lparr>ps_result := assign R ref (\<lambda>_. Jarray (xs @ a)), ps_state := after, ps_stack := S, ps_key := k\<rparr>)))"

definition reads_members :: "(string \<times> 'n json) list \<Rightarrow> bool" where
  "reads_members m \<longleftrightarrow> (\<forall>p ref after S xs R.
     ps_stack p = (after, ref) # S \<and> ps_state p = St_object_key_or_close_expected
     \<and> valid_ref R ref \<and> ps_result p = assign R ref (\<lambda>_. Jobject xs) \<and> smap_ok (xs @ m)
     \<and> Suc (length S) + members_depth m \<le> json_max_depth
     \<longrightarrow> (\<exists>k. run_ok (tocks_members m @ [Tock_char (CHR ''}'')]) p
           = Some (p\<lparr>ps_result := assign R ref (\<lambda>_. Jobject (xs @ m)), ps_state := after, ps_stack := S, ps_key := k\<rparr>)))"

lemma reads_scalar:
  assumes "tock_value (hd (tocks_of v)) = Some v" "tl (tocks_of v) = []"
  shows "reads_value v"
  unfolding reads_value_def
proof (intro allI impI)
  fix p :: "'a json_parser" and ref after
  show "\<exists>k. run_ok (tl (tocks_of v)) (member_value (hd (tocks_of v)) ref after p)
      = Some (p\<lparr>ps_result := assign (ps_result p) ref (\<lambda>_. v), ps_state := after, ps_key := k\<rparr>)"
    using assms by (intro exI [of _ "ps_key p"]) (cases p, simp add: member_value_def)
qed

lemma reads_array:
  assumes "reads_items a"
  shows "reads_value (Jarray a)"
  unfolding reads_value_def
proof (intro allI impI, elim conjE)
  fix p :: "'a json_parser" and ref after
  assume p: "valid_ref (ps_result p) ref" "length (ps_stack p) + json_depth (Jarray a) \<le> json_max_depth" "ps_stack p \<noteq> []"
  let ?q = "p\<lparr>ps_result := assign (ps_result p) ref (\<lambda>_. Jarray []), ps_state := St_array_value_or_close_expected,
      ps_stack := (after, ref) # ps_stack p\<rparr>"
  obtain k where "run_ok (tocks_items a @ [Tock_char (CHR '']'')]) ?q
      = Some (?q\<lparr>ps_result := assign (ps_result p) ref (\<lambda>_. Jarray a), ps_state := after, ps_stack := ps_stack p, ps_key := k\<rparr>)"
    using assms(1) [unfolded reads_items_def, rule_format, of ?q after ref "ps_stack p" "ps_result p" "[]"] p by auto
  then show "\<exists>k. run_ok (tl (tocks_of (Jarray a))) (member_value (hd (tocks_of (Jarray a))) ref after p)
      = Some (p\<lparr>ps_result := assign (ps_result p) ref (\<lambda>_. Jarray a), ps_state := after, ps_key := k\<rparr>)"
    by (simp add: member_value_def) (cases p, auto)
qed

lemma reads_object:
  assumes "reads_members m" "smap_ok m"
  shows "reads_value (Jobject m)"
  unfolding reads_value_def
proof (intro allI impI, elim conjE)
  fix p :: "'a json_parser" and ref after
  assume p: "valid_ref (ps_result p) ref" "length (ps_stack p) + json_depth (Jobject m) \<le> json_max_depth" "ps_stack p \<noteq> []"
  let ?q = "p\<lparr>ps_result := assign (ps_result p) ref (\<lambda>_. Jobject []), ps_state := St_object_key_or_close_expected,
      ps_stack := (after, ref) # ps_stack p\<rparr>"
  obtain k where "run_ok (tocks_members m @ [Tock_char (CHR ''}'')]) ?q
      = Some (?q\<lparr>ps_result := assign (ps_result p) ref (\<lambda>_. Jobject m), ps_state := after, ps_stack := ps_stack p, ps_key := k\<rparr>)"
    using assms(1) [unfolded reads_members_def, rule_format, of ?q after ref "ps_stack p" "ps_result p" "[]"] assms(2) p by auto
  then show "\<exists>k. run_ok (tl (tocks_of (Jobject m))) (member_value (hd (tocks_of (Jobject m))) ref after p)
      = Some (p\<lparr>ps_result := assign (ps_result p) ref (\<lambda>_. Jobject m), ps_state := after, ps_key := k\<rparr>)"
    by (simp add: member_value_def) (cases p, auto)
qed

lemma reads_items_Nil: "reads_items []"
  unfolding reads_items_def
proof (intro allI impI, elim conjE)
  fix p :: "'a json_parser" and ref after S xs R
  assume "ps_stack p = (after, ref) # S" "ps_state p = St_array_value_or_close_expected"
    "ps_result p = assign R ref (\<lambda>_. Jarray xs)" "Suc (length S) + items_depth ([] :: 'a json list) \<le> json_max_depth"
  then show "\<exists>k. run_ok (tocks_items [] @ [Tock_char (CHR '']'')]) p
      = Some (p\<lparr>ps_result := assign R ref (\<lambda>_. Jarray (xs @ [])), ps_state := after, ps_stack := S, ps_key := k\<rparr>)"
    by (intro exI [of _ "ps_key p"]) (cases p, simp add: runs_def json_step_def)
qed

lemma reads_items_Cons:
  assumes "reads_value v" "json_wf v" "reads_items a"
  shows "reads_items (v # a)"
  unfolding reads_items_def
proof (intro allI impI, elim conjE)
  fix p :: "'a json_parser" and ref after S xs R
  assume p: "ps_stack p = (after, ref) # S" "ps_state p = St_array_value_or_close_expected" "valid_ref R ref"
    "ps_result p = assign R ref (\<lambda>_. Jarray xs)" "Suc (length S) + items_depth (v # a) \<le> json_max_depth"
  have d: "Suc (length S) + json_depth v \<le> json_max_depth" "Suc (length S) + items_depth a \<le> json_max_depth" using p(5) by auto
  have hd: "tocks_of v \<noteq> []" "hd (tocks_of v) \<noteq> Tock_char (CHR '']'')" using tocks_of_cases [OF assms(2)] by auto
  then obtain t ts where t: "tocks_of v = t # ts" "t \<noteq> Tock_char (CHR '']'')" by (cases "tocks_of v") auto
  have r: "runs p" using p by (simp add: runs_def)
  let ?q = "p\<lparr>ps_result := assign R ref (\<lambda>_. Jarray (xs @ [Jundefined]))\<rparr>" and ?ref = "ref @ [Element (length xs)]"
  have st: "json_step t p = Inr (member_value t ?ref St_array_close_or_comma_expected ?q)"
    using p t(2) by (simp add: json_step_def deref_assign assign_assign)
  have v: "valid_ref (ps_result ?q) ?ref" using p(3) by (simp add: valid_ref_append valid_ref_assign deref_assign)
  have "assign (ps_result ?q) ?ref (\<lambda>_. v) = assign R ref (\<lambda>_. Jarray (xs @ [v]))"
    using p(3) by (simp add: assign_append assign_assign)
  then obtain k where k: "run_ok ts (member_value t ?ref St_array_close_or_comma_expected ?q)
      = Some (?q\<lparr>ps_result := assign R ref (\<lambda>_. Jarray (xs @ [v])), ps_state := St_array_close_or_comma_expected, ps_key := k\<rparr>)"
    using assms(1) [unfolded reads_value_def, rule_format, of ?q ?ref St_array_close_or_comma_expected] v p(1) d(1) t(1) by auto
  let ?r = "p\<lparr>ps_result := assign R ref (\<lambda>_. Jarray (xs @ [v])), ps_state := St_array_close_or_comma_expected, ps_key := k\<rparr>"
  have one: "run_ok (tocks_of v) p = Some ?r" using t(1) r st k by simp
  show "\<exists>k. run_ok (tocks_items (v # a) @ [Tock_char (CHR '']'')]) p
      = Some (p\<lparr>ps_result := assign R ref (\<lambda>_. Jarray (xs @ v # a)), ps_state := after, ps_stack := S, ps_key := k\<rparr>)"
  proof (cases "a = []")
    case True
    then show ?thesis using one p by (auto simp: run_ok_append runs_def json_step_def intro!: exI [of _ k])
  next
    case False
    let ?u = "?r\<lparr>ps_state := St_array_value_or_close_expected\<rparr>"
    obtain k' where "run_ok (tocks_items a @ [Tock_char (CHR '']'')]) ?u
        = Some (?u\<lparr>ps_result := assign R ref (\<lambda>_. Jarray ((xs @ [v]) @ a)), ps_state := after, ps_stack := S, ps_key := k'\<rparr>)"
      using assms(3) [unfolded reads_items_def, rule_format, of ?u after ref S R "xs @ [v]"] p(1-4) d(2) by auto
    then show ?thesis using False one p by (auto simp: run_ok_append runs_def json_step_def intro!: exI [of _ k'])
  qed
qed

lemma reads_members_Nil: "reads_members []"
  unfolding reads_members_def
proof (intro allI impI, elim conjE)
  fix p :: "'a json_parser" and ref after S xs R
  assume "ps_stack p = (after, ref) # S" "ps_state p = St_object_key_or_close_expected"
    "ps_result p = assign R ref (\<lambda>_. Jobject xs)" "Suc (length S) + members_depth ([] :: (string \<times> 'a json) list) \<le> json_max_depth"
  then show "\<exists>k. run_ok (tocks_members [] @ [Tock_char (CHR ''}'')]) p
      = Some (p\<lparr>ps_result := assign R ref (\<lambda>_. Jobject (xs @ [])), ps_state := after, ps_stack := S, ps_key := k\<rparr>)"
    by (intro exI [of _ "ps_key p"]) (cases p, simp add: runs_def json_step_def)
qed

lemma reads_members_Cons:
  assumes "reads_value v" "json_wf v" "reads_members m"
  shows "reads_members ((key, v) # m)"
  unfolding reads_members_def
proof (intro allI impI, elim conjE)
  fix p :: "'a json_parser" and ref after S xs R
  assume p: "ps_stack p = (after, ref) # S" "ps_state p = St_object_key_or_close_expected" "valid_ref R ref"
    "ps_result p = assign R ref (\<lambda>_. Jobject xs)" "smap_ok (xs @ (key, v) # m)"
    "Suc (length S) + members_depth ((key, v) # m) \<le> json_max_depth"
  have d: "Suc (length S) + json_depth v \<le> json_max_depth" "Suc (length S) + members_depth m \<le> json_max_depth" using p(6) by auto
  obtain t ts where t: "tocks_of v = t # ts" using tocks_of_cases [OF assms(2)] by (cases "tocks_of v") auto
  have sorted: "smap_ok (xs @ [(key, w)])" "smap_ok ((xs @ [(key, v)]) @ m)" "smap_find xs key = None" for w
    using p(5) by (auto simp: smap_ok_def sorted_wrt_append smap_find_None_iff)
  let ?c = "p\<lparr>ps_key := key, ps_state := St_object_value_expected\<rparr>"
  have colon: "run_ok [Tock_str key, Tock_char (CHR '':'')] p = Some ?c"
    using p d(1) by (cases p) (simp add: runs_def json_step_def)
  let ?q = "?c\<lparr>ps_result := assign R ref (\<lambda>_. Jobject (xs @ [(key, Jundefined)]))\<rparr>" and ?ref = "ref @ [Member key]"
  have st: "json_step t ?c = Inr (member_value t ?ref St_object_close_or_comma_expected ?q)"
    using p(1,3,4) sorted by (simp add: json_step_def deref_assign assign_assign smap_put_last)
  have fnd: "smap_find (xs @ [(key, w)]) key = Some w" for w using sorted(3) smap_find_put [of key w xs key] sorted(1) [of w]
    by (simp add: smap_put_last)
  have put: "smap_put key v (xs @ [(key, Jundefined)]) = xs @ [(key, v)]"
    using smap_put_put [of key v Jundefined xs] sorted(1) [of v] sorted(1) [of Jundefined] by (simp add: smap_put_last)
  have v: "valid_ref (ps_result ?q) ?ref" using p(3) fnd by (simp add: valid_ref_append valid_ref_assign deref_assign)
  have "assign (ps_result ?q) ?ref (\<lambda>_. v) = assign R ref (\<lambda>_. Jobject (xs @ [(key, v)]))"
    using p(3) fnd put by (simp add: assign_append assign_assign)
  then obtain k where k: "run_ok ts (member_value t ?ref St_object_close_or_comma_expected ?q)
      = Some (?q\<lparr>ps_result := assign R ref (\<lambda>_. Jobject (xs @ [(key, v)])), ps_state := St_object_close_or_comma_expected, ps_key := k\<rparr>)"
    using assms(1) [unfolded reads_value_def, rule_format, of ?q ?ref St_object_close_or_comma_expected] v p(1) d(1) t by auto
  let ?r = "p\<lparr>ps_result := assign R ref (\<lambda>_. Jobject (xs @ [(key, v)])), ps_state := St_object_close_or_comma_expected, ps_key := k\<rparr>"
  have "runs ?c" using p(1) d(1) by (simp add: runs_def)
  then have "run_ok (tocks_of v) ?c = Some ?r" using t st k by (cases p) simp
  then have one: "run_ok (Tock_str key # Tock_char (CHR '':'') # tocks_of v) p = Some ?r"
    using run_ok_append [of "[Tock_str key, Tock_char (CHR '':'')]" "tocks_of v" p] colon by simp
  show "\<exists>k. run_ok (tocks_members ((key, v) # m) @ [Tock_char (CHR ''}'')]) p
      = Some (p\<lparr>ps_result := assign R ref (\<lambda>_. Jobject (xs @ (key, v) # m)), ps_state := after, ps_stack := S, ps_key := k\<rparr>)"
  proof (cases "m = []")
    case True
    have "run_ok ((Tock_str key # Tock_char (CHR '':'') # tocks_of v) @ [Tock_char (CHR ''}'')]) p
        = Some (p\<lparr>ps_result := assign R ref (\<lambda>_. Jobject (xs @ [(key, v)])), ps_state := after, ps_stack := S, ps_key := k\<rparr>)"
      unfolding run_ok_append one using p d by (cases p) (simp add: runs_def json_step_def)
    then show ?thesis using True by auto
  next
    case False
    let ?u = "?r\<lparr>ps_state := St_object_key_or_close_expected\<rparr>"
    obtain k' where k': "run_ok (tocks_members m @ [Tock_char (CHR ''}'')]) ?u
        = Some (?u\<lparr>ps_result := assign R ref (\<lambda>_. Jobject ((xs @ [(key, v)]) @ m)), ps_state := after, ps_stack := S, ps_key := k'\<rparr>)"
      using assms(3) [unfolded reads_members_def, rule_format, of ?u after ref S R "xs @ [(key, v)]"] p(1-4) d(2) sorted(2) by auto
    have "json_step (Tock_char (CHR '','')) ?r = Inr ?u" "runs ?r" using p d by (simp_all add: json_step_def runs_def)
    then have "run_ok ((Tock_str key # Tock_char (CHR '':'') # tocks_of v) @ Tock_char (CHR '','') # tocks_members m @ [Tock_char (CHR ''}'')]) p
        = Some (?u\<lparr>ps_result := assign R ref (\<lambda>_. Jobject ((xs @ [(key, v)]) @ m)), ps_state := after, ps_stack := S, ps_key := k'\<rparr>)"
      unfolding run_ok_append one using k' by simp
    then show ?thesis using False by (intro exI [of _ k']) simp
  qed
qed

lemma reads_wf:
  "json_wf v \<Longrightarrow> reads_value (v :: 'n json)" "items_wf a \<Longrightarrow> reads_items (a :: 'n json list)"
  "members_wf m \<Longrightarrow> reads_members (m :: (string \<times> 'n json) list)"
proof (induction v and a and m rule: json_wf_items_wf_members_wf.induct)
  case (4 m)
  then show ?case by (simp add: reads_object)
qed (simp_all add: reads_scalar reads_array reads_items_Nil reads_items_Cons reads_members_Nil reads_members_Cons)

lemma run_value:
  assumes "json_wf v" "json_depth v \<le> json_max_depth"
  shows "\<exists>k. run_ok (tocks_of v) json_parser_new = Some \<lparr>ps_result = v, ps_state = St_done, ps_key = k, ps_stack = []\<rparr>"
proof -
  have runs: "runs json_parser_new" by (simp add: runs_def json_parser_new_def json_max_depth_def)
  show ?thesis
  proof (cases v)
    case (Jarray a)
    let ?p = "json_parser_new\<lparr>ps_result := Jarray [], ps_state := St_array_value_or_close_expected\<rparr>"
    have "reads_items a" using reads_wf(2) assms(1) Jarray by simp
    then obtain k where "run_ok (tocks_items a @ [Tock_char (CHR '']'')]) ?p
        = Some (?p\<lparr>ps_result := Jarray a, ps_state := St_done, ps_stack := [], ps_key := k\<rparr>)"
      unfolding reads_items_def using assms(2) Jarray
      by (elim allE [of _ ?p] allE [of _ "[]"] allE [of _ St_done] allE [of _ "[]"] allE [of _ Jnull] allE [of _ "[]"])
        (auto simp: json_parser_new_def)
    then show ?thesis using runs Jarray by (auto simp: json_step_def json_parser_new_def)
  next
    case (Jobject m)
    let ?p = "json_parser_new\<lparr>ps_result := Jobject [], ps_state := St_object_key_or_close_expected\<rparr>"
    have "reads_members m" "smap_ok m" using reads_wf(3) [of m] assms(1) Jobject by simp_all
    then obtain k where "run_ok (tocks_members m @ [Tock_char (CHR ''}'')]) ?p
        = Some (?p\<lparr>ps_result := Jobject m, ps_state := St_done, ps_stack := [], ps_key := k\<rparr>)"
      unfolding reads_members_def using assms(2) Jobject
      by (elim allE [of _ ?p] allE [of _ "[]"] allE [of _ St_done] allE [of _ "[]"] allE [of _ Jnull] allE [of _ "[]"])
        (auto simp: json_parser_new_def)
    then show ?thesis using runs Jobject by (auto simp: json_step_def json_parser_new_def)
  qed (use runs assms(1) in \<open>auto simp: json_step_def json_parser_new_def\<close>)
qed

section \<open>The tokenizer on written text\<close>

definition is_ws :: "char \<Rightarrow> bool" where
  "is_ws c \<longleftrightarrow> c = CHR '' '' \<or> c = TAB \<or> c = CR \<or> c = LF"

fun lexes :: "'n number_reader \<Rightarrow> string \<Rightarrow> 'n tock list \<Rightarrow> string \<Rightarrow> bool" where
  "lexes rd buf [] r \<longleftrightarrow> (\<exists>ws. list_all is_ws ws \<and> buf = ws @ r)"
| "lexes rd buf (t # ts) r \<longleftrightarrow> (\<exists>b. (\<forall>line. \<exists>l. tock_next rd buf line = (t, b, l)) \<and> lexes rd b ts r)"

lemma tock_round_ws: "is_ws c \<Longrightarrow> \<exists>l. tock_round rd c buf line = Inr (buf, l)"
  unfolding is_ws_def by (elim disjE) (simp_all add: tock_round_def)

lemma tock_next_ws: "list_all is_ws ws \<Longrightarrow> \<exists>l'. tock_next rd (ws @ buf) line = tock_next rd buf l'"
proof (induction ws arbitrary: line)
  case (Cons c ws)
  obtain l where "tock_next rd ((c # ws) @ buf) line = tock_next rd (ws @ buf) l"
    using Cons.prems tock_round_ws [of c rd "ws @ buf" line] by auto
  with Cons show ?case by simp
qed auto

lemma lexes_ws: "list_all is_ws ws \<Longrightarrow> lexes rd buf ts r \<Longrightarrow> lexes rd (ws @ buf) ts r"
proof (cases ts)
  case Nil
  assume "list_all is_ws ws" "lexes rd buf ts r"
  then obtain ws' where "list_all is_ws (ws @ ws')" "ws @ buf = (ws @ ws') @ r" using Nil by auto
  then show ?thesis using Nil by (auto simp del: append_assoc)
next
  case (Cons t ts')
  assume ws: "list_all is_ws ws" "lexes rd buf ts r"
  then obtain b where "\<forall>line. \<exists>l. tock_next rd buf line = (t, b, l)" "lexes rd b ts' r" using Cons by auto
  moreover from this have "\<forall>line. \<exists>l. tock_next rd (ws @ buf) line = (t, b, l)" using tock_next_ws [OF ws(1), of rd buf] by metis
  ultimately show ?thesis using Cons by auto
qed

lemma lexes_append: "lexes rd buf ts b \<Longrightarrow> lexes rd b ts' r \<Longrightarrow> lexes rd buf (ts @ ts') r"
  by (induction ts arbitrary: buf) (auto simp: lexes_ws)

lemma lexes_char: "c \<in> set ''[{:,}]'' \<Longrightarrow> lexes rd b ts r \<Longrightarrow> lexes rd (c # b) (Tock_char c # ts) r"
  by (auto simp: tock_round_def intro!: exI [of _ b])

text \<open>The loop over the tokens of the text is the run over the list of the tokens.\<close>

lemma loop_lexes:
  "lexes rd buf ts r \<Longrightarrow> run_ok ts p = Some p' \<Longrightarrow> \<exists>ws l. list_all is_ws ws \<and> json_loop rd p buf line = json_loop rd p' (ws @ r) l"
proof (induction ts arbitrary: p buf line)
  case (Cons t ts)
  then obtain b where b: "\<forall>line. \<exists>l. tock_next rd buf line = (t, b, l)" "lexes rd b ts r" by auto
  then obtain l where l: "tock_next rd buf line = (t, b, l)" by blast
  obtain p1 where p1: "runs p" "json_step t p = Inr p1" "run_ok ts p1 = Some p'"
    using Cons.prems(2) by (auto split: if_splits sum.splits)
  have "json_loop rd p buf line = json_loop rd p1 b l" using l p1 by (subst json_loop.simps) simp
  with Cons.IH [OF b(2) p1(3), of l] show ?case by simp
qed auto

section \<open>Strings\<close>

definition json_esc :: "char \<Rightarrow> string" where
  "json_esc c = (case json_addon c of Some a \<Rightarrow> a | None \<Rightarrow> [c])"

lemma append_loop_eq: "append_loop s run out = out @ run @ concat (map json_esc s)"
  by (induction s run out rule: append_loop.induct) (simp_all add: json_esc_def split: option.split)

lemma to_json_eq: "to_json s = DQUOTE # concat (map json_esc s) @ [DQUOTE]"
  by (simp add: to_json_def append_loop_eq)

lemma xdigit_not_LF: "xdigit c \<Longrightarrow> c \<noteq> LF"
proof -
  have "\<not> xdigit LF" by code_simp
  then show "xdigit c \<Longrightarrow> c \<noteq> LF" by auto
qed

lemma read_4_digits_ok:
  "list_all xdigit ds \<Longrightarrow> length ds = 4 \<Longrightarrow> read_4_digits (ds @ r) = (Some (of_nat (foldl (\<lambda>n c. 16 * n + xdigit_value c) 0 ds)), r)"
proof -
  assume ds: "list_all xdigit ds" "length ds = 4"
  have tw: "takeWhile (\<lambda>c. c \<noteq> LF) ds = ds" using ds by (intro takeWhile_eq_all_conv [THEN iffD2]) (auto simp: list_all_iff xdigit_not_LF)
  show ?thesis using ds by (simp add: read_4_digits_def Let_def tw)
qed

lemma low_code:
  assumes "n < 128"
  shows "utf8_encode (ucast (of_nat n :: 16 word)) = [ch n]" "\<not> is_first_surrogate (of_nat n)"
proof -
  have u: "unat (of_nat n :: 16 word) = n" using assms by (simp add: unat_of_nat)
  then have "unat (ucast (of_nat n :: 16 word) :: code_point) = n" by (simp add: unat_up)
  then show "utf8_encode (ucast (of_nat n :: 16 word)) = [ch n]" using assms by (simp add: utf8_encode_nat Let_def)
  show "\<not> is_first_surrogate (of_nat n)" using assms u by (simp add: is_first_surrogate_def word_le_nat_alt)
qed

lemma string_loop_BSLASH:
  "string_loop None acc (BSLASH # d # r) = (case string_escape None acc d r of Inl x \<Rightarrow> x | Inr (f, s, q) \<Rightarrow> string_loop f s q)"
proof -
  have "\<not> uc BSLASH \<le> 31" by code_simp
  then show ?thesis by (simp add: string_round_def)
qed

lemma string_loop_esc: "string_loop None acc (json_esc c @ r) = string_loop None (acc @ [c]) r"
proof -
  have n: "CHR 0x08 = ch 8" "CHR 0x0C = ch 12" "LF = ch 10" "CR = ch 13" "TAB = ch 9" "DQUOTE = ch 34" "BSLASH = ch 92" by code_simp+
  consider "uc c \<in> {0x22, 0x5C, 8, 12, 10, 13, 9}" | "uc c \<notin> {0x22, 0x5C, 8, 12, 10, 13, 9}" "uc c \<le> 0x1F"
    | "uc c \<noteq> 0x22" "uc c \<noteq> 0x5C" "\<not> uc c \<le> 0x1F" by auto
  then show ?thesis
  proof cases
    case 1
    have t: "\<forall>n \<in> set [0x22, 0x5C, 8, 12, 10, 13, 9]. tl (json_esc (ch n)) \<noteq> [] \<and> json_esc (ch n) = [BSLASH, hd (tl (json_esc (ch n)))]
        \<and> escape_of (hd (tl (json_esc (ch n)))) = Some (ch n) \<and> hd (tl (json_esc (ch n))) \<noteq> CHR ''u''" by code_simp
    have "uc c \<in> set [0x22, 0x5C, 8, 12, 10, 13, 9]" using 1 by auto
    from bspec [OF t this] obtain d where d: "json_esc c = [BSLASH, d]" "escape_of d = Some c" "d \<noteq> CHR ''u''"
      unfolding ch_uc by blast
    then show ?thesis by (simp add: string_loop_BSLASH string_escape_def del: string_loop.simps)
  next
    case 2
    let ?ds = "''00'' @ [hex_digits ! (uc c div 16), hex_digits ! (uc c mod 16)]"
    have e: "json_esc c = BSLASH # CHR ''u'' # ?ds" using 2 by (simp add: json_esc_def json_addon_def codec_simps)
    have "xdigit (CHR ''0'')" "xdigit_value (CHR ''0'') = 0" by code_simp+
    then have "list_all xdigit ?ds" "foldl (\<lambda>n c. 16 * n + xdigit_value c) 0 ?ds = uc c"
      using hex_digit_ok [of "uc c div 16"] hex_digit_ok [of "uc c mod 16"] by simp_all
    then have "read_4_digits (?ds @ r) = (Some (of_nat (uc c)), r)" using read_4_digits_ok [of ?ds r] by simp
    then show ?thesis using e low_code [of "uc c"] 2(2)
      by (simp add: string_loop_BSLASH string_escape_def del: string_loop.simps)
  next
    case 3
    then have "json_esc c = [c]" "c \<noteq> DQUOTE" "c \<noteq> BSLASH" using n(6,7) by (auto simp: json_esc_def json_addon_def)
    then show ?thesis using 3 by (simp add: string_round_def)
  qed
qed

lemma parse_string_to_json: "utf8_validate s False \<Longrightarrow> parse_string (to_json s @ r) = (Some s, r)"
proof -
  have "string_loop None acc (concat (map json_esc s) @ q) = string_loop None (acc @ s) q" for acc s q
    by (induction s arbitrary: acc) (simp_all add: string_loop_esc del: string_loop.simps)
  from this [of "[]" s "DQUOTE # r"] have "parse_string (to_json s @ r) = string_loop None s (DQUOTE # r)"
    by (simp add: parse_string_def to_json_eq del: string_loop.simps)
  moreover have "\<not> uc DQUOTE \<le> 31" by code_simp
  ultimately show "utf8_validate s False \<Longrightarrow> ?thesis" by (simp add: string_round_def)
qed

section \<open>Written values\<close>

definition delimited :: "string \<Rightarrow> bool" where
  "delimited r \<longleftrightarrow> r = [] \<or> hd r = CHR '','' \<or> hd r = CHR '']'' \<or> hd r = CHR ''}'' \<or> hd r = LF"

text \<open>
  What is relied on for a number: its text starts like a number, and in front of a delimiter the stream reads it back.
  (The writer asks for 16 significant digits; a number that needs 17 is not read back.)
\<close>

definition number_readable :: "('n \<Rightarrow> string) \<Rightarrow> 'n number_reader \<Rightarrow> 'n \<Rightarrow> bool" where
  "number_readable pr rd x \<longleftrightarrow>
     (\<exists>c cs. pr x = c # cs \<and> (c = CHR ''-'' \<or> is_digit c) \<and> (\<forall>r. delimited r \<longrightarrow> rd (pr x @ r) = (Some x, length cs)))"

lemma indent_shape:
  assumes "c \<in> set ''[{:,}]''"
  obtains w1 w2 where "fst (indent c tabs) = w1 @ [c] @ w2" "list_all is_ws w1" "list_all is_ws w2"
proof -
  have p: "list_all is_ws (json_pad n)" for n by (simp add: json_pad_def is_ws_def list_all_iff)
  have w: "is_ws LF" "is_ws TAB" "is_ws (CHR '' '')" by (simp_all add: is_ws_def)
  show thesis
  proof (cases "tabs < 0")
    case True
    then show thesis using that [of "[]" "[]"] by (simp add: indent_def)
  next
    case False
    consider "c = CHR ''{'' \<or> c = CHR ''[''" | "c = CHR '',''" | "c = CHR '':''" | "c = CHR ''}'' \<or> c = CHR '']''" using assms by auto
    then show thesis
    proof cases
      case 1
      then show thesis using that [of "[]" "LF # json_pad (tabs + 1)"] False p w by (auto simp: indent_def)
    next
      case 2
      then show thesis using that [of "[]" "LF # json_pad tabs"] False p w by (auto simp: indent_def)
    next
      case 3
      then show thesis using that [of "'' ''" "[TAB]"] False w by (auto simp: indent_def)
    next
      case 4
      then show thesis using that [of "LF # json_pad (tabs - 1)" "LF # json_pad (tabs - 1)"] False p w by (auto simp: indent_def)
    qed
  qed
qed

lemma lexes_indent: "c \<in> set ''[{:,}]'' \<Longrightarrow> lexes rd b ts q \<Longrightarrow> lexes rd (fst (indent c tabs) @ b) (Tock_char c # ts) q"
proof -
  assume c: "c \<in> set ''[{:,}]''" and l: "lexes rd b ts q"
  obtain w1 w2 where w: "fst (indent c tabs) = w1 @ [c] @ w2" "list_all is_ws w1" "list_all is_ws w2"
    using c by (rule indent_shape)
  have "lexes rd (w1 @ c # w2 @ b) (Tock_char c # ts) q"
    by (intro lexes_ws lexes_char w(2,3) c l)
  then show ?thesis using w(1) by simp
qed

lemma delimited_indent: "c \<in> set '',]}'' \<Longrightarrow> delimited (fst (indent c tabs) @ b)"
  by (auto simp: indent_def delimited_def)

lemma lexes_string:
  assumes "utf8_validate s False" "lexes rd r ts q"
  shows "lexes rd (to_json s @ r) (Tock_str s # ts) q"
proof -
  have "tock_next rd (to_json s @ r) line = (Tock_str s, r, line)" for line
    using parse_string_to_json [OF assms(1), of r] by (simp add: to_json_eq tock_round_def)
  then show ?thesis using assms(2) by (simp del: tock_next.simps)
qed

lemma lexes_number:
  assumes "number_readable pr rd x" "delimited r" "lexes rd r ts q"
  shows "lexes rd (pr x @ r) (Tock_number x # ts) q"
proof -
  obtain c cs where c: "pr x = c # cs" "c = CHR ''-'' \<or> is_digit c" "rd (pr x @ r) = (Some x, length cs)"
    using assms(1,2) by (auto simp: number_readable_def)
  have "\<forall>d \<in> set ''[{:,} '' \<union> {CHR '']'', TAB, CR, LF, DQUOTE, CHR ''t'', CHR ''n'', CHR ''f''}. d \<noteq> CHR ''-'' \<and> \<not> is_digit d"
    by code_simp
  then have n: "c \<notin> set ''[{:,}]''" "c \<noteq> CHR '' ''" "c \<noteq> TAB" "c \<noteq> CR" "c \<noteq> LF" "c \<noteq> DQUOTE" "c \<noteq> CHR ''t''" "c \<noteq> CHR ''n''" "c \<noteq> CHR ''f''"
    using c(2) by auto
  have "parse_number rd (c # cs @ r) = (Some x, r)" using c by (simp add: parse_number_def)
  then have "tock_round rd c (cs @ r) line = Inl (Tock_number x, r, line)" for line
    unfolding tock_round_def using n c(2) by (simp del: list.set)
  then have "tock_next rd (pr x @ r) line = (Tock_number x, r, line)" for line using c(1) by simp
  then show ?thesis using assms(3) by (simp del: tock_next.simps)
qed

lemma lexes_literal:
  assumes "lexes rd r ts q"
  shows "lexes rd (''true'' @ r) (Tock_true # ts) q" "lexes rd (''false'' @ r) (Tock_false # ts) q" "lexes rd (''null'' @ r) (Tock_null # ts) q"
proof -
  have "tock_next rd (''true'' @ r) line = (Tock_true, r, line)" "tock_next rd (''false'' @ r) line = (Tock_false, r, line)"
    "tock_next rd (''null'' @ r) line = (Tock_null, r, line)" for line
    by (simp_all add: tock_round_def literal_def)
  then show "lexes rd (''true'' @ r) (Tock_true # ts) q" "lexes rd (''false'' @ r) (Tock_false # ts) q" "lexes rd (''null'' @ r) (Tock_null # ts) q"
    using assms by (simp_all only: lexes.simps) blast+
qed

lemma then_write_None: "snd a = None \<Longrightarrow> then_write a b = (fst a @ fst b, snd b)"
  by (simp add: then_write_def)

lemma lexes_written:
  fixes rd :: "'n number_reader"
  shows "json_wf v \<Longrightarrow> \<forall>x \<in> set_json v. number_readable pr rd x \<Longrightarrow> delimited r \<Longrightarrow> lexes rd r ts q \<Longrightarrow>
      snd (write_value pr tabs v) = None \<and> lexes rd (fst (write_value pr tabs v) @ r) (tocks_of v @ ts) q"
    and "items_wf a \<Longrightarrow> \<forall>v \<in> set a. \<forall>x \<in> set_json v. number_readable pr rd x \<Longrightarrow> delimited r \<Longrightarrow> lexes rd r ts q \<Longrightarrow>
      snd (write_items pr tabs a) = None \<and> lexes rd (fst (write_items pr tabs a) @ r) (tocks_items a @ ts) q"
    and "members_wf m \<Longrightarrow> \<forall>p \<in> set m. \<forall>x \<in> set_json (snd p). number_readable pr rd x \<Longrightarrow> delimited r \<Longrightarrow> lexes rd r ts q \<Longrightarrow>
      snd (write_members pr tabs m) = None \<and> lexes rd (fst (write_members pr tabs m) @ r) (tocks_members m @ ts) q"
proof (induction pr tabs v and pr tabs a and pr tabs m arbitrary: r ts q and r ts q and r ts q
    rule: write_value_write_items_write_members.induct)
  case (2 pr tabs)
  then show ?case using lexes_literal(3) [of rd r ts q] by simp
next
  case (3 pr tabs x)
  then show ?case using lexes_number [of pr rd x r ts q] by simp
next
  case (4 pr tabs s)
  then show ?case using lexes_string [of s rd r ts q] by simp
next
  case (5 pr tabs b)
  then show ?case using lexes_literal(1,2) [of rd r ts q] by simp
next
  case (6 pr tabs a)
  obtain w t where i: "indent (CHR ''['') tabs = (w, t)" by (cases "indent (CHR ''['') tabs")
  have l: "lexes rd (fst (indent (CHR '']'') t) @ r) (Tock_char (CHR '']'') # ts) q" using 6 by (intro lexes_indent) simp_all
  have "snd (write_items pr t a) = None \<and> lexes rd (fst (write_items pr t a) @ fst (indent (CHR '']'') t) @ r) (tocks_items a @ Tock_char (CHR '']'') # ts) q"
    using "6.IH" [OF i [symmetric] _ _ delimited_indent l] "6.prems" by auto
  moreover from this have "lexes rd (fst (indent (CHR ''['') tabs) @ fst (write_items pr t a) @ fst (indent (CHR '']'') t) @ r)
      (Tock_char (CHR ''['') # tocks_items a @ Tock_char (CHR '']'') # ts) q" by (intro lexes_indent) simp_all
  ultimately show ?case using i by (simp add: then_write_None)
next
  case (7 pr tabs m)
  obtain w t where i: "indent (CHR ''{'') tabs = (w, t)" by (cases "indent (CHR ''{'') tabs")
  have l: "lexes rd (fst (indent (CHR ''}'') t) @ r) (Tock_char (CHR ''}'') # ts) q" using 7 by (intro lexes_indent) simp_all
  have n: "\<forall>p \<in> set m. \<forall>x \<in> set_json (snd p). number_readable pr rd x" using "7.prems"(2) by (auto simp: snds.simps)
  have "snd (write_members pr t m) = None \<and> lexes rd (fst (write_members pr t m) @ fst (indent (CHR ''}'') t) @ r) (tocks_members m @ Tock_char (CHR ''}'') # ts) q"
    using "7.IH" [OF i [symmetric] _ n delimited_indent l] "7.prems" by auto
  moreover from this have "lexes rd (fst (indent (CHR ''{'') tabs) @ fst (write_members pr t m) @ fst (indent (CHR ''}'') t) @ r)
      (Tock_char (CHR ''{'') # tocks_members m @ Tock_char (CHR ''}'') # ts) q" by (intro lexes_indent) simp_all
  ultimately show ?case using i by (simp add: then_write_None)
next
  case (9 pr tabs v a)
  show ?case
  proof (cases "a = []")
    case True
    then show ?thesis using 9 by (simp add: then_write_None)
  next
    case False
    have "snd (write_items pr tabs a) = None \<and> lexes rd (fst (write_items pr tabs a) @ r) (tocks_items a @ ts) q"
      using 9 False by simp
    moreover from this have "lexes rd (fst (indent (CHR '','') tabs) @ fst (write_items pr tabs a) @ r) (Tock_char (CHR '','') # tocks_items a @ ts) q"
      by (intro lexes_indent) simp_all
    moreover from this have "snd (write_value pr tabs v) = None \<and>
        lexes rd (fst (write_value pr tabs v) @ fst (indent (CHR '','') tabs) @ fst (write_items pr tabs a) @ r) (tocks_of v @ Tock_char (CHR '','') # tocks_items a @ ts) q"
      using 9 delimited_indent by simp
    ultimately show ?thesis using False by (simp add: then_write_None)
  qed
next
  case (11 pr tabs k v m)
  have key: "lexes rd (to_json k @ fst (indent (CHR '':'') tabs) @ b) (Tock_str k # Tock_char (CHR '':'') # us) q"
    if "lexes rd b us q" for b us using that 11 by (intro lexes_string lexes_indent) simp_all
  show ?case
  proof (cases "m = []")
    case True
    then show ?thesis using 11 key by (simp add: then_write_None)
  next
    case False
    have "snd (write_members pr tabs m) = None \<and> lexes rd (fst (write_members pr tabs m) @ r) (tocks_members m @ ts) q"
      using 11 False by simp
    moreover from this have "lexes rd (fst (indent (CHR '','') tabs) @ fst (write_members pr tabs m) @ r) (Tock_char (CHR '','') # tocks_members m @ ts) q"
      by (intro lexes_indent) simp_all
    moreover from this have "snd (write_value pr tabs v) = None \<and>
        lexes rd (fst (write_value pr tabs v) @ fst (indent (CHR '','') tabs) @ fst (write_members pr tabs m) @ r) (tocks_of v @ Tock_char (CHR '','') # tocks_members m @ ts) q"
      using 11 delimited_indent by simp
    ultimately show ?thesis using False key by (simp add: then_write_None)
  qed
qed simp_all

lemma load_written:
  assumes "json_wf v" "json_depth v \<le> json_max_depth" "\<forall>x \<in> set_json v. number_readable pr rd x"
  shows "\<exists>s. json_save pr readable v = Inr s \<and> json_load rd s True w = Inr (True, v, None)"
proof -
  let ?w = "write_value pr (if readable then 0 else -1) v"
  have "delimited []" "lexes rd [] [] []" by (auto simp: delimited_def)
  from lexes_written(1) [OF assms(1,3) this, of "if readable then 0 else -1"]
  have w: "snd ?w = None" "lexes rd (fst ?w) (tocks_of v) []" by simp_all
  have save: "json_save pr readable v = Inr (fst ?w)" using w(1) unfolding json_save_def by (cases ?w) simp
  obtain k where "run_ok (tocks_of v) json_parser_new = Some \<lparr>ps_result = v, ps_state = St_done, ps_key = k, ps_stack = []\<rparr>"
    using run_value [OF assms(1,2)] by blast
  from loop_lexes [OF w(2) this, of 1] obtain ws l where ws: "list_all is_ws ws"
    and "json_loop rd json_parser_new (fst ?w) 1 = json_loop rd \<lparr>ps_result = v, ps_state = St_done, ps_key = k, ps_stack = []\<rparr> (ws @ []) l"
    by blast
  then have "json_loop rd json_parser_new (fst ?w) 1 = Inr (\<lparr>ps_result = v, ps_state = St_done, ps_key = k, ps_stack = []\<rparr>, ws, l)"
    by (simp add: json_loop.simps [of rd "\<lparr>ps_result = v, ps_state = St_done, ps_key = k, ps_stack = []\<rparr>"] runs_def)
  moreover obtain l' where "tock_next rd ws l = (Tock_eof, [], l')" using tock_next_ws [OF ws, of rd "[]" l] by auto
  ultimately have "json_load rd (fst ?w) True w = Inr (True, v, None)" by (simp add: json_load_def parse_stream_def)
  with save show ?thesis by blast
qed


text \<open>Integers in decimal form are an instance: the reader takes the digits behind the first character.\<close>

definition read_integer :: "int number_reader" where
  "read_integer s =
     (case s of
        [] \<Rightarrow> (None, 0)
      | c # r \<Rightarrow>
          let ds = takeWhile is_digit r in
          (if c = CHR ''-'' then if ds = [] then None else Some (- int (dec_value ds)) else Some (int (dec_value (c # ds))), length ds))"

lemma read_integer_todec: "number_readable todec read_integer v"
proof -
  have nd: "\<not> is_digit (CHR '','')" "\<not> is_digit (CHR '']'')" "\<not> is_digit (CHR ''}'')" "\<not> is_digit LF" "is_digit (CHR ''0'')" "dec_value ''0'' = 0"
    "\<not> is_digit (CHR ''-'')" by code_simp+
  have tw: "takeWhile is_digit (ds @ r) = ds" if "list_all is_digit ds" "delimited r" for ds r
    using that nd by (cases r) (auto simp: delimited_def list_all_iff takeWhile_append)
  define ds where "ds = rev (nat_digits (nat \<bar>v\<bar>))"
  have d: "list_all is_digit ds" "dec_value ds = nat \<bar>v\<bar>" "v \<noteq> 0 \<Longrightarrow> ds \<noteq> []"
    using nat_digits_digit dec_value_nat_digits by (auto simp: ds_def list_all_iff nat_digits_Nil)
  consider "v = 0" | "v < 0" | "0 < v" by linarith
  then show ?thesis
  proof cases
    case 1
    then have "todec v = ''0''" by (simp add: todec_def)
    then show ?thesis using 1 nd tw [of "[]"] by (auto simp: number_readable_def read_integer_def Let_def)
  next
    case 2
    then have t: "todec v = CHR ''-'' # ds" by (simp add: todec_digits ds_def)
    have "read_integer (todec v @ r) = (Some v, length ds)" if "delimited r" for r
      using tw [OF d(1) that] d 2 by (simp add: t read_integer_def Let_def)
    then show ?thesis using t by (auto simp: number_readable_def)
  next
    case 3
    then obtain c cs where c: "ds = c # cs" using d(3) by (cases ds) auto
    have t: "todec v = ds" using 3 by (simp add: todec_digits ds_def)
    have "read_integer (todec v @ r) = (Some v, length cs)" if "delimited r" for r
      using tw [of cs r] that d 3 nd(7) c by (auto simp: t read_integer_def Let_def)
    then show ?thesis using t c d(1) by (auto simp: number_readable_def)
  qed
qed


end
