(* ===== verification/Json_Safety.thy ===== *)
theory Json_Safety
  imports Json_Correct
begin
text \<open>
  The JSON parser of \<^verbatim>\<open>src/json.cpp\<close> on arbitrary input: an invariant of its state between two tokens, which holds for every
  reader of numbers, and what it gives for the result.
\<close>

section \<open>Changes deep in a value\<close>

lemma items_wf_iff: "items_wf a \<longleftrightarrow> (\<forall>v \<in> set a. json_wf v)"
  by (induction a) auto

lemma members_wf_iff: "members_wf m \<longleftrightarrow> (\<forall>p \<in> set m. utf8_validate (fst p) False \<and> json_wf (snd p))"
  by (induction m) auto

lemma items_depth_le: "items_depth a \<le> n \<longleftrightarrow> (\<forall>v \<in> set a. json_depth v \<le> n)"
  by (induction a) auto

lemma members_depth_le: "members_depth m \<le> n \<longleftrightarrow> (\<forall>p \<in> set m. json_depth (snd p) \<le> n)"
  by (induction m) auto

lemma set_smap_put_subset: "set (smap_put k v m) \<subseteq> insert (k, v) (set m)"
  by (induction k v m rule: smap_put.induct) auto

lemma json_wf_assign:
  "valid_ref R ref \<Longrightarrow> json_wf R \<Longrightarrow> json_wf (f (deref R ref)) \<Longrightarrow> json_wf (assign R ref f)"
proof (induction R ref rule: valid_ref.induct)
  case (2 m k p)
  then obtain v where v: "smap_find m k = Some v" "valid_ref v p" by (auto split: option.splits)
  have m: "smap_ok m" "\<forall>q \<in> set m. utf8_validate (fst q) False \<and> json_wf (snd q)" using 2 by (simp_all add: members_wf_iff)
  have "(k, v) \<in> set m" using v(1) by (rule smap_find_Some_in)
  then have "utf8_validate k False" "json_wf v" using m(2) by fastforce+
  then have "json_wf (assign v p f)" using 2 v by simp
  then have "\<forall>q \<in> set (smap_put k (assign v p f) m). utf8_validate (fst q) False \<and> json_wf (snd q)"
    using m(2) set_smap_put_subset [of k "assign v p f" m] \<open>utf8_validate k False\<close> by fastforce
  then show ?case using v(1) m(1) by (simp add: members_wf_iff smap_ok_put)
next
  case (3 a i p)
  then have "json_wf (a ! i)" by (auto simp: items_wf_iff)
  then show ?case using 3 by (auto simp: items_wf_iff dest!: set_update_subset_insert [THEN subsetD])
qed auto

lemma json_depth_assign:
  "valid_ref R ref \<Longrightarrow> json_depth R \<le> n \<Longrightarrow> length ref + json_depth (f (deref R ref)) \<le> n \<Longrightarrow> json_depth (assign R ref f) \<le> n"
proof (induction R ref arbitrary: n rule: valid_ref.induct)
  case (2 m k p)
  then obtain v where v: "smap_find m k = Some v" "valid_ref v p" by (auto split: option.splits)
  obtain n' where n: "n = Suc n'" using "2.prems"(2) by (cases n) auto
  have m: "\<forall>q \<in> set m. json_depth (snd q) \<le> n'" using "2.prems"(2) n by (simp add: members_depth_le)
  have "(k, v) \<in> set m" using v(1) by (rule smap_find_Some_in)
  then have "json_depth v \<le> n'" using m by fastforce
  then have "json_depth (assign v p f) \<le> n'" using 2 v n by simp
  then have "\<forall>q \<in> set (smap_put k (assign v p f) m). json_depth (snd q) \<le> n'"
    using m set_smap_put_subset [of k "assign v p f" m] by fastforce
  then show ?case using v(1) n by (simp add: members_depth_le)
next
  case (3 a i p)
  obtain n' where n: "n = Suc n'" using "3.prems"(2) by (cases n) auto
  then have "json_depth (a ! i) \<le> n'" using 3 by (simp add: items_depth_le)
  then show ?case using 3 n by (auto simp: items_depth_le dest!: set_update_subset_insert [THEN subsetD])
qed auto

lemma type_assign: "ref \<noteq> [] \<Longrightarrow> json_type_of (assign R ref f) = json_type_of R"
  by (cases "(R, ref, f)" rule: assign.cases) (auto split: option.split)

lemma assign_below:
  assumes "valid_ref R (q @ r)" "r \<noteq> []"
  shows "valid_ref (assign R (q @ r) f) q \<and> json_type_of (deref (assign R (q @ r) f) q) = json_type_of (deref R q)"
  using assms by (simp add: assign_append valid_ref_append valid_ref_assign deref_assign type_assign)

text \<open>
  The invariant of the parser between two tokens: the result is well formed, the references on the stack lead from each
  open container to the one inside it, and the state fits the type of the innermost one.
\<close>

definition state_fits :: "state_type \<Rightarrow> json_type \<Rightarrow> bool" where
  "state_fits st t \<longleftrightarrow>
     (st \<in> {St_object_key_or_close_expected, St_object_colon_expected, St_object_value_expected, St_object_close_or_comma_expected}
        \<and> t = Is_object)
     \<or> (st \<in> {St_array_value_or_close_expected, St_array_close_or_comma_expected} \<and> t = Is_array)"

fun stack_ok :: "'n json \<Rightarrow> state_type \<Rightarrow> (state_type \<times> json_ref) list \<Rightarrow> bool" where
  "stack_ok R st [] \<longleftrightarrow> st = St_done"
| "stack_ok R st ((after, ref) # S) \<longleftrightarrow>
     valid_ref R ref \<and> state_fits st (json_type_of (deref R ref)) \<and> length ref = length S \<and> stack_ok R after S
     \<and> after \<in> {St_done, St_object_close_or_comma_expected, St_array_close_or_comma_expected}
     \<and> (case S of [] \<Rightarrow> True | (_, ref') # _ \<Rightarrow> \<exists>s. ref = ref' @ [s])"

definition parser_inv :: "'n json_parser \<Rightarrow> bool" where
  "parser_inv p \<longleftrightarrow> ps_state p = St_error
     \<or> p = json_parser_new
     \<or> (json_wf (ps_result p) \<and> stack_ok (ps_result p) (ps_state p) (ps_stack p)
        \<and> json_depth (ps_result p) \<le> max json_max_depth (length (ps_stack p))
        \<and> (ps_state p \<in> {St_object_colon_expected, St_object_value_expected} \<longrightarrow> utf8_validate (ps_key p) False))"

lemma stack_ok_assign:
  "stack_ok R st S \<Longrightarrow> S \<noteq> [] \<Longrightarrow> valid_ref R (snd (hd S) @ r) \<Longrightarrow> r \<noteq> [] \<Longrightarrow> stack_ok (assign R (snd (hd S) @ r) f) st S"
proof (induction S arbitrary: st r)
  case (Cons x S)
  obtain after ref where x: "x = (after, ref)" by (cases x)
  have low: "stack_ok (assign R (ref @ r) f) after S"
  proof (cases S)
    case Nil
    then show ?thesis using Cons.prems(1) x by simp
  next
    case (Cons y S')
    obtain a' ref' where y: "y = (a', ref')" by (cases y)
    then obtain s where s: "ref = ref' @ [s]" using Cons.prems(1) x Cons by auto
    show ?thesis using Cons.IH [of after "s # r"] Cons.prems(1,3) x y s Cons by simp
  qed
  have "valid_ref (assign R (ref @ r) f) ref \<and> json_type_of (deref (assign R (ref @ r) f) ref) = json_type_of (deref R ref)"
    using Cons.prems(3,4) x by (intro assign_below) simp_all
  then show ?case using Cons.prems(1) x low by simp
qed simp

lemma stack_ok_top:
  assumes "stack_ok R st ((after, ref) # S)" "json_type_of C = json_type_of (deref R ref)"
  shows "stack_ok (assign R ref (\<lambda>_. C)) st ((after, ref) # S)"
proof -
  have v: "valid_ref R ref" using assms(1) by simp
  have "stack_ok (assign R ref (\<lambda>_. C)) after S"
  proof (cases S)
    case (Cons y S')
    then obtain s where "ref = snd y @ [s]" using assms(1) by (auto split: prod.splits)
    then show ?thesis using stack_ok_assign [of R after S "[s]"] assms(1) v Cons by simp
  qed (use assms(1) in simp)
  then show ?thesis using assms v by (simp add: valid_ref_assign deref_assign)
qed

lemma stack_ok_state: "stack_ok R st ((after, ref) # S) \<Longrightarrow> state_fits st' (json_type_of (deref R ref)) \<Longrightarrow> stack_ok R st' ((after, ref) # S)"
  by simp

lemma depth_deref: "valid_ref R ref \<Longrightarrow> length ref + json_depth (deref R ref) \<le> json_depth R"
proof (induction R ref rule: valid_ref.induct)
  case (2 m k p)
  then obtain v where v: "smap_find m k = Some v" "valid_ref v p" by (auto split: option.splits)
  have "(k, v) \<in> set m" using v(1) by (rule smap_find_Some_in)
  then have "json_depth v \<le> members_depth m" using members_depth_le [of m "members_depth m"] by fastforce
  then show ?case using 2 v by fastforce
next
  case (3 a i p)
  then have "json_depth (a ! i) \<le> items_depth a" using items_depth_le [of a "items_depth a"] by simp
  then show ?case using 3 by fastforce
qed auto

lemma members_depth_put: "members_depth (smap_put k w m) \<le> max (members_depth m) (json_depth w)"
proof -
  have "json_depth (snd q) \<le> members_depth m" if "q \<in> set m" for q
    using members_depth_le [of m "members_depth m"] that by blast
  then show ?thesis unfolding members_depth_le using set_smap_put_subset [of k w m] by (auto simp: le_max_iff_disj)
qed

text \<open>A value in a slot of the innermost container \<open>C\<close>, for objects and arrays alike.\<close>

lemma member_value_inv:
  assumes p: "ps_stack p = (after, ref) # S" "json_wf R" "stack_ok R st ((after, ref) # S)" "json_depth R \<le> json_max_depth"
    and fits: "state_fits aft (json_type_of (deref R ref))" "aft \<in> {St_object_close_or_comma_expected, St_array_close_or_comma_expected}"
    and C: "\<And>w. json_wf w \<Longrightarrow> json_wf (C w)" "\<And>w. json_type_of (C w) = json_type_of (deref R ref)"
      "\<And>w. json_depth (C w) \<le> max (json_depth (deref R ref)) (Suc (json_depth w))" "\<And>w. valid_ref (C w) [s] \<and> deref (C w) [s] = w"
      "\<And>w. assign (assign R ref (\<lambda>_. C Jundefined)) (ref @ [s]) (\<lambda>_. w) = assign R ref (\<lambda>_. C w)"
    and c: "\<And>t. c = Tock_str t \<Longrightarrow> utf8_validate t False"
  shows "parser_inv (member_value c (ref @ [s]) aft (p\<lparr>ps_result := assign R ref (\<lambda>_. C Jundefined)\<rparr>))"
proof -
  have v: "valid_ref R ref" and len: "length ref = length S" using p(3) by simp_all
  have d1: "Suc (length S) \<le> json_depth R"
  proof -
    have "1 \<le> json_depth (deref R ref)" using fits(1) by (cases "deref R ref") (auto simp: state_fits_def)
    then show ?thesis using depth_deref [OF v] len by simp
  qed
  have w: "json_wf (assign R ref (\<lambda>_. C x))" "stack_ok (assign R ref (\<lambda>_. C x)) aft ((after, ref) # S)"
    "json_depth (assign R ref (\<lambda>_. C x)) \<le> max json_max_depth (Suc (length S) + json_depth x)"
    "valid_ref (assign R ref (\<lambda>_. C x)) (ref @ [s])" "deref (assign R ref (\<lambda>_. C x)) (ref @ [s]) = x" if "json_wf x" for x
  proof -
    show "json_wf (assign R ref (\<lambda>_. C x))" using v p(2) C(1) that by (intro json_wf_assign)
    show "stack_ok (assign R ref (\<lambda>_. C x)) aft ((after, ref) # S)"
      using stack_ok_top [OF stack_ok_state [OF p(3) fits(1)]] C(2) by blast
    have "length ref + json_depth (C x) \<le> max json_max_depth (Suc (length S) + json_depth x)"
      using C(3) [of x] depth_deref [OF v] p(4) len by linarith
    then show "json_depth (assign R ref (\<lambda>_. C x)) \<le> max json_max_depth (Suc (length S) + json_depth x)"
      using v p(4) by (intro json_depth_assign) simp_all
    show "valid_ref (assign R ref (\<lambda>_. C x)) (ref @ [s])" using v C(4) by (simp add: valid_ref_append valid_ref_assign deref_assign)
    have "deref u (q @ r) = deref (deref u q) r" if "valid_ref u q" for u :: "'a json" and q r
      using that by (induction u q rule: valid_ref.induct) (auto split: option.splits)
    then show "deref (assign R ref (\<lambda>_. C x)) (ref @ [s]) = x" using v C(4) by (simp add: valid_ref_assign deref_assign)
  qed
  have scalar: "json_wf x \<and> json_depth x = 0" if "tock_value c = Some x" for x using that c by (cases c) auto
  have max: "Suc (length S) \<le> json_max_depth" using d1 p(4) by simp
  show ?thesis
  proof (cases "tock_value c")
    case (Some x)
    then show ?thesis
      using scalar [OF Some] w(1-3) [of x] C(5) fits(2) p(1) max by (auto simp: member_value_def parser_inv_def)
  next
    case None
    have "json_wf (Jarray [])" "json_wf (Jobject [])" by simp_all
    then show ?thesis
      using None w(1-5) [of "Jarray []"] w(1-5) [of "Jobject []"] C(5) p(1) len max fits(2)
      by (auto simp: member_value_def parser_inv_def state_fits_def)
  qed
qed

lemma string_loop_valid: "string_loop first str buf = (Some s, r) \<Longrightarrow> utf8_validate s False"
proof (induction first str buf rule: string_loop.induct)
  case (2 first str c buf)
  show ?case
  proof (cases "string_round first str c buf")
    case (Inl a)
    have "x = None \<or> utf8_validate (the x) False" if "string_round first str c buf = Inl (x, q)" for x q
      using that unfolding string_round_def string_escape_def by (auto split: if_splits list.splits prod.splits option.splits)
    then show ?thesis using "2.prems" Inl by fastforce
  next
    case (Inr y)
    obtain f t q where y: "y = (f, t, q)" by (cases y)
    then show ?thesis using "2.IH" [OF Inr y [symmetric] refl] "2.prems" Inr by simp
  qed
qed simp

lemma tock_next_valid: "tock_next rd buf line = (Tock_str s, r, l) \<Longrightarrow> utf8_validate s False"
proof (induction rd buf line rule: tock_next.induct)
  case (2 rd c buf line)
  show ?case
  proof (cases "tock_round rd c buf line")
    case (Inl a)
    have "utf8_validate s False" if "tock_round rd c buf line = Inl (Tock_str s, r, l)"
    proof (cases "c = DQUOTE")
      case True
      then show ?thesis using that string_loop_valid
        by (auto simp: tock_round_def parse_string_def split: prod.splits option.splits)
    next
      case False
      then show ?thesis using that unfolding tock_round_def literal_def
        by (auto split: if_splits prod.splits option.splits list.splits)
    qed
    then show ?thesis using "2.prems" Inl by simp
  next
    case (Inr y)
    obtain q m where y: "y = (q, m)" by (cases y)
    then show ?thesis using "2.IH" [OF Inr y [symmetric]] "2.prems" Inr by simp
  qed
qed simp

lemma store_member:
  "valid_ref R ref \<Longrightarrow> assign (assign R ref (\<lambda>_. Jobject (smap_put k Jundefined m))) (ref @ [Member k]) (\<lambda>_. w)
     = assign R ref (\<lambda>_. Jobject (smap_put k w m))"
  by (simp add: assign_append assign_assign smap_find_put smap_put_put)

lemma store_element:
  "valid_ref R ref \<Longrightarrow> assign (assign R ref (\<lambda>_. Jarray (a @ [Jundefined]))) (ref @ [Element (length a)]) (\<lambda>_. w)
     = assign R ref (\<lambda>_. Jarray (a @ [w]))"
  by (simp add: assign_append assign_assign)

lemma json_wf_deref: "valid_ref R ref \<Longrightarrow> json_wf R \<Longrightarrow> json_wf (deref R ref)"
proof (induction R ref rule: valid_ref.induct)
  case (2 m k p)
  then obtain v where v: "smap_find m k = Some v" "valid_ref v p" by (auto split: option.splits)
  then have "json_wf v" using 2 smap_find_Some_in [OF v(1)] by (fastforce simp: members_wf_iff)
  then show ?case using 2 v by simp
qed (auto simp: items_wf_iff)

lemma step_inv_open:
  assumes p: "ps_state p \<noteq> St_error" "json_wf (ps_result p)" "stack_ok (ps_result p) (ps_state p) (ps_stack p)"
    "json_depth (ps_result p) \<le> json_max_depth" "ps_stack p = (after, ref) # S"
    "ps_state p \<in> {St_object_colon_expected, St_object_value_expected} \<longrightarrow> utf8_validate (ps_key p) False"
    and c: "\<And>t. c = Tock_str t \<Longrightarrow> utf8_validate t False"
  shows "\<exists>p'. json_step c p = Inr p' \<and> parser_inv p'"
proof -
  let ?R = "ps_result p"
  have so: "stack_ok ?R (ps_state p) ((after, ref) # S)" using p(3,5) by simp
  have v: "valid_ref ?R ref" and fits: "state_fits (ps_state p) (json_type_of (deref ?R ref))" and low: "stack_ok ?R after S" using so by simp_all
  have after: "after \<notin> {St_object_colon_expected, St_object_value_expected}" using so by auto
  have keep: "parser_inv (p\<lparr>ps_state := st\<rparr>)" if "state_fits st (json_type_of (deref ?R ref))"
      "st \<notin> {St_object_colon_expected, St_object_value_expected} \<or> utf8_validate (ps_key p) False" for st
    using that p stack_ok_state [OF so that(1)] by (auto simp: parser_inv_def)
  have pop: "parser_inv (p\<lparr>ps_state := after, ps_stack := S\<rparr>)" using p low after by (auto simp: parser_inv_def)
  have err: "parser_inv (p\<lparr>ps_state := St_error\<rparr>)" by (simp add: parser_inv_def)
  have ob: "\<exists>m. deref ?R ref = Jobject m" if "json_type_of (deref ?R ref) = Is_object" using that by (cases "deref ?R ref") auto
  have ar: "\<exists>a. deref ?R ref = Jarray a" if "json_type_of (deref ?R ref) = Is_array" using that by (cases "deref ?R ref") auto
  have wf: "json_wf (deref ?R ref)" using json_wf_deref [OF v p(2)] .
  show ?thesis
  proof (cases "ps_state p")
    case St_object_value_expected
    then obtain m where m: "deref ?R ref = Jobject m" using fits ob by (auto simp: state_fits_def)
    have k: "utf8_validate (ps_key p) False" using p(6) St_object_value_expected by simp
    have "parser_inv (member_value c (ref @ [Member (ps_key p)]) St_object_close_or_comma_expected
        (p\<lparr>ps_result := assign ?R ref (\<lambda>_. Jobject (smap_put (ps_key p) Jundefined m))\<rparr>))"
    proof (rule member_value_inv [OF p(5,2) so p(4), of _ "\<lambda>w. Jobject (smap_put (ps_key p) w m)" "Member (ps_key p)"])
      fix w :: "'a json"
      have sub: "set (smap_put (ps_key p) w m) \<subseteq> insert (ps_key p, w) (set m)" by (rule set_smap_put_subset)
      show "json_wf (Jobject (smap_put (ps_key p) w m))" if "json_wf w"
        using that wf m k sub by (auto simp: members_wf_iff smap_ok_put)
      have "members_depth (smap_put (ps_key p) w m) \<le> max (members_depth m) (json_depth w)" by (rule members_depth_put)
      then show "json_depth (Jobject (smap_put (ps_key p) w m)) \<le> max (json_depth (deref ?R ref)) (Suc (json_depth w))" using m by simp
    qed (use m v c in \<open>simp_all add: state_fits_def smap_find_put store_member\<close>)
    then show ?thesis using St_object_value_expected p(5) m err by (auto simp: json_step_def Let_def)
  next
    case St_array_value_or_close_expected
    then obtain a where a: "deref ?R ref = Jarray a" using fits ar by (auto simp: state_fits_def)
    have "parser_inv (member_value c (ref @ [Element (length a)]) St_array_close_or_comma_expected
        (p\<lparr>ps_result := assign ?R ref (\<lambda>_. Jarray (a @ [Jundefined]))\<rparr>))"
    proof (rule member_value_inv [OF p(5,2) so p(4), of _ "\<lambda>w. Jarray (a @ [w])" "Element (length a)"])
      fix w :: "'a json"
      show "json_wf (Jarray (a @ [w]))" if "json_wf w" using that wf a by (auto simp: items_wf_iff)
      have "items_depth (a @ [w]) \<le> max (items_depth a) (json_depth w)"
        using items_depth_le [of a "items_depth a"] by (auto simp: items_depth_le le_max_iff_disj)
      then show "json_depth (Jarray (a @ [w])) \<le> max (json_depth (deref ?R ref)) (Suc (json_depth w))" using a by simp
    qed (use a v c in \<open>simp_all add: state_fits_def store_element\<close>)
    then show ?thesis using St_array_value_or_close_expected p(5) a pop by (auto simp: json_step_def Let_def)
  next
    case St_object_key_or_close_expected
    have "parser_inv (p\<lparr>ps_key := t, ps_state := St_object_colon_expected\<rparr>)" if "c = Tock_str t" for t
      using c [OF that] p(2,4,5) stack_ok_state [OF so, of St_object_colon_expected] fits St_object_key_or_close_expected
      by (auto simp: parser_inv_def state_fits_def)
    then show ?thesis using St_object_key_or_close_expected p(5) pop err by (cases c) (auto simp: json_step_def Let_def)
  next
    case St_object_colon_expected
    then show ?thesis using keep [of St_object_value_expected] fits p(6) err by (auto simp: json_step_def state_fits_def Let_def)
  next
    case St_object_close_or_comma_expected
    then show ?thesis using keep [of St_object_key_or_close_expected] fits p(5) pop err by (auto simp: json_step_def state_fits_def Let_def)
  next
    case St_array_close_or_comma_expected
    then show ?thesis using keep [of St_array_value_or_close_expected] fits p(5) pop err by (auto simp: json_step_def state_fits_def Let_def)
  qed (use fits p(1) in \<open>auto simp: state_fits_def\<close>)
qed

lemma step_inv_new:
  assumes "\<And>t. c = Tock_str t \<Longrightarrow> utf8_validate t False"
  shows "\<exists>p'. json_step c json_parser_new = Inr p' \<and> parser_inv p'"
proof -
  have d: "1 \<le> json_max_depth" by (simp add: json_max_depth_def)
  show ?thesis
  proof (cases "tock_value c")
    case (Some x)
    then have "json_wf x \<and> json_depth x = 0 \<and> c \<noteq> Tock_char (CHR ''['') \<and> c \<noteq> Tock_char (CHR ''{'')" using assms by (cases c) auto
    then show ?thesis using Some by (simp add: json_step_def json_parser_new_def parser_inv_def)
  next
    case None
    then show ?thesis using d by (simp add: json_step_def json_parser_new_def parser_inv_def state_fits_def Let_def)
  qed
qed

lemma json_loop_inv: "parser_inv p \<Longrightarrow> \<exists>p' r l. json_loop rd p buf line = Inr (p', r, l) \<and> parser_inv p' \<and> \<not> runs p'"
proof (induction rd p buf line rule: json_loop.induct)
  case (1 rd p buf line)
  show ?case
  proof (cases "runs p")
    case False
    then show ?thesis using "1.prems" by (subst json_loop.simps) simp
  next
    case True
    obtain c r l where t: "tock_next rd buf line = (c, r, l)" by (cases "tock_next rd buf line")
    have valid: "\<And>s. c = Tock_str s \<Longrightarrow> utf8_validate s False" using t tock_next_valid by blast
    obtain p' where p': "json_step c p = Inr p'" "parser_inv p'"
    proof (cases "p = json_parser_new")
      case True
      then show thesis using step_inv_new [OF valid] that by blast
    next
      case False
      obtain x S where "ps_stack p = x # S" using True by (cases "ps_stack p") (auto simp: runs_def)
      moreover obtain after ref where "x = (after, ref)" by (cases x)
      ultimately show thesis using step_inv_open [OF _ _ _ _ _ _ valid, of p after ref S] "1.prems" False True that
        by (auto simp: parser_inv_def runs_def)
    qed
    then show ?thesis using "1.IH" [OF True t [symmetric] refl p'(1) p'(2)] True t by (subst json_loop.simps) simp
  qed
qed

text \<open>
  C38. The parser is safe on every input.  Parsing ends, never meets a value of an unexpected type (the exception of
  the accessors cannot happen), and a value it returns is well formed: it has no undefined parts, all strings and keys
  are valid UTF-8, no key occurs twice, it is nested at most 512 deep, and so it can be written again.
\<close>

theorem json_parse_safe:
  "\<exists>r rest l. parse_stream rd s full = Inr (r, rest, l)
     \<and> (\<forall>v. r = Some v \<longrightarrow> json_wf v \<and> json_depth v \<le> json_max_depth)"
proof -
  have "parser_inv json_parser_new" by (simp add: parser_inv_def)
  then obtain p r l where p: "json_loop rd json_parser_new s 1 = Inr (p, r, l)" "parser_inv p" "\<not> runs p"
    using json_loop_inv by blast
  have "json_wf (ps_result p) \<and> json_depth (ps_result p) \<le> json_max_depth" if st: "ps_state p = St_done"
  proof -
    have "p \<noteq> json_parser_new" using st by (auto simp: json_parser_new_def)
    then have i: "json_wf (ps_result p)" "stack_ok (ps_result p) St_done (ps_stack p)"
      "json_depth (ps_result p) \<le> max json_max_depth (length (ps_stack p))" using p(2) st by (auto simp: parser_inv_def)
    then have "ps_stack p = []" by (cases "ps_stack p") (auto simp: state_fits_def)
    then show ?thesis using i by simp
  qed
  then show ?thesis using p(1) by (auto simp: parse_stream_def split: prod.splits tock.splits)
qed

theorem json_parse_safe_witness:
  "\<exists>r rest l. parse_stream read_integer (''[1,[]'' @ [LF] @ ''] '') True = Inr (r, rest, l)
     \<and> (\<forall>v. r = Some v \<longrightarrow> json_wf v \<and> json_depth v \<le> json_max_depth)"
  using json_parse_safe [of read_integer "''[1,[]'' @ [LF] @ ''] ''" True] .

text \<open>A departure from JSON and a slip: a comma in front of a closing bracket is accepted, and the line feed behind a
  comment is not counted, so the line number of an error is too small.\<close>

theorem comment_line_not_counted:
  "json_load read_integer (''[// one'' @ [LF] @ ''// two'' @ [LF] @ ''?]'') True Jnull = Inr (False, Jnull, Some 1)"
  by code_simp

theorem trailing_comma_accepted: "json_load read_integer ''[1,]'' True Jnull = Inr (True, Jarray [Jnumber 1], None)"
  by code_simp

end
