(* ===== verification/Content_Type.thy ===== *)
theory Content_Type
  imports Http_Cookie
begin

text \<open>
  \<^verbatim>\<open>src/http_content_type.cpp\<close>: the parsed form of a \<^verbatim>\<open>Content-Type\<close> header, which decides how the body of a request is
  read, and whose \<^verbatim>\<open>boundary\<close> parameter cuts a multipart body into parts.
\<close>

record content_type =
  ct_type :: string
  ct_subtype :: string
  ct_media_type :: string
  ct_parameters :: "(string, string) smap"

definition content_type_empty :: content_type where
  "content_type_empty = \<lparr>ct_type = [], ct_subtype = [], ct_media_type = [], ct_parameters = []\<rparr>"

text \<open>\<^verbatim>\<open>std::map::insert\<close> keeps the value that is there.\<close>

definition smap_insert :: "'k::linorder \<Rightarrow> 'v \<Rightarrow> ('k, 'v) smap \<Rightarrow> ('k, 'v) smap" where
  "smap_insert k v m = (case smap_find m k of Some _ \<Rightarrow> m | None \<Rightarrow> smap_put k v m)"

text \<open>The value of a parameter, a quoted string or a token, and what follows.\<close>

definition param_value :: "string \<Rightarrow> (string \<times> string) option" where
  "param_value begin =
     (if begin = [] then None
      else if hd begin = DQUOTE then
        (case unquote begin of (value, tmp) \<Rightarrow> if tmp = begin then None else Some (value, tmp))
      else (let tmp = tocken begin in if tmp = begin then None else Some (str_range begin tmp, tmp)))"

text \<open>A round of the loop over the parameters: one parameter and the rest, or a \<^verbatim>\<open>return\<close>.\<close>

definition next_parameter :: "string \<Rightarrow> (string \<times> string \<times> string) option" where
  "next_parameter begin =
     (let b1 = skip_ws begin in
      if b1 = [] \<or> hd b1 \<noteq> CHR '';'' \<or> skip_ws (tl b1) = [] then None
      else
        (let b2 = skip_ws (tl b1); param_end = tocken b2 in
         if param_end = b2 then None
         else
           (let param = map ascii_to_lower (str_range b2 param_end); b3 = skip_ws param_end in
            if b3 = [] \<or> hd b3 \<noteq> CHR ''='' then None
            else map_option (\<lambda>(value, r). (param, value, r)) (param_value (skip_ws (tl b3))))))"

lemma param_value_length: "param_value s = Some (v, r) \<Longrightarrow> length r \<le> length s"
  using unquote_length [of s] tocken_length [of s]
  by (auto simp: param_value_def Let_def split: if_splits prod.splits)

lemma next_parameter_length: "next_parameter s = Some (k, v, r) \<Longrightarrow> length r < length s"
proof -
  assume a: "next_parameter s = Some (k, v, r)"
  let ?b1 = "skip_ws s"
  have b1: "?b1 \<noteq> []" using a by (auto simp: next_parameter_def Let_def split: if_splits)
  have "param_value (skip_ws (tl (skip_ws (tocken (skip_ws (tl ?b1)))))) = Some (v, r)"
    using a by (auto simp: next_parameter_def Let_def split: if_splits)
  from param_value_length [OF this] have "length r \<le> length (tl ?b1)"
    using skip_ws_length [of "tl (skip_ws (tocken (skip_ws (tl ?b1))))"] skip_ws_length [of "tocken (skip_ws (tl ?b1))"]
      tocken_length [of "skip_ws (tl ?b1)"] skip_ws_length [of "tl ?b1"] by simp
  also have "\<dots> < length ?b1" using b1 by simp
  also have "\<dots> \<le> length s" by (rule skip_ws_length)
  finally show ?thesis .
qed

function parse_parameters :: "string \<Rightarrow> (string, string) smap \<Rightarrow> (string, string) smap" where
  "parse_parameters begin params =
     (case next_parameter begin of
        None \<Rightarrow> params
      | Some (param, value, r) \<Rightarrow> parse_parameters r (smap_insert param value params))"
  by auto
termination
  by (relation "measure (\<lambda>(s, _). length s)") (auto dest: next_parameter_length)

declare parse_parameters.simps [simp del]

definition content_type_parse :: "string \<Rightarrow> content_type" where
  "content_type_parse s =
     (let begin = skip_ws s; type_end = tocken begin in
      if begin = [] \<or> type_end = begin then content_type_empty
      else if type_end = [] \<or> hd type_end \<noteq> CHR ''/'' then content_type_empty
      else
        (let begin2 = tl type_end; subtype_end = tocken begin2 in
         if subtype_end = begin2 then content_type_empty
         else
           (let ty = map ascii_to_lower (str_range begin type_end); sub = map ascii_to_lower (str_range begin2 subtype_end)
            in \<lparr>ct_type = ty, ct_subtype = sub, ct_media_type = ty @ ''/'' @ sub,
                ct_parameters = parse_parameters subtype_end []\<rparr>)))"

definition parameter_by_key :: "content_type \<Rightarrow> string \<Rightarrow> string" where
  "parameter_by_key d key = (case smap_find (ct_parameters d) key of None \<Rightarrow> [] | Some v \<Rightarrow> v)"

definition parameter_is_set :: "content_type \<Rightarrow> string \<Rightarrow> bool" where
  "parameter_is_set d key \<longleftrightarrow> smap_find (ct_parameters d) key \<noteq> None"

definition ct_charset :: "content_type \<Rightarrow> string" where
  "ct_charset d = parameter_by_key d ''charset''"

definition is_form_urlencoded :: "content_type \<Rightarrow> bool" where
  "is_form_urlencoded d \<longleftrightarrow> ct_media_type d = ''application/x-www-form-urlencoded''"

definition is_multipart_form_data :: "content_type \<Rightarrow> bool" where
  "is_multipart_form_data d \<longleftrightarrow> ct_media_type d = ''multipart/form-data''"

section \<open>Reading a written header\<close>

text \<open>The header of a type and parameters, each value as a token or as a quoted string.\<close>

definition param_text :: "string \<times> bool \<times> string \<Rightarrow> string" where
  "param_text p = (case p of (k, quoted, v) \<Rightarrow> ''; '' @ k @ ''='' @ (if quoted then quote v else v))"

definition content_type_text :: "string \<Rightarrow> string \<Rightarrow> (string \<times> bool \<times> string) list \<Rightarrow> string" where
  "content_type_text ty sub ps = ty @ ''/'' @ sub @ concat (map param_text ps)"

definition token :: "string \<Rightarrow> bool" where
  "token s \<longleftrightarrow> s \<noteq> [] \<and> list_all tchar s"

definition param_ok :: "string \<times> bool \<times> string \<Rightarrow> bool" where
  "param_ok p \<longleftrightarrow> (case p of (k, quoted, v) \<Rightarrow>
     token k \<and> (if quoted then DQUOTE \<notin> set v \<and> BSLASH \<notin> set v else token v))"

lemma param_rest: "concat (map param_text ps) = [] \<or> hd (concat (map param_text ps)) = CHR '';''"
  by (cases ps) (auto simp: param_text_def split: prod.split)

lemma param_value_text:
  assumes "if quoted then DQUOTE \<notin> set v \<and> BSLASH \<notin> set v else token v" "r = [] \<or> hd r = CHR '';''"
  shows "param_value (skip_ws ((if quoted then quote v else v) @ r)) = Some (v, r)"
proof (cases quoted)
  case True
  then have v: "DQUOTE \<notin> set v" "BSLASH \<notin> set v" using assms(1) by auto
  have "unquote (quote v @ r) = (v, r)" using unquote_loop_quote [OF v, of "[]" r] by (simp add: unquote_def quote_def)
  moreover have "skip_ws (quote v @ r) = quote v @ r" by (simp add: quote_def)
  moreover have "hd (quote v @ r) = DQUOTE" "r \<noteq> quote v @ r" by (auto simp: quote_def dest: arg_cong [of _ _ length])
  ultimately show ?thesis using True by (simp add: param_value_def)
next
  case False
  then have v: "v \<noteq> []" "list_all tchar v" "tchar (hd v)" using assms(1) by (auto simp: token_def list.pred_set)
  have "tocken (v @ r) = r" using assms(2) v(2) not_tchar by (intro tocken_append) auto
  moreover have "skip_ws (v @ r) = v @ r" using v by (intro skip_ws_tchar) auto
  moreover have "hd (v @ r) \<noteq> DQUOTE" using v not_tchar by auto
  ultimately show ?thesis using False v(1) by (simp add: param_value_def Let_def)
qed

lemma param_name_text:
  assumes "token k"
  shows "tocken (k @ CHR ''='' # r) = CHR ''='' # r" "skip_ws (k @ CHR ''='' # r) = k @ CHR ''='' # r"
proof -
  have k: "k \<noteq> []" "list_all tchar k" "tchar (hd k)" using assms by (auto simp: token_def list.pred_set)
  show "tocken (k @ CHR ''='' # r) = CHR ''='' # r" using k(2) not_tchar by (intro tocken_append) auto
  show "skip_ws (k @ CHR ''='' # r) = k @ CHR ''='' # r" using k by (intro skip_ws_tchar) auto
qed

lemma next_parameter_text:
  assumes "param_ok (k, quoted, v)" "r = [] \<or> hd r = CHR '';''"
  shows "next_parameter (param_text (k, quoted, v) @ r) = Some (map ascii_to_lower k, v, r)"
proof -
  have k: "token k" "k \<noteq> []" using assms(1) by (auto simp: param_ok_def token_def)
  have "param_value (skip_ws ((if quoted then quote v else v) @ r)) = Some (v, r)"
    using assms by (intro param_value_text) (auto simp: param_ok_def)
  with k param_name_text [OF k(1)] show ?thesis by (simp add: next_parameter_def param_text_def Let_def)
qed

lemma parse_parameters_find:
  "list_all param_ok ps \<Longrightarrow> smap_find (parse_parameters (concat (map param_text ps)) m) key
     = (case smap_find m key of Some v \<Rightarrow> Some v | None \<Rightarrow> map_of (map (\<lambda>(k, _, v). (map ascii_to_lower k, v)) ps) key)"
proof (induction ps arbitrary: m)
  case Nil
  have "next_parameter [] = None" by (simp add: next_parameter_def)
  then show ?case by (subst parse_parameters.simps) (simp split: option.split)
next
  case (Cons p ps)
  obtain k quoted v where p: "p = (k, quoted, v)" by (cases p)
  have "next_parameter (concat (map param_text (p # ps))) = Some (map ascii_to_lower k, v, concat (map param_text ps))"
    using next_parameter_text [of k quoted v] param_rest [of ps] Cons.prems p by simp
  then show ?case using Cons p
    by (subst parse_parameters.simps) (auto simp: smap_insert_def smap_find_put split: option.split)
qed

lemma content_type_read:
  assumes "token ty" "token sub" "list_all param_ok ps"
  shows "ct_media_type (content_type_parse (content_type_text ty sub ps)) = map ascii_to_lower (ty @ ''/'' @ sub)"
    and "parameter_by_key (content_type_parse (content_type_text ty sub ps)) key
      = (case map_of (map (\<lambda>(k, _, v). (map ascii_to_lower k, v)) ps) key of Some v \<Rightarrow> v | None \<Rightarrow> [])"
proof -
  let ?r = "concat (map param_text ps)"
  have slash: "\<not> tchar (CHR ''/'')" "ascii_to_lower (CHR ''/'') = CHR ''/''" by code_simp+
  have t: "ty \<noteq> []" "list_all tchar ty" "tchar (hd ty)" "sub \<noteq> []" "list_all tchar sub" using assms(1,2) by (auto simp: token_def list.pred_set)
  have "skip_ws (ty @ CHR ''/'' # sub @ ?r) = ty @ CHR ''/'' # sub @ ?r" using t by (intro skip_ws_tchar) auto
  moreover have "tocken (ty @ CHR ''/'' # sub @ ?r) = CHR ''/'' # sub @ ?r" using t(2) slash by (intro tocken_append) auto
  moreover have "tocken (sub @ ?r) = ?r" using t(5) param_rest [of ps] not_tchar by (intro tocken_append) auto
  ultimately have "content_type_parse (content_type_text ty sub ps)
      = \<lparr>ct_type = map ascii_to_lower ty, ct_subtype = map ascii_to_lower sub,
         ct_media_type = map ascii_to_lower ty @ ''/'' @ map ascii_to_lower sub, ct_parameters = parse_parameters ?r []\<rparr>"
    using t(1,4) by (simp add: content_type_parse_def content_type_text_def Let_def)
  then show "ct_media_type (content_type_parse (content_type_text ty sub ps)) = map ascii_to_lower (ty @ ''/'' @ sub)"
    "parameter_by_key (content_type_parse (content_type_text ty sub ps)) key
      = (case map_of (map (\<lambda>(k, _, v). (map ascii_to_lower k, v)) ps) key of Some v \<Rightarrow> v | None \<Rightarrow> [])"
    using slash(2) by (simp_all add: parameter_by_key_def parse_parameters_find [OF assms(3)] split: option.split)
qed

end
