(* ===== verification/Multipart.thy ===== *)
theory Multipart
  imports Content_Type Util_Codec
begin

text \<open>
  \<^verbatim>\<open>private/multipart_parser.h\<close>: the parser of \<^verbatim>\<open>multipart/form-data\<close> bodies.  It is fed with pieces of the body and returns
  whenever the headers of a part are complete, a part is complete, or a piece is used up.  Files are what they hold: the
  buffering of \<^verbatim>\<open>http::file\<close> in memory or on disk is a stream that takes a limited number of bytes.
\<close>

section \<open>The parser\<close>

record http_file =
  hf_name :: string
  hf_mime :: string
  hf_filename :: string
  hf_data :: streambuf

definition hf_size :: "http_file \<Rightarrow> nat" where
  "hf_size f = length (written (hf_data f))"

definition has_mime :: "http_file \<Rightarrow> bool" where
  "has_mime f \<longleftrightarrow> hf_mime f \<noteq> []"

datatype parsing_result_type =
  Parsing_error | Meta_ready | Content_partial | Content_ready | Continue_input | Eof | No_room_left

definition result_is_ok :: "parsing_result_type \<Rightarrow> bool" where
  "result_is_ok r \<longleftrightarrow> r = Meta_ready \<or> r = Content_partial \<or> r = Content_ready \<or> r = Continue_input"

datatype states_type =
    Expecting_first_boundary
  | Expecting_one_crlf_or_eof
  | Expecting_minus
  | Expecting_eof_cr
  | Expecting_eof_lf
  | Expecting_lf
  | Expecting_crlfcrlf
  | Expecting_separator_boundary

record multipart_parser =
  mp_state :: states_type
  mp_file :: http_file
  mp_files :: "http_file list"
  mp_position :: nat
  mp_header :: string
  mp_boundary :: string
  mp_file_is_ready :: bool
  mp_room :: nat

text \<open>A new file; \<open>mp_room\<close> is what the storage takes of each file.\<close>

definition new_file :: "nat \<Rightarrow> http_file" where
  "new_file r = \<lparr>hf_name = [], hf_mime = [], hf_filename = [], hf_data = \<lparr>written = [], room = r\<rparr>\<rparr>"

definition multipart_parser_new :: "nat \<Rightarrow> multipart_parser" where
  "multipart_parser_new r =
     \<lparr>mp_state = Expecting_first_boundary, mp_file = new_file r, mp_files = [], mp_position = 0, mp_header = [],
      mp_boundary = [], mp_file_is_ready = False, mp_room = r\<rparr>"

definition crlfcrlf :: string where
  "crlfcrlf = [CR, LF, CR, LF]"

definition set_content_type :: "content_type \<Rightarrow> multipart_parser \<Rightarrow> bool \<times> multipart_parser" where
  "set_content_type ct p =
     (let bkey = parameter_by_key ct ''boundary'' in
      if bkey = [] then (False, p)
      else (True, p\<lparr>mp_boundary := [CR, LF] @ ''--'' @ bkey, mp_position := 2, mp_state := Expecting_first_boundary,
              mp_file := new_file (mp_room p)\<rparr>))"

text \<open>\<^verbatim>\<open>parse_pair\<close>: one \<^verbatim>\<open>;name=value\<close> and the rest.\<close>

definition parse_pair :: "string \<Rightarrow> (string \<times> string \<times> string) option" where
  "parse_pair p =
     (if p = [] \<or> hd p \<noteq> CHR '';'' then None
      else
        (let start = skip_ws (tl p) in
         if start = [] then None
         else
           (let fin = tocken start in
            if fin = start \<or> fin = [] \<or> hd fin \<noteq> CHR ''='' then None
            else map_option (\<lambda>(value, r). (str_range start fin, value, r)) (param_value (skip_ws (tl fin))))))"

lemma parse_pair_length: "parse_pair p = Some (n, v, r) \<Longrightarrow> length r < length p"
proof -
  assume a: "parse_pair p = Some (n, v, r)"
  have p: "p \<noteq> []" using a by (auto simp: parse_pair_def)
  have "param_value (skip_ws (tl (tocken (skip_ws (tl p))))) = Some (v, r)"
    using a by (auto simp: parse_pair_def Let_def split: if_splits)
  from param_value_length [OF this] have "length r \<le> length (tl p)"
    using skip_ws_length [of "tl (tocken (skip_ws (tl p)))"] tocken_length [of "skip_ws (tl p)"] skip_ws_length [of "tl p"] by simp
  also have "\<dots> < length p" using p by simp
  finally show ?thesis .
qed

function disposition_loop :: "string \<Rightarrow> http_file \<Rightarrow> bool \<times> http_file" where
  "disposition_loop p f =
     (if p = [] then (True, f)
      else (case parse_pair p of
          None \<Rightarrow> (False, f)
        | Some (name, value, r) \<Rightarrow>
            disposition_loop (skip_ws r)
              (if map ascii_to_lower name = ''filename'' then f\<lparr>hf_filename := value\<rparr>
               else if map ascii_to_lower name = ''name'' then f\<lparr>hf_name := value\<rparr>
               else f)))"
  by auto
termination
  by (relation "measure (\<lambda>(p, _). length p)")
    (auto dest!: parse_pair_length intro: le_less_trans [OF skip_ws_length])

declare disposition_loop.simps [simp del]

definition parse_content_disposition :: "string \<Rightarrow> http_file \<Rightarrow> bool \<times> http_file" where
  "parse_content_disposition p f = disposition_loop (skip_ws p) f"

text \<open>\<^verbatim>\<open>hdr.find("\r\n",pos)\<close>: the line and what is behind it.\<close>

fun split_crlf :: "string \<Rightarrow> (string \<times> string) option" where
  "split_crlf [] = None"
| "split_crlf (c # s) =
     (if c = CR \<and> s \<noteq> [] \<and> hd s = LF then Some ([], tl s)
      else map_option (\<lambda>(l, r). (c # l, r)) (split_crlf s))"

lemma split_crlf_length: "split_crlf s = Some (l, r) \<Longrightarrow> length r < length s"
  by (induction s arbitrary: l) (auto split: if_splits)

text \<open>One header line of a part.\<close>

definition process_line :: "string \<Rightarrow> http_file \<Rightarrow> bool \<times> http_file" where
  "process_line one_header f =
     (let start = skip_ws one_header; fin = tocken start; header_name = str_range start fin; p = skip_ws fin in
      if p = [] \<or> hd p \<noteq> CHR '':'' then (False, f)
      else
        (let p = skip_ws (tl p) in
         if compare_nocase header_name ''Content-Disposition'' = 0 then
           (let fin = tocken p in
            if compare_nocase (str_range p fin) ''form-data'' \<noteq> 0 then (False, f)
            else parse_content_disposition fin f)
         else if compare_nocase header_name ''Content-Type'' = 0 then
           (True, f\<lparr>hf_mime := ct_media_type (content_type_parse p)\<rparr>)
         else (True, f)))"

function process_header :: "string \<Rightarrow> http_file \<Rightarrow> bool \<times> http_file" where
  "process_header hdr f =
     (case split_crlf hdr of
        None \<Rightarrow> (False, f)
      | Some (one_header, rest) \<Rightarrow>
          if one_header = [] then (True, f)
          else (case process_line one_header f of (ok, f') \<Rightarrow> if ok then process_header rest f' else (False, f')))"
  by auto
termination
  by (relation "measure (\<lambda>(h, _). length h)") (auto dest: split_crlf_length)

declare process_header.simps [simp del]

text \<open>
  One character of \<^verbatim>\<open>consume\<close>: it returns, with or without having moved behind the character, or goes on.  In the last state
  the source has a loop of its own over the content; it does the same for each character and returns at the end of the
  piece what the outer loop returns there.
\<close>

definition content_char :: "multipart_parser \<Rightarrow> char \<Rightarrow> (parsing_result_type \<times> multipart_parser \<times> bool) + multipart_parser" where
  "content_char p c =
     (let b = mp_boundary p; pos = mp_position p; f = mp_file p;
          q = (if c = b ! pos then (True, p\<lparr>mp_position := pos + 1\<rparr>)
               else if pos > 0 then
                 (case sputn (take pos b) (hf_data f) of (n, d) \<Rightarrow>
                    (n = pos, p\<lparr>mp_file := f\<lparr>hf_data := d\<rparr>, mp_position := (if c = b ! 0 then 1 else 0)\<rparr>))
               else (True, p))
      in case q of (ok, p) \<Rightarrow>
        if \<not> ok then Inl (No_room_left, p, False)
        else if mp_position p = 0 then
          (case sputn [c] (hf_data (mp_file p)) of (n, d) \<Rightarrow>
             if n \<noteq> 1 then Inl (No_room_left, p, False)
             else Inr (p\<lparr>mp_file := (mp_file p)\<lparr>hf_data := d\<rparr>\<rparr>))
        else if mp_position p = length b then
          Inl (Content_ready,
            p\<lparr>mp_state := Expecting_one_crlf_or_eof, mp_position := 0, mp_files := mp_files p @ [mp_file p],
              mp_file := new_file (mp_room p), mp_file_is_ready := False\<rparr>, True)
        else Inr p)"

definition consume_char :: "multipart_parser \<Rightarrow> char \<Rightarrow> bool \<Rightarrow> (parsing_result_type \<times> multipart_parser \<times> bool) + multipart_parser" where
  "consume_char p c final =
     (case mp_state p of
        Expecting_first_boundary \<Rightarrow>
          if c \<noteq> mp_boundary p ! mp_position p then Inl (Parsing_error, p, False)
          else if mp_position p + 1 = length (mp_boundary p)
          then Inr (p\<lparr>mp_state := Expecting_one_crlf_or_eof, mp_position := 0\<rparr>)
          else Inr (p\<lparr>mp_position := mp_position p + 1\<rparr>)
      | Expecting_one_crlf_or_eof \<Rightarrow>
          if c = CR then Inr (p\<lparr>mp_state := Expecting_lf\<rparr>)
          else if c = CHR ''-'' then Inr (p\<lparr>mp_state := Expecting_minus\<rparr>)
          else Inl (Parsing_error, p, False)
      | Expecting_minus \<Rightarrow>
          if c \<noteq> CHR ''-'' then Inl (Parsing_error, p, False) else Inr (p\<lparr>mp_state := Expecting_eof_cr\<rparr>)
      | Expecting_eof_cr \<Rightarrow>
          if c \<noteq> CR then Inl (Parsing_error, p, False) else Inr (p\<lparr>mp_state := Expecting_eof_lf\<rparr>)
      | Expecting_eof_lf \<Rightarrow>
          if c \<noteq> LF then Inl (Parsing_error, p, False)
          else if final then Inl (Eof, p, True) else Inl (Parsing_error, p, False)
      | Expecting_lf \<Rightarrow>
          if c \<noteq> LF then Inl (Parsing_error, p, False) else Inr (p\<lparr>mp_state := Expecting_crlfcrlf\<rparr>)
      | Expecting_crlfcrlf \<Rightarrow>
          (let p = p\<lparr>mp_header := mp_header p @ [c],
                 mp_position := (if c = crlfcrlf ! mp_position p then mp_position p + 1 else 0)\<rparr>
           in if mp_position p = length crlfcrlf then
                (case process_header (mp_header p) (mp_file p) of (ok, f) \<Rightarrow>
                   if \<not> ok then Inl (Parsing_error, p\<lparr>mp_file := f\<rparr>, False)
                   else Inl (Meta_ready,
                     p\<lparr>mp_file := f, mp_header := [], mp_position := 0, mp_state := Expecting_separator_boundary,
                       mp_file_is_ready := True\<rparr>, True))
              else Inr p)
      | Expecting_separator_boundary \<Rightarrow> content_char p c)"

fun mp_consume :: "multipart_parser \<Rightarrow> string \<Rightarrow> parsing_result_type \<times> multipart_parser \<times> string" where
  "mp_consume p [] = (if mp_file_is_ready p then Content_partial else Continue_input, p, [])"
| "mp_consume p (c # buffer) =
     (case consume_char p c (buffer = []) of
        Inl (r, p', moved) \<Rightarrow> (r, p', if moved then buffer else c # buffer)
      | Inr p' \<Rightarrow> mp_consume p' buffer)"

end
