(* ===== verification/Request.thy ===== *)
theory Request
  imports Multipart Http_Server
begin

text \<open>
  The body of a request: \<^verbatim>\<open>src/http_request.cpp\<close> with the callbacks of \<^verbatim>\<open>src/http_content_filter.cpp\<close>, the start of the
  processing in \<^verbatim>\<open>src/http_context.cpp\<close> and the loop of \<^verbatim>\<open>src/cgi_api.cpp\<close> that reads the body from the connection.
  Callbacks of an application are functions over a state of the application; they may change the file they are called with
  and may throw.
\<close>

section \<open>Forms in the URL encoding\<close>

type_synonym form_type = "(string \<times> string) list"

text \<open>The result, and the form with what was read, also when the result is \<^verbatim>\<open>false\<close>.\<close>

function parse_form_urlencoded :: "string \<Rightarrow> form_type \<Rightarrow> bool \<times> form_type" where
  "parse_form_urlencoded p out =
     (if p = [] then (True, out)
      else
        (let piece = takeWhile (\<lambda>c. c \<noteq> CHR ''&'') p; name = takeWhile (\<lambda>c. c \<noteq> CHR ''='') piece in
         if name = piece \<or> name = [] then (False, out)
         else parse_form_urlencoded (drop (length piece + 1) p)
                (mm_insert (urldecode name) (urldecode (drop (length name + 1) piece)) out)))"
  by auto
termination
  by (relation "measure (\<lambda>(p, _). length p)") auto

declare parse_form_urlencoded.simps [simp del]

section \<open>Filters\<close>

datatype upload_exc = Abort_upload int | Other_exception

type_synonym 's callback = "'s \<Rightarrow> upload_exc option \<times> 's"
type_synonym 's file_callback = "http_file \<Rightarrow> 's \<Rightarrow> upload_exc option \<times> http_file \<times> 's"

record 's multipart_filter =
  on_new_file :: "'s file_callback"
  on_upload_progress :: "'s file_callback"
  on_data_ready :: "'s file_callback"

text \<open>A filter and what \<^verbatim>\<open>dynamic_cast\<close> finds in it.\<close>

record 's content_filter =
  raw_filter :: "(string \<Rightarrow> 's callback) option"
  multipart_cb :: "'s multipart_filter option"
  on_end_of_content :: "'s callback"
  on_filter_error :: "'s \<Rightarrow> 's"

record content_limits =
  content_length_limit :: int
  multipart_form_data_limit :: int
  file_room :: nat

section \<open>The request\<close>

record 's request =
  rq_get :: form_type
  rq_post :: form_type
  rq_files :: "http_file list"
  rq_cookies :: "(string, cookie) smap"
  rq_content_type :: content_type
  rq_post_data :: string
  rq_limits :: content_limits
  rq_filter :: "'s content_filter option"
  rq_app :: 's
  rq_ready :: bool
  rq_content_length :: int
  rq_read_size :: int
  rq_read_full :: bool
  rq_no_on_error :: bool
  rq_buffer_size :: int
  rq_parser :: "multipart_parser option"

definition request_new :: "content_limits \<Rightarrow> int \<Rightarrow> string \<Rightarrow> 's \<Rightarrow> 's request" where
  "request_new limits bufsize content_type s =
     \<lparr>rq_get = [], rq_post = [], rq_files = [], rq_cookies = [], rq_content_type = content_type_parse content_type,
      rq_post_data = [], rq_limits = limits, rq_filter = None, rq_app = s, rq_ready = False, rq_content_length = 0,
      rq_read_size = 0, rq_read_full = False, rq_no_on_error = False, rq_buffer_size = bufsize, rq_parser = None\<rparr>"

definition setbuf :: "int \<Rightarrow> 's request \<Rightarrow> 's request" where
  "setbuf sz d = d\<lparr>rq_buffer_size := (if sz < 1 then 1 else sz)\<rparr>"

definition set_filter :: "'s content_filter option \<Rightarrow> 's request \<Rightarrow> 's request" where
  "set_filter flt d = d\<lparr>rq_filter := flt\<rparr>"

definition filter_is_raw :: "'s request \<Rightarrow> bool" where
  "filter_is_raw d \<longleftrightarrow> (case rq_filter d of None \<Rightarrow> False | Some f \<Rightarrow> raw_filter f \<noteq> None)"

definition multipart_filter_of :: "'s request \<Rightarrow> 's multipart_filter option" where
  "multipart_filter_of d = (case rq_filter d of None \<Rightarrow> None | Some f \<Rightarrow> multipart_cb f)"

definition prepare :: "string \<Rightarrow> string \<Rightarrow> int \<Rightarrow> 's request \<Rightarrow> 's request" where
  "prepare query cookies content_length d =
     (let (ok, get) = parse_form_urlencoded (cstr query) (rq_get d);
          d = d\<lparr>rq_get := (if ok then get else []), rq_cookies := parse_cookies cookies,
              rq_content_length := content_length\<rparr>
      in if content_length = 0 then d\<lparr>rq_ready := True\<rparr> else d)"

text \<open>
  \<^verbatim>\<open>std::vector<char>::resize\<close>; the size is converted to \<^verbatim>\<open>size_t\<close>, where a negative one is above \<^verbatim>\<open>max_size()\<close> and throws
  \<^verbatim>\<open>std::length_error\<close>.
\<close>

definition vector_resize :: "int \<Rightarrow> string \<Rightarrow> string option" where
  "vector_resize n v = (if n < 0 then None else Some (take (nat n) v @ replicate (nat n - length v) (ch 0)))"

text \<open>What \<^verbatim>\<open>on_content_start\<close> returns, None for an exception that leaves it.\<close>

definition on_content_start :: "'s request \<Rightarrow> (int \<times> 's request) option" where
  "on_content_start d =
     (let ct = rq_content_type d; len = rq_content_length d in
      if len = 0 then Some (0, d)
      else if is_multipart_form_data ct \<and> len > multipart_form_data_limit (rq_limits d) then Some (413, d)
      else if \<not> is_multipart_form_data ct \<and> len > content_length_limit (rq_limits d) then Some (413, d)
      else if \<not> filter_is_raw d \<and> \<not> is_multipart_form_data ct then
        map_option (\<lambda>v. (0, d\<lparr>rq_post_data := v, rq_read_full := True\<rparr>)) (vector_resize len (rq_post_data d))
      else if is_multipart_form_data ct \<and> \<not> filter_is_raw d then
        (case set_content_type ct (multipart_parser_new (file_room (rq_limits d))) of (ok, p) \<Rightarrow>
           Some (if ok then 0 else 400, d\<lparr>rq_parser := Some p\<rparr>))
      else Some (0, d))"

text \<open>The room of the buffer that the next piece goes to.\<close>

definition get_buffer :: "'s request \<Rightarrow> (nat \<times> 's request) option" where
  "get_buffer d =
     (if rq_read_full d then Some (length (rq_post_data d) - nat (rq_read_size d), d)
      else
        (let reminder = rq_content_length d - rq_read_size d;
             sz = (if reminder < rq_buffer_size d then reminder else rq_buffer_size d)
         in map_option (\<lambda>v. (length v, d\<lparr>rq_post_data := v\<rparr>)) (vector_resize sz (rq_post_data d))))"

text \<open>The connection puts the characters it has read at the beginning of that buffer.\<close>

definition buffer_offset :: "'s request \<Rightarrow> nat" where
  "buffer_offset d = (if rq_read_full d then nat (rq_read_size d) else 0)"

definition read_into :: "string \<Rightarrow> 's request \<Rightarrow> 's request" where
  "read_into data d =
     (let i = buffer_offset d; v = rq_post_data d in d\<lparr>rq_post_data := take i v @ data @ drop (i + length data) v\<rparr>)"

section \<open>A piece of the body\<close>

definition size_ok :: "http_file \<Rightarrow> int \<Rightarrow> bool" where
  "size_ok f sz \<longleftrightarrow> \<not> (\<not> has_mime f \<and> int (hf_size f) > sz)"

definition caught :: "upload_exc \<Rightarrow> 's request \<Rightarrow> int \<times> 's request" where
  "caught e d = (case e of Abort_upload code \<Rightarrow> code | Other_exception \<Rightarrow> 500, d\<lparr>rq_no_on_error := True\<rparr>)"

definition get_file :: "multipart_parser \<Rightarrow> http_file option" where
  "get_file p = (if mp_file_is_ready p then Some (mp_file p) else None)"

definition last_file :: "multipart_parser \<Rightarrow> http_file option" where
  "last_file p = (if mp_files p = [] then None else Some (last (mp_files p)))"

text \<open>A callback on the current file, and on the file that has just been completed; without a filter nothing is called.\<close>

definition call_current :: "('s multipart_filter \<Rightarrow> 's file_callback) \<Rightarrow> http_file \<Rightarrow> multipart_parser \<Rightarrow> 's request
    \<Rightarrow> (int \<times> 's request) + 's request" where
  "call_current cb f p d =
     (case multipart_filter_of d of
        None \<Rightarrow> Inr d
      | Some flt \<Rightarrow>
          (case cb flt f (rq_app d) of (e, f', s) \<Rightarrow>
             (let d' = d\<lparr>rq_app := s, rq_parser := Some (p\<lparr>mp_file := f'\<rparr>)\<rparr> in
              case e of None \<Rightarrow> Inr d' | Some x \<Rightarrow> Inl (caught x d'))))"

definition call_last :: "('s multipart_filter \<Rightarrow> 's file_callback) \<Rightarrow> http_file \<Rightarrow> multipart_parser \<Rightarrow> 's request
    \<Rightarrow> (int \<times> 's request) + 's request" where
  "call_last cb f p d =
     (case multipart_filter_of d of
        None \<Rightarrow> Inr d
      | Some flt \<Rightarrow>
          (case cb flt f (rq_app d) of (e, f', s) \<Rightarrow>
             (let d' = d\<lparr>rq_app := s, rq_parser := Some (p\<lparr>mp_files := butlast (mp_files p) @ [f']\<rparr>)\<rparr> in
              case e of None \<Rightarrow> Inr d' | Some x \<Rightarrow> Inl (caught x d'))))"

text \<open>The \<^verbatim>\<open>switch\<close> over the result of the parser: a return of \<^verbatim>\<open>on_content_progress\<close> or the next round.\<close>

definition parser_event :: "parsing_result_type \<Rightarrow> multipart_parser \<Rightarrow> string \<Rightarrow> 's request \<Rightarrow> (int \<times> 's request) + 's request" where
  "parser_event r p begin d =
     (let allowed = content_length_limit (rq_limits d) in
      case r of
        Meta_ready \<Rightarrow>
          (if multipart_filter_of d = None then Inr d
           else (case get_file p of
               None \<Rightarrow> Inl (caught Other_exception d)
             | Some f \<Rightarrow> call_current on_new_file f p d))
      | Content_partial \<Rightarrow>
          (case get_file p of
             None \<Rightarrow> Inl (caught Other_exception d)
           | Some f \<Rightarrow> if \<not> size_ok f allowed then Inl (413, d) else call_current on_upload_progress f p d)
      | Content_ready \<Rightarrow>
          (case last_file p of
             None \<Rightarrow> Inl (caught Other_exception d)
           | Some f \<Rightarrow> if \<not> size_ok f allowed then Inl (413, d) else call_last on_data_ready f p d)
      | Continue_input \<Rightarrow> Inr d
      | No_room_left \<Rightarrow> Inl (413, d)
      | Eof \<Rightarrow> if begin \<noteq> [] then Inl (400, d) else if rq_read_size d \<noteq> rq_content_length d then Inl (400, d) else Inr d
      | Parsing_error \<Rightarrow> Inl (400, d))"

lemma mp_consume_progress:
  "mp_consume p s = (r, p', s') \<Longrightarrow> s \<noteq> [] \<Longrightarrow> r \<noteq> Parsing_error \<Longrightarrow> r \<noteq> No_room_left \<Longrightarrow> length s' < length s"
proof (induction s arbitrary: p)
  case (Cons c s)
  have moved: "x = (r0, p0, m) \<Longrightarrow> m \<or> r0 = Parsing_error \<or> r0 = No_room_left"
    if "consume_char p c b = Inl x" for x r0 p0 m b
    using that by (cases "mp_state p")
      (auto simp: consume_char_def content_char_def Let_def split: if_splits prod.splits)
  show ?case
  proof (cases "consume_char p c (s = [])")
    case (Inl x)
    then show ?thesis using Cons.prems moved [OF Inl] by (cases x) auto
  next
    case (Inr p1)
    then have p1: "mp_consume p1 s = (r, p', s')" using Cons.prems by simp
    show ?thesis using Cons.IH [OF p1] p1 Cons.prems by (cases "s = []") auto
  qed
qed simp

function upload_loop :: "string \<Rightarrow> parsing_result_type \<Rightarrow> 's request \<Rightarrow> (int \<times> 's request) + parsing_result_type \<times> 's request" where
  "upload_loop begin r d =
     (case rq_parser d of
        None \<Rightarrow> Inr (r, d)
      | Some p \<Rightarrow>
          if begin = [] then Inr (r, d)
          else (case mp_consume p begin of (r', p', begin') \<Rightarrow>
            (case parser_event r' p' begin' (d\<lparr>rq_parser := Some p'\<rparr>) of
               Inl x \<Rightarrow> Inl x
             | Inr d' \<Rightarrow> upload_loop begin' r' d')))"
  by auto
termination
proof (relation "measure (\<lambda>(b, _, _). length b)", goal_cases)
  case (2 b r d p r' y p' b' d')
  then have "r' \<noteq> Parsing_error" "r' \<noteq> No_room_left" by (auto simp: parser_event_def Let_def)
  with 2 show ?case using mp_consume_progress [of p b r' p' b'] by simp
qed simp

declare upload_loop.simps [simp del]

text \<open>The end of the body: the form is read, the filter is told, the parts become fields and files.\<close>

definition add_part :: "http_file \<Rightarrow> 's request \<Rightarrow> 's request" where
  "add_part f d = (if \<not> has_mime f then d\<lparr>rq_post := mm_insert (hf_name f) (written (hf_data f)) (rq_post d)\<rparr>
     else d\<lparr>rq_files := rq_files d @ [f]\<rparr>)"

definition content_end :: "'s request \<Rightarrow> int \<times> 's request" where
  "content_end d =
     (let d1 = (if rq_read_full d then
                  (if is_form_urlencoded (rq_content_type d)
                   then d\<lparr>rq_post := snd (parse_form_urlencoded (rq_post_data d) (rq_post d))\<rparr> else d)
                else d\<lparr>rq_post_data := []\<rparr>);
          (e, d2) = (case rq_filter d1 of
              None \<Rightarrow> (None, d1)
            | Some flt \<Rightarrow> (case on_end_of_content flt (rq_app d1) of (e, s) \<Rightarrow> (e, d1\<lparr>rq_app := s\<rparr>)))
      in case e of
           Some x \<Rightarrow> caught x d2
         | None \<Rightarrow>
             (let d3 = (case rq_parser d2 of
                  None \<Rightarrow> d2
                | Some p \<Rightarrow> fold add_part (mp_files p) (d2\<lparr>rq_parser := None\<rparr>))
              in (0, d3\<lparr>rq_ready := True\<rparr>)))"

text \<open>\<open>on_content_progress\<close> with the \<open>n\<close> characters that are in the buffer.\<close>

definition on_content_progress :: "nat \<Rightarrow> 's request \<Rightarrow> int \<times> 's request" where
  "on_content_progress n d =
     (if n = 0 then (0, d)
      else
        (let begin = take n (rq_post_data d); d1 = d\<lparr>rq_read_size := rq_read_size d + int n\<rparr>;
             (e, d2) = (case rq_filter d1 of
                 None \<Rightarrow> (None, d1)
               | Some flt \<Rightarrow> (case raw_filter flt of
                     None \<Rightarrow> (None, d1)
                   | Some cb \<Rightarrow> (case cb begin (rq_app d1) of (e, s) \<Rightarrow> (e, d1\<lparr>rq_app := s\<rparr>))))
         in case e of
              Some x \<Rightarrow> caught x d2
            | None \<Rightarrow>
                (case upload_loop begin Continue_input d2 of
                   Inl x \<Rightarrow> x
                 | Inr (r, d3) \<Rightarrow>
                     if rq_parser d3 \<noteq> None \<and> rq_read_size d3 = rq_content_length d3 \<and> r \<noteq> Eof then (400, d3)
                     else if rq_read_size d3 = rq_content_length d3 then content_end d3
                     else (0, d3))))"

definition on_error :: "'s request \<Rightarrow> 's request" where
  "on_error d = (if rq_no_on_error d then d
     else case rq_filter d of None \<Rightarrow> d | Some flt \<Rightarrow> d\<lparr>rq_app := on_filter_error flt (rq_app d)\<rparr>)"

section \<open>Access to forms\<close>

definition form_value :: "form_type \<Rightarrow> string \<Rightarrow> string" where
  "form_value form name = (case mm_values form name of [v] \<Rightarrow> v | _ \<Rightarrow> [])"

definition request_get :: "string \<Rightarrow> 's request \<Rightarrow> string" where
  "request_get name d = form_value (rq_get d) name"

definition request_post :: "string \<Rightarrow> 's request \<Rightarrow> string" where
  "request_post name d = form_value (rq_post d) name"

definition post_or_get :: "string \<Rightarrow> 's request \<Rightarrow> form_type" where
  "post_or_get request_method d = (if request_method = ''POST'' then rq_post d else rq_get d)"

definition cookie_by_name :: "string \<Rightarrow> 's request \<Rightarrow> cookie" where
  "cookie_by_name name d = (case smap_find (rq_cookies d) name of None \<Rightarrow> cookie_default | Some c \<Rightarrow> c)"

definition raw_post_data :: "'s request \<Rightarrow> string" where
  "raw_post_data d = rq_post_data d"

section \<open>Loading a request\<close>

text \<open>
  The pool that the URL belongs to: its flags and how it makes an application, which may install a filter from its \<^verbatim>\<open>main\<close>.
\<close>

record 's app_pool =
  ap_synchronous :: bool
  ap_content_filter :: bool
  ap_main :: "('s request \<Rightarrow> upload_exc option \<times> 's request) option"

definition translate_exception :: "upload_exc \<Rightarrow> int" where
  "translate_exception e = (case e of Abort_upload code \<Rightarrow> code | Other_exception \<Rightarrow> 500)"

definition on_headers_ready :: "'s app_pool option \<Rightarrow> string \<Rightarrow> string \<Rightarrow> int \<Rightarrow> 's request \<Rightarrow> (int \<times> 's request) option" where
  "on_headers_ready pool query cookies content_length d =
     (case pool of
        None \<Rightarrow> Some (404, d)
      | Some ap \<Rightarrow>
          (let d1 = prepare query cookies content_length d in
           if rq_content_length d1 \<noteq> 0 \<and> \<not> ap_synchronous ap \<and> ap_content_filter ap then
             (case ap_main ap of
                None \<Rightarrow> Some (500, d1)
              | Some main \<Rightarrow>
                  (case main d1 of
                     (Some e, d2) \<Rightarrow> Some (translate_exception e, d2)
                   | (None, d2) \<Rightarrow> on_content_start d2))
           else on_content_start d1))"

text \<open>
  The connection: what the client sends, and for each read how much of it is there; a read that has nothing left reports an
  error.  An exception that is not caught here leaves the event loop.
\<close>

datatype load_result = Load_completed | Load_error int | Load_aborted | Load_waiting | Load_exception

fun on_some_content_read :: "nat list \<Rightarrow> string \<Rightarrow> nat \<Rightarrow> 's request \<Rightarrow> load_result \<times> 's request" where
  "on_some_content_read [] input avail d = (Load_waiting, d)"
| "on_some_content_read (n # reads) input avail d =
     (if input = [] then (Load_aborted, d)
      else
        (let data = take (min (max 1 n) avail) input in
         case on_content_progress (length data) (read_into data d) of (status, d1) \<Rightarrow>
           if status \<noteq> 0 then (Load_error status, d1)
           else (case get_buffer d1 of
               None \<Rightarrow> (Load_exception, d1)
             | Some (avail', d2) \<Rightarrow>
                 if avail' = 0 then (Load_completed, d2)
                 else on_some_content_read reads (drop (length data) input) avail' d2)))"

definition load_content :: "'s app_pool option \<Rightarrow> string \<Rightarrow> string \<Rightarrow> int \<Rightarrow> nat list \<Rightarrow> string \<Rightarrow> 's request \<Rightarrow> load_result \<times> 's request" where
  "load_content pool query cookies content_length reads input d =
     (case on_headers_ready pool query cookies content_length d of
        None \<Rightarrow> (Load_exception, d)
      | Some (status, d1) \<Rightarrow>
          if status \<noteq> 0 then (Load_error status, d1)
          else if rq_content_length d1 \<noteq> 0 then
            (case get_buffer d1 of
               None \<Rightarrow> (Load_exception, d1)
             | Some (avail, d2) \<Rightarrow> on_some_content_read reads input avail d2)
          else (Load_completed, d1))"

end
