(* ===== verification/Multipart_Correct.thy ===== *)
theory Multipart_Correct
  imports Multipart
begin

text \<open>
  What the multipart parser makes of a body.  A body is written from a list of parts and read back character by character;
  since the parser keeps everything it knows between two characters in its state, the result does not depend on how the body
  is cut into pieces.
\<close>

section \<open>Character by character\<close>

definition mp_step :: "multipart_parser \<Rightarrow> char \<Rightarrow> multipart_parser option" where
  "mp_step p c = (case consume_char p c False of
     Inl (r, p', _) \<Rightarrow> if r = Meta_ready \<or> r = Content_ready then Some p' else None
   | Inr p' \<Rightarrow> Some p')"

fun mp_steps :: "multipart_parser \<Rightarrow> string \<Rightarrow> multipart_parser option" where
  "mp_steps p [] = Some p"
| "mp_steps p (c # s) = (case mp_step p c of None \<Rightarrow> None | Some p' \<Rightarrow> mp_steps p' s)"

lemma mp_steps_append:
  "mp_steps p (s @ t) = (case mp_steps p s of None \<Rightarrow> None | Some p' \<Rightarrow> mp_steps p' t)"
  by (induction s arbitrary: p) (auto split: option.split)

lemma mp_steps_trans: "mp_steps p s = Some p' \<Longrightarrow> mp_steps p' t = Some p'' \<Longrightarrow> mp_steps p (s @ t) = Some p''"
  by (simp add: mp_steps_append)

section \<open>Content up to the boundary\<close>

lemma sputn_fits: "length s \<le> room d \<Longrightarrow> sputn s d = (length s, d\<lparr>written := written d @ s, room := room d - length s\<rparr>)"
  by (simp add: sputn_def)

text \<open>A boundary has its only CR in front, so a failed match never hides the beginning of another one.\<close>

definition boundary_ok :: "string \<Rightarrow> bool" where
  "boundary_ok b \<longleftrightarrow> length b > 1 \<and> hd b = CR \<and> CR \<notin> set (tl b)"

lemma boundary_nth: "boundary_ok b \<Longrightarrow> b ! 0 = CR \<and> (0 < i \<longrightarrow> i < length b \<longrightarrow> b ! i \<noteq> CR)"
  by (cases b; cases i) (auto simp: boundary_ok_def in_set_conv_nth)

definition with_data :: "multipart_parser \<Rightarrow> nat \<Rightarrow> streambuf \<Rightarrow> multipart_parser" where
  "with_data p pos d = p\<lparr>mp_position := pos, mp_file := (mp_file p)\<lparr>hf_data := d\<rparr>\<rparr>"

definition next_part :: "multipart_parser \<Rightarrow> streambuf \<Rightarrow> multipart_parser" where
  "next_part p d = p\<lparr>mp_state := Expecting_one_crlf_or_eof, mp_position := 0,
     mp_files := mp_files p @ [(mp_file p)\<lparr>hf_data := d\<rparr>], mp_file := new_file (mp_room p), mp_file_is_ready := False\<rparr>"

text \<open>The data of the file is the part of the content that cannot belong to the boundary any more.\<close>

definition seen :: "multipart_parser \<Rightarrow> string" where
  "seen p = written (hf_data (mp_file p)) @ take (mp_position p) (mp_boundary p)"

definition content_state :: "multipart_parser \<Rightarrow> bool" where
  "content_state p \<longleftrightarrow> mp_state p = Expecting_separator_boundary \<and> boundary_ok (mp_boundary p)
     \<and> mp_position p < length (mp_boundary p)"

lemma content_step:
  assumes "content_state p" "mp_position p < room (hf_data (mp_file p))"
  shows "(c = mp_boundary p ! mp_position p \<and> mp_position p + 1 = length (mp_boundary p)
      \<longrightarrow> mp_step p c = Some (next_part p (hf_data (mp_file p))))
    \<and> (\<not> (c = mp_boundary p ! mp_position p \<and> mp_position p + 1 = length (mp_boundary p))
      \<longrightarrow> (\<exists>pos d. mp_step p c = Some (with_data p pos d) \<and> content_state (with_data p pos d)
        \<and> seen (with_data p pos d) = seen p @ [c]
        \<and> length (written d) + room d = length (written (hf_data (mp_file p))) + room (hf_data (mp_file p))
        \<and> (c = CR \<longrightarrow> pos = 1)))"
proof -
  define b where "b = mp_boundary p"
  define pos where "pos = mp_position p"
  define d where "d = hf_data (mp_file p)"
  have b: "boundary_ok b" "mp_state p = Expecting_separator_boundary" "pos < length b" "1 < length b"
    using assms(1) by (auto simp: content_state_def b_def pos_def boundary_ok_def)
  note n = boundary_nth [OF b(1)]
  have fits: "pos \<le> room d" "Suc pos \<le> room d" using assms(2) by (auto simp: pos_def d_def)
  have p: "mp_boundary p = b" "mp_position p = pos" "hf_data (mp_file p) = d" by (simp_all add: b_def pos_def d_def)
  have s: "mp_step p c = (case content_char p c of
     Inl (r, p', _) \<Rightarrow> if r = Meta_ready \<or> r = Content_ready then Some p' else None | Inr p' \<Rightarrow> Some p')"
    using b(2) by (simp add: mp_step_def consume_char_def)
  consider (more) "c = b ! pos" "Suc pos \<noteq> length b" | (full) "c = b ! pos" "Suc pos = length b"
    | (fail) "c \<noteq> b ! pos" "pos > 0" "c \<noteq> CR" | (again) "c \<noteq> b ! pos" "pos > 0" "c = CR" | (put) "c \<noteq> b ! pos" "pos = 0"
    by blast
  then show ?thesis
  proof cases
    case more
    have "with_data p (Suc pos) d = p\<lparr>mp_position := Suc pos\<rparr>" by (simp add: with_data_def d_def)
    then have "mp_step p c = Some (with_data p (Suc pos) d)"
      unfolding s using more b by (simp add: content_char_def p)
    moreover have "c = CR \<longrightarrow> Suc pos = 1" using more n [of pos] b by auto
    moreover have "content_state (with_data p (Suc pos) d)" using more b by (simp add: content_state_def with_data_def p)
    moreover have "seen (with_data p (Suc pos) d) = seen p @ [c]"
      using more b by (simp add: seen_def with_data_def p take_Suc_conv_app_nth)
    ultimately show ?thesis using more by (metis Suc_eq_plus1 p)
  next
    case full
    have "(mp_file p)\<lparr>hf_data := d\<rparr> = mp_file p" "b \<noteq> []" using b by (auto simp: d_def)
    then have "mp_step p c = Some (next_part p d)" unfolding s using full b by (simp add: content_char_def p next_part_def)
    then show ?thesis using full by (simp add: p)
  next
    case fail
    let ?d = "d\<lparr>written := written d @ take pos b @ [c], room := room d - Suc pos\<rparr>"
    have "mp_step p c = Some (with_data p 0 ?d)"
      using fail b n fits by (simp add: s content_char_def p with_data_def sputn_fits)
    then show ?thesis using fail b fits by (auto simp: p with_data_def content_state_def seen_def intro!: exI [of _ 0] exI [of _ ?d])
  next
    case again
    let ?d = "d\<lparr>written := written d @ take pos b, room := room d - pos\<rparr>"
    have "mp_step p c = Some (with_data p 1 ?d)"
      unfolding s using again b n fits by (simp add: content_char_def p with_data_def sputn_fits)
    moreover have "take 1 b = [CR]" using b n by (cases b) auto
    ultimately show ?thesis using again b fits by (auto simp: p with_data_def content_state_def seen_def intro!: exI [of _ 1] exI [of _ ?d])
  next
    case put
    let ?d = "d\<lparr>written := written d @ [c], room := room d - 1\<rparr>"
    have "mp_step p c = Some (with_data p 0 ?d)"
      using put b n fits by (simp add: s content_char_def p with_data_def sputn_fits)
    then show ?thesis using put n b fits by (auto simp: p with_data_def content_state_def seen_def intro!: exI [of _ 0] exI [of _ ?d])
  qed
qed

text \<open>Content without the boundary is taken as a whole.\<close>

lemma with_data_again [simp]: "with_data (with_data p pos d) pos' d' = with_data p pos' d'"
  by (simp add: with_data_def)

lemma with_data_same [simp]: "with_data p (mp_position p) (hf_data (mp_file p)) = p"
  by (simp add: with_data_def)

lemma with_data_proj [simp]: "mp_position (with_data p pos d) = pos" "hf_data (mp_file (with_data p pos d)) = d"
  "mp_boundary (with_data p pos d) = mp_boundary p" "next_part (with_data p pos d) d' = next_part p d'"
  by (simp_all add: with_data_def next_part_def)

definition capacity :: "streambuf \<Rightarrow> nat" where
  "capacity d = length (written d) + room d"

lemma content_steps:
  assumes "content_state p" "length (seen p) + length s \<le> capacity (hf_data (mp_file p))"
    "\<not> sublist (mp_boundary p) (seen p @ s)"
  shows "\<exists>pos d. mp_steps p s = Some (with_data p pos d) \<and> content_state (with_data p pos d)
      \<and> seen (with_data p pos d) = seen p @ s \<and> capacity d = capacity (hf_data (mp_file p))"
  using assms
proof (induction s arbitrary: p)
  case Nil
  then show ?case by (metis append.right_neutral mp_steps.simps(1) with_data_same)
next
  case (Cons c s)
  let ?b = "mp_boundary p"
  have room: "mp_position p < room (hf_data (mp_file p))"
    using Cons.prems by (auto simp: seen_def capacity_def content_state_def)
  have "\<not> (c = ?b ! mp_position p \<and> mp_position p + 1 = length ?b)"
  proof
    assume a: "c = ?b ! mp_position p \<and> mp_position p + 1 = length ?b"
    then have "take (mp_position p) ?b @ [c] = ?b"
      by (metis Suc_eq_plus1 lessI take_Suc_conv_app_nth take_all_iff order_refl)
    then have "seen p @ [c] = written (hf_data (mp_file p)) @ ?b" by (simp add: seen_def)
    then have "seen p @ c # s = written (hf_data (mp_file p)) @ ?b @ s"
      by (metis append.assoc append_Cons append_Nil)
    then show False using Cons.prems(3) unfolding sublist_def by blast
  qed
  with content_step [OF Cons.prems(1) room, of c] obtain pos d where
    d: "mp_step p c = Some (with_data p pos d)" "content_state (with_data p pos d)" "seen (with_data p pos d) = seen p @ [c]"
      "capacity d = capacity (hf_data (mp_file p))" by (auto simp: capacity_def)
  from Cons.IH [OF d(2)] d Cons.prems show ?case by fastforce
qed

text \<open>The boundary ends the part.\<close>

lemma boundary_tail:
  "content_state p \<Longrightarrow> mp_position p > 0 \<Longrightarrow> length (written (hf_data (mp_file p))) + length (mp_boundary p) \<le> capacity (hf_data (mp_file p))
    \<Longrightarrow> mp_steps p (drop (mp_position p) (mp_boundary p)) = Some (next_part p (hf_data (mp_file p)))"
proof (induction "length (mp_boundary p) - mp_position p" arbitrary: p rule: less_induct)
  case less
  let ?b = "mp_boundary p" and ?i = "mp_position p" and ?d = "hf_data (mp_file p)"
  have i: "?i < length ?b" and ok: "boundary_ok ?b" "mp_state p = Expecting_separator_boundary"
    using less.prems(1) by (auto simp: content_state_def)
  then have drop: "drop ?i ?b = ?b ! ?i # drop (Suc ?i) ?b" by (simp add: Cons_nth_drop_Suc)
  have room: "?i < room ?d" using less.prems i by (simp add: capacity_def)
  show ?case
  proof (cases "?i + 1 = length ?b")
    case True
    then show ?thesis using content_step [OF less.prems(1) room, of "?b ! ?i"] by (simp add: drop)
  next
    case False
    have "mp_step p (?b ! ?i) = Some (with_data p (Suc ?i) ?d)"
      using False i ok by (simp add: mp_step_def consume_char_def content_char_def with_data_def)
    moreover have "content_state (with_data p (Suc ?i) ?d)"
      using False i less.prems(1) by (simp add: content_state_def with_data_def)
    ultimately show ?thesis using less.hyps [of "with_data p (Suc ?i) ?d"] less.prems i drop by simp
  qed
qed

lemma content_and_boundary:
  assumes "content_state p" "mp_position p = 0" "written (hf_data (mp_file p)) = []"
    "length s + length (mp_boundary p) \<le> room (hf_data (mp_file p))" "\<not> sublist (mp_boundary p) s"
  shows "\<exists>d. mp_steps p (s @ mp_boundary p) = Some (next_part p d) \<and> written d = s"
proof -
  let ?b = "mp_boundary p"
  have seen: "seen p = []" using assms by (simp add: seen_def)
  from content_steps [OF assms(1), of s] obtain pos d where
    d: "mp_steps p s = Some (with_data p pos d)" "content_state (with_data p pos d)" "seen (with_data p pos d) = s"
      "capacity d = capacity (hf_data (mp_file p))"
    using assms(3,4,5) seen by (auto simp: capacity_def)
  define q where "q = with_data p pos d"
  have b: "boundary_ok ?b" using assms(1) by (simp add: content_state_def)
  obtain bt where bt: "?b = CR # bt" "bt \<noteq> []" using b by (cases ?b) (auto simp: boundary_ok_def)
  have len: "length (written d) + pos = length s" using d(2,3) by (auto simp: seen_def content_state_def)
  then have room: "mp_position q < room (hf_data (mp_file q))" using d(4) assms(3,4) bt by (simp add: q_def capacity_def)
  have "\<not> (CR = ?b ! pos \<and> pos + 1 = length ?b)"
    using boundary_nth [OF b, of pos] bt by auto
  with content_step [OF d(2) [folded q_def] room, of CR] obtain d' where
    d': "mp_step q CR = Some (with_data p 1 d')" "content_state (with_data p 1 d')"
      "seen (with_data p 1 d') = s @ [CR]" "capacity d' = capacity d"
    using d(3) by (auto simp: q_def capacity_def)
  then have w: "written d' = s" using bt by (simp add: seen_def)
  have "mp_steps (with_data p 1 d') (drop 1 ?b) = Some (next_part p d')"
    using boundary_tail [OF d'(2)] w d'(4) d(4) assms(3,4) by (simp add: capacity_def)
  then have "mp_steps q ?b = Some (next_part p d')" using d'(1) bt by simp
  then show ?thesis using mp_steps_trans [OF d(1)] w by (auto simp: q_def)
qed

section \<open>The headers of a part\<close>

text \<open>
  The search for the empty line starts again at the beginning after a mismatch; lines without a CR of their own never need
  more.
\<close>

definition in_header :: "multipart_parser \<Rightarrow> string \<Rightarrow> nat \<Rightarrow> multipart_parser" where
  "in_header p h i = p\<lparr>mp_state := Expecting_crlfcrlf, mp_header := h, mp_position := i\<rparr>"

lemma in_header_step:
  "i < 3 \<Longrightarrow> mp_step (in_header p h i) c = Some (in_header p (h @ [c]) (if c = crlfcrlf ! i then Suc i else 0))"
  by (simp add: mp_step_def consume_char_def in_header_def crlfcrlf_def)

lemma line_steps:
  "CR \<notin> set l \<Longrightarrow> mp_steps (in_header p h 0) l = Some (in_header p (h @ l) 0)"
  by (induction l arbitrary: h) (auto simp: in_header_step crlfcrlf_def)

lemma header_line_steps:
  assumes "CR \<notin> set l" "l \<noteq> []" "i = 0 \<or> i = 2"
  shows "mp_steps (in_header p h i) (l @ [CR, LF]) = Some (in_header p (h @ l @ [CR, LF]) 2)"
proof -
  obtain c l' where l: "l = c # l'" using assms(2) by (cases l) auto
  have "mp_step (in_header p h i) c = Some (in_header p (h @ [c]) 0)"
    using assms l by (auto simp: in_header_step crlfcrlf_def numeral_2_eq_2)
  then have "mp_steps (in_header p h i) l = Some (in_header p (h @ l) 0)" using assms(1) l by (simp add: line_steps)
  then show ?thesis by (simp add: mp_steps_append in_header_step crlfcrlf_def numeral_2_eq_2)
qed

definition header_text :: "string list \<Rightarrow> string" where
  "header_text ls = concat (map (\<lambda>l. l @ [CR, LF]) ls)"

lemma header_text_steps:
  "list_all (\<lambda>l. l \<noteq> [] \<and> CR \<notin> set l) ls \<Longrightarrow> i = 0 \<or> i = 2 \<Longrightarrow> ls \<noteq> []
    \<Longrightarrow> mp_steps (in_header p h i) (header_text ls) = Some (in_header p (h @ header_text ls) 2)"
proof (induction ls arbitrary: h i)
  case (Cons l ls)
  then have l: "mp_steps (in_header p h i) (l @ [CR, LF]) = Some (in_header p (h @ l @ [CR, LF]) 2)"
    by (intro header_line_steps) auto
  show ?case
  proof (cases "ls = []")
    case True
    then show ?thesis using l by (simp add: header_text_def)
  next
    case False
    from mp_steps_trans [OF l Cons.IH [OF _ _ False, of 2 "h @ l @ [CR, LF]"]] Cons.prems show ?thesis
      by (simp add: header_text_def)
  qed
qed simp

definition header_done :: "multipart_parser \<Rightarrow> http_file \<Rightarrow> multipart_parser" where
  "header_done p f = p\<lparr>mp_file := f, mp_header := [], mp_position := 0, mp_state := Expecting_separator_boundary,
     mp_file_is_ready := True\<rparr>"

lemma header_steps:
  assumes "list_all (\<lambda>l. l \<noteq> [] \<and> CR \<notin> set l) ls" "ls \<noteq> []" "process_header (header_text ls @ [CR, LF]) (mp_file p) = (True, f)"
  shows "mp_steps (in_header p [] 0) (header_text ls @ [CR, LF]) = Some (header_done p f)"
proof -
  have "mp_step (in_header p h 3) LF = Some (header_done p f)" if "h @ [LF] = header_text ls @ [CR, LF]" for h
    using assms(3) that by (simp add: mp_step_def consume_char_def in_header_def crlfcrlf_def header_done_def)
  then show ?thesis using header_text_steps [OF assms(1) _ assms(2), of 0 p "[]"]
    by (simp add: mp_steps_append in_header_step crlfcrlf_def numeral_2_eq_2 numeral_3_eq_3)
qed

text \<open>The search misses an empty line behind a line that ends in a CR of its own.\<close>

lemma crlf_search_misses:
  "mp_steps (in_header p h 0) [CR, CR, LF, CR, LF] = Some (in_header p (h @ [CR, CR, LF, CR, LF]) 2)"
proof -
  have "CR \<noteq> LF" by code_simp
  then show ?thesis by (simp add: in_header_step crlfcrlf_def numeral_2_eq_2)
qed

text \<open>The file gets what its lines say.\<close>

fun process_lines :: "string list \<Rightarrow> http_file \<Rightarrow> bool \<times> http_file" where
  "process_lines [] f = (True, f)"
| "process_lines (l # ls) f = (case process_line l f of (ok, f') \<Rightarrow> if ok then process_lines ls f' else (False, f'))"

lemma split_crlf_line: "CR \<notin> set l \<Longrightarrow> split_crlf (l @ [CR, LF] @ r) = Some (l, r)"
  by (induction l) auto

lemma process_header_lines:
  "list_all (\<lambda>l. l \<noteq> [] \<and> CR \<notin> set l) ls \<Longrightarrow> process_header (header_text ls @ [CR, LF]) f = process_lines ls f"
proof (induction ls arbitrary: f)
  case Nil
  then show ?case by (subst process_header.simps) (simp add: header_text_def)
next
  case (Cons l ls)
  then show ?case using split_crlf_line [of l "header_text ls @ [CR, LF]"]
    by (subst process_header.simps) (simp add: header_text_def split: prod.split)
qed

section \<open>The lines of a form part\<close>

definition disposition_param :: "string \<times> bool \<times> string \<Rightarrow> http_file \<Rightarrow> http_file" where
  "disposition_param q f = (case q of (name, _, v) \<Rightarrow>
     if map ascii_to_lower name = ''filename'' then f\<lparr>hf_filename := v\<rparr>
     else if map ascii_to_lower name = ''name'' then f\<lparr>hf_name := v\<rparr> else f)"

lemma parse_pair_text:
  assumes "param_ok (k, quoted, v)" "r = [] \<or> hd r = CHR '';''"
  shows "parse_pair (param_text (k, quoted, v) @ r) = Some (k, v, r)"
proof -
  have k: "token k" "k \<noteq> []" using assms(1) by (auto simp: param_ok_def token_def)
  have "param_value (skip_ws ((if quoted then quote v else v) @ r)) = Some (v, r)"
    using assms by (intro param_value_text) (auto simp: param_ok_def)
  with k param_name_text [OF k(1)] show ?thesis by (simp add: parse_pair_def param_text_def Let_def)
qed

lemma skip_ws_params: "skip_ws (concat (map param_text ps)) = concat (map param_text ps)"
  by (cases ps) (auto simp: param_text_def split: prod.split)

lemma disposition_loop_text:
  "list_all param_ok ps \<Longrightarrow> disposition_loop (concat (map param_text ps)) f = (True, fold disposition_param ps f)"
proof (induction ps arbitrary: f)
  case Nil
  then show ?case by (subst disposition_loop.simps) simp
next
  case (Cons p ps)
  obtain k quoted v where p: "p = (k, quoted, v)" by (cases p)
  have "parse_pair (concat (map param_text (p # ps))) = Some (k, v, concat (map param_text ps))"
    using parse_pair_text [of k quoted v] param_rest [of ps] Cons.prems p by simp
  moreover have "param_text p \<noteq> []" using p by (simp add: param_text_def)
  moreover have "fold disposition_param (p # ps) f = fold disposition_param ps (disposition_param (k, quoted, v) f)" using p by simp
  ultimately show ?case using Cons
    by (subst disposition_loop.simps) (simp add: skip_ws_params disposition_param_def [of "(k, quoted, v)"])
qed

text \<open>A part of a form: a field, or a file with its type.\<close>

record form_part =
  pt_name :: string
  pt_filename :: "string option"
  pt_mime :: "(string \<times> string) option"
  pt_content :: string

definition disposition_params :: "form_part \<Rightarrow> (string \<times> bool \<times> string) list" where
  "disposition_params t = (''name'', True, pt_name t)
     # (case pt_filename t of None \<Rightarrow> [] | Some n \<Rightarrow> [(''filename'', True, n)])"

definition part_lines :: "form_part \<Rightarrow> string list" where
  "part_lines t = (''Content-Disposition: form-data'' @ concat (map param_text (disposition_params t)))
     # (case pt_mime t of None \<Rightarrow> [] | Some (ty, sub) \<Rightarrow> [''Content-Type: '' @ content_type_text ty sub []])"

definition part_file :: "form_part \<Rightarrow> http_file \<Rightarrow> http_file" where
  "part_file t f = (case pt_mime t of None \<Rightarrow> (\<lambda>f. f) | Some (ty, sub) \<Rightarrow> (\<lambda>f. f\<lparr>hf_mime := map ascii_to_lower (ty @ ''/'' @ sub)\<rparr>))
     ((case pt_filename t of None \<Rightarrow> (\<lambda>f. f) | Some n \<Rightarrow> (\<lambda>f. f\<lparr>hf_filename := n\<rparr>)) (f\<lparr>hf_name := pt_name t\<rparr>))"

definition quotable :: "string \<Rightarrow> bool" where
  "quotable s \<longleftrightarrow> DQUOTE \<notin> set s \<and> BSLASH \<notin> set s \<and> CR \<notin> set s"

definition part_ok :: "string \<Rightarrow> form_part \<Rightarrow> bool" where
  "part_ok b t \<longleftrightarrow> quotable (pt_name t) \<and> (case pt_filename t of None \<Rightarrow> True | Some n \<Rightarrow> quotable n)
     \<and> (case pt_mime t of None \<Rightarrow> True | Some (ty, sub) \<Rightarrow> token ty \<and> token sub) \<and> \<not> sublist b (pt_content t)"

lemma process_line_named:
  assumes "token n" "skip_ws v = v"
  shows "process_line (n @ '': '' @ v) f =
     (if compare_nocase n ''Content-Disposition'' = 0 then
        (let fin = tocken v in
         if compare_nocase (str_range v fin) ''form-data'' \<noteq> 0 then (False, f) else parse_content_disposition fin f)
      else if compare_nocase n ''Content-Type'' = 0 then (True, f\<lparr>hf_mime := ct_media_type (content_type_parse v)\<rparr>)
      else (True, f))"
proof -
  have n: "n \<noteq> []" "list_all tchar n" "tchar (hd n)" using assms(1) by (auto simp: token_def list.pred_set)
  have "skip_ws (n @ '': '' @ v) = n @ '': '' @ v" using n by (intro skip_ws_tchar) auto
  moreover have "tocken (n @ '': '' @ v) = '': '' @ v" using n(2) by (intro tocken_append) (auto, code_simp)
  moreover have "skip_ws ('': '' @ v) = '': '' @ v" "skip_ws (tl ('': '' @ v)) = v" using assms(2) by simp_all
  ultimately show ?thesis unfolding process_line_def Let_def by simp
qed

lemma disposition_line:
  assumes "list_all param_ok ps"
  shows "process_line (''Content-Disposition: form-data'' @ concat (map param_text ps)) f = (True, fold disposition_param ps f)"
proof -
  have word: "process_line (n @ '': '' @ w @ concat (map param_text ps)) f = (True, fold disposition_param ps f)"
    if "token n" "token w" "compare_nocase n ''Content-Disposition'' = 0" "compare_nocase w ''form-data'' = 0" for n w
  proof -
    have "tocken (w @ concat (map param_text ps)) = concat (map param_text ps)"
      using that(2) param_rest [of ps] not_tchar by (intro tocken_append) (auto simp: token_def)
    moreover have "skip_ws (w @ concat (map param_text ps)) = w @ concat (map param_text ps)"
      using that(2) by (intro skip_ws_tchar) (auto simp: token_def list.pred_set)
    ultimately show ?thesis using that
      by (simp add: process_line_named parse_content_disposition_def skip_ws_params disposition_loop_text [OF assms] del: append.simps)
  qed
  have "token ''Content-Disposition''" "token ''form-data''" "compare_nocase ''Content-Disposition'' ''Content-Disposition'' = 0"
    "compare_nocase ''form-data'' ''form-data'' = 0" by code_simp+
  from word [OF this] show ?thesis by simp
qed

lemma quote_chars: "set (quote s) \<subseteq> insert BSLASH (insert DQUOTE (set s))"
proof -
  have "set (quote_loop s) \<subseteq> insert BSLASH (set s)" by (induction s) auto
  then show ?thesis by (auto simp: quote_def)
qed

lemma type_line:
  assumes "token ty" "token sub"
  shows "process_line (''Content-Type: '' @ content_type_text ty sub []) f = (True, f\<lparr>hf_mime := map ascii_to_lower (ty @ ''/'' @ sub)\<rparr>)"
proof -
  have "skip_ws (content_type_text ty sub []) = content_type_text ty sub []"
    using assms(1) by (intro skip_ws_tchar) (auto simp: content_type_text_def token_def list.pred_set)
  moreover have "token ''Content-Type''" "compare_nocase ''Content-Type'' ''Content-Disposition'' \<noteq> 0"
    "compare_nocase ''Content-Type'' ''Content-Type'' = 0" by code_simp+
  ultimately show ?thesis using process_line_named [of "''Content-Type''" "content_type_text ty sub []" f] content_type_read(1) [of ty sub "[]"] assms
    by simp
qed

lemma part_lines_read:
  assumes "part_ok b t"
  shows "process_header (header_text (part_lines t) @ [CR, LF]) f = (True, part_file t f)"
    and "list_all (\<lambda>l. l \<noteq> [] \<and> CR \<notin> set l) (part_lines t)"
proof -
  have ps: "list_all param_ok (disposition_params t)"
  proof -
    have "token ''name''" "token ''filename''" by code_simp+
    then show ?thesis using assms by (auto simp: disposition_params_def param_ok_def part_ok_def quotable_def split: option.split)
  qed
  have low: "map ascii_to_lower ''name'' = ''name''" "map ascii_to_lower ''filename'' = ''filename''" by code_simp+
  have cr: "CR \<notin> set ''Content-Disposition: form-data''" "CR \<notin> set ''Content-Type: ''" "CR \<notin> set ''; name=''" "CR \<notin> set ''; filename=''"
    "CR \<noteq> DQUOTE" "CR \<noteq> BSLASH" "CR \<noteq> CHR ''/''" "\<not> tchar CR" by code_simp+
  have q: "quotable n \<Longrightarrow> CR \<notin> set (quote n)" for n using quote_chars [of n] cr by (auto simp: quotable_def)
  have w: "token n \<Longrightarrow> CR \<notin> set n" for n using cr(8) by (auto simp: token_def list.pred_set)
  show l: "list_all (\<lambda>l. l \<noteq> [] \<and> CR \<notin> set l) (part_lines t)"
    using assms q w cr by (cases "pt_filename t"; cases "pt_mime t")
      (auto simp: part_lines_def disposition_params_def param_text_def content_type_text_def part_ok_def)
  have "process_lines (part_lines t) f = (True, part_file t f)"
  proof -
    have d: "fold disposition_param (disposition_params t) f = part_file (t\<lparr>pt_mime := None\<rparr>) f"
      using low by (simp add: disposition_params_def disposition_param_def part_file_def split: option.split)
    show ?thesis
    proof (cases "pt_mime t")
      case None
      then show ?thesis by (simp only: part_lines_def process_lines.simps disposition_line [OF ps] d) (simp add: part_file_def)
    next
      case (Some m)
      obtain ty sub where m: "m = (ty, sub)" by (cases m)
      then have "token ty" "token sub" using assms Some by (auto simp: part_ok_def)
      with Some m show ?thesis
        by (simp only: part_lines_def process_lines.simps disposition_line [OF ps] d prod.case option.case type_line if_True)
          (simp add: part_file_def)
    qed
  qed
  then show "process_header (header_text (part_lines t) @ [CR, LF]) f = (True, part_file t f)"
    by (simp add: process_header_lines [OF l])
qed

section \<open>Bodies\<close>

definition boundary_of :: "string \<Rightarrow> string" where
  "boundary_of key = [CR, LF] @ ''--'' @ key"

definition part_text :: "string \<Rightarrow> form_part \<Rightarrow> string" where
  "part_text key t = [CR, LF] @ (header_text (part_lines t) @ [CR, LF]) @ pt_content t @ boundary_of key"

definition multipart_body :: "string \<Rightarrow> form_part list \<Rightarrow> string" where
  "multipart_body key ts = ''--'' @ key @ concat (map (part_text key) ts) @ ''--'' @ [CR, LF]"

text \<open>A file without the room that its storage has left.\<close>

definition file_view :: "http_file \<Rightarrow> string \<times> string \<times> string \<times> string" where
  "file_view f = (hf_name f, hf_mime f, hf_filename f, written (hf_data f))"

definition part_view :: "form_part \<Rightarrow> string \<times> string \<times> string \<times> string" where
  "part_view t = (pt_name t, case pt_mime t of None \<Rightarrow> [] | Some (ty, sub) \<Rightarrow> map ascii_to_lower (ty @ ''/'' @ sub),
     case pt_filename t of None \<Rightarrow> [] | Some n \<Rightarrow> n, pt_content t)"

definition between_parts :: "string \<Rightarrow> nat \<Rightarrow> (string \<times> string \<times> string \<times> string) list \<Rightarrow> multipart_parser \<Rightarrow> bool" where
  "between_parts b r vs p \<longleftrightarrow> mp_state p = Expecting_one_crlf_or_eof \<and> mp_position p = 0 \<and> mp_header p = []
     \<and> mp_boundary p = b \<and> mp_room p = r \<and> mp_file p = new_file r \<and> map file_view (mp_files p) = vs"

lemma boundary_of_ok: "CR \<notin> set key \<Longrightarrow> boundary_ok (boundary_of key)"
proof -
  have "CR \<noteq> LF" "CR \<noteq> CHR ''-''" by code_simp+
  then show "CR \<notin> set key \<Longrightarrow> boundary_ok (boundary_of key)" by (auto simp: boundary_ok_def boundary_of_def)
qed

lemma part_file_data [simp]: "hf_data (part_file t f) = hf_data f"
  by (simp add: part_file_def split: option.split prod.split)

lemma part_steps:
  assumes "CR \<notin> set key" "between_parts (boundary_of key) r vs p" "part_ok (boundary_of key) t"
    "length (pt_content t) + length (boundary_of key) \<le> r"
  shows "\<exists>q. mp_steps p (part_text key t) = Some q \<and> between_parts (boundary_of key) r (vs @ [part_view t]) q"
proof -
  let ?b = "boundary_of key"
  have p: "mp_state p = Expecting_one_crlf_or_eof" "mp_position p = 0" "mp_header p = []" "mp_boundary p = ?b"
    "mp_room p = r" "mp_file p = new_file r" "map file_view (mp_files p) = vs" using assms(2) by (auto simp: between_parts_def)
  have "mp_steps p [CR, LF] = Some (in_header p [] 0)"
    using p by (simp add: mp_step_def consume_char_def in_header_def)
  moreover define q where "q = header_done p (part_file t (new_file r))"
  have "mp_steps (in_header p [] 0) (header_text (part_lines t) @ [CR, LF]) = Some q"
    using header_steps [OF part_lines_read(2) [OF assms(3)]] part_lines_read(1) [OF assms(3)] p by (simp add: q_def part_lines_def)
  moreover have q: "content_state q" "mp_position q = 0" "mp_boundary q = ?b" "hf_data (mp_file q) = \<lparr>written = [], room = r\<rparr>"
    using boundary_of_ok [OF assms(1)] p by (auto simp: q_def header_done_def content_state_def boundary_ok_def new_file_def)
  obtain d where d: "mp_steps q (pt_content t @ ?b) = Some (next_part q d)" "written d = pt_content t"
    using content_and_boundary [OF q(1,2), of "pt_content t"] q assms(3,4) by (auto simp: part_ok_def)
  ultimately have "mp_steps p (part_text key t) = Some (next_part q d)"
    using mp_steps_trans [of p "[CR, LF]"] mp_steps_trans [of "in_header p [] 0"] unfolding part_text_def by blast
  moreover have "file_view ((part_file t (new_file r))\<lparr>hf_data := d\<rparr>) = part_view t"
    using d(2) by (simp add: file_view_def part_view_def part_file_def new_file_def split: option.split prod.split)
  then have "between_parts ?b r (vs @ [part_view t]) (next_part q d)"
    using p by (simp add: between_parts_def next_part_def q_def header_done_def)
  ultimately show ?thesis by blast
qed

lemma parts_steps:
  "CR \<notin> set key \<Longrightarrow> between_parts (boundary_of key) r vs p
    \<Longrightarrow> list_all (\<lambda>t. part_ok (boundary_of key) t \<and> length (pt_content t) + length (boundary_of key) \<le> r) ts
    \<Longrightarrow> \<exists>q. mp_steps p (concat (map (part_text key) ts)) = Some q \<and> between_parts (boundary_of key) r (vs @ map part_view ts) q"
proof (induction ts arbitrary: vs p)
  case (Cons t ts)
  then obtain q where q: "mp_steps p (part_text key t) = Some q" "between_parts (boundary_of key) r (vs @ [part_view t]) q"
    using part_steps [of key r vs p t] by auto
  from Cons.IH [OF Cons.prems(1) q(2)] Cons.prems(3) q(1) show ?case by (auto simp: mp_steps_append)
qed simp

lemma first_boundary_steps:
  "mp_state p = Expecting_first_boundary \<Longrightarrow> mp_position p < length (mp_boundary p)
    \<Longrightarrow> mp_steps p (drop (mp_position p) (mp_boundary p)) = Some (p\<lparr>mp_state := Expecting_one_crlf_or_eof, mp_position := 0\<rparr>)"
proof (induction "length (mp_boundary p) - mp_position p" arbitrary: p rule: less_induct)
  case less
  let ?b = "mp_boundary p" and ?i = "mp_position p"
  have drop: "drop ?i ?b = ?b ! ?i # drop (Suc ?i) ?b" using less.prems by (simp add: Cons_nth_drop_Suc)
  show ?case
  proof (cases "?i + 1 = length ?b")
    case True
    then show ?thesis using less.prems drop by (simp add: mp_step_def consume_char_def)
  next
    case False
    then have "mp_step p (?b ! ?i) = Some (p\<lparr>mp_position := Suc ?i\<rparr>)" using less.prems by (simp add: mp_step_def consume_char_def)
    then show ?thesis using less.hyps [of "p\<lparr>mp_position := Suc ?i\<rparr>"] less.prems False drop by simp
  qed
qed

text \<open>
  Up to its last character the body is taken, and the parser has the files of the parts; the last character is accepted as the
  end.
\<close>

lemma multipart_steps:
  assumes "key \<noteq> []" "CR \<notin> set key" "parameter_by_key ct ''boundary'' = key"
    "list_all (\<lambda>t. part_ok (boundary_of key) t \<and> length (pt_content t) + length (boundary_of key) \<le> r) ts"
  shows "fst (set_content_type ct (multipart_parser_new r))
    \<and> (\<exists>q. mp_steps (snd (set_content_type ct (multipart_parser_new r))) (butlast (multipart_body key ts)) = Some q
      \<and> mp_state q = Expecting_eof_lf \<and> map file_view (mp_files q) = map part_view ts)"
proof -
  let ?p = "snd (set_content_type ct (multipart_parser_new r))" and ?b = "boundary_of key"
  have p: "?p = (multipart_parser_new r)\<lparr>mp_boundary := ?b, mp_position := 2\<rparr>" "fst (set_content_type ct (multipart_parser_new r))"
    using assms(1,3) by (simp_all add: set_content_type_def multipart_parser_new_def boundary_of_def Let_def)
  define p1 where "p1 = ?p\<lparr>mp_state := Expecting_one_crlf_or_eof, mp_position := 0\<rparr>"
  have "mp_steps ?p (drop 2 ?b) = Some p1"
    using first_boundary_steps [of ?p] unfolding p1_def p by (simp add: multipart_parser_new_def boundary_of_def)
  moreover have "drop 2 ?b = ''--'' @ key" by (simp add: boundary_of_def)
  ultimately have 1: "mp_steps ?p (''--'' @ key) = Some p1" by simp
  have "between_parts ?b r [] p1" unfolding p1_def p by (simp add: between_parts_def multipart_parser_new_def new_file_def)
  from parts_steps [OF assms(2) this assms(4)] obtain p2 where
    2: "mp_steps p1 (concat (map (part_text key) ts)) = Some p2" "between_parts ?b r (map part_view ts) p2" by auto
  have cr: "CHR ''-'' \<noteq> CR" by code_simp
  have 3: "mp_steps p2 (''--'' @ [CR]) = Some (p2\<lparr>mp_state := Expecting_eof_lf\<rparr>)"
    using 2(2) cr by (simp add: between_parts_def mp_step_def consume_char_def)
  have "butlast (multipart_body key ts) = (''--'' @ key) @ concat (map (part_text key) ts) @ ''--'' @ [CR]"
    by (simp add: multipart_body_def butlast_append)
  then have "mp_steps ?p (butlast (multipart_body key ts)) = Some (p2\<lparr>mp_state := Expecting_eof_lf\<rparr>)"
    using mp_steps_trans [OF 1 mp_steps_trans [OF 2(1) 3]] by simp
  then show ?thesis using p(2) 2(2) by (auto simp: between_parts_def)
qed

end
