(* ===== verification/Request_Correct.thy ===== *)
theory Request_Correct
  imports Request Multipart_Correct
begin

text \<open>
  What the loading of a request delivers: the fields and files of a form, whatever pieces its body arrives in and whatever
  an observing filter does with them; the error codes of bodies that are too large or malformed; and that a request is never
  handed to an application before its body is complete.
\<close>

section \<open>One character of a piece\<close>

text \<open>A filter that only observes.\<close>

definition observes :: "'s file_callback \<Rightarrow> bool" where
  "observes cb \<longleftrightarrow> (\<forall>f s. \<exists>s'. cb f s = (None, f, s'))"

definition observing :: "'s content_filter option \<Rightarrow> bool" where
  "observing flt \<longleftrightarrow> (case flt of None \<Rightarrow> True | Some f \<Rightarrow> raw_filter f = None \<and> (\<forall>s. fst (on_end_of_content f s) = None)
     \<and> (case multipart_cb f of None \<Rightarrow> True | Some m \<Rightarrow> observes (on_new_file m) \<and> observes (on_upload_progress m) \<and> observes (on_data_ready m)))"

text \<open>Fields are within the limit.\<close>

definition sizes_ok :: "int \<Rightarrow> multipart_parser \<Rightarrow> bool" where
  "sizes_ok a p \<longleftrightarrow> (mp_file_is_ready p \<longrightarrow> size_ok (mp_file p) a) \<and> (\<forall>f \<in> set (mp_files p). size_ok f a)"

lemma observe_current:
  "observing (rq_filter d) \<Longrightarrow> (\<And>m. observes (on_new_file m) \<and> observes (on_upload_progress m) \<and> observes (on_data_ready m) \<Longrightarrow> observes (cb m))
    \<Longrightarrow> rq_parser d = Some p \<Longrightarrow> \<exists>s. call_current cb (mp_file p) p d = Inr (d\<lparr>rq_app := s\<rparr>)"
proof (cases "multipart_filter_of d")
  case None
  then show ?thesis by (auto simp: call_current_def intro: exI [of _ "rq_app d"])
next
  case (Some m)
  assume "observing (rq_filter d)" and cb: "\<And>m. observes (on_new_file m) \<and> observes (on_upload_progress m) \<and> observes (on_data_ready m) \<Longrightarrow> observes (cb m)"
    and p: "rq_parser d = Some p"
  with Some have "observes (cb m)" by (auto simp: multipart_filter_of_def observing_def split: option.splits)
  then obtain s where "cb m (mp_file p) (rq_app d) = (None, mp_file p, s)" by (auto simp: observes_def)
  moreover have "d\<lparr>rq_app := s, rq_parser := Some p\<rparr> = d\<lparr>rq_app := s\<rparr>" using p by (cases d) simp
  ultimately show ?thesis using Some by (auto simp: call_current_def)
qed

lemma observe_last:
  "observing (rq_filter d) \<Longrightarrow> rq_parser d = Some p \<Longrightarrow> mp_files p \<noteq> []
    \<Longrightarrow> \<exists>s. call_last on_data_ready (last (mp_files p)) p d = Inr (d\<lparr>rq_app := s\<rparr>)"
proof (cases "multipart_filter_of d")
  case None
  then show ?thesis by (auto simp: call_last_def intro: exI [of _ "rq_app d"])
next
  case (Some m)
  assume "observing (rq_filter d)" and p: "rq_parser d = Some p" "mp_files p \<noteq> []"
  with Some have "observes (on_data_ready m)" by (auto simp: multipart_filter_of_def observing_def split: option.splits)
  then obtain s where "on_data_ready m (last (mp_files p)) (rq_app d) = (None, last (mp_files p), s)" by (auto simp: observes_def)
  moreover have "d\<lparr>rq_app := s, rq_parser := Some p\<rparr> = d\<lparr>rq_app := s\<rparr>" using p by (cases d) simp
  ultimately show ?thesis using Some p(2) by (auto simp: call_last_def)
qed

lemma content_char_result:
  "content_char p c = Inl (r, p', m) \<Longrightarrow> r = No_room_left \<or> r = Content_ready \<and> m \<and> mp_files p' \<noteq> []"
  by (auto simp: content_char_def Let_def split: if_splits prod.splits)

lemma step_consume:
  assumes "mp_step p c = Some p'"
  shows "consume_char p c final = Inr p' \<or> consume_char p c final = Inl (Meta_ready, p', True) \<and> mp_file_is_ready p'
    \<or> consume_char p c final = Inl (Content_ready, p', True) \<and> mp_files p' \<noteq> []"
proof (cases "mp_state p = Expecting_separator_boundary")
  case True
  then have c: "consume_char p c b = content_char p c" for b by (simp add: consume_char_def)
  show ?thesis
  proof (cases "content_char p c")
    case (Inl x)
    obtain r q m where x: "x = (r, q, m)" by (cases x)
    with Inl content_char_result [of p c r q m] c assms show ?thesis by (auto simp: mp_step_def split: if_splits)
  next
    case (Inr q)
    then show ?thesis using c assms by (simp add: mp_step_def)
  qed
next
  case False
  then show ?thesis using assms
    by (cases "mp_state p") (auto simp: mp_step_def consume_char_def Let_def split: if_splits prod.splits)
qed

lemma app_parser: "d\<lparr>rq_parser := x, rq_app := s\<rparr> = d\<lparr>rq_app := s, rq_parser := x\<rparr>"
  by simp

lemma event_observed:
  assumes "sizes_ok (content_length_limit (rq_limits d)) p" "observing (rq_filter d)" "rq_parser d = Some p"
    "r = Meta_ready \<and> mp_file_is_ready p \<or> r = Content_partial \<and> mp_file_is_ready p \<or> r = Content_ready \<and> mp_files p \<noteq> [] \<or> r = Continue_input"
  shows "\<exists>s. parser_event r p b d = Inr (d\<lparr>rq_app := s\<rparr>)"
  using assms(4)
proof (elim disjE conjE)
  assume "r = Meta_ready" "mp_file_is_ready p"
  then show ?thesis using observe_current [OF assms(2) _ assms(3), of on_new_file]
    by (cases "multipart_filter_of d") (auto simp: parser_event_def get_file_def intro: exI [of _ "rq_app d"])
next
  assume "r = Content_partial" "mp_file_is_ready p"
  then show ?thesis using observe_current [OF assms(2) _ assms(3), of on_upload_progress] assms(1)
    by (auto simp: parser_event_def get_file_def sizes_ok_def)
next
  assume "r = Content_ready" "mp_files p \<noteq> []"
  then show ?thesis using observe_last [OF assms(2,3)] assms(1) by (auto simp: parser_event_def last_file_def sizes_ok_def)
next
  assume "r = Continue_input"
  then show ?thesis by (auto simp: parser_event_def intro: exI [of _ "rq_app d"])
qed

lemma upload_char:
  assumes "mp_step p c = Some p'" "sizes_ok (content_length_limit (rq_limits d)) p'" "observing (rq_filter d)" "rq_parser d = Some p"
  shows "\<exists>s r'. r' \<noteq> Eof \<and> upload_loop (c # b) r d = upload_loop b r' (d\<lparr>rq_app := s, rq_parser := Some p'\<rparr>)"
proof -
  let ?d = "d\<lparr>rq_parser := Some p'\<rparr>"
  have ready: "\<exists>s r'. r' \<noteq> Eof \<and> upload_loop (c # b) r d = upload_loop b r' (d\<lparr>rq_app := s, rq_parser := Some p'\<rparr>)"
    if m: "mp_consume p (c # b) = (r', p', b)" "r' \<noteq> Eof" and
      e: "r' = Meta_ready \<and> mp_file_is_ready p' \<or> r' = Content_partial \<and> mp_file_is_ready p' \<or> r' = Content_ready \<and> mp_files p' \<noteq> [] \<or> r' = Continue_input" for r'
  proof -
    obtain s where "parser_event r' p' b ?d = Inr (?d\<lparr>rq_app := s\<rparr>)"
      using event_observed [of ?d p' r' b] assms(2,3) e by auto
    then have "upload_loop (c # b) r d = upload_loop b r' (?d\<lparr>rq_app := s\<rparr>)"
      using m(1) assms(4) by (subst upload_loop.simps) simp
    then show ?thesis using m(2) unfolding app_parser by blast
  qed
  consider (go) "consume_char p c (b = []) = Inr p'"
    | (meta) "consume_char p c (b = []) = Inl (Meta_ready, p', True)" "mp_file_is_ready p'"
    | (fin) "consume_char p c (b = []) = Inl (Content_ready, p', True)" "mp_files p' \<noteq> []"
    using step_consume [OF assms(1), of "b = []"] by blast
  then show ?thesis
  proof cases
    case go
    show ?thesis
    proof (cases "b = []")
      case True
      then have "mp_consume p (c # b) = (if mp_file_is_ready p' then Content_partial else Continue_input, p', b)" using go by simp
      then show ?thesis using ready by (cases "mp_file_is_ready p'") simp_all
    next
      case False
      have "mp_consume p (c # b) = mp_consume p' b" using go by simp
      then have "upload_loop (c # b) r d = upload_loop b Continue_input (d\<lparr>rq_app := rq_app d, rq_parser := Some p'\<rparr>)"
        using False assms(4) by (subst (1 2) upload_loop.simps) simp
      then show ?thesis by blast
    qed
  next
    case meta
    then show ?thesis using ready [of Meta_ready] by simp
  next
    case fin
    then show ?thesis using ready [of Content_ready] by simp
  qed
qed

section \<open>A piece\<close>

text \<open>A part has data only while its content is read; sizes only grow, so limits that hold at the end hold all the time.\<close>

definition parser_inv :: "multipart_parser \<Rightarrow> bool" where
  "parser_inv p \<longleftrightarrow> mp_file_is_ready p = (mp_state p = Expecting_separator_boundary)"

lemma content_char_sizes:
  assumes "mp_file_is_ready p" "(case content_char p c of Inl (r, p'', _) \<Rightarrow> r = Content_ready \<and> p'' = p' | Inr p'' \<Rightarrow> p'' = p')"
    "mp_state p = Expecting_separator_boundary"
  shows "parser_inv p' \<and> (sizes_ok a p' \<longrightarrow> sizes_ok a p)"
proof -
  have mono: "size_ok (f\<lparr>hf_data := snd (sputn x (hf_data f))\<rparr>) a \<Longrightarrow> size_ok f a" for x f
    by (auto simp: size_ok_def hf_size_def has_mime_def sputn_def)
  have mono2: "size_ok (f\<lparr>hf_data := snd (sputn y (snd (sputn x (hf_data f))))\<rparr>) a \<Longrightarrow> size_ok f a" for x y f
    by (auto simp: size_ok_def hf_size_def has_mime_def sputn_def)
  show ?thesis using assms
    by (auto simp: content_char_def sizes_ok_def parser_inv_def Let_def case_prod_unfold dest: mono mono2 split: if_splits)
qed

lemma step_sizes:
  assumes "mp_step p c = Some p'" "parser_inv p"
  shows "parser_inv p' \<and> (sizes_ok a p' \<longrightarrow> sizes_ok a p)"
proof (cases "mp_state p = Expecting_separator_boundary")
  case True
  then show ?thesis using assms content_char_sizes [where p = p and c = c and p' = p' and a = a] content_char_result [of p c]
    by (auto simp: mp_step_def consume_char_def parser_inv_def split: sum.splits if_splits)
next
  case False
  then show ?thesis using assms
    by (cases "mp_state p") (auto simp: mp_step_def consume_char_def parser_inv_def sizes_ok_def Let_def split: if_splits prod.splits)
qed

lemma steps_sizes:
  "mp_steps p w = Some q \<Longrightarrow> parser_inv p \<Longrightarrow> parser_inv q \<and> (sizes_ok a q \<longrightarrow> sizes_ok a p)"
proof (induction w arbitrary: p)
  case (Cons c w)
  then obtain p1 where "mp_step p c = Some p1" "mp_steps p1 w = Some q" by (auto split: option.splits)
  then show ?case using Cons.IH [of p1] step_sizes [of p c p1 a] Cons.prems(2) by blast
qed simp

lemma upload_steps:
  "mp_steps p w = Some q \<Longrightarrow> parser_inv p \<Longrightarrow> sizes_ok (content_length_limit (rq_limits d)) q \<Longrightarrow> observing (rq_filter d)
    \<Longrightarrow> rq_parser d = Some p
    \<Longrightarrow> \<exists>s r'. (w \<noteq> [] \<longrightarrow> r' \<noteq> Eof) \<and> upload_loop (w @ b) r d = upload_loop b r' (d\<lparr>rq_app := s, rq_parser := Some q\<rparr>)"
proof (induction w arbitrary: p d r)
  case Nil
  then have "d\<lparr>rq_app := rq_app d, rq_parser := Some q\<rparr> = d" by simp
  then show ?case by (metis append_Nil)
next
  case (Cons c w)
  obtain p1 where p1: "mp_step p c = Some p1" "mp_steps p1 w = Some q" using Cons.prems(1) by (auto split: option.splits)
  have inv: "parser_inv p1" using step_sizes [OF p1(1) Cons.prems(2)] by simp
  have "sizes_ok (content_length_limit (rq_limits d)) p1" using steps_sizes [OF p1(2) inv] Cons.prems(3) by blast
  from upload_char [OF p1(1) this Cons.prems(4,5), of "w @ b" r] obtain s r1 where
    1: "r1 \<noteq> Eof" "upload_loop (c # w @ b) r d = upload_loop (w @ b) r1 (d\<lparr>rq_app := s, rq_parser := Some p1\<rparr>)" by blast
  obtain s' r2 where 2: "w \<noteq> [] \<longrightarrow> r2 \<noteq> Eof"
    "upload_loop (w @ b) r1 (d\<lparr>rq_app := s, rq_parser := Some p1\<rparr>) = upload_loop b r2 (d\<lparr>rq_app := s', rq_parser := Some q\<rparr>)"
    using Cons.IH [OF p1(2) inv, of "d\<lparr>rq_app := s, rq_parser := Some p1\<rparr>" r1] Cons.prems by auto
  show ?case
  proof (cases "w = []")
    case True
    then show ?thesis using 1 p1 by auto
  next
    case False
    then show ?thesis using 1 2 by auto
  qed
qed

lemma upload_loop_Nil [simp]: "upload_loop [] r d = Inr (r, d)"
  by (subst upload_loop.simps) (simp split: option.split)

section \<open>The whole body\<close>

definition uploading :: "'s request \<Rightarrow> nat \<Rightarrow> multipart_parser \<Rightarrow> bool" where
  "uploading d k p \<longleftrightarrow> rq_parser d = Some p \<and> parser_inv p \<and> \<not> rq_read_full d \<and> observing (rq_filter d) \<and> rq_read_size d = int k
     \<and> 0 < rq_buffer_size d"

text \<open>What a piece of the body leaves as it is.\<close>

definition same_request :: "'s request \<Rightarrow> 's request \<Rightarrow> bool" where
  "same_request d d' \<longleftrightarrow> rq_content_length d' = rq_content_length d \<and> rq_limits d' = rq_limits d \<and> rq_post d' = rq_post d
     \<and> rq_files d' = rq_files d"

lemma progress_loop:
  assumes "uploading d k p" "data \<noteq> []"
  shows "on_content_progress (length data) (read_into data d) =
     (case upload_loop data Continue_input ((read_into data d)\<lparr>rq_read_size := int (k + length data)\<rparr>) of
        Inl x \<Rightarrow> x
      | Inr (r, d3) \<Rightarrow>
          if rq_parser d3 \<noteq> None \<and> rq_read_size d3 = rq_content_length d3 \<and> r \<noteq> Eof then (400, d3)
          else if rq_read_size d3 = rq_content_length d3 then content_end d3
          else (0, d3))"
proof -
  have "take (length data) (rq_post_data (read_into data d)) = data"
    using assms(1) by (simp add: read_into_def buffer_offset_def uploading_def)
  moreover have "rq_read_size (read_into data d) + int (length data) = int (k + length data)" "rq_filter (read_into data d) = rq_filter d"
    using assms(1) by (simp_all add: read_into_def uploading_def Let_def)
  moreover have "rq_filter d = None \<or> (\<exists>f. rq_filter d = Some f \<and> raw_filter f = None)"
    using assms(1) by (auto simp: uploading_def observing_def split: option.splits)
  ultimately show ?thesis using assms(2) by (auto simp: on_content_progress_def)
qed

lemma progress_middle:
  assumes "uploading d k p" "data \<noteq> []" "mp_steps p data = Some q" "sizes_ok (content_length_limit (rq_limits d)) q"
    "int (k + length data) < rq_content_length d"
  shows "\<exists>d'. on_content_progress (length data) (read_into data d) = (0, d') \<and> uploading d' (k + length data) q \<and> same_request d d'"
proof -
  let ?d = "(read_into data d)\<lparr>rq_read_size := int (k + length data)\<rparr>"
  have d: "rq_parser ?d = Some p" "observing (rq_filter ?d)" "rq_limits ?d = rq_limits d" "rq_content_length ?d = rq_content_length d"
    "rq_read_full ?d = rq_read_full d" "rq_post ?d = rq_post d" "rq_files ?d = rq_files d" "rq_buffer_size ?d = rq_buffer_size d" "parser_inv p"
    "\<not> rq_read_full d" "0 < rq_buffer_size d"
    using assms(1) by (auto simp: read_into_def uploading_def Let_def)
  from upload_steps [OF assms(3) d(9), of ?d "[]" Continue_input] d assms(4) obtain s r' where
    "upload_loop data Continue_input ?d = upload_loop [] r' (?d\<lparr>rq_app := s, rq_parser := Some q\<rparr>)" by auto
  then have "upload_loop data Continue_input ?d = Inr (r', ?d\<lparr>rq_app := s, rq_parser := Some q\<rparr>)" by simp
  moreover have "parser_inv q" using steps_sizes [OF assms(3) d(9)] by simp
  ultimately show ?thesis using progress_loop [OF assms(1,2)] assms(5) d
    by (auto simp: uploading_def same_request_def)
qed

lemma add_parts:
  "rq_post (fold add_part fs d) = fold (\<lambda>(k, v). mm_insert k v) (map (\<lambda>f. (hf_name f, written (hf_data f))) (filter (\<lambda>f. \<not> has_mime f) fs)) (rq_post d)"
  "rq_files (fold add_part fs d) = rq_files d @ filter has_mime fs"
  "rq_content_length (fold add_part fs d) = rq_content_length d" "rq_read_size (fold add_part fs d) = rq_read_size d"
  "rq_read_full (fold add_part fs d) = rq_read_full d" "rq_buffer_size (fold add_part fs d) = rq_buffer_size d"
  "rq_post_data (fold add_part fs d) = rq_post_data d"
  by (induction fs arbitrary: d) (auto simp: add_part_def)

lemma progress_last:
  assumes "uploading d k p" "mp_steps p w = Some q" "mp_state q = Expecting_eof_lf" "sizes_ok (content_length_limit (rq_limits d)) q"
    "int (k + length w + 1) = rq_content_length d"
  shows "\<exists>d'. on_content_progress (length (w @ [LF])) (read_into (w @ [LF]) d) = (0, d') \<and> rq_ready d'
    \<and> rq_post d' = fold (\<lambda>(k, v). mm_insert k v) (map (\<lambda>f. (hf_name f, written (hf_data f))) (filter (\<lambda>f. \<not> has_mime f) (mp_files q))) (rq_post d)
    \<and> rq_files d' = rq_files d @ filter has_mime (mp_files q)
    \<and> rq_read_size d' = rq_content_length d' \<and> \<not> rq_read_full d' \<and> 0 < rq_buffer_size d' \<and> rq_post_data d' = []"
proof -
  let ?w = "w @ [LF]"
  let ?d = "(read_into ?w d)\<lparr>rq_read_size := int (k + length ?w)\<rparr>"
  have d: "rq_parser ?d = Some p" "observing (rq_filter ?d)" "rq_limits ?d = rq_limits d" "rq_content_length ?d = rq_content_length d"
    "rq_read_full ?d = rq_read_full d" "rq_post ?d = rq_post d" "rq_files ?d = rq_files d" "rq_buffer_size ?d = rq_buffer_size d" "parser_inv p"
    "\<not> rq_read_full d" "0 < rq_buffer_size d"
    using assms(1) by (auto simp: read_into_def uploading_def Let_def)
  from upload_steps [OF assms(2) d(9), of ?d "[LF]" Continue_input] d assms(4) obtain s r' where
    u: "upload_loop ?w Continue_input ?d = upload_loop [LF] r' (?d\<lparr>rq_app := s, rq_parser := Some q\<rparr>)" by auto
  let ?e = "?d\<lparr>rq_app := s, rq_parser := Some q\<rparr>"
  have "mp_consume q [LF] = (Eof, q, [])" using assms(3) by (simp add: consume_char_def)
  then have "upload_loop [LF] r' ?e = Inr (Eof, ?e)"
    using assms(5) d(4) by (subst upload_loop.simps) (simp add: parser_event_def)
  then have l: "on_content_progress (length ?w) (read_into ?w d) = content_end ?e"
    using progress_loop [OF assms(1), of ?w] u assms(5) d(4) by simp
  have "rq_filter ?e = None \<or> (\<exists>f. rq_filter ?e = Some f \<and> (\<forall>s. fst (on_end_of_content f s) = None))"
    using d(2) by (auto simp: observing_def split: option.splits)
  then have "\<exists>e. content_end ?e = (0, (fold add_part (mp_files q) e)\<lparr>rq_ready := True\<rparr>) \<and> (\<exists>s'. e = ?e\<lparr>rq_post_data := [], rq_app := s', rq_parser := None\<rparr>)"
  proof (elim disjE exE conjE)
    assume "rq_filter ?e = None"
    then have "content_end ?e = (0, (fold add_part (mp_files q) (?e\<lparr>rq_post_data := [], rq_parser := None\<rparr>))\<lparr>rq_ready := True\<rparr>)"
      using d(5,10) by (simp add: content_end_def)
    moreover have "?e\<lparr>rq_post_data := [], rq_parser := None\<rparr> = ?e\<lparr>rq_post_data := [], rq_app := s, rq_parser := None\<rparr>" by simp
    ultimately show ?thesis by metis
  next
    fix f assume f: "rq_filter ?e = Some f" "\<forall>s. fst (on_end_of_content f s) = None"
    obtain s' where "on_end_of_content f s = (None, s')" using f(2) by (metis prod.collapse)
    then have "content_end ?e = (0, (fold add_part (mp_files q) (?e\<lparr>rq_post_data := [], rq_app := s', rq_parser := None\<rparr>))\<lparr>rq_ready := True\<rparr>)"
      using f(1) d(5,10) by (simp add: content_end_def)
    then show ?thesis by blast
  qed
  then obtain s' where "content_end ?e = (0, (fold add_part (mp_files q) (?e\<lparr>rq_post_data := [], rq_app := s', rq_parser := None\<rparr>))\<lparr>rq_ready := True\<rparr>)" by blast
  then show ?thesis using l d assms(5) by (simp add: add_parts)
qed

lemma uploading_buffer:
  assumes "uploading d k p" "int k < rq_content_length d"
  shows "\<exists>n d'. get_buffer d = Some (n, d') \<and> 0 < n \<and> uploading d' k p \<and> same_request d d'"
proof -
  define sz where "sz = (if rq_content_length d - int k < rq_buffer_size d then rq_content_length d - int k else rq_buffer_size d)"
  have "0 < sz" using assms by (auto simp: sz_def uploading_def)
  then have "get_buffer d = map_option (\<lambda>v. (length v, d\<lparr>rq_post_data := v\<rparr>)) (vector_resize sz (rq_post_data d))"
    using assms(1) by (simp add: get_buffer_def uploading_def sz_def Let_def)
  moreover obtain v where "vector_resize sz (rq_post_data d) = Some v" "length v = nat sz"
    using \<open>0 < sz\<close> by (auto simp: vector_resize_def)
  ultimately show ?thesis using assms(1) \<open>0 < sz\<close> by (auto simp: uploading_def same_request_def)
qed

lemma same_request_trans: "same_request d d' \<Longrightarrow> same_request d' d'' \<Longrightarrow> same_request d d''"
  by (simp add: same_request_def)

definition delivered :: "multipart_parser \<Rightarrow> 's request \<Rightarrow> 's request \<Rightarrow> bool" where
  "delivered q d d' \<longleftrightarrow> rq_ready d'
    \<and> rq_post d' = fold (\<lambda>(k, v). mm_insert k v) (map (\<lambda>f. (hf_name f, written (hf_data f))) (filter (\<lambda>f. \<not> has_mime f) (mp_files q))) (rq_post d)
    \<and> rq_files d' = rq_files d @ filter has_mime (mp_files q)"

lemma read_all:
  "uploading d k p \<Longrightarrow> mp_steps p (butlast input) = Some q \<Longrightarrow> input \<noteq> [] \<Longrightarrow> last input = LF
    \<Longrightarrow> mp_state q = Expecting_eof_lf \<Longrightarrow> sizes_ok (content_length_limit (rq_limits d)) q
    \<Longrightarrow> int (k + length input) = rq_content_length d \<Longrightarrow> 0 < avail \<Longrightarrow> length input \<le> length reads
    \<Longrightarrow> \<exists>d'. on_some_content_read reads input avail d = (Load_completed, d') \<and> delivered q d d'"
proof (induction reads arbitrary: input d k p avail)
  case (Cons n reads)
  define m where "m = min (max 1 n) avail"
  define data where "data = take m input"
  have m: "0 < m" using Cons.prems(8) by (simp add: m_def)
  show ?case
  proof (cases "m < length input")
    case True
    have split: "butlast input = data @ butlast (drop m input)" using True
      by (metis append_take_drop_id butlast_append data_def drop_eq_Nil linorder_not_less)
    from Cons.prems(2) obtain p1 where p1: "mp_steps p data = Some p1" "mp_steps p1 (butlast (drop m input)) = Some q"
      unfolding split by (auto simp: mp_steps_append split: option.splits)
    have len: "length data = m" "data \<noteq> []" using True m by (auto simp: data_def)
    have inv: "parser_inv p" "parser_inv p1" using Cons.prems(1) steps_sizes [OF p1(1)] by (auto simp: uploading_def)
    have sz: "sizes_ok (content_length_limit (rq_limits d)) p1" using steps_sizes [OF p1(2) inv(2)] Cons.prems(6) by blast
    have "int (k + length data) < rq_content_length d" using Cons.prems(7) True len by linarith
    from progress_middle [OF Cons.prems(1) len(2) p1(1) sz this] obtain d1 where
      d1: "on_content_progress (length data) (read_into data d) = (0, d1)" "uploading d1 (k + m) p1" "same_request d d1" using len by auto
    have "int (k + m) < rq_content_length d1" using Cons.prems(7) True d1(3) by (simp add: same_request_def)
    from uploading_buffer [OF d1(2) this] obtain a d2 where
      d2: "get_buffer d1 = Some (a, d2)" "0 < a" "uploading d2 (k + m) p1" "same_request d1 d2" by blast
    have same: "same_request d d2" using same_request_trans d1(3) d2(4) by blast
    have "\<exists>d'. on_some_content_read reads (drop m input) a d2 = (Load_completed, d') \<and> delivered q d2 d'"
      using True m Cons.prems same d2(2) by (intro Cons.IH [OF d2(3) p1(2)]) (auto simp: same_request_def)
    moreover have "delivered q d2 d' = delivered q d d'" for d' using same by (simp add: delivered_def same_request_def)
    moreover have "on_some_content_read (n # reads) input avail d = on_some_content_read reads (drop m input) a d2"
      using d1(1) d2(1,2) Cons.prems(3) len by (simp add: data_def m_def Let_def)
    ultimately show ?thesis by simp
  next
    case False
    then have data: "data = butlast input @ [LF]" using Cons.prems(3,4) by (metis append_butlast_last_id data_def linorder_not_less take_all)
    have "int (k + length (butlast input) + 1) = rq_content_length d" using Cons.prems(3,7) by (cases input) auto
    from progress_last [OF Cons.prems(1,2,5,6) this] obtain d1 where
      d1: "on_content_progress (length data) (read_into data d) = (0, d1)" "delivered q d d1" "rq_read_size d1 = rq_content_length d1"
        "\<not> rq_read_full d1" "0 < rq_buffer_size d1" "rq_post_data d1 = []"
      unfolding delivered_def data by blast
    have "get_buffer d1 = Some (0, d1\<lparr>rq_post_data := []\<rparr>)" using d1(3-6) by (simp add: get_buffer_def vector_resize_def Let_def)
    then have "on_some_content_read (n # reads) input avail d = (Load_completed, d1\<lparr>rq_post_data := []\<rparr>)"
      using d1(1) Cons.prems(3) by (simp add: data_def m_def Let_def)
    moreover have "delivered q d (d1\<lparr>rq_post_data := []\<rparr>)" using d1(2) by (simp add: delivered_def)
    ultimately show ?thesis by blast
  qed
qed simp

section \<open>Multipart forms\<close>

lemma view_mime: "file_view f = part_view t \<Longrightarrow> has_mime f \<longleftrightarrow> pt_mime t \<noteq> None"
  by (auto simp: file_view_def part_view_def has_mime_def split: option.splits prod.splits)

lemma views_filter:
  "map file_view fs = map part_view ts \<Longrightarrow> map file_view (filter has_mime fs) = map part_view (filter (\<lambda>t. pt_mime t \<noteq> None) ts)
    \<and> map (\<lambda>f. (hf_name f, written (hf_data f))) (filter (\<lambda>f. \<not> has_mime f) fs)
      = map (\<lambda>t. (pt_name t, pt_content t)) (filter (\<lambda>t. pt_mime t = None) ts)"
proof (induction fs arbitrary: ts)
  case (Cons f fs)
  then obtain t ts' where t: "ts = t # ts'" "file_view f = part_view t" "map file_view fs = map part_view ts'" by auto
  have "(hf_name f, written (hf_data f)) = (pt_name t, pt_content t)" using t(2) by (auto simp: file_view_def part_view_def)
  then show ?case using Cons.IH [OF t(3)] t(1,2) view_mime [OF t(2)] by auto
qed simp

lemma views_sizes:
  assumes "map file_view fs = map part_view ts" "list_all (\<lambda>t. pt_mime t = None \<longrightarrow> int (length (pt_content t)) \<le> a) ts"
  shows "\<forall>f \<in> set fs. size_ok f a"
proof
  fix f assume "f \<in> set fs"
  then obtain t where t: "t \<in> set ts" "file_view f = part_view t" using assms(1) by (metis imageE imageI list.set_map)
  then have "hf_size f = length (pt_content t)" by (auto simp: file_view_def part_view_def hf_size_def)
  then show "size_ok f a" using t view_mime [OF t(2)] assms(2) by (auto simp: size_ok_def list_all_iff)
qed

text \<open>A pool whose application, when it is asked, installs the filter.\<close>

definition installs :: "'s app_pool \<Rightarrow> 's content_filter option \<Rightarrow> bool" where
  "installs ap flt \<longleftrightarrow> ap_main ap = Some (\<lambda>d. (None, set_filter flt d))"

text \<open>A request whose headers have been read and whose body has not.\<close>

definition fresh :: "content_limits \<Rightarrow> int \<Rightarrow> string \<Rightarrow> int \<Rightarrow> 's request \<Rightarrow> bool" where
  "fresh lim bufsize ctype len d \<longleftrightarrow> rq_content_type d = content_type_parse ctype \<and> rq_limits d = lim
    \<and> rq_content_length d = len \<and> rq_read_size d = 0 \<and> \<not> rq_read_full d \<and> rq_buffer_size d = bufsize \<and> rq_post d = []
    \<and> rq_files d = [] \<and> rq_parser d = None \<and> rq_post_data d = [] \<and> \<not> rq_ready d"

definition started :: "content_limits \<Rightarrow> int \<Rightarrow> string \<Rightarrow> int \<Rightarrow> 's request \<Rightarrow> bool" where
  "started lim bufsize ctype len d \<longleftrightarrow> observing (rq_filter d) \<and> fresh lim bufsize ctype len d"

lemma headers_fresh:
  assumes "installs ap flt" "len \<noteq> 0"
  shows "\<exists>d1. on_headers_ready (Some ap) query cookies len (request_new lim bufsize ctype s) = on_content_start d1
    \<and> fresh lim bufsize ctype len d1 \<and> rq_filter d1 \<in> {None, flt}"
proof -
  let ?d = "prepare query cookies len (request_new lim bufsize ctype s)"
  have "fresh lim bufsize ctype len ?d \<and> rq_filter ?d = None" "fresh lim bufsize ctype len (set_filter flt ?d) \<and> rq_filter (set_filter flt ?d) = flt"
    using assms(2) by (simp_all add: fresh_def prepare_def request_new_def set_filter_def case_prod_unfold Let_def)
  moreover have "on_headers_ready (Some ap) query cookies len (request_new lim bufsize ctype s) \<in> {on_content_start ?d, on_content_start (set_filter flt ?d)}"
    using assms(1) by (auto simp: on_headers_ready_def installs_def Let_def)
  ultimately show ?thesis by blast
qed

lemma headers_ready:
  assumes "installs ap flt" "observing flt" "len \<noteq> 0"
  shows "\<exists>d1. on_headers_ready (Some ap) query cookies len (request_new lim bufsize ctype s) = on_content_start d1
    \<and> started lim bufsize ctype len d1"
proof -
  have "observing None" by (simp add: observing_def)
  then show ?thesis using headers_fresh [OF assms(1,3), of query cookies lim bufsize ctype s] assms(2) by (auto simp: started_def)
qed

lemma observing_not_raw: "observing (rq_filter d) \<Longrightarrow> \<not> filter_is_raw d"
  by (auto simp: observing_def filter_is_raw_def split: option.splits)

lemma multipart_type:
  assumes "param_ok (''boundary'', quoted, key)"
  shows "is_multipart_form_data (content_type_parse (content_type_text ''multipart'' ''form-data'' [(''boundary'', quoted, key)]))"
    and "parameter_by_key (content_type_parse (content_type_text ''multipart'' ''form-data'' [(''boundary'', quoted, key)])) ''boundary'' = key"
proof -
  have tok: "token ''multipart''" "token ''form-data''" "map ascii_to_lower (''multipart'' @ ''/'' @ ''form-data'') = ''multipart/form-data''"
    "map ascii_to_lower ''boundary'' = ''boundary''" by code_simp+
  have key: "map_of (map (\<lambda>(k, _, v). (map ascii_to_lower k, v)) [(''boundary'', quoted, key)]) ''boundary'' = Some key"
  proof -
    have "map ascii_to_lower k = k' \<Longrightarrow> map_of (map (\<lambda>(k, _, v). (map ascii_to_lower k, v)) [(k, quoted, key)]) k' = Some key" for k k' by simp
    from this [OF tok(4)] show ?thesis .
  qed
  have ps: "list_all param_ok [(''boundary'', quoted, key)]" using assms by simp
  show "is_multipart_form_data (content_type_parse (content_type_text ''multipart'' ''form-data'' [(''boundary'', quoted, key)]))"
    "parameter_by_key (content_type_parse (content_type_text ''multipart'' ''form-data'' [(''boundary'', quoted, key)])) ''boundary'' = key"
    unfolding is_multipart_form_data_def content_type_read [OF tok(1,2) ps] tok(3) key by simp_all
qed

lemma multipart_load:
  assumes "installs ap flt" "observing flt" "0 < bufsize"
    "is_multipart_form_data (content_type_parse ct)" "parameter_by_key (content_type_parse ct) ''boundary'' = key" "key \<noteq> []" "CR \<notin> set key"
    "list_all (\<lambda>t. part_ok (boundary_of key) t \<and> length (pt_content t) + length (boundary_of key) \<le> file_room lim
        \<and> (pt_mime t = None \<longrightarrow> int (length (pt_content t)) \<le> content_length_limit lim)) ts"
    "int (length (multipart_body key ts)) \<le> multipart_form_data_limit lim" "length (multipart_body key ts) \<le> length reads"
  shows "\<exists>d. load_content (Some ap) query cookies (int (length (multipart_body key ts))) reads (multipart_body key ts)
        (request_new lim bufsize ct s) = (Load_completed, d)
    \<and> rq_ready d
    \<and> (\<forall>n. mm_values (rq_post d) n = map pt_content (filter (\<lambda>t. pt_mime t = None \<and> pt_name t = n) ts))
    \<and> map file_view (rq_files d) = map part_view (filter (\<lambda>t. pt_mime t \<noteq> None) ts)"
proof -
  let ?body = "multipart_body key ts" and ?len = "int (length (multipart_body key ts))"
  have len: "?len \<noteq> 0" "?body \<noteq> []" "last ?body = LF" by (auto simp: multipart_body_def)
  from headers_ready [OF assms(1,2) len(1), of query cookies lim bufsize ct s] obtain d1 where
    d1: "on_headers_ready (Some ap) query cookies ?len (request_new lim bufsize ct s) = on_content_start d1"
      "started lim bufsize ct ?len d1" by blast
  then have d2: "observing (rq_filter d1)" "rq_content_type d1 = content_type_parse ct" "rq_limits d1 = lim" "rq_content_length d1 = ?len"
      "rq_read_size d1 = 0" "\<not> rq_read_full d1" "rq_buffer_size d1 = bufsize" "rq_post d1 = []" "rq_files d1 = []" by (simp_all add: started_def fresh_def)
  define sp where "sp = set_content_type (content_type_parse ct) (multipart_parser_new (file_room lim))"
  have parts: "list_all (\<lambda>t. part_ok (boundary_of key) t \<and> length (pt_content t) + length (boundary_of key) \<le> file_room lim) ts"
    using assms(8) by (auto simp: list_all_iff)
  from multipart_steps [OF assms(6,7,5) parts] obtain q where
    q: "fst sp" "mp_steps (snd sp) (butlast ?body) = Some q" "mp_state q = Expecting_eof_lf" "map file_view (mp_files q) = map part_view ts"
    by (auto simp: sp_def)
  let ?d2 = "d1\<lparr>rq_parser := Some (snd sp)\<rparr>"
  have start: "on_content_start d1 = Some (0, ?d2)"
    using d2 len(1) assms(4,9) observing_not_raw [OF d2(1)] q(1)
    by (simp add: on_content_start_def sp_def case_prod_unfold)
  have inv0: "parser_inv (snd sp)" using assms(5,6) by (simp add: sp_def parser_inv_def set_content_type_def multipart_parser_new_def Let_def)
  then have up: "uploading ?d2 0 (snd sp)" using d2 assms(3) by (simp add: uploading_def)
  have "list_all (\<lambda>t. pt_mime t = None \<longrightarrow> int (length (pt_content t)) \<le> content_length_limit lim) ts"
    using assms(8) by (auto simp: list_all_iff)
  from views_sizes [OF q(4) this] have sizes: "sizes_ok (content_length_limit (rq_limits ?d2)) q"
    using d2(3) steps_sizes [OF q(2) inv0, of 0] q(3) by (simp add: sizes_ok_def parser_inv_def)
  have "int 0 < rq_content_length ?d2" using d2(4) len(1) by simp
  from uploading_buffer [OF up this] obtain a d3 where
    d3: "get_buffer ?d2 = Some (a, d3)" "0 < a" "uploading d3 0 (snd sp)" "same_request ?d2 d3" by blast
  have "sizes_ok (content_length_limit (rq_limits d3)) q" "int (0 + length ?body) = rq_content_length d3"
    using sizes d3(4) d2(4) by (simp_all add: same_request_def)
  from read_all [OF d3(3) q(2) len(2,3) q(3) this d3(2) assms(10)] obtain d where
    d: "on_some_content_read reads ?body a d3 = (Load_completed, d)" "delivered q d3 d" by blast
  have "load_content (Some ap) query cookies ?len reads ?body (request_new lim bufsize ct s) = (Load_completed, d)"
    using d1(1) d2(4) start d3(1) d(1) len(1) by (simp add: load_content_def)
  moreover have "rq_post d = fold (\<lambda>(k, v). mm_insert k v) (map (\<lambda>t. (pt_name t, pt_content t)) (filter (\<lambda>t. pt_mime t = None) ts)) []"
    "map file_view (rq_files d) = map part_view (filter (\<lambda>t. pt_mime t \<noteq> None) ts)" "rq_ready d"
    using d(2) d3(4) d2(8,9) views_filter [OF q(4)] by (auto simp: delivered_def same_request_def)
  ultimately show ?thesis
    by (simp add: mm_values_fold filter_map comp_def conj_commute)
qed

section \<open>Forms in the URL encoding\<close>

fun form_text :: "(string \<times> string) list \<Rightarrow> string" where
  "form_text [] = []"
| "form_text [(n, v)] = urlencode n @ ''='' @ urlencode v"
| "form_text ((n, v) # ps) = urlencode n @ ''='' @ urlencode v @ ''&'' @ form_text ps"

lemma urlencode_no_separator: "CHR ''='' \<notin> set (urlencode s)" "CHR ''&'' \<notin> set (urlencode s)"
proof -
  have "\<not> url_safe (CHR ''='')" "\<not> url_safe (CHR ''&'')" by code_simp+
  then show "CHR ''='' \<notin> set (urlencode s)" "CHR ''&'' \<notin> set (urlencode s)" using urlencode_chars [of _ s] by force+
qed

lemma urlencode_Nil_iff: "urlencode s = [] \<longleftrightarrow> s = []"
  by (metis list.simps(8) urldecode_urlencode urlencode_length length_0_conv le_zero_eq list.size(3) mult_0_right)

lemma parse_pair_form:
  assumes "n \<noteq> []" "r = [] \<or> hd r = CHR ''&''"
  shows "parse_form_urlencoded (urlencode n @ ''='' @ urlencode v @ r) out = parse_form_urlencoded (tl r) (mm_insert n v out)"
proof -
  let ?piece = "urlencode n @ ''='' @ urlencode v"
  have "CHR ''&'' \<notin> set ?piece" using urlencode_no_separator by auto
  then have "takeWhile (\<lambda>c. c \<noteq> CHR ''&'') (p @ r) = p" if "CHR ''&'' \<notin> set p" for p
    using assms(2) that by (induction p) (cases r, auto)
  then have 1: "takeWhile (\<lambda>c. c \<noteq> CHR ''&'') (?piece @ r) = ?piece" using \<open>CHR ''&'' \<notin> set ?piece\<close> by blast
  have 2: "takeWhile (\<lambda>c. c \<noteq> CHR ''='') ?piece = urlencode n" using urlencode_no_separator(1) [of n]
    by (subst takeWhile_append2) auto
  have 3: "drop (length ?piece + 1) (?piece @ r) = tl r" by (cases r) simp_all
  have "parse_form_urlencoded (?piece @ r) out = parse_form_urlencoded (drop (length ?piece + 1) (?piece @ r))
      (mm_insert (urldecode (urlencode n)) (urldecode (drop (length (urlencode n) + 1) ?piece)) out)"
    using assms(1) by (subst parse_form_urlencoded.simps) (simp only: 1 2 Let_def, simp add: urlencode_Nil_iff)
  then show ?thesis unfolding 3 by simp
qed

lemma parse_form_text:
  "list_all (\<lambda>p. fst p \<noteq> []) ps \<Longrightarrow> parse_form_urlencoded (form_text ps) out = (True, fold (\<lambda>(k, v). mm_insert k v) ps out)"
proof (induction ps arbitrary: out rule: form_text.induct)
  case 1
  then show ?case by (simp add: parse_form_urlencoded.simps)
next
  case (2 n v)
  then show ?case using parse_pair_form [of n "[]" v out] by (simp add: parse_form_urlencoded.simps)
next
  case (3 n v p ps)
  then show ?case using parse_pair_form [of n "''&'' @ form_text (p # ps)" v out] by simp
qed

text \<open>A body that is read as a whole.\<close>

definition filling :: "string \<Rightarrow> nat \<Rightarrow> 's request \<Rightarrow> bool" where
  "filling body k d \<longleftrightarrow> rq_read_full d \<and> rq_parser d = None \<and> observing (rq_filter d) \<and> rq_read_size d = int k
     \<and> rq_content_length d = int (length body) \<and> length (rq_post_data d) = length body \<and> take k (rq_post_data d) = take k body
     \<and> k < length body"

lemma fill_piece:
  assumes "filling body k d" "k + m \<le> length body" "data = take m (drop k body)"
  shows "rq_post_data (read_into data d) = take (k + m) body @ drop (k + m) (rq_post_data d)"
  using assms by (simp add: read_into_def buffer_offset_def filling_def Let_def take_add)

lemma no_raw: "observing (rq_filter d) \<Longrightarrow> rq_filter d = None \<or> (\<exists>f. rq_filter d = Some f \<and> raw_filter f = None)"
  by (auto simp: observing_def split: option.splits)

lemma upload_loop_none: "rq_parser d = None \<Longrightarrow> upload_loop b r d = Inr (r, d)"
  by (simp add: upload_loop.simps)

lemma fill_progress:
  assumes "filling body k d" "0 < m" "k + m \<le> length body" "data = take m (drop k body)"
  shows "on_content_progress (length data) (read_into data d)
    = (let d1 = (read_into data d)\<lparr>rq_read_size := int (k + m)\<rparr> in if k + m = length body then content_end d1 else (0, d1))"
proof -
  have "length data = m" "rq_read_size d = int k" "rq_parser d = None" "rq_content_length d = int (length body)"
    using assms by (auto simp: filling_def)
  moreover have "rq_filter (read_into data d) = rq_filter d" "rq_read_size (read_into data d) = rq_read_size d"
    "rq_parser (read_into data d) = rq_parser d" "rq_content_length (read_into data d) = rq_content_length d"
    by (simp_all add: read_into_def Let_def)
  ultimately show ?thesis using no_raw [of d] assms(1,2)
    by (auto simp: on_content_progress_def filling_def upload_loop_none Let_def)
qed

lemma content_end_form:
  assumes "rq_read_full d" "is_form_urlencoded (rq_content_type d)" "observing (rq_filter d)" "rq_parser d = None"
  shows "\<exists>d'. content_end d = (0, d') \<and> rq_ready d' \<and> rq_post_data d' = rq_post_data d \<and> rq_files d' = rq_files d
    \<and> rq_post d' = snd (parse_form_urlencoded (rq_post_data d) (rq_post d)) \<and> rq_read_full d' \<and> rq_read_size d' = rq_read_size d"
proof (cases "rq_filter d")
  case None
  then show ?thesis using assms by (simp add: content_end_def)
next
  case (Some f)
  then have "fst (on_end_of_content f (rq_app d)) = None" using assms(3) by (simp add: observing_def)
  then obtain s where "on_end_of_content f (rq_app d) = (None, s)" by (metis prod.collapse)
  then show ?thesis using assms Some by (simp add: content_end_def)
qed

lemma fill_all:
  "filling body k d \<Longrightarrow> is_form_urlencoded (rq_content_type d) \<Longrightarrow> 0 < avail \<Longrightarrow> length body - k \<le> length reads
    \<Longrightarrow> \<exists>d'. on_some_content_read reads (drop k body) avail d = (Load_completed, d') \<and> rq_ready d' \<and> rq_post_data d' = body
      \<and> rq_post d' = snd (parse_form_urlencoded body (rq_post d)) \<and> rq_files d' = rq_files d"
proof (induction reads arbitrary: k d avail)
  case Nil
  then show ?case by (simp add: filling_def)
next
  case (Cons n reads)
  define m where "m = min (min (max 1 n) avail) (length body - k)"
  define data where "data = take m (drop k body)"
  have k: "k < length body" "0 < m" "k + m \<le> length body" using Cons.prems by (auto simp: filling_def m_def)
  have data: "take (min (max 1 n) avail) (drop k body) = data" "length data = m" using k by (auto simp: data_def m_def min_def)
  let ?d1 = "(read_into data d)\<lparr>rq_read_size := int (k + m)\<rparr>"
  note prog = fill_progress [OF Cons.prems(1) k(2,3) data_def]
  note pd = fill_piece [OF Cons.prems(1) k(3) data_def]
  have len: "length (rq_post_data d) = length body" "rq_read_full d" "observing (rq_filter d)" "rq_parser d = None"
    "rq_content_length d = int (length body)" using Cons.prems(1) by (simp_all add: filling_def)
  have keep: "rq_read_full (read_into data d) = rq_read_full d" "rq_filter (read_into data d) = rq_filter d" "rq_parser (read_into data d) = rq_parser d"
    "rq_content_length (read_into data d) = rq_content_length d" "rq_content_type (read_into data d) = rq_content_type d"
    "rq_post (read_into data d) = rq_post d" "rq_files (read_into data d) = rq_files d"
    by (simp_all add: read_into_def Let_def)
  show ?case
  proof (cases "k + m = length body")
    case False
    then have "filling body (k + m) ?d1" using Cons.prems(1) k pd len keep by (simp add: filling_def)
    moreover have "get_buffer ?d1 = Some (length body - (k + m), ?d1)" using len keep pd k by (simp add: get_buffer_def)
    then have "on_some_content_read (n # reads) (drop k body) avail d = on_some_content_read reads (drop (k + m) body) (length body - (k + m)) ?d1"
      using False k prog data by (simp add: add.commute)
    ultimately show ?thesis using Cons.IH [of "k + m" ?d1 "length body - (k + m)"] Cons.prems k False keep by simp
  next
    case True
    have post: "rq_post_data ?d1 = body" using pd True len by simp
    from content_end_form [of ?d1] obtain d2 where d2: "content_end ?d1 = (0, d2)" "rq_ready d2" "rq_post_data d2 = body" "rq_files d2 = rq_files d"
      "rq_post d2 = snd (parse_form_urlencoded body (rq_post d))" "rq_read_full d2" "rq_read_size d2 = int (length body)"
      using Cons.prems(2) len keep post True by auto
    have "get_buffer d2 = Some (0, d2)" using d2 by (simp add: get_buffer_def)
    then have "on_some_content_read (n # reads) (drop k body) avail d = (Load_completed, d2)"
      using True k prog data d2(1) by simp
    then show ?thesis using d2 by blast
  qed
qed

lemma form_load:
  assumes "installs ap flt" "observing flt" "is_form_urlencoded (content_type_parse ct)" "list_all (\<lambda>p. fst p \<noteq> []) ps"
    "form_text ps \<noteq> []" "int (length (form_text ps)) \<le> content_length_limit lim" "length (form_text ps) \<le> length reads"
  shows "\<exists>d. load_content (Some ap) query cookies (int (length (form_text ps))) reads (form_text ps) (request_new lim bufsize ct s) = (Load_completed, d)
    \<and> rq_ready d \<and> raw_post_data d = form_text ps \<and> (\<forall>n. mm_values (rq_post d) n = map snd (filter (\<lambda>p. fst p = n) ps))"
proof -
  let ?b = "form_text ps" and ?len = "int (length (form_text ps))"
  have len: "?len \<noteq> 0" using assms(5) by simp
  from headers_ready [OF assms(1,2) len, of query cookies lim bufsize ct s] obtain d1 where
    d1: "on_headers_ready (Some ap) query cookies ?len (request_new lim bufsize ct s) = on_content_start d1" "started lim bufsize ct ?len d1" by blast
  then have d2: "observing (rq_filter d1)" "rq_content_type d1 = content_type_parse ct" "rq_limits d1 = lim" "rq_content_length d1 = ?len"
      "rq_read_size d1 = 0" "rq_post_data d1 = []" "rq_post d1 = []" "rq_parser d1 = None" by (simp_all add: started_def fresh_def)
  let ?d = "d1\<lparr>rq_post_data := replicate (length ?b) (ch 0), rq_read_full := True\<rparr>"
  have "\<not> is_multipart_form_data (content_type_parse ct)" using assms(3) by (simp add: is_form_urlencoded_def is_multipart_form_data_def)
  then have start: "on_content_start d1 = Some (0, ?d)"
    using d2 len assms(6) observing_not_raw [OF d2(1)] by (simp add: on_content_start_def vector_resize_def)
  have fill: "filling ?b 0 ?d" using d2 assms(5) by (simp add: filling_def)
  have buf: "get_buffer ?d = Some (length ?b, ?d)" using d2(5) by (simp add: get_buffer_def)
  have "0 < length ?b" "length ?b - 0 \<le> length reads" "is_form_urlencoded (rq_content_type ?d)" using assms d2(2) by auto
  from fill_all [OF fill this(3,1,2)] obtain d where
    d: "on_some_content_read reads ?b (length ?b) ?d = (Load_completed, d)" "rq_ready d" "rq_post_data d = ?b" "rq_post d = snd (parse_form_urlencoded ?b (rq_post d1))" by auto
  have "load_content (Some ap) query cookies ?len reads ?b (request_new lim bufsize ct s) = (Load_completed, d)"
    using d1(1) d2(4) start buf d(1) len by (simp add: load_content_def)
  moreover have "mm_values (rq_post d) n = map snd (filter (\<lambda>p. fst p = n) ps)" for n
    using d(4) d2(7) parse_form_text [OF assms(4), of "[]"] by (simp add: mm_values_fold)
  ultimately show ?thesis using d(2,3) by (simp add: raw_post_data_def)
qed

section \<open>Completeness\<close>

text \<open>No piece changes what belongs to the reading of the body.\<close>

definition same_reading :: "'s request \<Rightarrow> 's request \<Rightarrow> bool" where
  "same_reading d d' \<longleftrightarrow> rq_content_length d' = rq_content_length d \<and> rq_read_size d' = rq_read_size d \<and> rq_read_full d' = rq_read_full d
     \<and> rq_post_data d' = rq_post_data d \<and> rq_buffer_size d' = rq_buffer_size d \<and> rq_limits d' = rq_limits d"

lemma same_reading_simps [simp]: "same_reading d d" "same_reading (d\<lparr>rq_parser := x\<rparr>) d' = same_reading d d'"
  "same_reading (d\<lparr>rq_app := s\<rparr>) d' = same_reading d d'" "same_reading d (d'\<lparr>rq_parser := x\<rparr>) = same_reading d d'"
  "same_reading d (d'\<lparr>rq_app := s\<rparr>) = same_reading d d'" "same_reading d (d'\<lparr>rq_no_on_error := t\<rparr>) = same_reading d d'"
  "same_reading d (d'\<lparr>rq_ready := t\<rparr>) = same_reading d d'"
  by (simp_all add: same_reading_def)

lemma same_reading_trans: "same_reading d d' \<Longrightarrow> same_reading d' d'' \<Longrightarrow> same_reading d d''"
  by (simp add: same_reading_def)

lemma event_reading:
  "(case parser_event r p b d of Inl (code, d') \<Rightarrow> same_reading d d' \<and> (code = 0 \<longrightarrow> rq_no_on_error d') | Inr d' \<Rightarrow> same_reading d d')"
  by (auto simp: parser_event_def call_current_def call_last_def caught_def Let_def
      split: parsing_result_type.split option.split prod.split sum.split upload_exc.split)

lemma upload_reading:
  "(case upload_loop b r d of Inl (code, d') \<Rightarrow> same_reading d d' \<and> (code = 0 \<longrightarrow> rq_no_on_error d') | Inr (r', d') \<Rightarrow> same_reading d d')"
proof (induction b r d rule: upload_loop.induct)
  case (1 b r d)
  show ?case
  proof (cases "rq_parser d")
    case None
    then show ?thesis by (simp add: upload_loop_none)
  next
    case (Some p)
    show ?thesis
    proof (cases "b = []")
      case False
      obtain r1 p1 b1 where c: "mp_consume p b = (r1, p1, b1)" by (cases "mp_consume p b")
      let ?d = "d\<lparr>rq_parser := Some p1\<rparr>"
      show ?thesis
      proof (cases "parser_event r1 p1 b1 ?d")
        case (Inl x)
        then show ?thesis using Some False c event_reading [where r = r1 and p = p1 and b = b1 and d = ?d]
          by (subst upload_loop.simps) (auto split: sum.splits prod.splits)
      next
        case (Inr d')
        then have "same_reading d d'" using event_reading [where r = r1 and p = p1 and b = b1 and d = ?d] by simp
        then show ?thesis using "1.IH" [OF Some False c [symmetric] refl Inr] Some False c Inr
          by (subst upload_loop.simps) (auto split: sum.splits prod.splits intro: same_reading_trans)
      qed
    qed simp
  qed
qed

definition reading_inv :: "'s request \<Rightarrow> bool" where
  "reading_inv d \<longleftrightarrow> 0 < rq_buffer_size d \<and> 0 \<le> rq_read_size d \<and> rq_read_size d \<le> rq_content_length d
     \<and> (rq_read_full d \<longrightarrow> int (length (rq_post_data d)) = rq_content_length d)"

definition complete :: "'s request \<Rightarrow> bool" where
  "complete d \<longleftrightarrow> (rq_read_size d = rq_content_length d \<longrightarrow> rq_ready d \<or> rq_no_on_error d)"

lemma add_parts_ready: "rq_no_on_error (fold add_part fs d) = rq_no_on_error d" "rq_limits (fold add_part fs d) = rq_limits d"
  by (induction fs arbitrary: d) (auto simp: add_part_def)

lemma content_end_inv:
  assumes "content_end d = (0, d')"
  shows "(rq_ready d' \<or> rq_no_on_error d') \<and> rq_content_length d' = rq_content_length d \<and> rq_read_size d' = rq_read_size d
    \<and> rq_read_full d' = rq_read_full d \<and> rq_buffer_size d' = rq_buffer_size d \<and> rq_limits d' = rq_limits d
    \<and> (rq_read_full d \<longrightarrow> rq_post_data d' = rq_post_data d)"
proof -
  define d1 where "d1 = (if rq_read_full d then
      (if is_form_urlencoded (rq_content_type d) then d\<lparr>rq_post := snd (parse_form_urlencoded (rq_post_data d) (rq_post d))\<rparr> else d)
    else d\<lparr>rq_post_data := []\<rparr>)"
  define e2 where "e2 = (case rq_filter d1 of None \<Rightarrow> (None, d1)
    | Some flt \<Rightarrow> (case on_end_of_content flt (rq_app d1) of (e, s) \<Rightarrow> (e, d1\<lparr>rq_app := s\<rparr>)))"
  have r1: "rq_content_length d1 = rq_content_length d" "rq_read_size d1 = rq_read_size d" "rq_read_full d1 = rq_read_full d"
    "rq_buffer_size d1 = rq_buffer_size d" "rq_limits d1 = rq_limits d" "rq_read_full d \<longrightarrow> rq_post_data d1 = rq_post_data d" by (auto simp: d1_def)
  have r2: "same_reading d1 (snd e2)" by (auto simp: e2_def split: option.split prod.split)
  have "content_end d = (case fst e2 of Some x \<Rightarrow> caught x (snd e2)
     | None \<Rightarrow> (0, (case rq_parser (snd e2) of None \<Rightarrow> snd e2 | Some p \<Rightarrow> fold add_part (mp_files p) ((snd e2)\<lparr>rq_parser := None\<rparr>))\<lparr>rq_ready := True\<rparr>))"
    unfolding content_end_def d1_def [symmetric] Let_def e2_def [symmetric] by (simp add: case_prod_unfold)
  then show ?thesis using assms r1 r2
    by (auto simp: caught_def same_reading_def add_parts add_parts_ready split: option.splits)
qed

lemma progress_inv:
  assumes "on_content_progress n d = (0, d')" "reading_inv d" "rq_read_size d + int n \<le> rq_content_length d" "0 < n"
  shows "reading_inv d' \<and> complete d' \<and> rq_read_size d' = rq_read_size d + int n \<and> rq_content_length d' = rq_content_length d \<and> rq_limits d' = rq_limits d"
proof -
  define d1 where "d1 = d\<lparr>rq_read_size := rq_read_size d + int n\<rparr>"
  define e2 where "e2 = (case rq_filter d1 of None \<Rightarrow> (None, d1)
    | Some flt \<Rightarrow> (case raw_filter flt of None \<Rightarrow> (None, d1)
      | Some cb \<Rightarrow> (case cb (take n (rq_post_data d)) (rq_app d1) of (e, s) \<Rightarrow> (e, d1\<lparr>rq_app := s\<rparr>))))"
  have inv1: "reading_inv d1" using assms(2,3) by (auto simp: d1_def reading_inv_def)
  have same: "same_reading d1 (snd e2)" by (auto simp: e2_def split: option.split prod.split)
  have keep: "reading_inv x \<and> rq_read_size x = rq_read_size d + int n \<and> rq_content_length x = rq_content_length d \<and> rq_limits x = rq_limits d"
    if "same_reading d1 x" for x
    using inv1 that by (auto simp: same_reading_def reading_inv_def d1_def)
  have p: "on_content_progress n d = (case fst e2 of Some x \<Rightarrow> caught x (snd e2)
     | None \<Rightarrow> (case upload_loop (take n (rq_post_data d)) Continue_input (snd e2) of Inl x \<Rightarrow> x
        | Inr (r, d3) \<Rightarrow> if rq_parser d3 \<noteq> None \<and> rq_read_size d3 = rq_content_length d3 \<and> r \<noteq> Eof then (400, d3)
            else if rq_read_size d3 = rq_content_length d3 then content_end d3 else (0, d3)))"
    using assms(4) unfolding on_content_progress_def d1_def [symmetric] Let_def e2_def [symmetric] by (simp add: case_prod_unfold)
  show ?thesis
  proof (cases "fst e2")
    case (Some x)
    then show ?thesis using p assms(1) keep [OF same] by (auto simp: caught_def complete_def reading_inv_def)
  next
    case None
    note up = upload_reading [where b = "take n (rq_post_data d)" and r = Continue_input and d = "snd e2"]
    show ?thesis
    proof (cases "upload_loop (take n (rq_post_data d)) Continue_input (snd e2)")
      case (Inl x)
      then show ?thesis using p None assms(1) up keep [OF same_reading_trans [OF same]]
        by (cases x) (auto simp: complete_def)
    next
      case (Inr x)
      obtain r d3 where x: "x = (r, d3)" by (cases x)
      then have 3: "same_reading d1 d3" using up Inr same_reading_trans [OF same] by simp
      show ?thesis
      proof (cases "rq_read_size d3 = rq_content_length d3")
        case True
        then have "content_end d3 = (0, d')" using p None Inr x assms(1) by (auto split: if_splits)
        from content_end_inv [OF this] show ?thesis using keep [OF 3] by (auto simp: complete_def reading_inv_def)
      next
        case False
        then have "d' = d3" using p None Inr x assms(1) by auto
        then show ?thesis using keep [OF 3] False by (simp add: complete_def)
      qed
    qed
  qed
qed

lemma get_buffer_inv:
  assumes "get_buffer d = Some (n, d')" "reading_inv d"
  shows "reading_inv d' \<and> int n \<le> rq_content_length d - rq_read_size d \<and> (n = 0 \<longleftrightarrow> rq_read_size d = rq_content_length d)
    \<and> rq_read_size d' = rq_read_size d \<and> rq_content_length d' = rq_content_length d \<and> rq_limits d' = rq_limits d
    \<and> rq_ready d' = rq_ready d \<and> rq_no_on_error d' = rq_no_on_error d"
  using assms by (auto simp: get_buffer_def vector_resize_def reading_inv_def Let_def split: if_splits)

lemma read_into_inv: "reading_inv d \<Longrightarrow> rq_read_size d + int (length data) \<le> rq_content_length d \<Longrightarrow> reading_inv (read_into data d)
    \<and> rq_read_size (read_into data d) = rq_read_size d \<and> rq_content_length (read_into data d) = rq_content_length d
    \<and> rq_limits (read_into data d) = rq_limits d"
  by (auto simp: read_into_def reading_inv_def buffer_offset_def Let_def)

lemma reads_step:
  "input \<noteq> [] \<Longrightarrow> data = take (min (max 1 n) avail) input \<Longrightarrow> on_some_content_read (n # reads) input avail d
    = (case on_content_progress (length data) (read_into data d) of (status, d1) \<Rightarrow>
         if status \<noteq> 0 then (Load_error status, d1)
         else (case get_buffer d1 of
             None \<Rightarrow> (Load_exception, d1)
           | Some (avail', d2) \<Rightarrow>
               if avail' = 0 then (Load_completed, d2)
               else on_some_content_read reads (drop (length data) input) avail' d2))"
  by (simp only: on_some_content_read.simps Let_def if_False)

lemma reads_complete:
  "on_some_content_read reads input avail d = (Load_completed, d') \<Longrightarrow> reading_inv d \<Longrightarrow> 0 < avail
    \<Longrightarrow> int avail \<le> rq_content_length d - rq_read_size d
    \<Longrightarrow> (rq_ready d' \<or> rq_no_on_error d') \<and> rq_read_size d' = rq_content_length d \<and> rq_content_length d - rq_read_size d \<le> int (length input)
      \<and> rq_content_length d' = rq_content_length d \<and> rq_limits d' = rq_limits d"
proof (induction reads arbitrary: input avail d)
  case (Cons n reads)
  define data where "data = take (min (max 1 n) avail) input"
  have input: "input \<noteq> []" using Cons.prems(1) by auto
  note step = reads_step [OF input data_def, of reads d]
  have len: "0 < length data" "length data \<le> avail" "length data \<le> length input" using input Cons.prems(3) by (auto simp: data_def)
  obtain st d1 where p: "on_content_progress (length data) (read_into data d) = (st, d1)" by (cases "on_content_progress (length data) (read_into data d)")
  have st: "st = 0" using Cons.prems(1) p unfolding step by (auto split: if_splits)
  obtain a d2 where b: "get_buffer d1 = Some (a, d2)"
    using Cons.prems(1) p st unfolding step by (cases "get_buffer d1") auto
  have fits: "rq_read_size d + int (length data) \<le> rq_content_length d" using Cons.prems(4) len by linarith
  note ri = read_into_inv [OF Cons.prems(2) fits]
  have d1: "reading_inv d1" "complete d1" "rq_read_size d1 = rq_read_size d + int (length data)" "rq_content_length d1 = rq_content_length d" "rq_limits d1 = rq_limits d"
    using progress_inv [OF p [unfolded st]] ri fits len(1) by auto
  note d2 = get_buffer_inv [OF b d1(1)]
  show ?case
  proof (cases "a = 0")
    case True
    then have "d' = d2" using Cons.prems(1) p st b unfolding step by auto
    then show ?thesis using True d2 d1 len(3) by (auto simp: complete_def)
  next
    case False
    then have "on_some_content_read reads (drop (length data) input) a d2 = (Load_completed, d')"
      using Cons.prems(1) p st b unfolding step by auto
    from Cons.IH [OF this] False d1 d2 len(3) show ?thesis by auto
  qed
qed simp

lemma content_start_inv:
  assumes "on_content_start d = Some (0, d')" "fresh lim bufsize ct len d" "len \<noteq> 0"
  shows "rq_content_length d' = len \<and> rq_read_size d' = 0 \<and> rq_buffer_size d' = bufsize \<and> (rq_read_full d' \<longrightarrow> int (length (rq_post_data d')) = len)
    \<and> len \<le> (if is_multipart_form_data (content_type_parse ct) then multipart_form_data_limit lim else content_length_limit lim)"
proof -
  have d: "rq_content_type d = content_type_parse ct" "rq_limits d = lim" "rq_content_length d = len" "rq_read_size d = 0" "\<not> rq_read_full d"
    "rq_buffer_size d = bufsize" using assms(2) by (simp_all add: fresh_def)
  show ?thesis
  proof (cases "is_multipart_form_data (content_type_parse ct)")
    case True
    then show ?thesis using assms(1,3) d by (auto simp: on_content_start_def Let_def split: if_splits prod.splits)
  next
    case False
    then show ?thesis using assms(1,3) d by (auto simp: on_content_start_def vector_resize_def Let_def split: if_splits)
  qed
qed

section \<open>Properties\<close>

text \<open>
  C2. A multipart form reaches the application as it was sent.  The body of a form, written from any list of fields and files
  with a boundary that occurs in no content, is read in whatever pieces the connection delivers, with a buffer of any size and
  under any filter that only observes; given as many reads as the body has characters the request completes, each field has
  exactly the values of its parts in their order, and the files are the other parts with name, type, file name and content.
\<close>

theorem multipart_upload:
  assumes "installs ap flt" "observing flt" "0 < bufsize"
    and "param_ok (''boundary'', quoted, key)" "key \<noteq> []" "CR \<notin> set key"
    and "list_all (\<lambda>t. part_ok (boundary_of key) t \<and> length (pt_content t) + length (boundary_of key) \<le> file_room lim
        \<and> (pt_mime t = None \<longrightarrow> int (length (pt_content t)) \<le> content_length_limit lim)) ts"
    and "int (length (multipart_body key ts)) \<le> multipart_form_data_limit lim" "length (multipart_body key ts) \<le> length reads"
  shows "\<exists>d. load_content (Some ap) query cookies (int (length (multipart_body key ts))) reads (multipart_body key ts)
        (request_new lim bufsize (content_type_text ''multipart'' ''form-data'' [(''boundary'', quoted, key)]) s) = (Load_completed, d)
    \<and> rq_ready d
    \<and> (\<forall>n. mm_values (rq_post d) n = map pt_content (filter (\<lambda>t. pt_mime t = None \<and> pt_name t = n) ts))
    \<and> map file_view (rq_files d) = map part_view (filter (\<lambda>t. pt_mime t \<noteq> None) ts)"
  by (rule multipart_load [OF assms(1-3) multipart_type [OF assms(4)] assms(5-9)])

definition sample_parts :: "form_part list" where
  "sample_parts = [\<lparr>pt_name = ''a'', pt_filename = None, pt_mime = None, pt_content = ''x''\<rparr>,
     \<lparr>pt_name = ''f'', pt_filename = Some ''t.txt'', pt_mime = Some (''text'', ''plain''), pt_content = [CR, LF, CHR ''-'']\<rparr>]"

definition sample_limits :: content_limits where
  "sample_limits = \<lparr>content_length_limit = 1000, multipart_form_data_limit = 1000, file_room = 100\<rparr>"

definition sample_pool :: "unit app_pool" where
  "sample_pool = \<lparr>ap_synchronous = True, ap_content_filter = False, ap_main = Some (\<lambda>d. (None, set_filter None d))\<rparr>"

lemma sample_pool_installs: "installs sample_pool None" "observing None"
  by (simp_all add: sample_pool_def installs_def observing_def)

theorem multipart_upload_witness:
  "\<exists>d. load_content (Some sample_pool) [] [] (int (length (multipart_body ''B'' sample_parts))) (replicate 1000 7)
      (multipart_body ''B'' sample_parts)
      (request_new sample_limits 16 (content_type_text ''multipart'' ''form-data'' [(''boundary'', True, ''B'')]) ()) = (Load_completed, d)
    \<and> rq_ready d \<and> mm_values (rq_post d) ''a'' = [''x''] \<and> map file_view (rq_files d) = [(''f'', ''text/plain'', ''t.txt'', [CR, LF, CHR ''-''])]"
proof -
  have sub: "\<not> sublist (boundary_of ''B'') s" if "length s < 5" for s using that by (auto simp: sublist_def boundary_of_def)
  have tok: "token ''text''" "token ''plain''" "quotable ''a''" "quotable ''f''" "quotable ''t.txt''" by code_simp+
  have len: "length (multipart_body ''B'' sample_parts) \<le> 1000" "length (boundary_of ''B'') = 5" by code_simp+
  have a: "list_all (\<lambda>t. part_ok (boundary_of ''B'') t \<and> length (pt_content t) + length (boundary_of ''B'') \<le> file_room sample_limits
        \<and> (pt_mime t = None \<longrightarrow> int (length (pt_content t)) \<le> content_length_limit sample_limits)) sample_parts"
    using tok sub by (simp add: sample_parts_def part_ok_def sample_limits_def len(2))
  have b: "param_ok (''boundary'', True, ''B'')" "CR \<notin> set ''B''" "''B'' \<noteq> []" "(0::int) < 16" by code_simp+
  have c: "int (length (multipart_body ''B'' sample_parts)) \<le> multipart_form_data_limit sample_limits"
    "length (multipart_body ''B'' sample_parts) \<le> length (replicate 1000 (7::nat))" using len(1) by (simp_all add: sample_limits_def)
  have v: "map pt_content (filter (\<lambda>t. pt_mime t = None \<and> pt_name t = ''a'') sample_parts) = [''x'']"
    "map part_view (filter (\<lambda>t. pt_mime t \<noteq> None) sample_parts) = [(''f'', ''text/plain'', ''t.txt'', [CR, LF, CHR ''-''])]" by code_simp+
  have u: "\<exists>d. P d \<and> R d \<and> (\<forall>n. f d n = h n) \<and> g d = y \<Longrightarrow> h m = x \<Longrightarrow> \<exists>d. P d \<and> R d \<and> f d m = x \<and> g d = y"
    for P R :: "unit request \<Rightarrow> bool" and f :: "unit request \<Rightarrow> string \<Rightarrow> string list" and g h m x y by auto
  show ?thesis
    by (rule u [OF multipart_upload [OF sample_pool_installs b(4,1,3,2) a c, of "[]" "[]" "()", unfolded v(2)] v(1)])
qed

text \<open>
  C5. A form in the URL encoding reaches the application as it was sent, in whatever pieces it is read: each name has exactly
  its values in their order, and the raw data is the body.
\<close>

theorem urlencoded_form:
  assumes "installs ap flt" "observing flt" "is_form_urlencoded (content_type_parse ct)" "list_all (\<lambda>p. fst p \<noteq> []) ps"
    and "form_text ps \<noteq> []" "int (length (form_text ps)) \<le> content_length_limit lim" "length (form_text ps) \<le> length reads"
  shows "\<exists>d. load_content (Some ap) query cookies (int (length (form_text ps))) reads (form_text ps) (request_new lim bufsize ct s) = (Load_completed, d)
    \<and> rq_ready d \<and> raw_post_data d = form_text ps \<and> (\<forall>n. mm_values (rq_post d) n = map snd (filter (\<lambda>p. fst p = n) ps))"
  using form_load [OF assms] .

theorem urlencoded_form_witness:
  "\<exists>d. load_content (Some sample_pool) [] [] (int (length (form_text [(''a'', ''1''), (''b'', ''x y''), (''a'', ''&'')]))) (replicate 100 2)
      (form_text [(''a'', ''1''), (''b'', ''x y''), (''a'', ''&'')]) (request_new sample_limits 16 ''application/x-www-form-urlencoded'' ()) = (Load_completed, d)
    \<and> rq_ready d \<and> mm_values (rq_post d) ''a'' = [''1'', ''&'']"
proof -
  let ?ps = "[(''a'', ''1''), (''b'', ''x y''), (''a'', ''&'')]"
  have 1: "is_form_urlencoded (content_type_parse ''application/x-www-form-urlencoded'')" "form_text ?ps \<noteq> []" by code_simp+
  have 2: "int (length (form_text ?ps)) \<le> content_length_limit sample_limits" by code_simp
  have "length (form_text ?ps) \<le> 100" by code_simp
  then have 3: "length (form_text ?ps) \<le> length (replicate 100 (2::nat))" by simp
  have 4: "list_all (\<lambda>p. fst p \<noteq> []) ?ps" "map snd (filter (\<lambda>p. fst p = ''a'') ?ps) = [''1'', ''&'']" by simp_all
  from urlencoded_form [OF sample_pool_installs 1(1) 4(1) 1(2) 2 3, of "[]" "[]" 16 "()"] show ?thesis by (metis 4(2))
qed





end
