(* ===== verification/Xss_Uri.thy ===== *)
theory Xss_Uri
  imports Prelude
begin

text \<open>
  The parser of URIs in \<^verbatim>\<open>src/xss.cpp\<close> and the validators for attributes that hold one.  A position of the parser is the rest of the
  text; a rule that can fail returns None and leaves the position where it was, a rule that always succeeds returns the rest.
\<close>

section \<open>The rules of the grammar\<close>

definition ascii_isdigit :: "char \<Rightarrow> bool" where
  "ascii_isdigit c \<longleftrightarrow> char_in (CHR ''0'') (CHR ''9'') c"

definition is_alapha :: "char \<Rightarrow> bool" where
  "is_alapha c \<longleftrightarrow> char_in (CHR ''a'') (CHR ''z'') c \<or> char_in (CHR ''A'') (CHR ''Z'') c"

definition ascii_isxdigit :: "char \<Rightarrow> bool" where
  "ascii_isxdigit c \<longleftrightarrow> ascii_isdigit c \<or> char_in (CHR ''a'') (CHR ''f'') c \<or> char_in (CHR ''A'') (CHR ''F'') c"

definition follows_char :: "char \<Rightarrow> string \<Rightarrow> string option" where
  "follows_char c s = (if s \<noteq> [] \<and> hd s = c then Some (tl s) else None)"

definition follows_str :: "string \<Rightarrow> string \<Rightarrow> string option" where
  "follows_str t s = (if prefix t s then Some (drop (length t) s) else None)"

text \<open>The first of the alternatives that succeeds.\<close>

definition alt :: "(string \<Rightarrow> string option) \<Rightarrow> (string \<Rightarrow> string option) \<Rightarrow> string \<Rightarrow> string option" where
  "alt f g s = (case f s of Some r \<Rightarrow> Some r | None \<Rightarrow> g s)"

definition sub_delims :: "string \<Rightarrow> string option" where
  "sub_delims s =
     (if s = [] then None
      else (case alt (follows_str ''&amp;'') (follows_str ''&apos;'') s of
          Some r \<Rightarrow> Some r
        | None \<Rightarrow> if hd s \<in> set ''!$()*+,;='' \<or> hd s = ch 39 then Some (tl s) else None))"

definition unreserved :: "string \<Rightarrow> string option" where
  "unreserved s =
     (if s = [] then None
      else if is_alapha (hd s) \<or> ascii_isdigit (hd s) \<or> hd s \<in> set ''-._~'' then Some (tl s)
      else None)"

definition pct_encoded :: "string \<Rightarrow> string option" where
  "pct_encoded s =
     (if length s \<ge> 3 \<and> s ! 0 = CHR ''%'' \<and> ascii_isxdigit (s ! 1) \<and> ascii_isxdigit (s ! 2) then Some (drop 3 s) else None)"

definition pchar :: "string \<Rightarrow> string option" where
  "pchar = alt unreserved (alt pct_encoded (alt sub_delims (alt (follows_char (CHR '':'')) (follows_char (CHR ''@'')))))"

text \<open>\<^verbatim>\<open>while(rule());\<close>, for rules that move on when they succeed.\<close>

function many :: "(string \<Rightarrow> string option) \<Rightarrow> string \<Rightarrow> string" where
  "many f s = (case f s of None \<Rightarrow> s | Some r \<Rightarrow> if length r < length s then many f r else s)"
  by auto
termination
  by (relation "measure (\<lambda>(_, s). length s)") auto

declare many.simps [simp del]

definition uri_query :: "string \<Rightarrow> string" where
  "uri_query = many (alt pchar (alt (follows_char (CHR ''/'')) (follows_char (CHR ''?''))))"

definition segment :: "string \<Rightarrow> string" where
  "segment = many pchar"

definition segment_nz :: "string \<Rightarrow> string option" where
  "segment_nz s = map_option (many pchar) (pchar s)"

definition segment_nz_nc :: "string \<Rightarrow> string option" where
  "segment_nz_nc s =
     (let r = many (alt unreserved (alt pct_encoded (alt sub_delims (follows_char (CHR ''@''))))) s
      in if length r < length s then Some r else None)"

text \<open>\<^verbatim>\<open>while(follows('/') && segment()) sp.commit();\<close>\<close>

definition path_abempty :: "string \<Rightarrow> string" where
  "path_abempty = many (\<lambda>s. map_option segment (follows_char (CHR ''/'') s))"

definition path_rootless :: "string \<Rightarrow> string option" where
  "path_rootless s = map_option path_abempty (segment_nz s)"

definition path_noscheme :: "string \<Rightarrow> string option" where
  "path_noscheme s = map_option path_abempty (segment_nz_nc s)"

definition path_absolute :: "string \<Rightarrow> string option" where
  "path_absolute s =
     map_option (\<lambda>r. case segment_nz r of None \<Rightarrow> r | Some r' \<Rightarrow> path_abempty r') (follows_char (CHR ''/'') s)"

definition reg_name :: "string \<Rightarrow> string" where
  "reg_name = many (alt unreserved (alt pct_encoded sub_delims))"

text \<open>The loop of \<^verbatim>\<open>dec_octet\<close> does not move on: it reads the same digit up to three times.\<close>

function octet_loop :: "string \<Rightarrow> nat \<Rightarrow> nat \<Rightarrow> nat \<times> nat" where
  "octet_loop s count v =
     (if s \<noteq> [] \<and> ascii_isdigit (hd s) \<and> count < 3 then octet_loop s (count + 1) (v * 10 + (uc (hd s) - uc (CHR ''0'')))
      else (count, v))"
  by auto
termination
  by (relation "measure (\<lambda>(_, count, _). 3 - count)") auto

declare octet_loop.simps [simp del]

definition dec_octet :: "string \<Rightarrow> string option" where
  "dec_octet s =
     (case octet_loop s 0 0 of (count, v) \<Rightarrow>
        if count = 0 then None
        else if v \<le> 9 \<and> count \<noteq> 1 then None
        else if v \<le> 99 \<and> count \<noteq> 2 then None
        else if v > 255 then None
        else Some s)"

definition ipv4addr :: "string \<Rightarrow> string option" where
  "ipv4addr s =
     Option.bind (dec_octet s) (\<lambda>s. Option.bind (follows_char (CHR ''.'') s) (\<lambda>s. Option.bind (dec_octet s) (\<lambda>s.
     Option.bind (follows_char (CHR ''.'') s) (\<lambda>s. Option.bind (dec_octet s) (\<lambda>s.
     Option.bind (follows_char (CHR ''.'') s) dec_octet)))))"

definition port :: "string \<Rightarrow> string" where
  "port s = dropWhile ascii_isdigit s"

definition host :: "string \<Rightarrow> string" where
  "host s = (case ipv4addr s of Some r \<Rightarrow> r | None \<Rightarrow> reg_name s)"

definition userinfo :: "string \<Rightarrow> string" where
  "userinfo = many (alt unreserved (alt pct_encoded (alt sub_delims (follows_char (CHR '':'')))))"

text \<open>When no \<^verbatim>\<open>@\<close> follows, the host is read behind what was read as user information.\<close>

definition authority :: "string \<Rightarrow> string" where
  "authority s =
     (let r = userinfo s;
          r = (case follows_char (CHR ''@'') r of Some r' \<Rightarrow> host r' | None \<Rightarrow> host r)
      in case follows_char (CHR '':'') r of Some r' \<Rightarrow> port r' | None \<Rightarrow> r)"

text \<open>The first alternative always succeeds.\<close>

definition relative_part :: "string \<Rightarrow> string" where
  "relative_part s = path_abempty (authority s)"

definition query_and_fragment :: "string \<Rightarrow> string" where
  "query_and_fragment s =
     (let r = (case follows_char (CHR ''?'') s of Some r \<Rightarrow> uri_query r | None \<Rightarrow> s)
      in case follows_char (CHR ''#'') r of Some r' \<Rightarrow> uri_query r' | None \<Rightarrow> r)"

definition relative_ref :: "string \<Rightarrow> string" where
  "relative_ref s = query_and_fragment (relative_part s)"

definition hier_part :: "string \<Rightarrow> string" where
  "hier_part s =
     (case follows_str ''//'' s of
        Some r \<Rightarrow> path_abempty (authority r)
      | None \<Rightarrow> (case alt path_absolute path_rootless s of Some r \<Rightarrow> r | None \<Rightarrow> s))"

definition scheme_char :: "char \<Rightarrow> bool" where
  "scheme_char c \<longleftrightarrow> is_alapha c \<or> ascii_isdigit c \<or> c \<in> set ''+-.''"

definition scheme :: "string \<Rightarrow> string option" where
  "scheme s = (if s = [] \<or> \<not> is_alapha (hd s) then None else Some (hd s # takeWhile scheme_char (tl s)))"

text \<open>The scheme is remembered also when the rule fails behind it; a scheme that was never found is an empty range.\<close>

definition uri :: "string \<Rightarrow> string \<times> string option" where
  "uri s =
     (case scheme s of
        None \<Rightarrow> ([], None)
      | Some sch \<Rightarrow>
          (sch, map_option (\<lambda>r. query_and_fragment (hier_part r)) (follows_char (CHR '':'') (drop (length sch) s))))"

text \<open>The result of \<^verbatim>\<open>parse()\<close>: accepted, relative, the scheme.\<close>

definition parse_uri :: "string \<Rightarrow> bool \<times> bool \<times> string" where
  "parse_uri s =
     (case uri s of (sch, res) \<Rightarrow>
        (case res of
           Some r \<Rightarrow> (r = [], False, sch)
         | None \<Rightarrow> (relative_ref s = [], True, sch)))"

datatype uri_type = Uri_both | Uri_relative | Uri_full

text \<open>The regular expression for schemes is a predicate.\<close>

definition uri_validator_functor :: "uri_type \<Rightarrow> (string \<Rightarrow> bool) \<Rightarrow> string \<Rightarrow> bool" where
  "uri_validator_functor ty scheme_regex s =
     (case parse_uri s of (ok, is_relative, sch) \<Rightarrow>
        (case ty of
           Uri_both \<Rightarrow> ok \<and> (\<not> is_relative \<longrightarrow> scheme_regex sch)
         | Uri_relative \<Rightarrow> ok \<and> is_relative
         | Uri_full \<Rightarrow> ok \<and> scheme_regex sch))"

definition integer_property_functor :: "string \<Rightarrow> bool" where
  "integer_property_functor s =
     (let r = (if s \<noteq> [] \<and> hd s = CHR ''-'' then tl s else s) in r \<noteq> [] \<and> list_all ascii_isdigit r)"

section \<open>What the rules take\<close>

text \<open>The characters of a URI: none of them ends an attribute value or a tag.\<close>

definition uri_char :: "char \<Rightarrow> bool" where
  "uri_char c \<longleftrightarrow> is_alapha c \<or> ascii_isdigit c \<or> c \<in> set ''-._~%!$()*+,;=&:@/?#'' \<or> c = ch 39"

definition takes :: "string \<Rightarrow> string \<Rightarrow> bool" where
  "takes s r \<longleftrightarrow> (\<exists>x. s = x @ r \<and> list_all uri_char x)"

lemma takes_refl [simp]: "takes s s"
  by (simp add: takes_def)

lemma takes_trans: "takes s r \<Longrightarrow> takes r q \<Longrightarrow> takes s q"
  unfolding takes_def by (metis append.assoc list_all_append)

lemma takes_tl: "s \<noteq> [] \<Longrightarrow> uri_char (hd s) \<Longrightarrow> takes s (tl s)"
  unfolding takes_def by (rule exI [of _ "[hd s]"]) simp

definition takes_rule :: "(string \<Rightarrow> string option) \<Rightarrow> bool" where
  "takes_rule f \<longleftrightarrow> (\<forall>s r. f s = Some r \<longrightarrow> takes s r)"

lemma takes_alt: "takes_rule f \<Longrightarrow> takes_rule g \<Longrightarrow> takes_rule (alt f g)"
  by (auto simp: takes_rule_def alt_def split: option.splits)

lemma takes_many: "takes_rule f \<Longrightarrow> takes s (many f s)"
proof (induction f s rule: many.induct)
  case (1 f s)
  show ?case
  proof (cases "f s")
    case None
    then show ?thesis by (simp add: many.simps [of f s])
  next
    case (Some r)
    then have "takes s r" using "1.prems" by (auto simp: takes_rule_def)
    then show ?thesis using "1.IH" [OF Some] "1.prems" Some by (auto simp: many.simps [of f s] intro: takes_trans)
  qed
qed

lemma takes_follows: "uri_char c \<Longrightarrow> takes_rule (follows_char c)"
  by (auto simp: takes_rule_def follows_char_def intro: takes_tl split: if_splits)

lemma takes_follows_str: "list_all uri_char t \<Longrightarrow> takes_rule (follows_str t)"
  by (auto simp: takes_rule_def follows_str_def takes_def prefix_def split: if_splits)

lemma uri_char_classes: "ascii_isdigit c \<Longrightarrow> uri_char c" "is_alapha c \<Longrightarrow> uri_char c"
  unfolding uri_char_def by blast+

lemma uri_char_list:
  "list_all uri_char ''-._~%!$()*+,;=&:@/?#''" "list_all uri_char ''&amp;''" "list_all uri_char ''&apos;''" "list_all uri_char ''//''"
  "uri_char (CHR '':'')" "uri_char (CHR ''@'')" "uri_char (CHR ''/'')" "uri_char (CHR ''?'')" "uri_char (CHR ''#'')"
  by code_simp+

lemma takes_sub_delims: "takes_rule sub_delims"
proof -
  have "takes_rule (alt (follows_str ''&amp;'') (follows_str ''&apos;''))"
    using uri_char_list by (intro takes_alt takes_follows_str)
  moreover have "list_all uri_char ''!$()*+,;=''" "uri_char (ch 39)" by code_simp+
  then have "hd s \<in> set ''!$()*+,;='' \<or> hd s = ch 39 \<Longrightarrow> uri_char (hd s)" for s unfolding list_all_iff by metis
  ultimately show ?thesis
    by (auto simp: takes_rule_def sub_delims_def intro: takes_tl split: option.splits if_splits)
qed

lemma takes_unreserved: "takes_rule unreserved"
proof -
  have "list_all uri_char ''-._~''" by code_simp
  then have "hd s \<in> set ''-._~'' \<Longrightarrow> uri_char (hd s)" for s unfolding list_all_iff by blast
  then have "takes s (tl s)" if "is_alapha (hd s) \<or> ascii_isdigit (hd s) \<or> hd s \<in> set ''-._~''" "s \<noteq> []" for s
    using that by (intro takes_tl) (blast intro: uri_char_classes)+
  then show ?thesis unfolding takes_rule_def unreserved_def by (metis option.distinct(1) option.inject)
qed

lemma takes_pct: "takes_rule pct_encoded"
proof -
  have "takes s (drop 3 s)" if "length s \<ge> 3" "s ! 0 = CHR ''%''" "ascii_isxdigit (s ! 1)" "ascii_isxdigit (s ! 2)" for s
  proof -
    obtain a b c r where s: "s = a # b # c # r" using \<open>length s \<ge> 3\<close> by (metis One_nat_def Suc_le_length_iff numeral_3_eq_3)
    have "sc (CHR ''f'') \<le> sc (CHR ''z'')" "sc (CHR ''F'') \<le> sc (CHR ''Z'')" by code_simp+
    then have x: "ascii_isxdigit d \<Longrightarrow> uri_char d" for d
      unfolding ascii_isxdigit_def by (auto simp: is_alapha_def char_in_def intro: uri_char_classes)
    have "uri_char (CHR ''%'')" by code_simp
    then have "uri_char a" "uri_char b" "uri_char c" using that x s by simp_all
    then show ?thesis unfolding takes_def s by (intro exI [of _ "[a, b, c]"]) simp
  qed
  then show ?thesis by (auto simp: takes_rule_def pct_encoded_def split: if_splits)
qed

lemmas takes_rules = takes_sub_delims takes_unreserved takes_pct takes_alt takes_follows takes_many uri_char_list

lemma takes_pchar: "takes_rule pchar"
  unfolding pchar_def by (intro takes_rules)

lemma takes_map: "takes_rule f \<Longrightarrow> (\<And>r. takes r (g r)) \<Longrightarrow> takes_rule (\<lambda>s. map_option g (f s))"
  by (auto simp: takes_rule_def intro: takes_trans)

lemma takes_parts:
  "takes s (uri_query s)" "takes s (segment s)" "takes_rule segment_nz" "takes_rule segment_nz_nc" "takes s (path_abempty s)"
  "takes s (reg_name s)" "takes s (userinfo s)" "takes s (port s)"
proof -
  show "takes s (uri_query s)" unfolding uri_query_def by (intro takes_rules takes_pchar)
  show seg: "takes s (segment s)" for s unfolding segment_def by (intro takes_rules takes_pchar)
  show "takes_rule segment_nz" using takes_map [OF takes_pchar, of segment] seg by (simp add: segment_nz_def [abs_def] segment_def)
  show "takes_rule segment_nz_nc"
    using takes_many [OF takes_alt [OF takes_unreserved takes_alt [OF takes_pct takes_alt [OF takes_sub_delims takes_follows [OF uri_char_list(6)]]]]]
    by (auto simp: takes_rule_def segment_nz_nc_def Let_def split: if_splits)
  show "takes s (path_abempty s)" unfolding path_abempty_def by (intro takes_many takes_map takes_follows uri_char_list seg)
  show "takes s (reg_name s)" unfolding reg_name_def by (intro takes_rules)
  show "takes s (userinfo s)" unfolding userinfo_def by (intro takes_rules)
  show "takes s (port s)" unfolding takes_def port_def
    by (intro exI [of _ "takeWhile ascii_isdigit s"]) (auto simp: list_all_iff uri_char_classes dest: set_takeWhileD)
qed

lemma dec_octet_stays: "dec_octet s = Some r \<Longrightarrow> r = s \<and> s \<noteq> [] \<and> ascii_isdigit (hd s)"
  by (auto simp: dec_octet_def octet_loop.simps [of s 0] split: prod.splits if_splits)

text \<open>Since the octet is not consumed, no address of version 4 is ever recognized; the name rule takes it instead.\<close>

lemma ipv4addr_never: "ipv4addr s = None"
proof -
  have dot: "\<not> ascii_isdigit (CHR ''.'')" by code_simp
  then have "Option.bind (dec_octet s) (\<lambda>s. Option.bind (follows_char (CHR ''.'') s) g) = None" for g
    by (cases "dec_octet s") (auto dest!: dec_octet_stays simp: follows_char_def)
  then show ?thesis unfolding ipv4addr_def by blast
qed

lemma takes_follow_then: "uri_char c \<Longrightarrow> (\<And>r. takes r (g r)) \<Longrightarrow> takes s (case follows_char c s of Some r \<Rightarrow> g r | None \<Rightarrow> s)"
  using takes_follows [of c] by (auto simp: takes_rule_def intro: takes_trans split: option.split)

lemma takes_authority: "takes s (authority s)"
proof -
  have host: "takes r (host r)" for r using takes_parts(6) by (simp add: host_def ipv4addr_never)
  define r where "r = (case follows_char (CHR ''@'') (userinfo s) of Some r' \<Rightarrow> host r' | None \<Rightarrow> host (userinfo s))"
  have "takes (userinfo s) r"
    using takes_follows [OF uri_char_list(6)] host unfolding r_def by (auto simp: takes_rule_def intro: takes_trans split: option.split)
  then have "takes s r" using takes_parts(7) takes_trans by blast
  moreover have "takes r (case follows_char (CHR '':'') r of Some r' \<Rightarrow> port r' | None \<Rightarrow> r)"
    using uri_char_list takes_parts(8) by (intro takes_follow_then)
  ultimately show ?thesis unfolding authority_def Let_def r_def [symmetric] by (rule takes_trans)
qed

lemma takes_query_and_fragment: "takes s (query_and_fragment s)"
proof -
  define r where "r = (case follows_char (CHR ''?'') s of Some r \<Rightarrow> uri_query r | None \<Rightarrow> s)"
  have "takes s r" unfolding r_def by (intro takes_follow_then uri_char_list takes_parts)
  moreover have "takes r (case follows_char (CHR ''#'') r of Some r' \<Rightarrow> uri_query r' | None \<Rightarrow> r)"
    by (intro takes_follow_then uri_char_list takes_parts)
  ultimately show ?thesis unfolding query_and_fragment_def Let_def r_def [symmetric] by (rule takes_trans)
qed

lemma takes_relative_ref: "takes s (relative_ref s)"
  unfolding relative_ref_def relative_part_def using takes_authority takes_parts(5) takes_query_and_fragment takes_trans by blast

lemma takes_hier_part: "takes s (hier_part s)"
proof -
  have abs: "takes_rule path_absolute"
  proof -
    have "takes r (case segment_nz r of None \<Rightarrow> r | Some r' \<Rightarrow> path_abempty r')" for r
      using takes_parts(3,5) by (auto simp: takes_rule_def intro: takes_trans split: option.split)
    then have "takes_rule (\<lambda>s. map_option (\<lambda>r. case segment_nz r of None \<Rightarrow> r | Some r' \<Rightarrow> path_abempty r') (follows_char (CHR ''/'') s))"
      by (intro takes_map takes_follows uri_char_list)
    then show ?thesis by (simp add: path_absolute_def [abs_def])
  qed
  have "takes_rule path_rootless" unfolding path_rootless_def [abs_def] by (intro takes_map takes_parts)
  with abs have "takes_rule (alt path_absolute path_rootless)" by (rule takes_alt)
  moreover have "takes_rule (follows_str ''//'')" by (intro takes_follows_str uri_char_list)
  moreover have auth: "takes r (path_abempty (authority r))" for r using takes_authority takes_parts(5) takes_trans by blast
  ultimately show ?thesis using takes_trans [OF _ auth]
    by (auto simp: hier_part_def takes_rule_def split: option.split)
qed

lemma scheme_chars: "scheme_char c \<Longrightarrow> uri_char c"
  by (auto simp: scheme_char_def uri_char_def)

lemma scheme_taken:
  assumes "scheme s = Some x"
  shows "prefix x s" "list_all uri_char x"
proof -
  obtain c r where s: "s = c # r" "x = c # takeWhile scheme_char r" "is_alapha c" using assms by (cases s) (auto simp: scheme_def split: if_splits)
  show "prefix x s" using s by (simp add: takeWhile_is_prefix)
  show "list_all uri_char x" using s scheme_chars by (auto simp: list_all_iff uri_char_classes dest: set_takeWhileD)
qed

lemma uri_accepts:
  assumes "parse_uri s = (True, rel, sch)"
  shows "list_all uri_char s"
proof -
  have fin: "takes x [] \<Longrightarrow> list_all uri_char x" for x by (auto simp: takes_def)
  obtain sc res where u: "uri s = (sc, res)" by (cases "uri s")
  show ?thesis
  proof (cases res)
    case None
    then have "relative_ref s = []" using assms u by (simp add: parse_uri_def)
    then show ?thesis using takes_relative_ref [of s] fin by simp
  next
    case (Some r)
    then have r: "r = []" using assms u by (simp add: parse_uri_def)
    obtain x where x: "scheme s = Some x" "follows_char (CHR '':'') (drop (length x) s) \<noteq> None"
      "query_and_fragment (hier_part (tl (drop (length x) s))) = []"
      using u Some r by (auto simp: uri_def follows_char_def split: option.splits if_splits)
    have x1: "prefix x s" "list_all uri_char x" using scheme_taken [OF x(1)] by auto
    then obtain y where y: "s = x @ y" by (auto simp: prefix_def)
    then have "y \<noteq> []" "hd y = CHR '':''" using x(2) by (auto simp: follows_char_def split: if_splits)
    moreover have "takes (tl y) []" using x(3) y takes_hier_part takes_query_and_fragment takes_trans by (metis append_eq_conv_conj)
    ultimately have "list_all uri_char y" using fin [of "tl y"] uri_char_list(5) by (cases y) auto
    then show ?thesis using y x1(2) by simp
  qed
qed

definition valid_scheme :: "string \<Rightarrow> bool" where
  "valid_scheme sch \<longleftrightarrow> sch \<noteq> [] \<and> is_alapha (hd sch) \<and> list_all scheme_char sch"

lemma scheme_found:
  assumes "valid_scheme sch"
  shows "\<exists>r. uri (sch @ CHR '':'' # rest) = (sch, Some r)"
proof -
  have "\<not> scheme_char (CHR '':'')" by code_simp
  then have "takeWhile scheme_char (tl sch @ CHR '':'' # rest) = tl sch"
    using assms by (cases sch) (auto simp: valid_scheme_def list_all_iff takeWhile_append2)
  then have "scheme (sch @ CHR '':'' # rest) = Some sch" using assms by (cases sch) (auto simp: scheme_def valid_scheme_def)
  then show ?thesis by (simp add: uri_def follows_char_def)
qed

text \<open>
  C8. The validators for URIs let no scheme through that is not allowed.  An accepted attribute value has only URI characters, so
  no quotes, blanks, control characters or angle brackets, and if it starts with a scheme in the sense of RFC 3986, then the
  validator is not the one for relative URIs and the regular expression accepts the scheme.
\<close>

theorem uri_validator_safe:
  assumes "uri_validator_functor ty scheme_regex s"
  shows "list_all uri_char s
    \<and> (\<forall>sch rest. s = sch @ CHR '':'' # rest \<longrightarrow> valid_scheme sch \<longrightarrow> ty \<noteq> Uri_relative \<and> scheme_regex sch)"
proof -
  obtain ok rel sc where p: "parse_uri s = (ok, rel, sc)" by (cases "parse_uri s")
  have ok: "ok" using assms p by (auto simp: uri_validator_functor_def split: uri_type.splits)
  have "ty \<noteq> Uri_relative \<and> scheme_regex sch" if "s = sch @ CHR '':'' # rest" "valid_scheme sch" for sch rest
  proof -
    have "rel = False" "sc = sch" using p scheme_found [OF that(2), of rest] that(1) by (auto simp: parse_uri_def)
    then show ?thesis using assms p by (auto simp: uri_validator_functor_def split: uri_type.splits)
  qed
  moreover have "list_all uri_char s" using uri_accepts [of s rel sc] p ok by simp
  ultimately show ?thesis by blast
qed

theorem uri_validator_safe_witness:
  "uri_validator_functor Uri_both (\<lambda>s. s = ''http'') ''http://a/b?c#d'' \<and> list_all uri_char ''http://a/b?c#d''
    \<and> \<not> uri_validator_functor Uri_both (\<lambda>s. s = ''http'') ''javascript:alert(1)''"
proof -
  have "uri_validator_functor Uri_both (\<lambda>s. s = ''http'') ''http://a/b?c#d''" by code_simp
  moreover have "valid_scheme ''javascript''" by code_simp
  moreover have "''javascript:alert(1)'' = ''javascript'' @ CHR '':'' # ''alert(1)''" "''javascript'' \<noteq> ''http''" by simp_all
  ultimately have "\<not> uri_validator_functor Uri_both (\<lambda>s. s = ''http'') ''javascript:alert(1)''"
    using uri_validator_safe [of Uri_both "\<lambda>s. s = ''http''" "''javascript:alert(1)''"] by metis
  with \<open>uri_validator_functor Uri_both (\<lambda>s. s = ''http'') ''http://a/b?c#d''\<close> show ?thesis using uri_validator_safe [of Uri_both "\<lambda>s. s = ''http''" "''http://a/b?c#d''"] by blast
qed

text \<open>
  The validator for absolute URIs also accepts a relative one whose first word is an allowed scheme: the scheme that was read
  before the missing colon is remembered.
\<close>

theorem absolute_accepts_relative: "uri_validator_functor Uri_full (\<lambda>s. s = ''http'') ''http/x''"
  by code_simp

end
