(* ===== verification/Xss.thy ===== *)
theory Xss
  imports Xss_Uri Encoding
begin

text \<open>
  The HTML filter of \<^verbatim>\<open>src/xss.cpp\<close>: the rules, the splitting of a text into parts, the parsing of tags and entities, the check of
  the nesting, validation and filtering.  The regular expressions of an application are predicates.  A part of the text is the
  string it covers; a name or value inside it is a string of its own.
\<close>

section \<open>Rules\<close>

datatype tag_type = Invalid_tag | Opening_and_closing | Stand_alone | Any_tag

type_synonym validator_type = "(string \<Rightarrow> bool) option"

record tag_rule =
  tr_type :: tag_type
  tr_properties :: "(string, validator_type) smap"

text \<open>
  A holder compares names with \<^verbatim>\<open>compare_c_string\<close> for XHTML and \<^verbatim>\<open>icompare_c_string\<close> for HTML: equal in HTML are names that
  agree up to the case of ASCII letters, so the maps have the lowered names as keys.
\<close>

record rules_holder =
  rh_xhtml :: bool
  rh_entities :: "string list"
  rh_tags :: "(string, tag_rule) smap"

definition ascii_tolower :: "char \<Rightarrow> char" where
  "ascii_tolower c = (if char_in (CHR ''A'') (CHR ''Z'') c then ch (uc c - uc (CHR ''A'') + uc (CHR ''a'')) else c)"

definition name_key :: "bool \<Rightarrow> string \<Rightarrow> string" where
  "name_key xhtml s = (if xhtml then s else map ascii_tolower s)"

definition valid_entity :: "rules_holder \<Rightarrow> string \<Rightarrow> bool" where
  "valid_entity h name \<longleftrightarrow> name \<in> set (rh_entities h)"

definition holder_add_entity :: "string \<Rightarrow> rules_holder \<Rightarrow> rules_holder" where
  "holder_add_entity name h = h\<lparr>rh_entities := name # rh_entities h\<rparr>"

definition holder_new :: "bool \<Rightarrow> rules_holder" where
  "holder_new xhtml = \<lparr>rh_xhtml = xhtml, rh_entities = [''quot'', ''amp'', ''gt'', ''lt''], rh_tags = []\<rparr>"

definition tag_at :: "rules_holder \<Rightarrow> string \<Rightarrow> tag_rule option" where
  "tag_at h name = smap_find (rh_tags h) (name_key (rh_xhtml h) name)"

definition holder_add_tag :: "string \<Rightarrow> tag_type \<Rightarrow> rules_holder \<Rightarrow> rules_holder" where
  "holder_add_tag name ty h =
     (let t = (case tag_at h name of None \<Rightarrow> \<lparr>tr_type = Invalid_tag, tr_properties = []\<rparr> | Some t \<Rightarrow> t)
      in h\<lparr>rh_tags := smap_put (name_key (rh_xhtml h) name) (t\<lparr>tr_type := ty\<rparr>) (rh_tags h)\<rparr>)"

definition holder_add_property :: "string \<Rightarrow> string \<Rightarrow> validator_type \<Rightarrow> rules_holder \<Rightarrow> rules_holder" where
  "holder_add_property tname pname r h =
     (let t = (case tag_at h tname of None \<Rightarrow> \<lparr>tr_type = Invalid_tag, tr_properties = []\<rparr> | Some t \<Rightarrow> t)
      in h\<lparr>rh_tags := smap_put (name_key (rh_xhtml h) tname)
             (t\<lparr>tr_properties := smap_put (name_key (rh_xhtml h) pname) r (tr_properties t)\<rparr>) (rh_tags h)\<rparr>)"

definition holder_valid_tag :: "rules_holder \<Rightarrow> string \<Rightarrow> tag_type" where
  "holder_valid_tag h t = (case tag_at h t of None \<Rightarrow> Invalid_tag | Some p \<Rightarrow> tr_type p)"

definition property_at :: "rules_holder \<Rightarrow> string \<Rightarrow> string \<Rightarrow> validator_type option" where
  "property_at h tname pname =
     (case tag_at h tname of None \<Rightarrow> None | Some pt \<Rightarrow> smap_find (tr_properties pt) (name_key (rh_xhtml h) pname))"

definition holder_valid_boolean_property :: "rules_holder \<Rightarrow> string \<Rightarrow> string \<Rightarrow> bool" where
  "holder_valid_boolean_property h tname pname =
     (if rh_xhtml h then False
      else (case property_at h tname pname of None \<Rightarrow> False | Some v \<Rightarrow> v = None))"

definition holder_valid_property :: "rules_holder \<Rightarrow> string \<Rightarrow> string \<Rightarrow> string \<Rightarrow> bool" where
  "holder_valid_property h tname pname v =
     (case property_at h tname pname of
        None \<Rightarrow> False
      | Some None \<Rightarrow> if rh_xhtml h then name_key (rh_xhtml h) pname = name_key (rh_xhtml h) v else False
      | Some (Some f) \<Rightarrow> f v)"

record rules =
  xhtml_rules :: rules_holder
  html_rules :: rules_holder
  is_xhtml :: bool
  comments_allowed :: bool
  numeric_entities_allowed :: bool
  rules_encoding :: string

definition rules_new :: rules where
  "rules_new = \<lparr>xhtml_rules = holder_new True, html_rules = holder_new False, is_xhtml = True, comments_allowed = False,
     numeric_entities_allowed = False, rules_encoding = []\<rparr>"

definition impl :: "rules \<Rightarrow> rules_holder" where
  "impl d = (if is_xhtml d then xhtml_rules d else html_rules d)"

definition change_impl :: "(rules_holder \<Rightarrow> rules_holder) \<Rightarrow> rules \<Rightarrow> rules" where
  "change_impl f d = (if is_xhtml d then d\<lparr>xhtml_rules := f (xhtml_rules d)\<rparr> else d\<lparr>html_rules := f (html_rules d)\<rparr>)"

definition rules_html :: "bool \<Rightarrow> rules \<Rightarrow> rules" where
  "rules_html xhtml d = d\<lparr>is_xhtml := xhtml\<rparr>"

definition add_tag :: "string \<Rightarrow> tag_type \<Rightarrow> rules \<Rightarrow> rules" where
  "add_tag name ty = change_impl (holder_add_tag name ty)"

definition add_entity :: "string \<Rightarrow> rules \<Rightarrow> rules" where
  "add_entity name = change_impl (holder_add_entity name)"

definition add_property :: "string \<Rightarrow> string \<Rightarrow> (string \<Rightarrow> bool) \<Rightarrow> rules \<Rightarrow> rules" where
  "add_property tag_name property v = change_impl (holder_add_property tag_name property (Some v))"

definition add_boolean_property :: "string \<Rightarrow> string \<Rightarrow> rules \<Rightarrow> rules" where
  "add_boolean_property tag_name property = change_impl (holder_add_property tag_name property None)"

definition add_integer_property :: "string \<Rightarrow> string \<Rightarrow> rules \<Rightarrow> rules" where
  "add_integer_property tag_name property = add_property tag_name property integer_property_functor"

definition uri_validator :: "(string \<Rightarrow> bool) \<Rightarrow> bool \<Rightarrow> string \<Rightarrow> bool" where
  "uri_validator scheme_regex absolute_only = uri_validator_functor (if absolute_only then Uri_full else Uri_both) scheme_regex"

definition relative_uri_validator :: "string \<Rightarrow> bool" where
  "relative_uri_validator = uri_validator_functor Uri_relative (\<lambda>_. False)"

definition add_uri_property :: "string \<Rightarrow> string \<Rightarrow> (string \<Rightarrow> bool) \<Rightarrow> rules \<Rightarrow> rules" where
  "add_uri_property tag_name property scheme_regex = add_property tag_name property (uri_validator scheme_regex False)"

section \<open>Parts\<close>

datatype html_data_type =
    Invalid_data
  | Plain_text
  | Html_entity
  | Html_tag
  | Open_tag
  | Close_tag
  | Open_and_close_tag
  | Html_comment
  | Html_numeric_entity
  | Open_and_close_tag_without_slash

record html_entry =
  en_text :: string
  en_type :: html_data_type
  en_name :: string
  en_pair :: int
  en_props :: "(string \<times> string option) list"

definition new_entry :: "string \<Rightarrow> html_data_type \<Rightarrow> html_entry" where
  "new_entry t ty = \<lparr>en_text = t, en_type = ty, en_name = [], en_pair = -1, en_props = []\<rparr>"

definition ascii_isalpha :: "char \<Rightarrow> bool" where
  "ascii_isalpha c \<longleftrightarrow> is_alapha c \<or> c = CHR ''_''"

definition ascii_isalnum :: "char \<Rightarrow> bool" where
  "ascii_isalnum c \<longleftrightarrow> ascii_isdigit c \<or> is_alapha c"

definition ascii_isspace :: "char \<Rightarrow> bool" where
  "ascii_isspace c \<longleftrightarrow> c = CHR '' '' \<or> c = ch 13 \<or> c = ch 10 \<or> c = ch 9"

definition ascii_streq :: "string \<Rightarrow> string \<Rightarrow> bool \<Rightarrow> bool" where
  "ascii_streq l r xhtml = (if xhtml then l = r else map ascii_tolower l = map ascii_tolower r)"

text \<open>The entities that an attribute value may have.\<close>

definition value_entities :: "string list" where
  "value_entities = [''amp;'', ''lt;'', ''gt;'', ''quot;'', ''apos;'', ''#x27;'', ''#X27;'', ''#39;'']"

function validate_property_value :: "string \<Rightarrow> bool" where
  "validate_property_value s =
     (if s = [] then True
      else if hd s = CHR ''<'' \<or> hd s = CHR ''>'' then False
      else if hd s = CHR ''&'' then
        (case find (\<lambda>e. prefix e (tl s)) value_entities of
           None \<Rightarrow> False
         | Some e \<Rightarrow> validate_property_value (drop (length e) (tl s)))
      else validate_property_value (tl s))"
  by auto
termination
  by (relation "measure length") (auto simp: less_Suc_eq_le diff_le_self intro: le_less_trans [OF diff_le_self])

declare validate_property_value.simps [simp del]

text \<open>
  The range of the properties ends in front of a \<^verbatim>\<open>>\<close> or a \<^verbatim>\<open>/\<close>, where the loops over characters stop.  The result, and the properties
  found up to there.
\<close>

function parse_properties :: "string \<Rightarrow> bool \<Rightarrow> (string \<times> string option) list \<Rightarrow> bool \<times> (string \<times> string option) list" where
  "parse_properties s space_found props =
     (if s = [] then (True, props)
      else if ascii_isspace (hd s) then parse_properties (tl s) True props
      else if \<not> space_found then (False, props)
      else if \<not> ascii_isalpha (hd s) then (False, props)
      else
        (let name = takeWhile ascii_isalnum s; r = dropWhile ascii_isalnum s; props1 = props @ [(name, None)] in
         if r = [] then (False, props1)
         else if ascii_isspace (hd r) then parse_properties (tl r) space_found props1
         else if hd r \<noteq> CHR ''='' then (False, props1)
         else if tl r = [] \<or> hd (tl r) \<noteq> ch 39 \<and> hd (tl r) \<noteq> ch 34 then (False, props1)
         else
           (let q = hd (tl r); v = takeWhile (\<lambda>c. c \<noteq> q) (tl (tl r)); r2 = dropWhile (\<lambda>c. c \<noteq> q) (tl (tl r)) in
            if r2 = [] then (False, props1)
            else if \<not> validate_property_value v then (False, props1)
            else parse_properties (tl r2) False (props @ [(name, Some v)]))))"
  by auto
termination
proof (relation "measure (\<lambda>(s, _, _). length s)", goal_cases)
  case (3 s space props name r props1)
  have "length r \<le> length s" "r \<noteq> []" using 3 length_dropWhile_le by blast+
  then have "length (tl r) < length s" by (metis length_tl diff_less length_greater_0_conv less_le_trans zero_less_one)
  then show ?case by simp
next
  case (4 s space props name r props1 q v r2)
  have "length r2 \<le> length (tl (tl r))" "length r \<le> length s" "r2 \<noteq> []" using 4 length_dropWhile_le by blast+
  then have "length (tl r2) < length s"
    by (metis length_tl diff_less diff_le_self le_trans length_greater_0_conv less_le_trans zero_less_one)
  then show ?case by simp
qed auto

declare parse_properties.simps [simp del]

text \<open>The value of \<^verbatim>\<open>strtol\<close> on digits of the base; it is clamped to the range of \<^verbatim>\<open>long\<close>.\<close>

definition hex_value :: "char \<Rightarrow> nat" where
  "hex_value c = (if ascii_isdigit c then uc c - 48 else if char_in (CHR ''a'') (CHR ''f'') c then uc c - 87 else uc c - 55)"

definition strtol_digits :: "nat \<Rightarrow> string \<Rightarrow> nat" where
  "strtol_digits base s = min (foldl (\<lambda>n c. n * base + hex_value c) 0 s) (2 ^ 63 - 1)"

definition bad_code_point :: "nat \<Rightarrow> bool" where
  "bad_code_point code_point \<longleftrightarrow>
     code_point > 0x10FFFF
     \<or> 0xD800 \<le> code_point \<and> code_point \<le> 0xDBFF
     \<or> code_point = 0xFFFF
     \<or> code_point = 0xFFFE
     \<or> 0x7F \<le> code_point \<and> code_point \<le> 0x9F
     \<or> code_point < 0x20 \<and> \<not> (0x9 \<le> code_point \<and> code_point \<le> 0xA \<or> code_point = 0xD)
     \<or> code_point \<le> 0x08"

definition parse_html_entity :: "html_entry \<Rightarrow> html_entry" where
  "parse_html_entity part =
     (let s = butlast (tl (en_text part)); invalid = part\<lparr>en_type := Invalid_data\<rparr> in
      if s = [] then invalid
      else if hd s = CHR ''#'' then
        (let s = tl s in
         if s = [] then invalid
         else if hd s = CHR ''x'' \<or> hd s = CHR ''X'' then
           (let s = tl s in
            if s = [] \<or> \<not> list_all ascii_isxdigit s \<or> bad_code_point (strtol_digits 16 s) then invalid
            else part\<lparr>en_type := Html_numeric_entity\<rparr>)
         else if \<not> list_all ascii_isdigit s \<or> bad_code_point (strtol_digits 10 s) then invalid
         else part\<lparr>en_type := Html_numeric_entity\<rparr>)
      else if \<not> list_all ascii_isalnum s then invalid
      else part\<lparr>en_name := s\<rparr>)"

definition parse_html_tag :: "html_entry \<Rightarrow> html_entry" where
  "parse_html_tag part =
     (let s = butlast (tl (en_text part)); invalid = part\<lparr>en_type := Invalid_data\<rparr> in
      if s = [] then invalid
      else if hd s = CHR ''/'' then
        (let s = tl s in
         if s = [] \<or> \<not> ascii_isalpha (hd s) then invalid
         else if dropWhile ascii_isspace (dropWhile ascii_isalnum (tl s)) \<noteq> [] then invalid
         else part\<lparr>en_name := hd s # takeWhile ascii_isalnum (tl s), en_type := Close_tag\<rparr>)
      else if \<not> ascii_isalpha (hd s) then invalid
      else
        (let name = hd s # takeWhile ascii_isalnum (tl s); r = dropWhile ascii_isalnum (tl s); slash = (last s = CHR ''/'') in
         case parse_properties (if slash then butlast r else r) True [] of (ok, props) \<Rightarrow>
           part\<lparr>en_name := name, en_props := props,
                en_type := (if \<not> ok then Invalid_data else if slash then Open_and_close_tag else Open_tag)\<rparr>))"

definition parse_part :: "html_entry \<Rightarrow> html_entry" where
  "parse_part part =
     (case en_type part of
        Html_entity \<Rightarrow> parse_html_entity part
      | Html_tag \<Rightarrow> parse_html_tag part
      | _ \<Rightarrow> part)"

text \<open>The end of a comment: the text in front of the first \<^verbatim>\<open>--\<close> and what is behind it.\<close>

fun find_dashes :: "string \<Rightarrow> (string \<times> string) option" where
  "find_dashes [] = None"
| "find_dashes (c # s) =
     (if c = CHR ''-'' \<and> s \<noteq> [] \<and> hd s = CHR ''-'' then Some ([], tl s)
      else map_option (\<lambda>(a, b). (c # a, b)) (find_dashes s))"

lemma find_dashes_split: "find_dashes s = Some (a, b) \<Longrightarrow> s = a @ ''--'' @ b"
proof (induction s arbitrary: a)
  case (Cons c s)
  then show ?case by (cases s) (auto split: if_splits)
qed simp

definition special :: "char \<Rightarrow> bool" where
  "special c \<longleftrightarrow> c = CHR ''<'' \<or> c = CHR ''>'' \<or> c = CHR ''&''"

text \<open>The first part of a text and the rest.\<close>

definition html_next_part :: "string \<Rightarrow> html_entry \<times> string" where
  "html_next_part s =
     (if hd s = CHR ''&'' then
        (let r = dropWhile (\<lambda>c. c \<noteq> CHR '';'') (tl s) in
         if r = [] then (new_entry s Invalid_data, [])
         else (new_entry (str_range s (tl r)) Html_entity, tl r))
      else if hd s = CHR ''<'' then
        (if length s > 4 \<and> take 4 s = ''<!--'' then
           (case find_dashes (drop 4 s) of
              None \<Rightarrow> (new_entry s Invalid_data, [])
            | Some (comment, r) \<Rightarrow>
                if r \<noteq> [] \<and> hd r = CHR ''>'' then
                  (new_entry (''<!--'' @ comment @ ''-->'') (if list_ex special comment then Invalid_data else Html_comment), tl r)
                else (new_entry s Invalid_data, []))
         else
           (let r = dropWhile (\<lambda>c. c \<noteq> CHR ''>'') (tl s) in
            if r = [] then (new_entry s Invalid_data, [])
            else (new_entry (str_range s (tl r)) Html_tag, tl r)))
      else if hd s = CHR ''>'' then (new_entry ''>'' Invalid_data, tl s)
      else (new_entry (hd s # takeWhile (\<lambda>c. \<not> special c) (tl s)) Plain_text, dropWhile (\<lambda>c. \<not> special c) (tl s)))"

lemma html_next_part_length: "s \<noteq> [] \<Longrightarrow> length (snd (html_next_part s)) < length s"
proof -
  assume s: "s \<noteq> []"
  have d: "length (tl (dropWhile P (tl s))) < length s" "length (dropWhile P (tl s)) < length s" for P
    using s length_dropWhile_le [of P "tl s"] by (cases s; auto)+
  have f: "length (tl r) < length s" if "find_dashes (drop 4 s) = Some (c, r)" for c r
  proof -
    have "length (drop 4 s) = length c + 2 + length r" using find_dashes_split [OF that] by simp
    moreover have "length (tl r) \<le> length r" by simp
    ultimately show ?thesis using s by simp
  qed
  show ?thesis using s d f by (auto simp: html_next_part_def Let_def split: option.split prod.split)
qed

function split_to_parts :: "string \<Rightarrow> html_entry list" where
  "split_to_parts s = (if s = [] then [] else case html_next_part s of (e, r) \<Rightarrow> e # split_to_parts r)"
  by auto
termination
  using html_next_part_length by (relation "measure length") (auto, metis snd_conv)

declare split_to_parts.simps [simp del]

section \<open>Nesting\<close>

text \<open>The entries and the stack of the indices of open tags, the top first.\<close>

type_synonym nesting = "html_entry list \<times> nat list"

definition set_type :: "nat \<Rightarrow> html_data_type \<Rightarrow> html_entry list \<Rightarrow> html_entry list" where
  "set_type i ty parsed = parsed[i := (parsed ! i)\<lparr>en_type := ty\<rparr>]"

definition set_pair :: "nat \<Rightarrow> nat \<Rightarrow> html_entry list \<Rightarrow> html_entry list" where
  "set_pair i j parsed = parsed[i := (parsed ! i)\<lparr>en_pair := int j\<rparr>]"

definition same_tag :: "bool \<Rightarrow> nat \<Rightarrow> nat \<Rightarrow> html_entry list \<Rightarrow> bool" where
  "same_tag xhtml i j parsed = ascii_streq (en_name (parsed ! j)) (en_name (parsed ! i)) xhtml"

text \<open>A closing tag of HTML closes everything above the tag it belongs to.\<close>

fun html_close :: "nat \<Rightarrow> html_entry list \<Rightarrow> nat list \<Rightarrow> nesting" where
  "html_close i parsed [] = (set_type i Invalid_data parsed, [])"
| "html_close i parsed (top_index # st) =
     (if same_tag False i top_index parsed then (set_pair top_index i (set_pair i top_index parsed), st)
      else html_close i (set_type top_index Open_and_close_tag_without_slash parsed) st)"

definition xhtml_close :: "nat \<Rightarrow> html_entry list \<Rightarrow> nat list \<Rightarrow> nesting" where
  "xhtml_close i parsed st =
     (case st of
        [] \<Rightarrow> (set_type i Invalid_data parsed, [])
      | top_index # st' \<Rightarrow>
          if same_tag True i top_index parsed then (set_pair top_index i (set_pair i top_index parsed), st')
          else (set_type top_index Invalid_data (set_type i Invalid_data parsed), st'))"

definition nest_step :: "bool \<Rightarrow> nat \<Rightarrow> nesting \<Rightarrow> nesting" where
  "nest_step xhtml i ps =
     (case ps of (parsed, st) \<Rightarrow>
        (case en_type (parsed ! i) of
           Close_tag \<Rightarrow> if xhtml then xhtml_close i parsed st else html_close i parsed st
         | Open_tag \<Rightarrow> (parsed, i # st)
         | _ \<Rightarrow> (parsed, st)))"

text \<open>What is still open at the end.\<close>

definition nest_end :: "bool \<Rightarrow> nesting \<Rightarrow> html_entry list" where
  "nest_end xhtml ps =
     (case ps of (parsed, st) \<Rightarrow>
        fold (\<lambda>top. set_type top (if xhtml then Invalid_data else Open_and_close_tag_without_slash)) st parsed)"

definition validate_nesting :: "html_entry list \<Rightarrow> bool \<Rightarrow> html_entry list" where
  "validate_nesting parsed xhtml = nest_end xhtml (fold (nest_step xhtml) [0..<length parsed] (parsed, []))"

section \<open>Validation\<close>

text \<open>The loop over the properties, with the keys of those found so far.\<close>

fun validate_properties :: "rules \<Rightarrow> string \<Rightarrow> string list \<Rightarrow> (string \<times> string option) list \<Rightarrow> bool" where
  "validate_properties r name found [] = True"
| "validate_properties r name found ((pname, v) # props) =
     (if name_key (is_xhtml r) pname \<in> set found then False
      else if (case v of
            None \<Rightarrow> holder_valid_boolean_property (impl r) name pname
          | Some x \<Rightarrow> holder_valid_property (impl r) name pname x)
      then validate_properties r name (name_key (is_xhtml r) pname # found) props
      else False)"

definition validate_entry_by_rules :: "html_entry \<Rightarrow> rules \<Rightarrow> bool" where
  "validate_entry_by_rules part r =
     (case en_type part of
        Invalid_data \<Rightarrow> False
      | Plain_text \<Rightarrow> True
      | Html_tag \<Rightarrow> False
      | Html_entity \<Rightarrow> valid_entity (impl r) (en_name part)
      | Html_comment \<Rightarrow> comments_allowed r
      | Html_numeric_entity \<Rightarrow> numeric_entities_allowed r
      | _ \<Rightarrow>
          (case holder_valid_tag (impl r) (en_name part) of
             Invalid_tag \<Rightarrow> False
           | Stand_alone \<Rightarrow> en_type part = Open_and_close_tag_without_slash \<or> en_type part = Open_and_close_tag
           | Opening_and_closing \<Rightarrow> en_type part = Open_tag \<or> en_type part = Close_tag
           | Any_tag \<Rightarrow> True)
          \<and> (en_type part = Close_tag \<or> validate_properties r (en_name part) [] (en_props part)))"

definition is_invalid :: "html_entry \<Rightarrow> bool" where
  "is_invalid e \<longleftrightarrow> en_type e = Invalid_data"

definition validate_parts :: "rules \<Rightarrow> string \<Rightarrow> bool" where
  "validate_parts r s =
     (let parsed = split_to_parts s in
      if list_ex is_invalid parsed \<or> list_ex is_invalid (map parse_part parsed) then False
      else
        (let parsed = validate_nesting (map parse_part parsed) (is_xhtml r) in
         if list_ex is_invalid parsed then False else list_all (\<lambda>e. validate_entry_by_rules e r) parsed))"

definition xss_validate :: "conv_between \<Rightarrow> rules \<Rightarrow> string \<Rightarrow> bool" where
  "xss_validate conv r s =
     (let enc = rules_encoding r in
      if enc = [] then validate_parts r s
      else if is_ascii_compatible enc then fst (encoding_valid conv enc s 0) \<and> validate_parts r s
      else (case conv_stop conv s ''UTF-8'' enc of
          None \<Rightarrow> False
        | Some t \<Rightarrow> fst (encoding_valid conv ''UTF-8'' t 0) \<and> validate_parts r t))"

section \<open>Filtering\<close>

datatype filtering_method_type = Remove_invalid | Escape_invalid

text \<open>The loop that drops what the rules refuse, with the other tag of a pair.\<close>

definition rule_step :: "rules \<Rightarrow> nat \<Rightarrow> bool \<times> html_entry list \<Rightarrow> bool \<times> html_entry list" where
  "rule_step r i vp =
     (case vp of (valid, parsed) \<Rightarrow>
        if validate_entry_by_rules (parsed ! i) r then (valid, parsed)
        else
          (let pair = en_pair (parsed ! i);
               parsed = (if pair \<noteq> -1 then set_type (nat pair) Invalid_data parsed else parsed)
           in (False, set_type i Invalid_data parsed)))"

definition escape_html :: "char \<Rightarrow> string" where
  "escape_html c =
     (if c = CHR ''<'' then ''&lt;'' else if c = CHR ''>'' then ''&gt;'' else if c = CHR ''&'' then ''&amp;''
      else if c = ch 34 then ''&quot;'' else [c])"

definition filtered_part :: "filtering_method_type \<Rightarrow> html_entry \<Rightarrow> string" where
  "filtered_part meth e =
     (if is_invalid e then (case meth of Remove_invalid \<Rightarrow> [] | Escape_invalid \<Rightarrow> concat (map escape_html (en_text e)))
      else en_text e)"

text \<open>The parts of the function behind the conversion: valid, or the filtered text.\<close>

definition filter_parts :: "rules \<Rightarrow> filtering_method_type \<Rightarrow> string \<Rightarrow> bool \<times> string" where
  "filter_parts r meth s =
     (let parsed = split_to_parts s;
          valid1 = (\<not> list_ex is_invalid parsed \<and> \<not> list_ex is_invalid (map parse_part parsed));
          parsed = validate_nesting (map parse_part parsed) (is_xhtml r);
          valid2 = (valid1 \<and> \<not> list_ex is_invalid parsed);
          (valid, parsed) = fold (rule_step r) [0..<length parsed] (valid2, parsed)
      in (valid, concat (map (filtered_part meth) parsed)))"

text \<open>
  The conversion in front.  None is an exception of the conversion that is not caught: of the second attempt, which skips what
  it cannot convert.  The text and whether it was valid so far.
\<close>

definition filter_input :: "conv_between \<Rightarrow> rules \<Rightarrow> string \<Rightarrow> char \<Rightarrow> (bool \<times> string) option" where
  "filter_input conv r s repl_ch =
     (let real = rules_encoding r in
      if real = [] then Some (True, s)
      else
        (let ascii = is_ascii_compatible real;
             work = (if ascii then real else ''UTF-8'');
             repl = (if ascii then repl_ch else ch 0);
             input = (if ascii then Some (True, s)
                      else (case conv_stop conv s ''UTF-8'' real of
                          Some t \<Rightarrow> Some (True, t)
                        | None \<Rightarrow> map_option (Pair False) (conv_skip conv s ''UTF-8'' real)))
         in case input of
              None \<Rightarrow> None
            | Some (valid, t) \<Rightarrow>
                (case validate_or_filter conv work t [] repl of
                   None \<Rightarrow> None
                 | Some (True, _) \<Rightarrow> Some (valid, t)
                 | Some (False, u) \<Rightarrow> Some (False, u))))"

text \<open>The result and the output, which keeps its old value where the source does not assign it.\<close>

definition validate_and_filter_if_invalid ::
    "conv_between \<Rightarrow> rules \<Rightarrow> string \<Rightarrow> filtering_method_type \<Rightarrow> char \<Rightarrow> string \<Rightarrow> (bool \<times> string) option" where
  "validate_and_filter_if_invalid conv r s meth repl_ch output =
     (case filter_input conv r s repl_ch of
        None \<Rightarrow> None
      | Some (valid, t) \<Rightarrow>
          (case filter_parts r meth t of (valid2, filtered) \<Rightarrow>
             if valid \<and> valid2 then Some (True, output)
             else if rules_encoding r = [] \<or> is_ascii_compatible (rules_encoding r) then Some (False, filtered)
             else (case conv_stop conv filtered (rules_encoding r) ''UTF-8'' of
                 Some u \<Rightarrow> Some (False, u)
               | None \<Rightarrow> Some (False, output))))"

definition xss_filter :: "conv_between \<Rightarrow> rules \<Rightarrow> string \<Rightarrow> filtering_method_type \<Rightarrow> char \<Rightarrow> string option" where
  "xss_filter conv r s meth repl_ch =
     (case validate_and_filter_if_invalid conv r s meth repl_ch [] of
        None \<Rightarrow> None
      | Some (True, _) \<Rightarrow> Some s
      | Some (False, res) \<Rightarrow> Some res)"

end
