(* ===== verification/Xss_Nest.thy ===== *)
theory Xss_Nest
  imports Xss
begin

text \<open>
  The check of the nesting.  The code keeps a stack of indices and marks entries; here it is compared with a run over the list of
  entries whose stack holds the entries themselves and which stops at the first fault.  The run is then followed through a list
  of which the filter has dropped what the rules refuse: what is left is accepted.
\<close>

section \<open>A run over the entries\<close>

abbreviation V :: "rules \<Rightarrow> html_entry \<Rightarrow> bool" where
  "V r e \<equiv> validate_entry_by_rules e r"

definition ok_open :: "rules \<Rightarrow> html_entry \<Rightarrow> bool" where
  "ok_open r e \<longleftrightarrow> V r (e\<lparr>en_type := Open_tag\<rparr>)"

definition ok_single :: "rules \<Rightarrow> html_entry \<Rightarrow> bool" where
  "ok_single r e \<longleftrightarrow> V r (e\<lparr>en_type := Open_and_close_tag_without_slash\<rparr>)"

fun pop_to :: "rules \<Rightarrow> html_entry \<Rightarrow> html_entry list \<Rightarrow> html_entry list option" where
  "pop_to r c [] = None"
| "pop_to r c (t # st) =
     (if ascii_streq (en_name t) (en_name c) False then (if ok_open r t then Some st else None)
      else if ok_single r t then pop_to r c st else None)"

fun accepts :: "rules \<Rightarrow> html_entry list \<Rightarrow> html_entry list \<Rightarrow> bool" where
  "accepts r [] st = (if is_xhtml r then st = [] else list_all (ok_single r) st)"
| "accepts r (e # es) st =
     (if en_type e = Open_tag then accepts r es (e # st)
      else if en_type e = Close_tag then
        V r e \<and>
        (if is_xhtml r then
           (case st of [] \<Rightarrow> False
            | t # st' \<Rightarrow> ascii_streq (en_name t) (en_name e) True \<and> ok_open r t \<and> accepts r es st')
         else (case pop_to r e st of None \<Rightarrow> False | Some st' \<Rightarrow> accepts r es st'))
      else V r e \<and> accepts r es st)"

lemma V_pair [simp]: "V r (e\<lparr>en_pair := x\<rparr>) = V r e"
  by (cases "en_type e") (simp_all add: validate_entry_by_rules_def cong: tag_type.case_cong)

lemma V_invalid [simp]: "en_type e = Invalid_data \<Longrightarrow> \<not> V r e"
  by (simp add: validate_entry_by_rules_def)

text \<open>Entries that are no tags and that the rules accept play no role.\<close>

lemma accepts_filter:
  "(\<And>e. e \<in> set es \<Longrightarrow> \<not> P e \<Longrightarrow> V r e \<and> en_type e \<noteq> Open_tag \<and> en_type e \<noteq> Close_tag) \<Longrightarrow> accepts r es st = accepts r (filter P es) st"
proof (induction es arbitrary: st)
  case (Cons e es)
  have IH: "accepts r es st' = accepts r (filter P es) st'" for st' using Cons by simp
  have e: "\<not> P e \<Longrightarrow> V r e \<and> en_type e \<noteq> Open_tag \<and> en_type e \<noteq> Close_tag" using Cons.prems by simp
  show ?case
  proof (cases "P e")
    case True
    then show ?thesis by (simp add: IH cong: option.case_cong list.case_cong)
  next
    case False
    then show ?thesis using e by (simp add: IH)
  qed
qed simp

section \<open>The marks of the code\<close>

definition fin :: "bool \<Rightarrow> nat \<Rightarrow> nesting \<Rightarrow> html_entry list" where
  "fin xhtml k ps = nest_end xhtml (fold (nest_step xhtml) [k..<length (fst ps)] ps)"

lemma length_set [simp]: "length (set_type i ty p) = length p" "length (set_pair i j p) = length p"
  by (simp_all add: set_type_def set_pair_def)

lemma nth_set:
  "i < length p \<Longrightarrow> set_type i ty p ! j = (if j = i then (p ! i)\<lparr>en_type := ty\<rparr> else p ! j)"
  "i < length p \<Longrightarrow> set_pair i k p ! j = (if j = i then (p ! i)\<lparr>en_pair := int k\<rparr> else p ! j)"
  by (simp_all add: set_type_def set_pair_def nth_list_update)

lemma length_html_close [simp]: "length (fst (html_close i p st)) = length p"
  by (induction i p st rule: html_close.induct) simp_all

lemma length_nest_step [simp]: "length (fst (nest_step xhtml i ps)) = length (fst ps)"
  by (cases ps) (auto simp: nest_step_def xhtml_close_def split: html_data_type.split list.split)

lemma nth_fold_set_type:
  "\<forall>i \<in> set st. i < length p \<Longrightarrow> fold (\<lambda>i. set_type i ty) st p ! j = (if j \<in> set st then (p ! j)\<lparr>en_type := ty\<rparr> else p ! j)"
  by (induction st arbitrary: p) (auto simp: nth_set)

lemma length_fold_set_type [simp]: "length (fold (\<lambda>i. set_type i ty) st p) = length p"
  by (induction st arbitrary: p) simp_all

lemma length_fin [simp]: "length (fin xhtml k ps) = length (fst ps)"
proof -
  have "length (fst (fold (nest_step xhtml) l ps)) = length (fst ps)" for l
    by (induction l arbitrary: ps) simp_all
  then show ?thesis by (simp add: fin_def nest_end_def case_prod_unfold)
qed

lemma fin_step: "k < length (fst ps) \<Longrightarrow> fin xhtml k ps = fin xhtml (Suc k) (nest_step xhtml k ps)"
  by (simp add: fin_def upt_conv_Cons)

lemma fin_end: "k = length p \<Longrightarrow> fin xhtml k (p, st) = fold (\<lambda>top. set_type top (if xhtml then Invalid_data else Open_and_close_tag_without_slash)) st p"
  by (simp add: fin_def nest_end_def)

text \<open>A closing tag of HTML: what is above the tag it closes is marked; without such a tag, everything is.\<close>

lemma html_close_found:
  assumes "distinct (a @ t # st)" "\<forall>j \<in> set (a @ t # st). j < length p" "i < length p" "i \<notin> set (a @ t # st)"
    "\<forall>j \<in> set a. \<not> same_tag False i j p" "same_tag False i t p"
  shows "html_close i p (a @ t # st) = (set_pair t i (set_pair i t (fold (\<lambda>j. set_type j Open_and_close_tag_without_slash) a p)), st)"
  using assms
proof (induction a arbitrary: p)
  case (Cons x a)
  have same: "same_tag False i j (set_type x ty p) = same_tag False i j p" for j ty
    using Cons.prems by (auto simp: same_tag_def nth_set)
  show ?case using Cons by (simp add: same)
qed simp

lemma html_close_none:
  assumes "distinct st" "\<forall>j \<in> set st. j < length p" "i < length p" "i \<notin> set st" "\<forall>j \<in> set st. \<not> same_tag False i j p"
  shows "html_close i p st = (set_type i Invalid_data (fold (\<lambda>j. set_type j Open_and_close_tag_without_slash) st p), [])"
  using assms
proof (induction st arbitrary: p)
  case (Cons x st)
  have same: "same_tag False i j (set_type x ty p) = same_tag False i j p" for j ty
    using Cons.prems by (auto simp: same_tag_def nth_set)
  show ?case using Cons by (simp add: same)
qed simp

lemma first_same:
  obtains (found) a t st' where "st = a @ t # st'" "\<forall>j \<in> set a. \<not> same_tag xhtml i j p" "same_tag xhtml i t p"
  | (none) "\<forall>j \<in> set st. \<not> same_tag xhtml i j p"
  using split_list_first_prop [of st "\<lambda>j. same_tag xhtml i j p"] by blast

text \<open>What a state looks like: the stack has indices of open tags that were already seen.\<close>

definition nest_ok :: "nat \<Rightarrow> html_entry list \<Rightarrow> nat list \<Rightarrow> bool" where
  "nest_ok k p st \<longleftrightarrow> distinct st \<and> (\<forall>j \<in> set st. j < k \<and> j < length p \<and> en_type (p ! j) = Open_tag)"

lemma pop_to_found:
  assumes "\<forall>j \<in> set a. \<not> same_tag False i j p" "same_tag False i t p"
  shows "pop_to r (p ! i) (map ((!) p) (a @ t # st))
    = (if list_all (\<lambda>j. ok_single r (p ! j)) a \<and> ok_open r (p ! t) then Some (map ((!) p) st) else None)"
  using assms by (induction a) (auto simp: same_tag_def)

lemma pop_to_none:
  "\<forall>j \<in> set st. \<not> same_tag False i j p \<Longrightarrow> pop_to r (p ! i) (map ((!) p) st) = None"
  by (induction st) (auto simp: same_tag_def)

lemma ok_pair [simp]: "ok_open r (e\<lparr>en_pair := x\<rparr>) = ok_open r e" "ok_single r (e\<lparr>en_pair := x\<rparr>) = ok_single r e"
proof -
  have "e\<lparr>en_pair := x, en_type := ty\<rparr> = (e\<lparr>en_type := ty\<rparr>)\<lparr>en_pair := x\<rparr>" for ty by simp
  then show "ok_open r (e\<lparr>en_pair := x\<rparr>) = ok_open r e" "ok_single r (e\<lparr>en_pair := x\<rparr>) = ok_single r e"
    unfolding ok_open_def ok_single_def by (simp_all only: V_pair)
qed

lemma ok_open_type: "en_type e = Open_tag \<Longrightarrow> ok_open r e = V r e"
proof -
  assume "en_type e = Open_tag"
  then have "e\<lparr>en_type := Open_tag\<rparr> = e" by simp
  then show ?thesis by (simp add: ok_open_def)
qed

text \<open>The entries behind the current one are still as they were parsed.\<close>

lemma drop_map_nth: "k \<le> length p \<Longrightarrow> drop k p = map ((!) p) [k..<length p]"
  by (metis drop_map drop_upt map_nth add_0)

text \<open>
  What a closing tag does: it is matched with the open tag \<open>t\<close> below the tags \<open>a\<close>, or it is a fault; in both cases the marks and what
  the run says.
\<close>

definition single :: "html_entry \<Rightarrow> html_entry" where
  "single e = e\<lparr>en_type := Open_and_close_tag_without_slash\<rparr>"

definition matched :: "nat \<Rightarrow> nat list \<Rightarrow> nat \<Rightarrow> html_entry list \<Rightarrow> nat \<Rightarrow> html_entry" where
  "matched k a t p j = (if j = t then (p ! t)\<lparr>en_pair := int k\<rparr> else if j = k then (p ! k)\<lparr>en_pair := int t\<rparr>
     else if j \<in> set a then single (p ! j) else p ! j)"

definition faulty :: "bool \<Rightarrow> nat \<Rightarrow> nat list \<Rightarrow> html_entry list \<Rightarrow> nat \<Rightarrow> html_entry" where
  "faulty xhtml k a p j = (if j = k then (p ! k)\<lparr>en_type := Invalid_data\<rparr>
     else if j \<in> set a then (if xhtml then (p ! j)\<lparr>en_type := Invalid_data\<rparr> else single (p ! j)) else p ! j)"

lemma xhtml_close_cases:
  assumes "nest_ok k p st" "k < length p" "en_type (p ! k) = Close_tag" "is_xhtml r"
  obtains (match) t st1 p1 where "st = t # st1" "nest_step True k (p, st) = (p1, st1)" "\<And>j. p1 ! j = matched k [] t p j"
      "same_tag True k t p"
      "\<And>es. accepts r (p ! k # es) (map ((!) p) st) \<longleftrightarrow> V r (p ! k) \<and> ok_open r (p ! t) \<and> accepts r es (map ((!) p) st1)"
  | (fault) a st1 p1 where "st = a @ st1" "nest_step True k (p, st) = (p1, st1)" "\<And>j. p1 ! j = faulty True k a p j"
      "\<And>es. \<not> accepts r (p ! k # es) (map ((!) p) st)"
proof (cases st)
  case Nil
  show thesis using assms fault [of "[]" "[]" "set_type k Invalid_data p"] Nil
    by (simp add: nest_step_def xhtml_close_def faulty_def nth_set)
next
  case (Cons t st1)
  then have t: "t < length p" "t \<noteq> k" using assms(1) by (auto simp: nest_ok_def)
  show thesis
  proof (cases "same_tag True k t p")
    case True
    then show thesis using assms match [of t st1 "set_pair t k (set_pair k t p)"] Cons t
      by (simp add: nest_step_def xhtml_close_def matched_def nth_set same_tag_def)
  next
    case False
    then show thesis using assms fault [of "[t]" st1 "set_type t Invalid_data (set_type k Invalid_data p)"] Cons t
      by (simp add: nest_step_def xhtml_close_def faulty_def nth_set same_tag_def)
  qed
qed

lemma html_close_cases:
  assumes "nest_ok k p st" "k < length p" "en_type (p ! k) = Close_tag" "\<not> is_xhtml r"
  obtains (match) a t st1 p1 where "st = a @ t # st1" "nest_step False k (p, st) = (p1, st1)" "\<And>j. p1 ! j = matched k a t p j"
      "same_tag False k t p" "\<forall>j \<in> set a. \<not> same_tag False k j p"
      "\<And>es. accepts r (p ! k # es) (map ((!) p) st) \<longleftrightarrow> V r (p ! k) \<and> list_all (\<lambda>j. ok_single r (p ! j)) a \<and> ok_open r (p ! t)
        \<and> accepts r es (map ((!) p) st1)"
  | (fault) a st1 p1 where "st = a @ st1" "nest_step False k (p, st) = (p1, st1)" "\<And>j. p1 ! j = faulty False k a p j"
      "\<And>es. \<not> accepts r (p ! k # es) (map ((!) p) st)"
proof (cases rule: first_same [of st False k p])
  case (found a t st1)
  have d: "distinct (a @ t # st1)" "\<forall>j \<in> set (a @ t # st1). j < length p" "k \<notin> set (a @ t # st1)" using assms(1) found(1) by (auto simp: nest_ok_def)
  let ?p = "set_pair t k (set_pair k t (fold (\<lambda>j. set_type j Open_and_close_tag_without_slash) a p))"
  have "nest_step False k (p, st) = (?p, st1)"
    using html_close_found [OF d(1,2) assms(2) d(3) found(2,3)] assms(3) found(1) by (simp add: nest_step_def)
  moreover have "?p ! j = matched k a t p j" for j
    using d assms(2) by (auto simp: nth_set nth_fold_set_type matched_def single_def)
  moreover have "accepts r (p ! k # es) (map ((!) p) st) \<longleftrightarrow> V r (p ! k) \<and> list_all (\<lambda>j. ok_single r (p ! j)) a \<and> ok_open r (p ! t)
        \<and> accepts r es (map ((!) p) st1)" for es
    using assms(3,4) pop_to_found [OF found(2,3), of r st1] found(1) by auto
  ultimately show thesis using match found by blast
next
  case none
  have st: "distinct st" "\<forall>j \<in> set st. j < length p" "k \<notin> set st" using assms(1) by (auto simp: nest_ok_def)
  let ?p = "set_type k Invalid_data (fold (\<lambda>j. set_type j Open_and_close_tag_without_slash) st p)"
  have "nest_step False k (p, st) = (?p, [])"
    using html_close_none [OF st(1,2) assms(2) st(3) none] assms(3) by (simp add: nest_step_def)
  moreover have "?p ! j = faulty False k st p j" for j using st assms(2) by (auto simp: nth_set nth_fold_set_type faulty_def single_def)
  moreover have "\<not> accepts r (p ! k # es) (map ((!) p) st)" for es using assms(3,4) pop_to_none [OF none] by simp
  ultimately show thesis using fault [of st "[]" ?p] by simp
qed

lemma nest_close_cases:
  assumes "nest_ok k p st" "k < length p" "en_type (p ! k) = Close_tag"
  obtains (match) a t st1 p1 where "st = a @ t # st1" "nest_step (is_xhtml r) k (p, st) = (p1, st1)" "\<And>j. p1 ! j = matched k a t p j"
      "same_tag (is_xhtml r) k t p" "\<forall>j \<in> set a. \<not> same_tag (is_xhtml r) k j p" "is_xhtml r \<longrightarrow> a = []"
      "\<And>es. accepts r (p ! k # es) (map ((!) p) st) \<longleftrightarrow> V r (p ! k) \<and> list_all (\<lambda>j. ok_single r (p ! j)) a \<and> ok_open r (p ! t)
        \<and> accepts r es (map ((!) p) st1)"
  | (fault) a st1 p1 where "st = a @ st1" "nest_step (is_xhtml r) k (p, st) = (p1, st1)" "\<And>j. p1 ! j = faulty (is_xhtml r) k a p j"
      "\<And>es. \<not> accepts r (p ! k # es) (map ((!) p) st)"
proof (cases "is_xhtml r")
  case True
  from assms True show thesis
  proof (cases rule: xhtml_close_cases)
    case (match t st1 p1)
    then show thesis using that(1) [of "[]" t st1 p1] True by simp
  next
    case (fault a st1 p1)
    then show thesis using that(2) [of a st1 p1] True by simp
  qed
next
  case False
  from assms False show thesis
  proof (cases rule: html_close_cases)
    case (match a t st1 p1)
    then show thesis using that(1) [of a t st1 p1] False by simp
  next
    case (fault a st1 p1)
    then show thesis using that(2) [of a st1 p1] False by simp
  qed
qed

text \<open>The marks are all accepted by the rules exactly when the run accepts.\<close>

lemma nest_accepts_end:
  assumes "nest_ok k p st" "k = length p"
  shows "list_all (V r) (fin (is_xhtml r) k (p, st)) \<longleftrightarrow> (\<forall>j < k. j \<notin> set st \<longrightarrow> V r (p ! j)) \<and> accepts r (drop k p) (map ((!) p) st)"
proof -
  let ?ty = "if is_xhtml r then Invalid_data else Open_and_close_tag_without_slash"
  have "fin (is_xhtml r) k (p, st) ! j = (if j \<in> set st then (p ! j)\<lparr>en_type := ?ty\<rparr> else p ! j)" for j
    using fin_end [OF assms(2), of "is_xhtml r" st] nth_fold_set_type [of st p ?ty j] assms(1) by (simp add: nest_ok_def)
  then have "list_all (V r) (fin (is_xhtml r) k (p, st)) \<longleftrightarrow> (\<forall>j < k. if j \<in> set st then V r ((p ! j)\<lparr>en_type := ?ty\<rparr>) else V r (p ! j))"
    using assms(2) by (simp add: list_all_length)
  also have "\<dots> \<longleftrightarrow> (\<forall>j < k. j \<notin> set st \<longrightarrow> V r (p ! j)) \<and> (\<forall>j \<in> set st. V r ((p ! j)\<lparr>en_type := ?ty\<rparr>))"
    using assms(1) unfolding nest_ok_def by meson
  also have "(\<forall>j \<in> set st. V r ((p ! j)\<lparr>en_type := ?ty\<rparr>)) \<longleftrightarrow> accepts r (drop k p) (map ((!) p) st)"
    using assms(2) by (cases st) (auto simp: list_all_iff ok_single_def)
  finally show ?thesis .
qed

text \<open>A match leaves what is behind and what is still on the stack as it was.\<close>

lemma matched_frame:
  assumes "nest_ok k p (a @ t # st1)" "k < length p" "length p1 = length p" "\<And>j. p1 ! j = matched k a t p j"
  shows "nest_ok (Suc k) p1 st1" "map ((!) p1) st1 = map ((!) p) st1" "drop (Suc k) p1 = drop (Suc k) p"
proof -
  have st: "\<forall>j \<in> set (a @ t # st1). j < k" "distinct (a @ t # st1)" using assms(1) by (auto simp: nest_ok_def)
  have "k < j \<Longrightarrow> j \<notin> set (a @ t # st1)" for j using st(1) by (metis order_less_asym)
  then have keep: "p1 ! j = p ! j" if "j \<in> set st1 \<or> k < j" for j using st that unfolding assms(4) matched_def by auto
  show "nest_ok (Suc k) p1 st1" using assms(1,3) keep by (auto simp: nest_ok_def less_Suc_eq)
  show "map ((!) p1) st1 = map ((!) p) st1" using keep by simp
  show "drop (Suc k) p1 = drop (Suc k) p" using assms(3) keep by (auto intro!: nth_equalityI)
qed

lemma faulty_frame:
  assumes "nest_ok k p (a @ st1)" "k < length p" "length p1 = length p" "\<And>j. p1 ! j = faulty xhtml k a p j"
  shows "nest_ok (Suc k) p1 st1" "k \<notin> set st1" "\<not> V r (p1 ! k)" "drop (Suc k) p1 = drop (Suc k) p"
proof -
  have st: "\<forall>j \<in> set (a @ st1). j < k" "distinct (a @ st1)" using assms(1) by (auto simp: nest_ok_def)
  have "k < j \<Longrightarrow> j \<notin> set (a @ st1)" for j using st(1) by (metis order_less_asym)
  then have keep: "p1 ! j = p ! j" if "j \<in> set st1 \<or> k < j" for j using st that unfolding assms(4) faulty_def by auto
  show "nest_ok (Suc k) p1 st1" using assms(1,3) keep by (auto simp: nest_ok_def less_Suc_eq)
  show "k \<notin> set st1" using st by auto
  show "\<not> V r (p1 ! k)" unfolding assms(4) by (simp add: faulty_def)
  show "drop (Suc k) p1 = drop (Suc k) p" using assms(3) keep by (auto intro!: nth_equalityI)
qed

lemma nest_accepts:
  assumes "nest_ok k p st" "k \<le> length p"
  shows "list_all (V r) (fin (is_xhtml r) k (p, st)) \<longleftrightarrow> (\<forall>j < k. j \<notin> set st \<longrightarrow> V r (p ! j)) \<and> accepts r (drop k p) (map ((!) p) st)"
  using assms
proof (induction "length p - k" arbitrary: k p st)
  case 0
  then show ?case by (intro nest_accepts_end) auto
next
  case (Suc m)
  then have k: "k < length p" by linarith
  let ?x = "is_xhtml r"
  obtain p1 st1 where s: "nest_step ?x k (p, st) = (p1, st1)" by (cases "nest_step ?x k (p, st)")
  have len: "length p1 = length p" using length_nest_step [of ?x k "(p, st)"] s by simp
  have fin: "fin ?x k (p, st) = fin ?x (Suc k) (p1, st1)" using fin_step [of k "(p, st)" ?x] k s by simp
  have dk: "drop k p = p ! k # drop (Suc k) p" using k by (simp add: Cons_nth_drop_Suc)
  have st: "\<forall>j \<in> set st. j < k" "distinct st" using Suc.prems(1) by (auto simp: nest_ok_def)
  have IH: "nest_ok (Suc k) p1 st1 \<Longrightarrow> list_all (V r) (fin ?x k (p, st))
      \<longleftrightarrow> (\<forall>j < Suc k. j \<notin> set st1 \<longrightarrow> V r (p1 ! j)) \<and> accepts r (drop (Suc k) p1) (map ((!) p1) st1)"
    using Suc.hyps(1) [of p1 "Suc k" st1] Suc.hyps(2) k len fin by simp
  consider (opn) "en_type (p ! k) = Open_tag" | (close) "en_type (p ! k) = Close_tag" | (other) "en_type (p ! k) \<notin> {Open_tag, Close_tag}" by blast
  then show ?case
  proof cases
    case opn
    then have e: "p1 = p" "st1 = k # st" using s by (auto simp: nest_step_def)
    have "nest_ok (Suc k) p1 st1" using Suc.prems(1) opn k e by (auto simp: nest_ok_def)
    from IH [OF this] show ?thesis using e opn dk by (auto simp: less_Suc_eq)
  next
    case other
    then have e: "p1 = p" "st1 = st" using s by (cases "en_type (p ! k)"; auto simp: nest_step_def)+
    have "nest_ok (Suc k) p1 st1" using Suc.prems(1) e by (auto simp: nest_ok_def)
    from IH [OF this] show ?thesis using e other dk st by (auto simp: less_Suc_eq)
  next
    case close
    from Suc.prems(1) k close show ?thesis
    proof (cases rule: nest_close_cases [of k p st r])
      case (match a t st' p')
      have e: "p' = p1" "st' = st1" using match(2) s by auto
      note frame = matched_frame [OF Suc.prems(1) [unfolded match(1)] k len match(3) [unfolded e]]
      have t: "t < k" "en_type (p ! t) = Open_tag" "t \<noteq> k" "t \<notin> set st1" "t \<notin> set a" "k \<notin> set a" "k \<notin> set st1"
        using Suc.prems(1) match(1) e by (auto simp: nest_ok_def)
      have "(\<forall>j < Suc k. j \<notin> set st1 \<longrightarrow> V r (p1 ! j)) \<longleftrightarrow> (\<forall>j < k. j \<notin> set st \<longrightarrow> V r (p ! j)) \<and> V r (p ! k) \<and> V r (p ! t)
          \<and> (\<forall>j \<in> set a. V r (single (p ! j)))"
        using t st match(1) e unfolding match(3) [unfolded e] matched_def by (auto simp: less_Suc_eq)
      moreover have "(\<forall>j \<in> set a. V r (single (p ! j))) \<longleftrightarrow> list_all (\<lambda>j. ok_single r (p ! j)) a"
        by (simp add: list_all_iff ok_single_def single_def)
      moreover have "list_all (V r) (fin ?x k (p, st)) \<longleftrightarrow> (\<forall>j < Suc k. j \<notin> set st1 \<longrightarrow> V r (p1 ! j)) \<and> accepts r (drop (Suc k) p) (map ((!) p) st1)"
        using IH [OF frame(1) [unfolded e]] frame(2,3) e by metis
      moreover note match(7) [of "drop (Suc k) p"] ok_open_type [OF t(2), of r]
      ultimately show ?thesis unfolding dk e by blast
    next
      case (fault a st' p')
      have e: "p' = p1" "st' = st1" using fault(2) s by auto
      note frame = faulty_frame [OF Suc.prems(1) [unfolded fault(1)] k len fault(3) [unfolded e]]
      show ?thesis using IH frame(1) frame(2) frame(3) [of r] fault(4) dk e by auto
    qed
  qed
qed

section \<open>Validation as a run\<close>

lemma accepts_valid: "accepts r es st \<Longrightarrow> e \<in> set es \<Longrightarrow> en_type e \<noteq> Invalid_data"
proof (induction es arbitrary: st)
  case (Cons x es)
  show ?case
  proof (cases "e = x")
    case True
    then show ?thesis using Cons.prems(1) V_invalid [of x r] by (auto split: if_splits)
  next
    case False
    then show ?thesis using Cons by (auto split: if_splits list.splits option.splits)
  qed
qed simp

lemma validate_nesting_fin: "validate_nesting p xhtml = fin xhtml 0 (p, [])"
  by (simp add: validate_nesting_def fin_def)

lemma validate_nesting_accepts: "list_all (V r) (validate_nesting p (is_xhtml r)) = accepts r p []"
  using nest_accepts [of 0 p "[]" r] by (simp add: validate_nesting_fin nest_ok_def)

lemma parse_part_invalid: "is_invalid e \<Longrightarrow> is_invalid (parse_part e)"
  by (simp add: is_invalid_def parse_part_def)

lemma validate_parts_accepts: "validate_parts r s = accepts r (map parse_part (split_to_parts s)) []"
proof -
  let ?p = "map parse_part (split_to_parts s)"
  have "accepts r ?p [] \<Longrightarrow> \<not> list_ex is_invalid ?p"
    using accepts_valid [of r ?p "[]"] by (auto simp: list_ex_iff is_invalid_def)
  moreover have "\<not> list_ex is_invalid ?p \<Longrightarrow> \<not> list_ex is_invalid (split_to_parts s)"
    using parse_part_invalid by (auto simp: list_ex_iff)
  moreover have "list_all (V r) q \<Longrightarrow> \<not> list_ex is_invalid q" for q
    by (auto simp: list_ex_iff list_all_iff is_invalid_def)
  ultimately show ?thesis using validate_nesting_accepts [of r ?p] by (auto simp: validate_parts_def Let_def)
qed

section \<open>What the marks say at the end\<close>

text \<open>An entry that is behind the current one and not on the stack keeps its marks.\<close>

lemma nest_step_nth:
  fixes r :: rules
  assumes "nest_ok k p st" "k < length p" "nest_step (is_xhtml r) k (p, st) = (p1, st1)"
  shows "j < k \<Longrightarrow> j \<notin> set st \<Longrightarrow> p1 ! j = p ! j \<and> j \<notin> set st1"
    and "nest_ok (Suc k) p1 st1" "length p1 = length p" "drop (Suc k) p1 = drop (Suc k) p"
    and "en_name (p1 ! j) = en_name (p ! j) \<and> en_props (p1 ! j) = en_props (p ! j) \<and> en_text (p1 ! j) = en_text (p ! j)"
proof -
  show len: "length p1 = length p" using length_nest_step [of "is_xhtml r" k "(p, st)"] assms(3) by simp
  have "(j < k \<longrightarrow> j \<notin> set st \<longrightarrow> p1 ! j = p ! j \<and> j \<notin> set st1) \<and> nest_ok (Suc k) p1 st1 \<and> drop (Suc k) p1 = drop (Suc k) p
    \<and> en_name (p1 ! j) = en_name (p ! j) \<and> en_props (p1 ! j) = en_props (p ! j) \<and> en_text (p1 ! j) = en_text (p ! j)" for j
  proof (cases "en_type (p ! k) = Close_tag")
    case True
    from assms(1,2) True show ?thesis
    proof (cases rule: nest_close_cases [of k p st r])
      case (match a t st' p')
      have e: "p' = p1" "st' = st1" using match(2) assms(3) by auto
      note frame = matched_frame [OF assms(1) [unfolded match(1)] assms(2) len match(3) [unfolded e]]
      show ?thesis using frame match(1) e unfolding match(3) [unfolded e] matched_def single_def by auto
    next
      case (fault a st' p')
      have e: "p' = p1" "st' = st1" using fault(2) assms(3) by auto
      note frame = faulty_frame [OF assms(1) [unfolded fault(1)] assms(2) len fault(3) [unfolded e]]
      show ?thesis using frame(1,2,4) fault(1) e unfolding fault(3) [unfolded e] faulty_def single_def by auto
    qed
  next
    case False
    then have "p1 = p" "st1 = (if en_type (p ! k) = Open_tag then k # st else st)"
      using assms(3) by (cases "en_type (p ! k)"; auto simp: nest_step_def)+
    then show ?thesis using assms(1,2) by (auto simp: nest_ok_def)
  qed
  then show "j < k \<Longrightarrow> j \<notin> set st \<Longrightarrow> p1 ! j = p ! j \<and> j \<notin> set st1" "nest_ok (Suc k) p1 st1" "drop (Suc k) p1 = drop (Suc k) p"
    "en_name (p1 ! j) = en_name (p ! j) \<and> en_props (p1 ! j) = en_props (p ! j) \<and> en_text (p1 ! j) = en_text (p ! j)" by blast+
qed

lemma fin_end_nth:
  "nest_ok k p st \<Longrightarrow> k = length p \<Longrightarrow> fin xhtml k (p, st) ! j
     = (if j \<in> set st then (if xhtml then (p ! j)\<lparr>en_type := Invalid_data\<rparr> else single (p ! j)) else p ! j)"
  by (simp add: fin_end nth_fold_set_type nest_ok_def single_def)

lemma fin_frame:
  fixes r :: rules
  assumes "nest_ok k p st" "k \<le> length p"
  shows "(j < k \<longrightarrow> j \<notin> set st \<longrightarrow> fin (is_xhtml r) k (p, st) ! j = p ! j)
    \<and> en_name (fin (is_xhtml r) k (p, st) ! j) = en_name (p ! j) \<and> en_props (fin (is_xhtml r) k (p, st) ! j) = en_props (p ! j)
    \<and> en_text (fin (is_xhtml r) k (p, st) ! j) = en_text (p ! j)"
  using assms
proof (induction "length p - k" arbitrary: k p st)
  case 0
  then show ?case by (auto simp: fin_end_nth single_def)
next
  case (Suc m)
  then have k: "k < length p" by linarith
  obtain p1 st1 where s: "nest_step (is_xhtml r) k (p, st) = (p1, st1)" by (cases "nest_step (is_xhtml r) k (p, st)")
  note n = nest_step_nth [OF Suc.prems(1) k s]
  have "fin (is_xhtml r) k (p, st) = fin (is_xhtml r) (Suc k) (p1, st1)" using fin_step [of k "(p, st)" "is_xhtml r"] k s by simp
  moreover note Suc.hyps(1) [of p1 "Suc k" st1]
  ultimately show ?case using n Suc.hyps(2) k by auto
qed

end
