(* ===== verification/Xss_Filter.thy ===== *)
theory Xss_Filter
  imports Xss_Nest
begin

text \<open>
  What the filter leaves is accepted when it is validated again.  First the loop over the rules, then a run over the entries that
  are left beside the run over all of them; last the text of these entries is split into the same entries again.
\<close>

section \<open>Pairs\<close>

definition pairs_ok :: "nat \<Rightarrow> html_entry list \<Rightarrow> nat list \<Rightarrow> bool" where
  "pairs_ok k p st \<longleftrightarrow> (\<forall>j < length p. k \<le> j \<or> j \<in> set st \<longrightarrow> en_pair (p ! j) = -1)
     \<and> (\<forall>j < length p. en_pair (p ! j) = -1 \<or> (\<exists>t < length p. en_pair (p ! j) = int t \<and> en_pair (p ! t) = int j))"

lemma pairs_ok_same:
  assumes "pairs_ok k p st" "length p1 = length p" "\<And>j. en_pair (p1 ! j) = en_pair (p ! j)" "set st1 \<subseteq> insert k (set st)"
  shows "pairs_ok (Suc k) p1 st1"
proof -
  have "en_pair (p ! j) = -1" if "j < length p" "Suc k \<le> j \<or> j \<in> set st1" for j
  proof -
    have "k \<le> j \<or> j \<in> set st" using that(2) assms(4) by auto
    then show ?thesis using assms(1) that(1) by (auto simp: pairs_ok_def)
  qed
  then show ?thesis using assms(1) unfolding pairs_ok_def assms(2,3) by blast
qed

lemma pairs_ok_match:
  assumes "pairs_ok k p (a @ t # st1)" "nest_ok k p (a @ t # st1)" "k < length p" "length p1 = length p" "\<And>j. p1 ! j = matched k a t p j"
  shows "pairs_ok (Suc k) p1 st1"
proof -
  have t: "t < k" "t < length p" "t \<notin> set st1" "k \<notin> set st1" using assms(2) by (auto simp: nest_ok_def)
  have none: "en_pair (p ! t) = -1" "en_pair (p ! k) = -1" using assms(1,3) t(2) by (auto simp: pairs_ok_def)
  have pair: "en_pair (p1 ! j) = (if j = t then int k else if j = k then int t else en_pair (p ! j))" for j
    unfolding assms(5) by (simp add: matched_def single_def)
  have free: "en_pair (p1 ! j) = -1" if "j < length p" "Suc k \<le> j \<or> j \<in> set st1" for j
    using that assms(1) t pair [of j] by (auto simp: pairs_ok_def)
  have sym: "en_pair (p1 ! j) = -1 \<or> (\<exists>i < length p. en_pair (p1 ! j) = int i \<and> en_pair (p1 ! i) = int j)" if j: "j < length p" for j
  proof (cases "j = t \<or> j = k")
    case True
    then show ?thesis using pair t(1,2) assms(3) by auto
  next
    case False
    then have pj: "en_pair (p1 ! j) = en_pair (p ! j)" by (simp add: pair)
    have "en_pair (p ! j) = -1 \<or> (\<exists>i < length p. en_pair (p ! j) = int i \<and> en_pair (p ! i) = int j)"
      using assms(1) j unfolding pairs_ok_def by blast
    then show ?thesis
    proof
      assume "\<exists>i < length p. en_pair (p ! j) = int i \<and> en_pair (p ! i) = int j"
      then obtain i where i: "i < length p" "en_pair (p ! j) = int i" "en_pair (p ! i) = int j" by blast
      have "i \<noteq> t" "i \<noteq> k" using i(3) none by auto
      then show ?thesis using i pj pair [of i] by auto
    qed (simp add: pj)
  qed
  show ?thesis using free sym assms(4) unfolding pairs_ok_def by simp
qed

lemma pairs_ok_step:
  fixes r :: rules
  assumes "pairs_ok k p st" "nest_ok k p st" "k < length p" "nest_step (is_xhtml r) k (p, st) = (p1, st1)"
  shows "pairs_ok (Suc k) p1 st1"
proof -
  have len: "length p1 = length p" using nest_step_nth(3) [OF assms(2-4)] .
  show ?thesis
  proof (cases "en_type (p ! k) = Close_tag")
    case True
    from assms(2,3) True show ?thesis
    proof (cases rule: nest_close_cases [of k p st r])
      case (match a t st' p')
      then show ?thesis using pairs_ok_match [of k p a t st1 p1] assms len by simp
    next
      case (fault a st' p')
      have e: "p' = p1" "st' = st1" using fault(2) assms(4) by auto
      have "en_pair (p1 ! j) = en_pair (p ! j)" for j unfolding fault(3) [unfolded e] by (simp add: faulty_def single_def)
      then show ?thesis using pairs_ok_same [OF assms(1) len] fault(1) e by auto
    qed
  next
    case False
    then have "p1 = p" "st1 = (if en_type (p ! k) = Open_tag then k # st else st)"
      using assms(4) by (cases "en_type (p ! k)"; auto simp: nest_step_def)+
    then show ?thesis using pairs_ok_same [OF assms(1) len] by auto
  qed
qed

lemma fin_pairs:
  fixes r :: rules
  assumes "pairs_ok k p st" "nest_ok k p st" "k \<le> length p"
  shows "pairs_ok (length p) (fin (is_xhtml r) k (p, st)) []"
  using assms
proof (induction "length p - k" arbitrary: k p st)
  case 0
  then have "k = length p" by simp
  moreover have "en_pair (fin (is_xhtml r) k (p, st) ! j) = en_pair (p ! j)" for j
    using fin_end_nth [OF 0(3) \<open>k = length p\<close>] by (simp add: single_def)
  ultimately show ?case using 0(2) by (auto simp: pairs_ok_def)
next
  case (Suc m)
  then have k: "k < length p" by linarith
  obtain p1 st1 where s: "nest_step (is_xhtml r) k (p, st) = (p1, st1)" by (cases "nest_step (is_xhtml r) k (p, st)")
  note n = nest_step_nth [OF Suc.prems(2) k s]
  have "fin (is_xhtml r) k (p, st) = fin (is_xhtml r) (Suc k) (p1, st1)" using fin_step [of k "(p, st)" "is_xhtml r"] k s by simp
  then show ?case using Suc.hyps(1) [of p1 "Suc k" st1] pairs_ok_step [OF Suc.prems(1,2) k s] n(2,3) Suc.hyps(2) k by simp
qed

section \<open>The loop over the rules\<close>

definition survives :: "rules \<Rightarrow> html_entry list \<Rightarrow> nat \<Rightarrow> bool" where
  "survives r p j \<longleftrightarrow> V r (p ! j) \<and> (en_pair (p ! j) = -1 \<or> V r (p ! nat (en_pair (p ! j))))"

definition refused :: "rules \<Rightarrow> html_entry list \<Rightarrow> nat \<Rightarrow> nat \<Rightarrow> bool" where
  "refused r p m j \<longleftrightarrow> (\<exists>i < m. \<not> V r (p ! i) \<and> (j = i \<or> en_pair (p ! i) = int j))"

definition marked :: "(nat \<Rightarrow> bool) \<Rightarrow> html_entry list \<Rightarrow> html_entry list \<Rightarrow> bool" where
  "marked B p q \<longleftrightarrow> length q = length p \<and> (\<forall>j < length p. q ! j = (if B j then (p ! j)\<lparr>en_type := Invalid_data\<rparr> else p ! j))"

lemma marked_set_type:
  "marked B p q \<Longrightarrow> i < length p \<Longrightarrow> marked (\<lambda>j. j = i \<or> B j) p (set_type i Invalid_data q)"
  by (auto simp: marked_def nth_set)

lemma marked_cong: "marked B p q \<Longrightarrow> (\<And>j. j < length p \<Longrightarrow> B j = C j) \<Longrightarrow> marked C p q"
  by (simp add: marked_def)

lemma refused_Suc: "refused r p (Suc m) j \<longleftrightarrow> refused r p m j \<or> \<not> V r (p ! m) \<and> (j = m \<or> en_pair (p ! m) = int j)"
  by (auto simp: refused_def less_Suc_eq)

lemma rule_step_marked:
  assumes "pairs_ok (length p) p []" "m < length p" "marked (refused r p m) p q" "v = (w \<and> (\<forall>i < m. V r (p ! i)))"
    "rule_step r m (v, q) = (v1, q1)"
  shows "marked (refused r p (Suc m)) p q1 \<and> v1 = (w \<and> (\<forall>i < Suc m. V r (p ! i)))"
proof (cases "V r (q ! m)")
  case True
  have qm: "q ! m = (if refused r p m m then (p ! m)\<lparr>en_type := Invalid_data\<rparr> else p ! m)" using assms(2,3) by (simp add: marked_def)
  have "\<not> refused r p m m" using True qm by (auto split: if_splits)
  then have "V r (p ! m)" using True qm by simp
  moreover have "q1 = q" "v1 = v" using True assms(5) by (auto simp: rule_step_def)
  ultimately show ?thesis using assms(3,4) by (auto simp: refused_Suc less_Suc_eq intro: marked_cong)
next
  case False
  have qm: "q ! m = (if refused r p m m then (p ! m)\<lparr>en_type := Invalid_data\<rparr> else p ! m)" using assms(2,3) by (simp add: marked_def)
  then have pair: "en_pair (q ! m) = en_pair (p ! m)" by simp
  have sym: "en_pair (p ! j) = -1 \<or> (\<exists>t < length p. en_pair (p ! j) = int t \<and> en_pair (p ! t) = int j)" if "j < length p" for j
    using assms(1) that by (simp add: pairs_ok_def)
  let ?q = "if en_pair (p ! m) \<noteq> -1 then set_type (nat (en_pair (p ! m))) Invalid_data q else q"
  have q1: "q1 = set_type m Invalid_data ?q" "\<not> v1" using False assms(5) pair by (auto simp: rule_step_def Let_def)
  have "marked (\<lambda>j. en_pair (p ! m) = int j \<or> refused r p m j) p ?q"
  proof (cases "en_pair (p ! m) = -1")
    case True
    then show ?thesis using assms(3) by simp
  next
    case False
    then obtain t where "t < length p" "en_pair (p ! m) = int t" using sym [OF assms(2)] by blast
    then show ?thesis using marked_set_type [OF assms(3), of t] by (auto intro: marked_cong)
  qed
  from marked_set_type [OF this assms(2)] have m1: "marked (\<lambda>j. j = m \<or> en_pair (p ! m) = int j \<or> refused r p m j) p q1" unfolding q1 .
  have bad: "refused r p m m \<or> \<not> V r (p ! m)" using False qm by (auto split: if_splits)
  then obtain i where i: "i < Suc m" "\<not> V r (p ! i)" "i = m \<or> en_pair (p ! i) = int m" by (auto simp: refused_def less_Suc_eq)
  have "j = m \<or> en_pair (p ! m) = int j \<or> refused r p m j \<longleftrightarrow> refused r p (Suc m) j" if "j < length p" for j
  proof (cases "V r (p ! m)")
    case True
    then have "i < m" "en_pair (p ! i) = int m" using i by (auto simp: less_Suc_eq)
    moreover have "en_pair (p ! m) = int i" using sym [of i] \<open>i < m\<close> \<open>en_pair (p ! i) = int m\<close> assms(2) by auto
    ultimately have "refused r p m m" "refused r p m i" using i(2) by (auto simp: refused_def)
    then show ?thesis using True \<open>en_pair (p ! m) = int i\<close> by (auto simp: refused_Suc)
  qed (auto simp: refused_Suc)
  with m1 have "marked (refused r p (Suc m)) p q1" by (rule marked_cong)
  then show ?thesis using q1(2) i(1,2) by blast
qed

lemma rule_loop_marked:
  assumes "pairs_ok (length p) p []" "m \<le> length p"
  shows "marked (refused r p m) p (snd (fold (rule_step r) [0..<m] (w, p)))
    \<and> fst (fold (rule_step r) [0..<m] (w, p)) = (w \<and> (\<forall>i < m. V r (p ! i)))"
  using assms(2)
proof (induction m)
  case 0
  then show ?case by (simp add: marked_def refused_def)
next
  case (Suc m)
  obtain v q where vq: "fold (rule_step r) [0..<m] (w, p) = (v, q)" by fastforce
  obtain v1 q1 where s: "rule_step r m (v, q) = (v1, q1)" by fastforce
  show ?case using rule_step_marked [OF assms(1) _ _ _ s, of w] Suc vq s by simp
qed

lemma rule_loop:
  assumes "pairs_ok (length p) p []"
  shows "marked (\<lambda>j. \<not> survives r p j) p (snd (fold (rule_step r) [0..<length p] (w, p)))"
    and "fst (fold (rule_step r) [0..<length p] (w, p)) = (w \<and> list_all (V r) p)"
proof -
  have sym: "en_pair (p ! j) = -1 \<or> (\<exists>t < length p. en_pair (p ! j) = int t \<and> en_pair (p ! t) = int j)" if "j < length p" for j
    using assms that by (simp add: pairs_ok_def)
  have "refused r p (length p) j \<longleftrightarrow> \<not> survives r p j" if j: "j < length p" for j
  proof
    assume "refused r p (length p) j"
    then obtain i where i: "i < length p" "\<not> V r (p ! i)" "j = i \<or> en_pair (p ! i) = int j" by (auto simp: refused_def)
    show "\<not> survives r p j"
    proof (cases "j = i")
      case False
      then have "en_pair (p ! j) = int i" using sym [of i] i by auto
      then show ?thesis using i(2) by (simp add: survives_def)
    qed (use i(2) in \<open>simp add: survives_def\<close>)
  next
    assume "\<not> survives r p j"
    then show "refused r p (length p) j" using sym [OF j] j by (auto simp: survives_def refused_def)
  qed
  then show "marked (\<lambda>j. \<not> survives r p j) p (snd (fold (rule_step r) [0..<length p] (w, p)))"
    using rule_loop_marked [OF assms, of "length p" r w] by (auto intro: marked_cong)
  show "fst (fold (rule_step r) [0..<length p] (w, p)) = (w \<and> list_all (V r) p)"
    using rule_loop_marked [OF assms, of "length p" r w] by (simp add: list_all_length)
qed

section \<open>The run over what is left\<close>

text \<open>
  Where the filter drops a closing tag, the tags that it unwound stay open for longer.  They are accepted as single tags, so the
  stack of the second run may have them in addition.
\<close>

inductive extends :: "('a \<Rightarrow> bool) \<Rightarrow> 'a list \<Rightarrow> 'a list \<Rightarrow> bool" for ok where
  extends_Nil: "extends ok [] []"
| extends_Cons: "extends ok a b \<Longrightarrow> extends ok (x # a) (x # b)"
| extends_extra: "ok x \<Longrightarrow> extends ok a b \<Longrightarrow> extends ok a (x # b)"

inductive_cases extends_NilE: "extends ok [] b"

lemma extends_drop: "extends ok (a @ b) c \<Longrightarrow> \<forall>x \<in> set a. ok x \<Longrightarrow> extends ok b c"
proof (induction "a @ b" c arbitrary: a rule: extends.induct)
  case (extends_Cons l c x)
  then show ?case by (cases a) (auto intro: extends.intros)
qed (auto intro: extends.intros)

lemma extends_all: "extends ok a b \<Longrightarrow> \<forall>x \<in> set a. ok x \<Longrightarrow> \<forall>x \<in> set b. ok x"
  by (induction rule: extends.induct) auto

lemma extends_eq: "extends ok a b \<Longrightarrow> \<forall>x. \<not> ok x \<Longrightarrow> b = a"
  by (induction rule: extends.induct) auto

lemma pop_to_extends:
  assumes "extends (ok_single r) (a @ t # b) c" "\<forall>x \<in> set a. ok_single r x \<and> \<not> ascii_streq (en_name x) (en_name e) False"
    "ascii_streq (en_name t) (en_name e) False" "ok_open r t"
    "\<And>x. ok_single r x \<Longrightarrow> ascii_streq (en_name x) (en_name e) False \<Longrightarrow> ok_open r x \<and> ok_single r t"
  shows "\<exists>c'. pop_to r e c = Some c' \<and> extends (ok_single r) b c'"
  using assms(1,2)
proof (induction "a @ t # b" c arbitrary: a rule: extends.induct)
  case extends_Nil
  then show ?case by simp
next
  case (extends_Cons l c x)
  then show ?case using assms(3,4) by (cases a) auto
next
  case (extends_extra x c)
  show ?case
  proof (cases "ascii_streq (en_name x) (en_name e) False")
    case True
    have "extends (ok_single r) b c" using extends_drop [of "ok_single r" "a @ [t]" b c] extends_extra assms(5) True by auto
    then show ?thesis using True assms(5) extends_extra(1) by auto
  next
    case False
    then show ?thesis using extends_extra by auto
  qed
qed

text \<open>Rules as the setters build them: each holder compares names its own way, and the entities of the escaping are known.\<close>

definition rules_wf :: "rules \<Rightarrow> bool" where
  "rules_wf r \<longleftrightarrow> rh_xhtml (xhtml_rules r) \<and> \<not> rh_xhtml (html_rules r)
     \<and> list_all (\<lambda>e. valid_entity (xhtml_rules r) e \<and> valid_entity (html_rules r) e) [''lt'', ''gt'', ''amp'', ''quot'']"

lemma rules_wf_impl: "rules_wf r \<Longrightarrow> rh_xhtml (impl r) = is_xhtml r"
  by (simp add: rules_wf_def impl_def)

lemma same_name_same_rule:
  "rules_wf r \<Longrightarrow> ascii_streq n m (is_xhtml r) \<Longrightarrow> holder_valid_tag (impl r) n = holder_valid_tag (impl r) m"
  by (simp add: holder_valid_tag_def tag_at_def rules_wf_impl name_key_def ascii_streq_def split: if_splits)

lemma ok_openD: "ok_open r e \<longleftrightarrow> holder_valid_tag (impl r) (en_name e) \<in> {Opening_and_closing, Any_tag}
    \<and> validate_properties r (en_name e) [] (en_props e)"
  by (auto simp: ok_open_def validate_entry_by_rules_def split: tag_type.splits)

lemma ok_singleD: "ok_single r e \<longleftrightarrow> holder_valid_tag (impl r) (en_name e) \<in> {Stand_alone, Any_tag}
    \<and> validate_properties r (en_name e) [] (en_props e)"
  by (auto simp: ok_single_def validate_entry_by_rules_def split: tag_type.splits)

lemma any_tag:
  assumes "rules_wf r" "\<not> is_xhtml r" "ok_open r t" "ascii_streq (en_name t) n False" "ok_single r x" "ascii_streq (en_name x) n False"
  shows "ok_open r x \<and> ok_single r t"
proof -
  have "ascii_streq (en_name t) (en_name x) (is_xhtml r)" using assms(2,4,6) by (simp add: ascii_streq_def)
  from same_name_same_rule [OF assms(1) this] show ?thesis using assms(3,5) by (auto simp: ok_openD ok_singleD)
qed

text \<open>The state of the code and of the second run at entry \<open>k\<close>: \<open>f\<close> is the list of the marks at the end.\<close>

definition left_over :: "rules \<Rightarrow> html_entry \<Rightarrow> bool" where
  "left_over r e \<longleftrightarrow> \<not> is_xhtml r \<and> ok_single r e"

definition sim :: "rules \<Rightarrow> html_entry list \<Rightarrow> html_entry list \<Rightarrow> nat \<Rightarrow> html_entry list \<Rightarrow> nat list \<Rightarrow> html_entry list \<Rightarrow> bool" where
  "sim r p0 f k p st st' \<longleftrightarrow> nest_ok k p st \<and> k \<le> length p \<and> length p = length p0 \<and> (\<forall>j. k \<le> j \<or> j \<in> set st \<longrightarrow> p ! j = p0 ! j)
     \<and> f = fin (is_xhtml r) k (p, st) \<and> extends (left_over r) (map ((!) p0) (filter (survives r f) st)) st'"

definition rest :: "rules \<Rightarrow> html_entry list \<Rightarrow> html_entry list \<Rightarrow> nat \<Rightarrow> html_entry list" where
  "rest r p0 f k = map ((!) p0) (filter (survives r f) [k..<length p0])"

lemma rest_step: "k < length p0 \<Longrightarrow> rest r p0 f k = (if survives r f k then p0 ! k # rest r p0 f (Suc k) else rest r p0 f (Suc k))"
  by (simp add: rest_def upt_conv_Cons)

text \<open>A step of the code; what it has passed and dropped from the stack has its last marks.\<close>

lemma sim_step:
  assumes "sim r p0 f k p st st'" "k < length p0" "nest_step (is_xhtml r) k (p, st) = (p1, st1)"
    "extends (left_over r) (map ((!) p0) (filter (survives r f) st1)) st1'" "set st1 \<subseteq> insert k (set st)"
    "\<And>j. j \<in> set st1 \<Longrightarrow> p1 ! j = p ! j"
  shows "sim r p0 f (Suc k) p1 st1 st1'" and "j < Suc k \<Longrightarrow> j \<notin> set st1 \<Longrightarrow> f ! j = p1 ! j"
proof -
  have s: "nest_ok k p st" "length p = length p0" "\<And>j. k \<le> j \<or> j \<in> set st \<Longrightarrow> p ! j = p0 ! j" "f = fin (is_xhtml r) k (p, st)"
    using assms(1) by (auto simp: sim_def)
  then have k: "k < length p" using assms(2) by simp
  note n = nest_step_nth [OF s(1) k assms(3)]
  have f: "f = fin (is_xhtml r) (Suc k) (p1, st1)" using fin_step [of k "(p, st)" "is_xhtml r"] k s(4) assms(3) by simp
  have keep: "p1 ! j = p0 ! j" if "Suc k \<le> j \<or> j \<in> set st1" for j
    using that
  proof
    assume j: "Suc k \<le> j"
    have "drop (Suc k) p1 ! (j - Suc k) = drop (Suc k) p ! (j - Suc k)" using n(4) by simp
    then have "p1 ! j = p ! j" using j k n(3) by simp
    then show ?thesis using s(3) j by simp
  next
    assume j: "j \<in> set st1"
    then show ?thesis using assms(5,6) s(3) by auto
  qed
  show "sim r p0 f (Suc k) p1 st1 st1'" using n(2,3) k s(2) f assms(4) keep by (simp add: sim_def)
  show "j < Suc k \<Longrightarrow> j \<notin> set st1 \<Longrightarrow> f ! j = p1 ! j"
    using fin_frame [OF n(2), of j r] k n(3) f by simp
qed

lemma survives_V: "survives r f j \<Longrightarrow> V r (f ! j)"
  by (simp add: survives_def)

lemma sim_end:
  assumes "sim r p0 f k p st st'" "k = length p0"
  shows "accepts r (rest r p0 f k) st'"
proof -
  have s: "nest_ok k p st" "length p = length p0" "\<And>j. j \<in> set st \<Longrightarrow> p ! j = p0 ! j" "f = fin (is_xhtml r) k (p, st)"
    "extends (left_over r) (map ((!) p0) (filter (survives r f) st)) st'"
    using assms(1) by (auto simp: sim_def)
  have k: "k = length p" using assms(2) s(2) by simp
  have fj: "f ! j = (if is_xhtml r then (p0 ! j)\<lparr>en_type := Invalid_data\<rparr> else single (p0 ! j))" if "j \<in> set st" for j
    unfolding s(4) using fin_end_nth [OF s(1) k, of "is_xhtml r" j] s(3) that by simp
  show ?thesis
  proof (cases "is_xhtml r")
    case True
    have "\<not> survives r f j" if "j \<in> set st" for j using survives_V [of r f j] fj [OF that] True by auto
    then have "filter (survives r f) st = []" by (simp add: filter_empty_conv)
    then have "st' = []" using s(5) True extends_eq [of "left_over r" "[]" st'] by (simp add: left_over_def)
    then show ?thesis using True assms(2) by (simp add: rest_def)
  next
    case False
    have "\<forall>x \<in> set (map ((!) p0) (filter (survives r f) st)). left_over r x"
    proof
      fix x assume "x \<in> set (map ((!) p0) (filter (survives r f) st))"
      then obtain j where j: "j \<in> set st" "survives r f j" "x = p0 ! j" by auto
      then show "left_over r x" using False survives_V [OF j(2)] fj [OF j(1)] by (simp add: left_over_def ok_single_def single_def)
    qed
    from extends_all [OF s(5) this] show ?thesis using False assms(2) by (simp add: rest_def list_all_iff left_over_def)
  qed
qed

text \<open>A closing tag that is a fault is dropped, and what it unwound is dropped or may stay open.\<close>

lemma sim_fault:
  assumes "sim r p0 f k p st st'" "k < length p0" "st = a @ st1" "nest_step (is_xhtml r) k (p, st) = (p1, st1)"
    "\<And>j. p1 ! j = faulty (is_xhtml r) k a p j"
  shows "\<not> survives r f k" "sim r p0 f (Suc k) p1 st1 st'"
proof -
  have s: "nest_ok k p st" "length p = length p0" "\<And>j. k \<le> j \<or> j \<in> set st \<Longrightarrow> p ! j = p0 ! j" "f = fin (is_xhtml r) k (p, st)"
    "extends (left_over r) (map ((!) p0) (filter (survives r f) st)) st'"
    using assms(1) by (auto simp: sim_def)
  have k: "k < length p" using assms(2) s(2) by simp
  have st: "distinct (a @ st1)" "\<forall>j \<in> set (a @ st1). j < k" using s(1) assms(3) by (auto simp: nest_ok_def)
  have keep: "p1 ! j = p ! j" if "j \<in> set st1" for j using that st unfolding assms(5) faulty_def by auto
  have f: "f = fin (is_xhtml r) (Suc k) (p1, st1)" using fin_step [of k "(p, st)" "is_xhtml r"] k s(4) assms(4) by simp
  note n = nest_step_nth [OF s(1) k assms(4)]
  have fj: "f ! j = p1 ! j" if "j < Suc k" "j \<notin> set st1" for j using fin_frame [OF n(2), of j r] k n(3) f that by simp
  have "\<not> V r (f ! k)" using fj [of k] st unfolding assms(5) faulty_def by auto
  then show "\<not> survives r f k" by (simp add: survives_def)
  have "left_over r (p0 ! j)" if j: "j \<in> set a" "survives r f j" for j
  proof -
    have jk: "j < k" "j \<notin> set st1" "p ! j = p0 ! j" using j(1) st s(3) assms(3) by auto
    have "f ! j = (if is_xhtml r then (p0 ! j)\<lparr>en_type := Invalid_data\<rparr> else single (p0 ! j))"
      using fj [of j] jk j(1) unfolding assms(5) faulty_def by simp
    then show ?thesis using survives_V [OF j(2)] by (auto simp: left_over_def ok_single_def single_def split: if_splits)
  qed
  then have "extends (left_over r) (map ((!) p0) (filter (survives r f) st1)) st'"
    using s(5) assms(3) extends_drop [of "left_over r" "map ((!) p0) (filter (survives r f) a)"] by auto
  from sim_step(1) [OF assms(1,2,4) this _ keep] show "sim r p0 f (Suc k) p1 st1 st'" using assms(3) by auto
qed

text \<open>A closing tag that is matched stays when both tags do; it may then close a later tag of the same name, which the rules accept.\<close>

lemma matched_marks:
  assumes "sim r p0 f k p st st'" "k < length p0" "st = a @ t # st1" "nest_step (is_xhtml r) k (p, st) = (p1, st1)"
    "\<And>j. p1 ! j = matched k a t p j"
  shows "survives r f k \<longleftrightarrow> V r (p0 ! k) \<and> V r (p0 ! t)" "survives r f t \<longleftrightarrow> survives r f k"
    "\<And>j. j \<in> set a \<Longrightarrow> survives r f j \<Longrightarrow> ok_single r (p0 ! j)"
proof -
  have s: "nest_ok k p st" "length p = length p0" "\<And>j. k \<le> j \<or> j \<in> set st \<Longrightarrow> p ! j = p0 ! j" "f = fin (is_xhtml r) k (p, st)"
    using assms(1) by (auto simp: sim_def)
  have k: "k < length p" using assms(2) s(2) by simp
  have st: "distinct (a @ t # st1)" "\<forall>j \<in> set (a @ t # st1). j < k" using s(1) assms(3) by (auto simp: nest_ok_def)
  have f: "f = fin (is_xhtml r) (Suc k) (p1, st1)" using fin_step [of k "(p, st)" "is_xhtml r"] k s(4) assms(4) by simp
  note n = nest_step_nth [OF s(1) k assms(4)]
  have fj: "f ! j = p1 ! j" if "j < Suc k" "j \<notin> set st1" for j using fin_frame [OF n(2), of j r] k n(3) f that by simp
  have "f ! t = (p0 ! t)\<lparr>en_pair := int k\<rparr>" using fj [of t] st s(3) [of t] assms(3) unfolding assms(5) matched_def by auto
  moreover have "f ! k = (p0 ! k)\<lparr>en_pair := int t\<rparr>" using fj [of k] st s(3) [of k] unfolding assms(5) matched_def by auto
  ultimately show "survives r f k \<longleftrightarrow> V r (p0 ! k) \<and> V r (p0 ! t)" "survives r f t \<longleftrightarrow> survives r f k" by (auto simp: survives_def)
  show "ok_single r (p0 ! j)" if j: "j \<in> set a" "survives r f j" for j
  proof -
    have jk: "j < k" "j \<notin> set st1" "j \<noteq> t" "p ! j = p0 ! j" using j(1) st s(3) assms(3) by auto
    have "f ! j = single (p0 ! j)" using fj [of j] jk j(1) unfolding assms(5) matched_def by simp
    then show ?thesis using survives_V [OF j(2)] by (simp add: ok_single_def single_def)
  qed
qed

lemma sim_match:
  assumes "sim r p0 f k p st st'" "k < length p0" "st = a @ t # st1" "nest_step (is_xhtml r) k (p, st) = (p1, st1)"
    "\<And>j. p1 ! j = matched k a t p j" "same_tag (is_xhtml r) k t p" "\<forall>j \<in> set a. \<not> same_tag (is_xhtml r) k j p" "is_xhtml r \<longrightarrow> a = []"
    "en_type (p ! k) = Close_tag" "rules_wf r"
  shows "\<exists>st1'. sim r p0 f (Suc k) p1 st1 st1' \<and> (accepts r (rest r p0 f (Suc k)) st1' \<longrightarrow> accepts r (rest r p0 f k) st')"
proof -
  note m = matched_marks [OF assms(1-5)]
  have s: "nest_ok k p st" "length p = length p0" "\<And>j. k \<le> j \<or> j \<in> set st \<Longrightarrow> p ! j = p0 ! j"
    "extends (left_over r) (map ((!) p0) (filter (survives r f) st)) st'"
    using assms(1) by (auto simp: sim_def)
  have st: "distinct (a @ t # st1)" "\<forall>j \<in> set (a @ t # st1). j < k" using s(1) assms(3) by (auto simp: nest_ok_def)
  have keep: "p1 ! j = p ! j" if "j \<in> set st1" for j using that st unfolding assms(5) matched_def by auto
  have type: "en_type (p0 ! k) = Close_tag" "en_type (p0 ! t) = Open_tag" using assms(3,9) s(1,3) by (auto simp: nest_ok_def)
  define a' where "a' = map ((!) p0) (filter (survives r f) a)"
  define b where "b = map ((!) p0) (filter (survives r f) st1)"
  have ext: "extends (left_over r) (a' @ (if survives r f k then [p0 ! t] else []) @ b) st'"
    using s(4) m(2) assms(3) by (auto simp: a'_def b_def split: if_splits)
  have a': "\<forall>x \<in> set a'. left_over r x" using m(3) assms(8) by (auto simp: a'_def left_over_def)
  have sim: "sim r p0 f (Suc k) p1 st1 st1'" if "extends (left_over r) b st1'" for st1'
    using sim_step(1) [OF assms(1,2,4) that [unfolded b_def] _ keep] assms(3) by auto
  show ?thesis
  proof (cases "survives r f k")
    case False
    then have "extends (left_over r) b st'" using extends_drop [OF _ a', of b st'] ext by simp
    then show ?thesis using sim rest_step [OF assms(2)] False by auto
  next
    case True
    have open_t: "ok_open r (p0 ! t)" "V r (p0 ! k)" using True m(1) ok_open_type [OF type(2)] by auto
    have same: "ascii_streq (en_name (p0 ! t)) (en_name (p0 ! k)) (is_xhtml r)"
      using assms(6) s(3) [of k] s(3) [of t] assms(3) by (simp add: same_tag_def)
    have rest: "rest r p0 f k = p0 ! k # rest r p0 f (Suc k)" using rest_step [OF assms(2), of r f] True by simp
    show ?thesis
    proof (cases "is_xhtml r")
      case xhtml: True
      have "st' = p0 ! t # b" using extends_eq [OF ext] True xhtml assms(8) by (auto simp: left_over_def a'_def)
      moreover have "extends (left_over r) b b" by (induction b) (auto intro: extends.intros)
      ultimately show ?thesis using sim rest xhtml open_t same type(1) by auto
    next
      case html: False
      have lo: "left_over r = ok_single r" using html by (auto simp: left_over_def)
      have above: "\<forall>x \<in> set a'. ok_single r x \<and> \<not> ascii_streq (en_name x) (en_name (p0 ! k)) False"
        using a' assms(3,7) s(3) html by (auto simp: a'_def lo same_tag_def)
      have "\<exists>c'. pop_to r (p0 ! k) st' = Some c' \<and> extends (ok_single r) b c'"
      proof (rule pop_to_extends)
        show "extends (ok_single r) (a' @ p0 ! t # b) st'" using ext True lo by simp
        show "\<And>x. ok_single r x \<Longrightarrow> ascii_streq (en_name x) (en_name (p0 ! k)) False \<Longrightarrow> ok_open r x \<and> ok_single r (p0 ! t)"
          using any_tag [OF assms(10) html open_t(1)] same html by auto
      qed (use above same html open_t in auto)
      then obtain c' where c: "pop_to r (p0 ! k) st' = Some c'" "extends (ok_single r) b c'" by blast
      then show ?thesis using sim [of c'] rest html open_t type(1) lo by auto
    qed
  qed
qed

lemma sim_accepts:
  assumes "sim r p0 f k p st st'" "rules_wf r"
  shows "accepts r (rest r p0 f k) st'"
  using assms(1)
proof (induction "length p0 - k" arbitrary: k p st st')
  case 0
  then show ?case by (intro sim_end) (auto simp: sim_def)
next
  case (Suc m)
  have s: "nest_ok k p st" "k \<le> length p" "length p = length p0" "\<And>j. k \<le> j \<or> j \<in> set st \<Longrightarrow> p ! j = p0 ! j"
    "extends (left_over r) (map ((!) p0) (filter (survives r f) st)) st'"
    using Suc.prems by (auto simp: sim_def)
  have k: "k < length p0" "k < length p" using Suc.hyps(2) s(3) by auto
  obtain p1 st1 where t: "nest_step (is_xhtml r) k (p, st) = (p1, st1)" by (cases "nest_step (is_xhtml r) k (p, st)")
  have IH: "sim r p0 f (Suc k) p1 st1 st1' \<Longrightarrow> accepts r (rest r p0 f (Suc k)) st1'" for st1'
    using Suc.hyps(1) [of "Suc k"] Suc.hyps(2) by simp
  note rest = rest_step [OF k(1), of r f]
  have pk: "p ! k = p0 ! k" using s(4) by simp
  consider (opn) "en_type (p ! k) = Open_tag" | (close) "en_type (p ! k) = Close_tag" | (other) "en_type (p ! k) \<notin> {Open_tag, Close_tag}" by blast
  then show ?case
  proof cases
    case opn
    then have e: "p1 = p" "st1 = k # st" using t by (auto simp: nest_step_def)
    let ?st = "if survives r f k then p0 ! k # st' else st'"
    have "extends (left_over r) (map ((!) p0) (filter (survives r f) st1)) ?st" using s(5) e by (auto intro: extends_Cons)
    then have "sim r p0 f (Suc k) p1 st1 ?st" using sim_step(1) [OF Suc.prems k(1) t] e by simp
    from IH [OF this] show ?thesis using rest opn pk by (auto split: if_splits)
  next
    case other
    then have e: "p1 = p" "st1 = st" using t by (cases "en_type (p ! k)"; auto simp: nest_step_def)+
    have "k \<notin> set st" using s(1) by (auto simp: nest_ok_def)
    have ext: "extends (left_over r) (map ((!) p0) (filter (survives r f) st1)) st'" using s(5) e by simp
    have "sim r p0 f (Suc k) p1 st1 st'" using sim_step(1) [OF Suc.prems k(1) t ext] e by auto
    moreover have "f ! k = p0 ! k" using sim_step(2) [OF Suc.prems k(1) t ext, of k] e pk \<open>k \<notin> set st\<close> by auto
    ultimately show ?thesis using IH rest other pk survives_V [of r f k] by auto
  next
    case close
    from s(1) k(2) close show ?thesis
    proof (cases rule: nest_close_cases [of k p st r])
      case (match a t' st2 p2)
      have e: "p2 = p1" "st2 = st1" using match(2) t by auto
      show ?thesis using sim_match [OF Suc.prems k(1) match(1-6) close assms(2)] IH e by auto
    next
      case (fault a st2 p2)
      have e: "p2 = p1" "st2 = st1" using fault(2) t by auto
      show ?thesis using sim_fault [OF Suc.prems k(1) fault(1-3)] IH e rest by auto
    qed
  qed
qed

end
