(* ===== verification/Xss_Safe.thy ===== *)
theory Xss_Safe
  imports Xss_Filter
begin

text \<open>
  The text that the filter puts out: it is split into the entries that were left again.  With the run over what is left, the output
  of the filter is valid.  A text that is valid has a description of its own, which does not depend on the way it is split.
\<close>

section \<open>The parts of a text\<close>

definition delimited :: "html_entry \<Rightarrow> bool" where
  "delimited e \<longleftrightarrow> en_text e \<noteq> [] \<and> en_type e \<noteq> Plain_text \<and> (\<forall>rest. html_next_part (en_text e @ rest) = (e, rest))"

definition plain_part :: "html_entry \<Rightarrow> bool" where
  "plain_part e \<longleftrightarrow> en_type e = Plain_text \<and> list_all (\<lambda>c. \<not> special c) (en_text e)"

fun shaped :: "html_data_type \<Rightarrow> string \<Rightarrow> bool" where
  "shaped Plain_text t = list_all (\<lambda>c. \<not> special c) t"
| "shaped Html_entity t = (\<exists>a. t = CHR ''&'' # a @ '';'')"
| "shaped Html_tag t = (\<exists>a. t = CHR ''<'' # a @ ''>'')"
| "shaped Html_comment t = (\<exists>a. t = ''<!--'' @ a @ ''-->'' \<and> \<not> list_ex special a)"
| "shaped ty t = (ty = Invalid_data)"

definition part_ok :: "html_entry \<Rightarrow> bool" where
  "part_ok e \<longleftrightarrow> shaped (en_type e) (en_text e) \<and> (is_invalid (parse_part e) \<or> plain_part e \<or> delimited e)"

lemma parse_html_entity_keeps:
  "en_text (parse_html_entity e) = en_text e \<and> en_pair (parse_html_entity e) = en_pair e \<and> (en_type e = Html_entity \<longrightarrow> en_type (parse_html_entity e) \<noteq> Plain_text)"
  unfolding parse_html_entity_def Let_def by (simp split: if_split)

lemma parse_html_tag_keeps:
  "en_text (parse_html_tag e) = en_text e \<and> en_pair (parse_html_tag e) = en_pair e \<and> (en_type e = Html_tag \<longrightarrow> en_type (parse_html_tag e) \<noteq> Plain_text)"
  unfolding parse_html_tag_def Let_def by (simp add: case_prod_unfold split: if_split)

lemma parse_part_keeps [simp]: "en_text (parse_part e) = en_text e" "en_pair (parse_part e) = en_pair e"
  using parse_html_entity_keeps [of e] parse_html_tag_keeps [of e] by (simp_all add: parse_part_def split: html_data_type.split)

lemma parse_part_plain: "en_type (parse_part e) = Plain_text \<longleftrightarrow> en_type e = Plain_text"
  using parse_html_entity_keeps [of e] parse_html_tag_keeps [of e] by (simp add: parse_part_def split: html_data_type.split)

text \<open>A range up to a character that closes it.\<close>

lemma range_split: "s \<noteq> [] \<Longrightarrow> dropWhile (\<lambda>c. c \<noteq> x) (tl s) = y # r \<Longrightarrow> \<exists>a. s = hd s # a @ x # r \<and> x \<notin> set a \<and> y = x"
proof -
  assume s: "s \<noteq> []" "dropWhile (\<lambda>c. c \<noteq> x) (tl s) = y # r"
  have y: "y = x" using hd_dropWhile [of "\<lambda>c. c \<noteq> x" "tl s"] s(2) by auto
  have "tl s = takeWhile (\<lambda>c. c \<noteq> x) (tl s) @ x # r" using takeWhile_dropWhile_id [of "\<lambda>c. c \<noteq> x" "tl s"] s(2) y by simp
  moreover have "x \<notin> set (takeWhile (\<lambda>c. c \<noteq> x) (tl s))" using set_takeWhileD by fastforce
  ultimately show ?thesis using s(1) y by (metis list.collapse)
qed

lemma dropWhile_to: "x \<notin> set a \<Longrightarrow> dropWhile (\<lambda>c. c \<noteq> x) (a @ x # r) = x # r"
  by (induction a) auto

lemma entity_delimited:
  assumes "CHR '';'' \<notin> set a" shows "delimited (new_entry (CHR ''&'' # a @ '';'') Html_entity)"
proof -
  have "dropWhile (\<lambda>c. c \<noteq> CHR '';'') (a @ CHR '';'' # r) = CHR '';'' # r" for r by (rule dropWhile_to [OF assms])
  moreover have "str_range (CHR ''&'' # a @ CHR '';'' # r) r = CHR ''&'' # a @ '';''" for r using str_range_append [of "CHR ''&'' # a @ '';''" r] by simp
  ultimately show ?thesis by (simp add: delimited_def html_next_part_def new_entry_def Let_def)
qed

lemma tag_delimited:
  assumes "CHR ''>'' \<notin> set a" "a = [] \<or> hd a \<noteq> CHR ''!''" shows "delimited (new_entry (CHR ''<'' # a @ ''>'') Html_tag)"
proof -
  have "dropWhile (\<lambda>c. c \<noteq> CHR ''>'') (a @ CHR ''>'' # r) = CHR ''>'' # r" for r by (rule dropWhile_to [OF assms(1)])
  moreover have "str_range (CHR ''<'' # a @ CHR ''>'' # r) r = CHR ''<'' # a @ ''>''" for r using str_range_append [of "CHR ''<'' # a @ ''>''" r] by simp
  moreover have "take 4 (CHR ''<'' # a @ CHR ''>'' # r) \<noteq> ''<!--''" for r using assms(2) by (cases a) auto
  ultimately show ?thesis by (simp add: delimited_def html_next_part_def new_entry_def Let_def)
qed

lemma find_dashes_rest: "find_dashes s = Some (a, b) \<Longrightarrow> find_dashes (a @ ''--'' @ c) = Some (a, c)"
proof (induction s arbitrary: a)
  case (Cons x s)
  show ?case
  proof (cases "x = CHR ''-'' \<and> s \<noteq> [] \<and> hd s = CHR ''-''")
    case True
    then show ?thesis using Cons.prems by auto
  next
    case False
    then obtain a1 where a1: "find_dashes s = Some (a1, b)" "a = x # a1" using Cons.prems by auto
    have "\<not> (x = CHR ''-'' \<and> hd (a1 @ ''--'' @ c) = CHR ''-'')"
    proof (cases a1)
      case Nil
      then show ?thesis using False find_dashes_split [OF a1(1)] by auto
    next
      case (Cons y ys)
      then show ?thesis using False find_dashes_split [OF a1(1)] by auto
    qed
    then show ?thesis using Cons.IH [OF a1(1)] a1(2) by auto
  qed
qed simp

lemma comment_delimited:
  assumes "find_dashes s = Some (a, CHR ''>'' # r)" "\<not> list_ex special a" shows "delimited (new_entry (''<!--'' @ a @ ''-->'') Html_comment)"
proof -
  have "find_dashes (a @ CHR ''-'' # CHR ''-'' # CHR ''>'' # b) = Some (a, CHR ''>'' # b)" for b using find_dashes_rest [OF assms(1), of "CHR ''>'' # b"] by simp
  then show ?thesis using assms(2) by (simp add: delimited_def html_next_part_def new_entry_def Let_def)
qed

lemma invalid_part_ok [simp]: "part_ok (new_entry t Invalid_data)"
  by (simp add: part_ok_def parse_part_def is_invalid_def new_entry_def)

lemma delimited_part_ok: "delimited (new_entry t ty) \<Longrightarrow> shaped ty t \<Longrightarrow> part_ok (new_entry t ty)"
  by (simp add: part_ok_def new_entry_def)

text \<open>A tag that is read has a letter or a slash behind its bracket.\<close>

lemma tag_part_ok:
  assumes "CHR ''>'' \<notin> set a" shows "part_ok (new_entry (CHR ''<'' # a @ ''>'') Html_tag)"
proof (cases "a = [] \<or> hd a \<noteq> CHR ''!''")
  case True
  then show ?thesis using delimited_part_ok [OF tag_delimited [OF assms]] by simp
next
  case False
  have "\<not> ascii_isalpha (CHR ''!'')" by code_simp
  then have "is_invalid (parse_html_tag (new_entry (CHR ''<'' # a @ ''>'') Html_tag))"
    using False by (simp add: parse_html_tag_def new_entry_def is_invalid_def Let_def)
  then show ?thesis by (simp add: part_ok_def parse_part_def new_entry_def)
qed

definition part_of :: "html_entry \<Rightarrow> string \<Rightarrow> string \<Rightarrow> bool" where
  "part_of e s r \<longleftrightarrow> s = en_text e @ r \<and> part_ok e \<and> e = new_entry (en_text e) (en_type e)"

lemma part_ofI: "s = t @ r \<Longrightarrow> part_ok (new_entry t ty) \<Longrightarrow> part_of (new_entry t ty) s r"
  by (simp add: part_of_def new_entry_def)

lemma next_part_entity:
  assumes "s \<noteq> []" "hd s = CHR ''&''" shows "part_of (fst (html_next_part s)) s (snd (html_next_part s))"
proof (cases "dropWhile (\<lambda>c. c \<noteq> CHR '';'') (tl s)")
  case Nil
  then show ?thesis using assms by (simp add: html_next_part_def part_ofI)
next
  case (Cons y r)
  then obtain a where a: "s = hd s # a @ CHR '';'' # r" "CHR '';'' \<notin> set a" using range_split [OF assms(1) Cons] by auto
  have s: "s = (CHR ''&'' # a @ '';'') @ r" using a(1) assms(2) by simp
  have "str_range s r = CHR ''&'' # a @ '';''" unfolding s by (rule str_range_append)
  then have "html_next_part s = (new_entry (CHR ''&'' # a @ '';'') Html_entity, r)" using Cons assms(2) by (simp add: html_next_part_def)
  then show ?thesis using part_ofI [OF s delimited_part_ok [OF entity_delimited [OF a(2)]]] by simp
qed

lemma next_part_tag:
  assumes "s \<noteq> []" "hd s = CHR ''<''" "\<not> (length s > 4 \<and> take 4 s = ''<!--'')"
  shows "part_of (fst (html_next_part s)) s (snd (html_next_part s))"
proof (cases "dropWhile (\<lambda>c. c \<noteq> CHR ''>'') (tl s)")
  case Nil
  then have "html_next_part s = (new_entry s Invalid_data, [])" using assms by (auto simp: html_next_part_def)
  then show ?thesis by (simp add: part_ofI)
next
  case (Cons y r)
  then obtain a where a: "s = hd s # a @ CHR ''>'' # r" "CHR ''>'' \<notin> set a" using range_split [OF assms(1) Cons] by auto
  have s: "s = (CHR ''<'' # a @ ''>'') @ r" using a(1) assms(2) by simp
  have "str_range s r = CHR ''<'' # a @ ''>''" unfolding s by (rule str_range_append)
  then have "html_next_part s = (new_entry (CHR ''<'' # a @ ''>'') Html_tag, r)" using Cons assms(2,3) by (auto simp: html_next_part_def)
  then show ?thesis using part_ofI [OF s tag_part_ok [OF a(2)]] by simp
qed

lemma next_part_comment:
  assumes "hd s = CHR ''<''" "length s > 4 \<and> take 4 s = ''<!--''"
  shows "part_of (fst (html_next_part s)) s (snd (html_next_part s))"
proof (cases "find_dashes (drop 4 s)")
  case None
  then show ?thesis using assms by (simp add: html_next_part_def part_ofI)
next
  case (Some cr)
  obtain c r where cr: "cr = (c, r)" by fastforce
  show ?thesis
  proof (cases "r \<noteq> [] \<and> hd r = CHR ''>''")
    case True
    then obtain r' where r: "r = CHR ''>'' # r'" by (cases r) auto
    have "s = take 4 s @ drop 4 s" by simp
    moreover have "drop 4 s = c @ ''--'' @ r" using find_dashes_split [of "drop 4 s" c r] Some cr by blast
    ultimately have "s = ''<!--'' @ c @ ''--'' @ r" using assms(2) by metis
    then have s: "s = (''<!--'' @ c @ ''-->'') @ r'" using r by simp
    have "html_next_part s = (new_entry (''<!--'' @ c @ ''-->'') (if list_ex special c then Invalid_data else Html_comment), r')"
      using Some cr r assms by (simp add: html_next_part_def)
    moreover have "\<not> list_ex special c \<Longrightarrow> part_ok (new_entry (''<!--'' @ c @ ''-->'') Html_comment)"
      using delimited_part_ok [OF comment_delimited [of "drop 4 s" c r']] Some cr r by simp
    ultimately show ?thesis using part_ofI [OF s invalid_part_ok] part_ofI [OF s, of Html_comment] by (cases "list_ex special c") simp_all
  next
    case False
    then have "html_next_part s = (new_entry s Invalid_data, [])" using Some cr assms by (auto simp: html_next_part_def)
    then show ?thesis by (simp add: part_ofI)
  qed
qed

lemma next_part_of:
  assumes "s \<noteq> []" shows "part_of (fst (html_next_part s)) s (snd (html_next_part s))"
proof -
  consider "hd s = CHR ''&''" | "hd s = CHR ''<''" | (gt) "hd s = CHR ''>''" | (plain) "\<not> special (hd s)" by (auto simp: special_def)
  then show ?thesis
  proof cases
    case gt
    then have "html_next_part s = (new_entry ''>'' Invalid_data, tl s)" by (simp add: html_next_part_def)
    moreover have "s = ''>'' @ tl s" using gt assms by (cases s) auto
    ultimately show ?thesis by (simp only: fst_conv snd_conv part_ofI invalid_part_ok)
  next
    case plain
    let ?t = "hd s # takeWhile (\<lambda>c. \<not> special c) (tl s)"
    have "html_next_part s = (new_entry ?t Plain_text, dropWhile (\<lambda>c. \<not> special c) (tl s))"
      using plain unfolding special_def by (simp add: html_next_part_def special_def)
    moreover have "part_ok (new_entry ?t Plain_text)" using plain by (auto simp: part_ok_def plain_part_def new_entry_def list_all_iff dest: set_takeWhileD)
    moreover have "s = ?t @ dropWhile (\<lambda>c. \<not> special c) (tl s)" using assms by simp
    ultimately show ?thesis by (metis fst_conv snd_conv part_ofI)
  qed (use assms next_part_entity next_part_tag next_part_comment in blast)+
qed

lemma split_part_of:
  "concat (map en_text (split_to_parts s)) = s \<and> (\<forall>e \<in> set (split_to_parts s). part_ok e \<and> e = new_entry (en_text e) (en_type e))"
proof (induction s rule: split_to_parts.induct)
  case (1 s)
  show ?case
  proof (cases "s = []")
    case False
    obtain e r where er: "html_next_part s = (e, r)" by fastforce
    then have "part_of e s r" using next_part_of [OF False] by simp
    moreover have "split_to_parts s = e # split_to_parts r" using False er by (simp add: split_to_parts.simps [of s])
    moreover note 1 [OF False er [symmetric]]
    ultimately show ?thesis unfolding part_of_def by simp
  qed (simp add: split_to_parts.simps)
qed

section \<open>Splitting the output\<close>

text \<open>The parts without the plain ones, which may be joined; a text yields parts when they come out in front of any rest.\<close>

definition np :: "string \<Rightarrow> html_entry list" where
  "np s = filter (\<lambda>e. en_type e \<noteq> Plain_text) (split_to_parts s)"

definition yields :: "string \<Rightarrow> html_entry list \<Rightarrow> bool" where
  "yields t es \<longleftrightarrow> (\<forall>rest. np (t @ rest) = es @ np rest)"

lemma np_Nil [simp]: "np [] = []"
  by (simp add: np_def split_to_parts.simps)

lemma np_step: "s \<noteq> [] \<Longrightarrow> html_next_part s = (e, r) \<Longrightarrow> np s = (if en_type e \<noteq> Plain_text then e # np r else np r)"
  by (simp add: np_def split_to_parts.simps [of s])

lemma yields_np: "yields t es \<Longrightarrow> np t = es"
  by (metis yields_def append_Nil2 np_Nil)

lemma yields_Nil: "yields [] []"
  by (simp add: yields_def)

lemma yields_append: "yields a es \<Longrightarrow> yields b fs \<Longrightarrow> yields (a @ b) (es @ fs)"
  by (simp add: yields_def)

lemma yields_concat: "(\<And>x. x \<in> set xs \<Longrightarrow> yields (f x) (g x)) \<Longrightarrow> yields (concat (map f xs)) (concat (map g xs))"
  by (induction xs) (auto simp: yields_Nil yields_append)

lemma yields_delimited: "delimited e \<Longrightarrow> yields (en_text e) [e]"
  by (simp add: yields_def delimited_def np_step)

lemma yields_char: "\<not> special c \<Longrightarrow> yields [c] []"
proof -
  assume c: "\<not> special c"
  have next_part: "html_next_part (d # s) = (new_entry (d # takeWhile (\<lambda>c. \<not> special c) s) Plain_text, dropWhile (\<lambda>c. \<not> special c) s)"
    if "\<not> special d" for d s using that by (simp add: html_next_part_def special_def)
  have step: "np (d # s) = np (dropWhile (\<lambda>c. \<not> special c) s)" if "\<not> special d" for d s
    using np_step [OF _ next_part [OF that]] by (simp add: new_entry_def)
  have "np (dropWhile (\<lambda>c. \<not> special c) s) = np s" for s
  proof (cases s)
    case (Cons d s')
    then show ?thesis using step [of d s'] by simp
  qed simp
  then show ?thesis using step [OF c] by (simp add: yields_def)
qed

lemma yields_plain: "list_all (\<lambda>c. \<not> special c) t \<Longrightarrow> yields t []"
proof (induction t)
  case (Cons c t)
  then show ?case using yields_append [OF yields_char, of c t "[]"] by simp
qed (rule yields_Nil)

text \<open>What escaping puts in the place of a character.\<close>

definition escape_entities :: "char \<Rightarrow> html_entry list" where
  "escape_entities c = (if special c \<or> c = ch 34 then [new_entry (escape_html c) Html_entity] else [])"

lemma yields_entity: "CHR '';'' \<notin> set a \<Longrightarrow> yields (CHR ''&'' # a @ '';'') [new_entry (CHR ''&'' # a @ '';'') Html_entity]"
  using yields_delimited [OF entity_delimited, of a] by (simp add: new_entry_def)

lemma yields_escape: "yields (escape_html c) (escape_entities c)"
proof -
  have e: "yields ''&lt;'' [new_entry ''&lt;'' Html_entity]" "yields ''&gt;'' [new_entry ''&gt;'' Html_entity]"
    "yields ''&amp;'' [new_entry ''&amp;'' Html_entity]" "yields ''&quot;'' [new_entry ''&quot;'' Html_entity]"
    using yields_entity [of "''lt''"] yields_entity [of "''gt''"] yields_entity [of "''amp''"] yields_entity [of "''quot''"] by simp_all
  consider "c = CHR ''<''" | "c = CHR ''>''" | "c = CHR ''&''" | "c = ch 34" | (other) "\<not> special c" "c \<noteq> ch 34" by (auto simp: special_def)
  then show ?thesis
  proof cases
    case other
    then have "escape_html c = [c]" by (simp add: escape_html_def special_def)
    then show ?thesis using other yields_char by (simp add: escape_entities_def)
  qed (use e in \<open>simp_all add: escape_html_def escape_entities_def special_def ch_def\<close>)
qed

lemma escape_entity_valid:
  assumes "rules_wf r" "e \<in> set (escape_entities c)"
  shows "V r (parse_part e)" "en_type (parse_part e) = Html_entity"
proof -
  have "\<exists>n \<in> set [''lt'', ''gt'', ''amp'', ''quot'']. e = new_entry (CHR ''&'' # n @ '';'') Html_entity"
    using assms(2) by (auto simp: escape_entities_def escape_html_def special_def split: if_splits)
  then obtain n where n: "n \<in> set [''lt'', ''gt'', ''amp'', ''quot'']" "e = new_entry (CHR ''&'' # n @ '';'') Html_entity" by blast
  have "n \<noteq> [] \<and> hd n \<noteq> CHR ''#'' \<and> list_all ascii_isalnum n"
  proof -
    have "list_all (\<lambda>n. n \<noteq> [] \<and> hd n \<noteq> CHR ''#'' \<and> list_all ascii_isalnum n) [''lt'', ''gt'', ''amp'', ''quot'']" by code_simp
    then show ?thesis using n(1) unfolding list_all_iff by blast
  qed
  then have p: "parse_part e = e\<lparr>en_name := n\<rparr>" "en_type e = Html_entity"
    using n(2) by (simp_all add: parse_part_def parse_html_entity_def new_entry_def Let_def)
  then show "en_type (parse_part e) = Html_entity" by simp
  have "valid_entity (impl r) n" using assms(1) n(1) unfolding rules_wf_def impl_def list_all_iff by (cases "is_xhtml r") auto
  then show "V r (parse_part e)" using p by (simp add: validate_entry_by_rules_def)
qed

section \<open>The output is valid\<close>

definition is_tag :: "html_entry \<Rightarrow> bool" where
  "is_tag e \<longleftrightarrow> en_type e = Open_tag \<or> en_type e = Close_tag"

lemma fin_other:
  fixes r :: rules
  assumes "nest_ok k p st" "k \<le> j" "j < length p" "\<not> is_tag (p ! j)"
  shows "fin (is_xhtml r) k (p, st) ! j = p ! j"
  using assms
proof (induction "j - k" arbitrary: k p st)
  case 0
  then have k: "k < length p" "k = j" by auto
  have "nest_step (is_xhtml r) k (p, st) = (p, st)" using 0(5) k(2) by (cases "en_type (p ! k)"; simp add: nest_step_def is_tag_def)
  then have "fin (is_xhtml r) k (p, st) = fin (is_xhtml r) (Suc k) (p, st)" using fin_step [of k "(p, st)" "is_xhtml r"] k by simp
  moreover have "nest_ok (Suc k) p st" "k \<notin> set st" using 0(2) by (auto simp: nest_ok_def)
  ultimately show ?case using fin_frame [of "Suc k" p st k r] k by simp
next
  case (Suc m)
  then have k: "k < length p" "Suc k \<le> j" by linarith+
  obtain p1 st1 where s: "nest_step (is_xhtml r) k (p, st) = (p1, st1)" by (cases "nest_step (is_xhtml r) k (p, st)")
  note n = nest_step_nth [OF Suc.prems(1) k(1) s]
  have "drop (Suc k) p1 ! (j - Suc k) = drop (Suc k) p ! (j - Suc k)" using n(4) by simp
  then have p1: "p1 ! j = p ! j" using k n(3) by simp
  have "fin (is_xhtml r) k (p, st) = fin (is_xhtml r) (Suc k) (p1, st1)" using fin_step [of k "(p, st)" "is_xhtml r"] k s by simp
  moreover have "m = j - Suc k" using Suc.hyps(2) by simp
  from Suc.hyps(1) [OF this n(2) k(2)] have "fin (is_xhtml r) (Suc k) (p1, st1) ! j = p1 ! j" using p1 n(3) Suc.prems(3,4) by simp
  ultimately show ?case using p1 by simp
qed

text \<open>The lists that the filter works on: the parts, the parsed entries, and their marks.\<close>

definition parsed_parts :: "string \<Rightarrow> html_entry list" where
  "parsed_parts s = map parse_part (split_to_parts s)"

definition nested_parts :: "rules \<Rightarrow> string \<Rightarrow> html_entry list" where
  "nested_parts r s = validate_nesting (parsed_parts s) (is_xhtml r)"

lemma length_parts [simp]: "length (parsed_parts s) = length (split_to_parts s)" "length (nested_parts r s) = length (split_to_parts s)"
  by (simp_all add: nested_parts_def parsed_parts_def validate_nesting_fin)

lemma parsed_pair: "j < length (split_to_parts s) \<Longrightarrow> en_pair (parsed_parts s ! j) = -1"
proof -
  assume "j < length (split_to_parts s)"
  moreover from this have "split_to_parts s ! j = new_entry (en_text (split_to_parts s ! j)) (en_type (split_to_parts s ! j))"
    using split_part_of [of s] by (meson nth_mem)
  ultimately show ?thesis by (metis parsed_parts_def nth_map parse_part_keeps(2) new_entry_def html_entry.select_convs(4))
qed

lemma parts_sim: "sim r (parsed_parts s) (nested_parts r s) 0 (parsed_parts s) [] []"
  by (simp add: sim_def nest_ok_def nested_parts_def validate_nesting_fin extends_Nil)

lemma parts_pairs: "pairs_ok (length (nested_parts r s)) (nested_parts r s) []"
  using fin_pairs [of 0 "parsed_parts s" "[]" r] parsed_pair [of _ s]
  by (simp add: nested_parts_def validate_nesting_fin pairs_ok_def nest_ok_def)

lemma nested_other: "j < length (split_to_parts s) \<Longrightarrow> \<not> is_tag (parsed_parts s ! j) \<Longrightarrow> nested_parts r s ! j = parsed_parts s ! j"
  using fin_other [of 0 "parsed_parts s" "[]" j r] by (simp add: nested_parts_def validate_nesting_fin nest_ok_def)

lemma nested_text: "j < length (split_to_parts s) \<Longrightarrow> en_text (nested_parts r s ! j) = en_text (split_to_parts s ! j)"
  using fin_frame [of 0 "parsed_parts s" "[]" j r] by (simp add: nested_parts_def validate_nesting_fin nest_ok_def parsed_parts_def)

text \<open>What is put out for an entry.\<close>

definition left_parts :: "rules \<Rightarrow> filtering_method_type \<Rightarrow> string \<Rightarrow> nat \<Rightarrow> html_entry list" where
  "left_parts r meth s j =
     (let e = split_to_parts s ! j in
      if survives r (nested_parts r s) j then (if en_type e = Plain_text then [] else [e])
      else (case meth of Remove_invalid \<Rightarrow> [] | Escape_invalid \<Rightarrow> concat (map escape_entities (en_text e))))"

lemma survivor_valid:
  assumes "survives r (nested_parts r s) j" "j < length (split_to_parts s)"
  shows "\<not> is_invalid (parse_part (split_to_parts s ! j))"
proof
  assume "is_invalid (parse_part (split_to_parts s ! j))"
  then have i: "en_type (parsed_parts s ! j) = Invalid_data" using assms(2) by (simp add: parsed_parts_def is_invalid_def)
  then have "nested_parts r s ! j = parsed_parts s ! j" using nested_other [OF assms(2)] by (simp add: is_tag_def)
  then show False using survives_V [OF assms(1)] i by simp
qed

lemma filtered_part_yields:
  assumes j: "j < length (split_to_parts s)"
    and q: "q = (if \<not> survives r (nested_parts r s) j then (nested_parts r s ! j)\<lparr>en_type := Invalid_data\<rparr> else nested_parts r s ! j)"
  shows "yields (filtered_part meth q) (left_parts r meth s j)"
proof (cases "survives r (nested_parts r s) j")
  case True
  have "\<not> is_invalid q" using survives_V [OF True] q True by (auto simp: is_invalid_def)
  then have t: "filtered_part meth q = en_text (split_to_parts s ! j)" using nested_text [OF j, of r] q True by (simp add: filtered_part_def)
  have "part_ok (split_to_parts s ! j)" using split_part_of [of s] j by simp
  then consider "plain_part (split_to_parts s ! j)" | "delimited (split_to_parts s ! j)" using survivor_valid [OF True j] by (auto simp: part_ok_def)
  then show ?thesis
  proof cases
    case 1
    then show ?thesis using yields_plain t True by (simp add: left_parts_def plain_part_def Let_def)
  next
    case 2
    then show ?thesis using yields_delimited [OF 2] t True by (simp add: left_parts_def delimited_def Let_def)
  qed
next
  case False
  then have t: "filtered_part meth q = (case meth of Remove_invalid \<Rightarrow> [] | Escape_invalid \<Rightarrow> concat (map escape_html (en_text (split_to_parts s ! j))))"
    using nested_text [OF j, of r] q by (simp add: filtered_part_def is_invalid_def split: filtering_method_type.split)
  show ?thesis using False yields_Nil yields_concat [of _ escape_html escape_entities] yields_escape
    unfolding t by (cases meth) (simp_all add: left_parts_def Let_def)
qed

lemma filter_parts_np: "np (snd (filter_parts r meth s)) = concat (map (left_parts r meth s) [0..<length (split_to_parts s)])"
proof -
  let ?n = "length (split_to_parts s)" let ?f = "nested_parts r s"
  define w where "w = (\<not> list_ex is_invalid (split_to_parts s) \<and> \<not> list_ex is_invalid (parsed_parts s) \<and> \<not> list_ex is_invalid ?f)"
  define g where "g = snd (fold (rule_step r) [0..<?n] (w, ?f))"
  have out: "snd (filter_parts r meth s) = concat (map (filtered_part meth) g)"
    by (simp add: filter_parts_def g_def w_def Let_def case_prod_unfold nested_parts_def [symmetric] parsed_parts_def [symmetric])
  have m: "marked (\<lambda>j. \<not> survives r ?f j) ?f g" using rule_loop(1) [OF parts_pairs, of r r s w] by (simp add: g_def)
  then have len: "length g = ?n" by (simp add: marked_def)
  have "yields (filtered_part meth (g ! j)) (left_parts r meth s j)" if "j < ?n" for j
    using filtered_part_yields [OF that, of "g ! j" r meth] m that by (simp add: marked_def)
  then have "yields (concat (map (\<lambda>j. filtered_part meth (g ! j)) [0..<?n])) (concat (map (left_parts r meth s) [0..<?n]))"
    by (intro yields_concat) simp
  moreover have "map (\<lambda>j. filtered_part meth (g ! j)) [0..<?n] = map (filtered_part meth) g"
    using len by (auto intro: nth_equalityI)
  ultimately show ?thesis using yields_np out by simp
qed

lemma survivor_other:
  "survives r (nested_parts r s) j \<Longrightarrow> j < length (split_to_parts s) \<Longrightarrow> \<not> is_tag (parsed_parts s ! j) \<Longrightarrow> V r (parsed_parts s ! j)"
  using nested_other [of j s r] survives_V [of r "nested_parts r s" j] by simp

lemma left_parts_other:
  assumes "rules_wf r" "j < length (split_to_parts s)" "e \<in> set (left_parts r meth s j)" "\<not> is_tag (parse_part e)"
  shows "V r (parse_part e)"
proof (cases "survives r (nested_parts r s) j")
  case True
  then have "e = split_to_parts s ! j" using assms(3) by (auto simp: left_parts_def Let_def split: if_splits)
  then show ?thesis using survivor_other [OF True assms(2)] assms(2,4) by (simp add: parsed_parts_def)
next
  case False
  then obtain c where "e \<in> set (escape_entities c)"
    using assms(3) by (auto simp: left_parts_def Let_def split: filtering_method_type.splits)
  then show ?thesis using escape_entity_valid(1) [OF assms(1)] by blast
qed

lemma left_parts_tags:
  assumes "rules_wf r" "j < length (split_to_parts s)"
  shows "filter is_tag (map parse_part (left_parts r meth s j)) = (if survives r (nested_parts r s) j then filter is_tag [parsed_parts s ! j] else [])"
proof (cases "survives r (nested_parts r s) j")
  case True
  then show ?thesis using assms(2) parse_part_plain [of "split_to_parts s ! j"]
    by (auto simp: left_parts_def Let_def parsed_parts_def is_tag_def)
next
  case False
  have "\<not> is_tag (parse_part e)" if e: "e \<in> set (left_parts r meth s j)" for e
  proof -
    obtain c where "e \<in> set (escape_entities c)"
      using False e by (auto simp: left_parts_def Let_def split: filtering_method_type.splits)
    then show ?thesis using escape_entity_valid(2) [OF assms(1)] by (simp add: is_tag_def)
  qed
  then show ?thesis using False by (auto simp: filter_empty_conv)
qed

lemma filter_output_accepts:
  assumes "rules_wf r"
  shows "accepts r (parsed_parts (snd (filter_parts r meth s))) []"
proof -
  let ?n = "length (split_to_parts s)" let ?l = "left_parts r meth s" let ?out = "snd (filter_parts r meth s)"
  have other: "V r e \<and> en_type e \<noteq> Open_tag \<and> en_type e \<noteq> Close_tag" if "e \<in> set (parsed_parts ?out)" "\<not> is_tag e" for e
  proof -
    obtain d where d: "d \<in> set (split_to_parts ?out)" "e = parse_part d" using \<open>e \<in> _\<close> by (auto simp: parsed_parts_def)
    have "V r e"
    proof (cases "en_type d = Plain_text")
      case True
      then show ?thesis using d(2) parse_part_plain [of d] by (simp add: validate_entry_by_rules_def)
    next
      case False
      then have "d \<in> set (np ?out)" using d(1) by (simp add: np_def)
      then obtain j where "j < ?n" "d \<in> set (?l j)" by (auto simp: filter_parts_np)
      then show ?thesis using left_parts_other [OF assms] d(2) \<open>\<not> is_tag e\<close> by blast
    qed
    then show ?thesis using \<open>\<not> is_tag e\<close> by (simp add: is_tag_def)
  qed
  have "filter is_tag (parsed_parts ?out) = filter is_tag (map parse_part (np ?out))"
  proof -
    have "filter is_tag (map parse_part es) = filter is_tag (map parse_part (filter (\<lambda>e. en_type e \<noteq> Plain_text) es))" for es
    proof (induction es)
      case (Cons e es)
      have "en_type e = Plain_text \<Longrightarrow> \<not> is_tag (parse_part e)" using parse_part_plain [of e] by (simp add: is_tag_def)
      then show ?case using Cons by simp
    qed simp
    then show ?thesis by (simp add: parsed_parts_def np_def)
  qed
  also have "\<dots> = concat (map (\<lambda>j. filter is_tag (map parse_part (?l j))) [0..<?n])"
    by (simp add: filter_parts_np map_concat filter_concat comp_def)
  also have "\<dots> = concat (map (\<lambda>j. if survives r (nested_parts r s) j then filter is_tag [parsed_parts s ! j] else []) [0..<?n])"
    using left_parts_tags [OF assms] by (intro arg_cong [of _ _ concat] map_cong) auto
  also have "\<dots> = filter is_tag (rest r (parsed_parts s) (nested_parts r s) 0)"
  proof -
    have "concat (map (\<lambda>j. if S j then filter is_tag [f j] else []) js) = filter is_tag (map f (filter S js))" for S f and js :: "nat list"
      by (induction js) auto
    then show ?thesis by (simp add: rest_def)
  qed
  finally have tags: "filter is_tag (parsed_parts ?out) = filter is_tag (rest r (parsed_parts s) (nested_parts r s) 0)" .
  have "accepts r (rest r (parsed_parts s) (nested_parts r s) 0) []" using sim_accepts [OF parts_sim assms] .
  moreover have "V r e \<and> en_type e \<noteq> Open_tag \<and> en_type e \<noteq> Close_tag"
    if "e \<in> set (rest r (parsed_parts s) (nested_parts r s) 0)" "\<not> is_tag e" for e
    using that survivor_other [of r s] by (auto simp: rest_def is_tag_def)
  ultimately show ?thesis using accepts_filter [of "parsed_parts ?out" is_tag r "[]"] other tags
      accepts_filter [of "rest r (parsed_parts s) (nested_parts r s) 0" is_tag r "[]"] by simp
qed

lemma filter_parts_valid: "fst (filter_parts r meth s) = validate_parts r s"
proof -
  let ?w = "\<not> list_ex is_invalid (split_to_parts s) \<and> \<not> list_ex is_invalid (parsed_parts s) \<and> \<not> list_ex is_invalid (nested_parts r s)"
  have "fst (filter_parts r meth s) = fst (fold (rule_step r) [0..<length (nested_parts r s)] (?w, nested_parts r s))"
    by (simp add: filter_parts_def Let_def case_prod_unfold nested_parts_def [symmetric] parsed_parts_def [symmetric])
  also have "\<dots> = (?w \<and> list_all (V r) (nested_parts r s))" by (rule rule_loop(2) [OF parts_pairs])
  finally show ?thesis by (auto simp: validate_parts_def Let_def nested_parts_def parsed_parts_def)
qed

text \<open>The rules that the setters build are well formed.\<close>

lemma rules_wf_new: "rules_wf rules_new"
  by code_simp

lemma rules_wf_setters:
  assumes "rules_wf r"
  shows "rules_wf (add_tag n ty r)" "rules_wf (add_entity n r)" "rules_wf (add_property n m v r)" "rules_wf (add_boolean_property n m r)"
    "rules_wf (rules_html x r)" "rules_wf (r\<lparr>comments_allowed := x\<rparr>)" "rules_wf (r\<lparr>numeric_entities_allowed := x\<rparr>)" "rules_wf (r\<lparr>rules_encoding := enc\<rparr>)"
  using assms by (simp_all add: rules_wf_def add_tag_def add_entity_def add_property_def add_boolean_property_def rules_html_def change_impl_def
      holder_add_tag_def holder_add_entity_def holder_add_property_def valid_entity_def Let_def)



end
