(* ===== verification/Xss_Grammar.thy ===== *)
theory Xss_Grammar
  imports Xss_Safe
begin

text \<open>
  What a validated text may contain, as a grammar that knows nothing of parts and stacks: text without special characters, known
  entities, comments, and tags and attributes of the rules only.  A text that passes the validator is in it, and so is everything
  that the filter puts out.
\<close>

section \<open>The grammar\<close>

definition value_text :: "string \<Rightarrow> bool" where
  "value_text v \<longleftrightarrow> CHR ''<'' \<notin> set v \<and> CHR ''>'' \<notin> set v
     \<and> (\<forall>a b. v = a @ CHR ''&'' # b \<longrightarrow> (\<exists>e \<in> set value_entities. prefix e b))"

definition attr_name :: "string \<Rightarrow> bool" where
  "attr_name n \<longleftrightarrow> n \<noteq> [] \<and> ascii_isalpha (hd n) \<and> list_all ascii_isalnum n"

definition tag_name :: "string \<Rightarrow> bool" where
  "tag_name n \<longleftrightarrow> n \<noteq> [] \<and> ascii_isalpha (hd n) \<and> list_all ascii_isalnum (tl n)"

text \<open>Attributes: a text and what it says.  The first argument is whether a space is in front of it.\<close>

inductive attr_text :: "bool \<Rightarrow> string \<Rightarrow> (string \<times> string option) list \<Rightarrow> bool" where
  attr_end: "attr_text b [] []"
| attr_space: "ascii_isspace c \<Longrightarrow> attr_text True s ps \<Longrightarrow> attr_text b (c # s) ps"
| attr_bool: "attr_name n \<Longrightarrow> ascii_isspace c \<Longrightarrow> attr_text True s ps \<Longrightarrow> attr_text True (n @ c # s) ((n, None) # ps)"
| attr_value: "attr_name n \<Longrightarrow> q = ch 39 \<or> q = ch 34 \<Longrightarrow> q \<notin> set v \<Longrightarrow> value_text v \<Longrightarrow> attr_text False s ps
    \<Longrightarrow> attr_text True (n @ CHR ''='' # q # v @ q # s) ((n, Some v) # ps)"

definition attrs_allowed :: "rules \<Rightarrow> string \<Rightarrow> (string \<times> string option) list \<Rightarrow> bool" where
  "attrs_allowed r n ps \<longleftrightarrow> distinct (map (\<lambda>p. name_key (is_xhtml r) (fst p)) ps)
     \<and> (\<forall>(m, v) \<in> set ps. case v of
          None \<Rightarrow> holder_valid_boolean_property (impl r) n m
        | Some x \<Rightarrow> holder_valid_property (impl r) n m x)"

inductive safe_html :: "rules \<Rightarrow> string \<Rightarrow> bool" for r where
  safe_end: "safe_html r []"
| safe_char: "\<not> special c \<Longrightarrow> safe_html r s \<Longrightarrow> safe_html r (c # s)"
| safe_entity: "n \<noteq> [] \<Longrightarrow> list_all ascii_isalnum n \<Longrightarrow> valid_entity (impl r) n \<Longrightarrow> safe_html r s \<Longrightarrow> safe_html r (CHR ''&'' # n @ CHR '';'' # s)"
| safe_numeric: "numeric_entities_allowed r \<Longrightarrow> x = [] \<and> list_all ascii_isdigit n \<or> x \<in> {''x'', ''X''} \<and> list_all ascii_isxdigit n \<Longrightarrow> n \<noteq> []
    \<Longrightarrow> \<not> bad_code_point (strtol_digits (if x = [] then 10 else 16) n) \<Longrightarrow> safe_html r s \<Longrightarrow> safe_html r (''&#'' @ x @ n @ CHR '';'' # s)"
| safe_comment: "comments_allowed r \<Longrightarrow> \<not> list_ex special a \<Longrightarrow> safe_html r s \<Longrightarrow> safe_html r (''<!--'' @ a @ ''-->'' @ s)"
| safe_close: "tag_name n \<Longrightarrow> holder_valid_tag (impl r) n \<in> {Opening_and_closing, Any_tag} \<Longrightarrow> list_all ascii_isspace w \<Longrightarrow> safe_html r s
    \<Longrightarrow> safe_html r (''</'' @ n @ w @ CHR ''>'' # s)"
| safe_tag: "tag_name n \<Longrightarrow> holder_valid_tag (impl r) n \<noteq> Invalid_tag \<Longrightarrow> attr_text True a ps \<Longrightarrow> attrs_allowed r n ps \<Longrightarrow> x \<in> {[], ''/''}
    \<Longrightarrow> safe_html r s \<Longrightarrow> safe_html r (CHR ''<'' # n @ a @ x @ CHR ''>'' # s)"

section \<open>Attributes\<close>

lemma amp_notin_entities: "e \<in> set value_entities \<Longrightarrow> list_all (\<lambda>c. c \<notin> set ''<>&'') e"
proof -
  have "list_all (\<lambda>e. list_all (\<lambda>c. c \<notin> set ''<>&'') e) value_entities" by code_simp
  then show "e \<in> set value_entities \<Longrightarrow> list_all (\<lambda>c. c \<notin> set ''<>&'') e" unfolding list_all_iff by blast
qed

lemma value_text_entity:
  assumes "e \<in> set value_entities" "value_text s" shows "value_text (CHR ''&'' # e @ s)"
proof -
  have e: "CHR ''<'' \<notin> set e" "CHR ''>'' \<notin> set e" "CHR ''&'' \<notin> set e" using amp_notin_entities [OF assms(1)] by (auto simp: list_all_iff)
  have "\<exists>f \<in> set value_entities. prefix f b" if split: "CHR ''&'' # e @ s = a @ CHR ''&'' # b" for a b
  proof (cases a)
    case Nil
    then show ?thesis using split assms(1) by (intro bexI [of _ e]) auto
  next
    case (Cons x a')
    then have "e @ s = a' @ CHR ''&'' # b" using split by simp
    then consider us where "e @ us = a'" "s = us @ CHR ''&'' # b" | us where "e = a' @ us" "us @ s = CHR ''&'' # b"
      by (auto simp: append_eq_append_conv2)
    then show ?thesis
    proof cases
      case 1
      then show ?thesis using assms(2) by (auto simp: value_text_def)
    next
      case 2
      then have "us = []" using e(3) by (cases us) auto
      then show ?thesis using 2 assms(2) unfolding value_text_def by (metis append_Nil)
    qed
  qed
  then show ?thesis using assms(2) e by (auto simp: value_text_def)
qed

lemma value_text_char: "c \<notin> set ''<>&'' \<Longrightarrow> value_text s \<Longrightarrow> value_text (c # s)"
  unfolding value_text_def by (auto simp: Cons_eq_append_conv)

lemma validate_property_value_text: "validate_property_value s \<Longrightarrow> value_text s"
proof (induction s rule: validate_property_value.induct)
  case (1 s)
  show ?case
  proof (cases s)
    case Nil
    then show ?thesis by (simp add: value_text_def)
  next
    case (Cons c t)
    have "validate_property_value (c # t)" using 1(3) Cons by simp
    note v = this [unfolded validate_property_value.simps [of "c # t"]]
    show ?thesis
    proof (cases "c = CHR ''&''")
      case True
      with v obtain e where e: "find (\<lambda>e. prefix e t) value_entities = Some e" "validate_property_value (drop (length e) t)"
        by (auto split: option.splits)
      then have "e \<in> set value_entities" "prefix e t" by (auto simp: find_Some_iff)
      then obtain u where u: "t = e @ u" by (auto simp: prefix_def)
      have "value_text u" using 1(1) [of e] e Cons True u by simp
      then show ?thesis using value_text_entity [OF \<open>e \<in> _\<close>] Cons True u by simp
    next
      case False
      then have "c \<notin> set ''<>&''" "validate_property_value t" using v by (auto split: if_splits)
      then show ?thesis using 1(2) Cons False value_text_char by auto
    qed
  qed
qed

text \<open>One round of the loop.\<close>

lemma parse_properties_round:
  assumes "parse_properties s b props = (True, out)" "s \<noteq> []" "\<not> ascii_isspace (hd s)" "n = takeWhile ascii_isalnum s" "t = dropWhile ascii_isalnum s"
  shows "b \<and> ascii_isalpha (hd s) \<and> t \<noteq> [] \<and>
    (ascii_isspace (hd t) \<and> parse_properties (tl t) b (props @ [(n, None)]) = (True, out)
     \<or> \<not> ascii_isspace (hd t) \<and> (\<exists>q v r. t = CHR ''='' # q # v @ q # r \<and> (q = ch 39 \<or> q = ch 34) \<and> q \<notin> set v \<and> validate_property_value v
          \<and> parse_properties r False (props @ [(n, Some v)]) = (True, out)))"
proof -
  note p = assms(1) [unfolded parse_properties.simps [of s] Let_def, folded assms(4,5)]
  have h: "b" "ascii_isalpha (hd s)" "t \<noteq> []" using p assms(2,3) by (simp_all split: if_splits)
  show ?thesis
  proof (cases "ascii_isspace (hd t)")
    case True
    then show ?thesis using p h assms(2,3) by simp
  next
    case False
    define q where "q = hd (tl t)"
    define v where "v = takeWhile (\<lambda>c. c \<noteq> q) (tl (tl t))"
    define r2 where "r2 = dropWhile (\<lambda>c. c \<noteq> q) (tl (tl t))"
    have ok: "hd t = CHR ''=''" "tl t \<noteq> []" "q = ch 39 \<or> q = ch 34" "r2 \<noteq> []" "validate_property_value v" "parse_properties (tl r2) False (props @ [(n, Some v)]) = (True, out)"
      using p [folded q_def, folded v_def r2_def] False h assms(2,3) by (auto split: if_splits)
    have "hd r2 = q" using ok(4) hd_dropWhile [of "\<lambda>c. c \<noteq> q" "tl (tl t)"] by (auto simp: r2_def)
    moreover have "tl (tl t) = v @ r2" by (simp add: v_def r2_def)
    ultimately have "t = CHR ''='' # q # v @ q # tl r2" using h(3) ok(1,2,4) q_def by (metis list.collapse)
    moreover have "q \<notin> set v" unfolding v_def using set_takeWhileD by fastforce
    ultimately show ?thesis using h ok False by blast
  qed
qed

lemma parse_properties_text: "parse_properties s b props = (True, out) \<Longrightarrow> \<exists>ps. out = props @ ps \<and> attr_text b s ps"
proof (induction s arbitrary: b props rule: length_induct)
  case (1 s)
  define n where "n = takeWhile ascii_isalnum s"
  define t where "t = dropWhile ascii_isalnum s"
  have s: "s = n @ t" by (simp add: n_def t_def)
  have IH: "length u < length s \<Longrightarrow> parse_properties u c qs = (True, out) \<Longrightarrow> \<exists>ps. out = qs @ ps \<and> attr_text c u ps" for u c qs using 1(1) by blast
  consider (stop) "s = []" | (space) "s \<noteq> []" "ascii_isspace (hd s)" | (attr) "s \<noteq> []" "\<not> ascii_isspace (hd s)" by blast
  then show ?case
  proof cases
    case stop
    then show ?thesis using 1(2) by (simp add: parse_properties.simps [of "[]"] attr_end)
  next
    case space
    then have "parse_properties (tl s) True props = (True, out)" using 1(2) by (simp add: parse_properties.simps [of s])
    then obtain ps where "out = props @ ps" "attr_text True (tl s) ps" using IH [of "tl s" True props] space by auto
    then show ?thesis using space attr_space [of "hd s" "tl s" ps b] by auto
  next
    case attr
    note r = parse_properties_round [OF 1(2) attr n_def t_def]
    then have "b" "ascii_isalpha (hd s)" by blast+
    have "ascii_isspace (hd t) \<or> hd t = CHR ''=''" using r by (metis list.sel(1))
    have "\<not> ascii_isalpha (CHR ''='')" by code_simp
    then have "n \<noteq> []" using attr(2) s \<open>ascii_isalpha (hd s)\<close> \<open>ascii_isspace (hd t) \<or> hd t = CHR ''=''\<close> by (metis append_Nil)
    moreover have "hd n = hd s" using s \<open>n \<noteq> []\<close> by (metis hd_append2)
    moreover have "list_all ascii_isalnum n" unfolding n_def list_all_iff using set_takeWhileD by fast
    ultimately have name: "attr_name n" using \<open>ascii_isalpha (hd s)\<close> by (simp add: attr_name_def)
    from r consider (bool) "ascii_isspace (hd t)" "t \<noteq> []" "parse_properties (tl t) b (props @ [(n, None)]) = (True, out)"
      | (val) q v u where "t = CHR ''='' # q # v @ q # u" "q = ch 39 \<or> q = ch 34" "q \<notin> set v" "validate_property_value v"
          "parse_properties u False (props @ [(n, Some v)]) = (True, out)" by blast
    then show ?thesis
    proof cases
      case bool
      have len: "length (tl t) < length s" using bool(2) by (subst s) (cases t; simp)
      with bool obtain ps where "out = props @ (n, None) # ps" "attr_text True (tl t) ps" using IH [of "tl t" b "props @ [(n, None)]"] \<open>b\<close> len by auto
      then show ?thesis using attr_bool [OF name bool(1), of "tl t" ps] s bool(2) \<open>b\<close> by simp
    next
      case val
      have "length u < length s" using s val(1) by simp
      from IH [OF this val(5)] obtain ps where "out = props @ (n, Some v) # ps" "attr_text False u ps" by auto
      then show ?thesis using attr_value [OF name val(2,3) validate_property_value_text [OF val(4)]] s val(1) \<open>b\<close> by simp
    qed
  qed
qed

lemma validate_properties_allowed: "validate_properties r n found ps \<Longrightarrow>
    distinct (map (\<lambda>p. name_key (is_xhtml r) (fst p)) ps) \<and> set found \<inter> (\<lambda>p. name_key (is_xhtml r) (fst p)) ` set ps = {}
    \<and> (\<forall>(m, v) \<in> set ps. case v of
          None \<Rightarrow> holder_valid_boolean_property (impl r) n m
        | Some x \<Rightarrow> holder_valid_property (impl r) n m x)"
proof (induction r n found ps rule: validate_properties.induct)
  case (2 r n found m v ps)
  have ok: "name_key (is_xhtml r) m \<notin> set found" "case v of None \<Rightarrow> holder_valid_boolean_property (impl r) n m | Some x \<Rightarrow> holder_valid_property (impl r) n m x"
    "validate_properties r n (name_key (is_xhtml r) m # found) ps" using 2(2) by (auto split: if_splits)
  show ?case using 2(1) [OF ok] ok(1,2) by auto
qed simp

section \<open>Validated texts\<close>

lemma pop_to_ok: "pop_to r c st = Some st' \<Longrightarrow> \<forall>e \<in> set st'. ok_open r e \<or> ok_single r e \<Longrightarrow> \<forall>e \<in> set st. ok_open r e \<or> ok_single r e"
  by (induction st) (auto split: if_splits)

lemma accepts_each:
  "accepts r es st \<Longrightarrow> (\<forall>e \<in> set st. ok_open r e \<or> ok_single r e)
     \<and> (\<forall>e \<in> set es. if en_type e = Open_tag then ok_open r e \<or> ok_single r e else V r e)"
proof (induction es arbitrary: st)
  case Nil
  then show ?case by (auto split: if_splits simp: list_all_iff)
next
  case (Cons e es)
  consider (opn) "en_type e = Open_tag" | (other) "en_type e \<noteq> Open_tag" "en_type e \<noteq> Close_tag"
    | (xhtml) "en_type e = Close_tag" "is_xhtml r" | (html) "en_type e = Close_tag" "\<not> is_xhtml r" by blast
  then show ?case
  proof cases
    case opn
    then show ?thesis using Cons.IH [of "e # st"] Cons.prems by simp
  next
    case other
    then show ?thesis using Cons.IH [of st] Cons.prems by simp
  next
    case xhtml
    then obtain t st' where "st = t # st'" "ok_open r t" "accepts r es st'" "V r e" using Cons.prems by (cases st) simp_all
    then show ?thesis using Cons.IH [of st'] xhtml by simp
  next
    case html
    then obtain st' where st': "pop_to r e st = Some st'" "accepts r es st'" "V r e" using Cons.prems by (cases "pop_to r e st") simp_all
    show ?thesis using Cons.IH [OF st'(2)] pop_to_ok [OF st'(1)] st'(3) html by simp
  qed
qed

definition safe_piece :: "rules \<Rightarrow> string \<Rightarrow> bool" where
  "safe_piece r t \<longleftrightarrow> (\<forall>s. safe_html r s \<longrightarrow> safe_html r (t @ s))"

lemma safe_pieces: "(\<And>t. t \<in> set ts \<Longrightarrow> safe_piece r t) \<Longrightarrow> safe_html r (concat ts)"
  by (induction ts) (auto simp: safe_piece_def safe_end)

lemma safe_plain: "list_all (\<lambda>c. \<not> special c) t \<Longrightarrow> safe_piece r t"
  unfolding safe_piece_def by (induction t) (auto intro: safe_char)

definition entry_ok :: "rules \<Rightarrow> html_entry \<Rightarrow> bool" where
  "entry_ok r e \<longleftrightarrow> (if en_type e = Open_tag then ok_open r e \<or> ok_single r e else V r e)"

lemma entity_piece:
  assumes "entry_ok r (parse_part (new_entry (CHR ''&'' # a @ '';'') Html_entity))" shows "safe_piece r (CHR ''&'' # a @ '';'')"
proof -
  let ?p = "parse_html_entity (new_entry (CHR ''&'' # a @ '';'') Html_entity)"
  have v: "V r ?p" using assms parse_html_entity_keeps [of "new_entry (CHR ''&'' # a @ '';'') Html_entity"]
    by (auto simp: entry_ok_def parse_part_def new_entry_def parse_html_entity_def Let_def split: if_splits)
  have "a \<noteq> []" using v by (auto simp: parse_html_entity_def new_entry_def)
  then obtain c b where a: "a = c # b" by (cases a) auto
  show ?thesis
  proof (cases "c = CHR ''#''")
    case False
    then have p: "list_all ascii_isalnum a" "?p = (new_entry (CHR ''&'' # a @ '';'') Html_entity)\<lparr>en_name := a\<rparr>"
      using v a by (auto simp: parse_html_entity_def new_entry_def split: if_splits)
    then have "valid_entity (impl r) a" using v by (simp add: validate_entry_by_rules_def new_entry_def)
    then show ?thesis using safe_entity [of a r] p(1) a by (simp add: safe_piece_def)
  next
    case True
    have "en_type ?p = Html_numeric_entity" using v a True by (auto simp: parse_html_entity_def new_entry_def Let_def split: if_splits)
    then have num: "numeric_entities_allowed r" using v by (simp add: validate_entry_by_rules_def)
    have "\<exists>x n. b = x @ n \<and> n \<noteq> [] \<and> (x = [] \<and> list_all ascii_isdigit n \<or> x \<in> {''x'', ''X''} \<and> list_all ascii_isxdigit n)
        \<and> \<not> bad_code_point (strtol_digits (if x = [] then 10 else 16) n)"
    proof (cases "b = [] \<or> \<not> (hd b = CHR ''x'' \<or> hd b = CHR ''X'')")
      case True
      then show ?thesis using v a \<open>c = _\<close> by (intro exI [of _ "[]"] exI [of _ b]) (auto simp: parse_html_entity_def new_entry_def Let_def split: if_splits)
    next
      case False
      then have "b = [hd b] @ tl b" by simp
      then show ?thesis using v a \<open>c = _\<close> False
        by (intro exI [of _ "[hd b]"] exI [of _ "tl b"]) (auto simp: parse_html_entity_def new_entry_def Let_def split: if_splits)
    qed
    then obtain x n where "b = x @ n" "n \<noteq> []" "x = [] \<and> list_all ascii_isdigit n \<or> x \<in> {''x'', ''X''} \<and> list_all ascii_isxdigit n"
      "\<not> bad_code_point (strtol_digits (if x = [] then 10 else 16) n)" by blast
    then show ?thesis using safe_numeric [OF num, of x n] a True by (simp add: safe_piece_def)
  qed
qed

lemma entry_okD:
  assumes "entry_ok r e" "en_type e \<in> {Open_tag, Open_and_close_tag}"
  shows "holder_valid_tag (impl r) (en_name e) \<noteq> Invalid_tag" "attrs_allowed r (en_name e) (en_props e)"
proof -
  have "holder_valid_tag (impl r) (en_name e) \<noteq> Invalid_tag \<and> validate_properties r (en_name e) [] (en_props e)"
  proof (cases "en_type e = Open_tag")
    case True
    then show ?thesis using assms(1) ok_openD [of r e] ok_singleD [of r e] by (auto simp: entry_ok_def)
  next
    case False
    then have "en_type e = Open_and_close_tag" "V r e" using assms by (auto simp: entry_ok_def)
    then show ?thesis by (auto simp: validate_entry_by_rules_def)
  qed
  then show "holder_valid_tag (impl r) (en_name e) \<noteq> Invalid_tag" "attrs_allowed r (en_name e) (en_props e)"
    using validate_properties_allowed [of r "en_name e" "[]" "en_props e"] by (auto simp: attrs_allowed_def)
qed

lemma name_split: "tag_name (c # takeWhile ascii_isalnum b) \<longleftrightarrow> ascii_isalpha c"
  by (auto simp: tag_name_def list_all_iff dest: set_takeWhileD)

lemma close_piece:
  assumes "entry_ok r (parse_html_tag (new_entry (''</'' @ a @ ''>'') Html_tag))" shows "safe_piece r (''</'' @ a @ ''>'')"
proof -
  define e where "e = new_entry (''</'' @ a @ ''>'') Html_tag"
  have inner: "butlast (tl (en_text e)) = CHR ''/'' # a" by (simp add: e_def new_entry_def butlast_append)
  have ok: "entry_ok r (parse_html_tag e)" using assms by (simp add: e_def)
  have bad: "\<not> entry_ok r (e\<lparr>en_type := Invalid_data\<rparr>)" by (simp add: entry_ok_def)
  define w where "w = dropWhile ascii_isalnum (tl a)"
  define n where "n = hd a # takeWhile ascii_isalnum (tl a)"
  have cond: "a \<noteq> []" "ascii_isalpha (hd a)" "dropWhile ascii_isspace w = []"
    using ok bad unfolding parse_html_tag_def inner Let_def w_def by (auto split: if_splits)
  then have "parse_html_tag e = e\<lparr>en_name := n, en_type := Close_tag\<rparr>"
    unfolding parse_html_tag_def inner Let_def n_def w_def by simp
  then have "V r (e\<lparr>en_name := n, en_type := Close_tag\<rparr>)" using ok by (simp add: entry_ok_def)
  then have tag: "holder_valid_tag (impl r) n \<in> {Opening_and_closing, Any_tag}"
    by (auto simp: validate_entry_by_rules_def split: tag_type.splits)
  have a: "a = n @ w" using cond(1) by (simp add: n_def w_def)
  have "tag_name n" using cond(2) name_split by (simp add: n_def)
  moreover have "list_all ascii_isspace w" using cond(3) by (simp add: dropWhile_eq_Nil_conv list_all_iff)
  ultimately show ?thesis using safe_close [OF _ tag] unfolding safe_piece_def a by simp
qed

lemma open_piece:
  assumes "entry_ok r (parse_html_tag (new_entry (CHR ''<'' # a @ ''>'') Html_tag))" "a \<noteq> []" "hd a \<noteq> CHR ''/''" shows "safe_piece r (CHR ''<'' # a @ ''>'')"
proof -
  define e where "e = new_entry (CHR ''<'' # a @ ''>'') Html_tag"
  have inner: "butlast (tl (en_text e)) = a" by (simp add: e_def new_entry_def)
  have ok: "entry_ok r (parse_html_tag e)" using assms(1) by (simp add: e_def)
  have bad: "\<not> entry_ok r (f\<lparr>en_type := Invalid_data\<rparr>)" for f by (simp add: entry_ok_def)
  define n where "n = hd a # takeWhile ascii_isalnum (tl a)"
  define w where "w = dropWhile ascii_isalnum (tl a)"
  define slash where "slash = (last a = CHR ''/'')"
  have alpha: "ascii_isalpha (hd a)" using ok bad assms(2,3) unfolding parse_html_tag_def inner Let_def by (auto split: if_splits)
  obtain good ps where p: "parse_properties (if slash then butlast w else w) True [] = (good, ps)" by fastforce
  have e: "parse_html_tag e = e\<lparr>en_name := n, en_props := ps, en_type := (if \<not> good then Invalid_data else if slash then Open_and_close_tag else Open_tag)\<rparr>"
    using alpha assms(2,3) p unfolding parse_html_tag_def inner Let_def n_def w_def slash_def by simp
  then have "good" using ok bad by (auto split: if_splits)
  with e have e1: "en_name (parse_html_tag e) = n" "en_props (parse_html_tag e) = ps" "en_type (parse_html_tag e) \<in> {Open_tag, Open_and_close_tag}" by auto
  note tag = entry_okD [OF ok e1(3), unfolded e1]
  have "attr_text True (if slash then butlast w else w) ps" using parse_properties_text [of _ True "[]"] p \<open>good\<close> by fastforce
  moreover have a: "a = n @ (if slash then butlast w else w) @ (if slash then ''/'' else [])"
  proof -
    have nw: "a = n @ w" using assms(2) by (simp add: n_def w_def)
    have "w = butlast w @ ''/''" if slash
    proof -
      have "\<forall>c \<in> set n. c \<noteq> CHR ''/''"
      proof -
        have "\<not> ascii_isalnum (CHR ''/'')" by code_simp
        then show ?thesis using assms(3) by (auto simp: n_def dest: set_takeWhileD)
      qed
      moreover have "last (n @ w) = CHR ''/''" using that nw by (simp add: slash_def)
      moreover have "n \<noteq> []" by (simp add: n_def)
      ultimately have "w \<noteq> []" "last w = CHR ''/''" by (metis append_Nil2 last_in_set, metis append_Nil2 last_appendR last_in_set)
      then show ?thesis by (metis append_butlast_last_id)
    qed
    then show ?thesis using nw by auto
  qed
  moreover have "tag_name n" using alpha name_split by (simp add: n_def)
  ultimately show ?thesis using safe_tag [OF _ tag(1) _ tag(2), of "if slash then butlast w else w" "if slash then ''/'' else []"]
    unfolding safe_piece_def by (subst a) auto
qed

lemma part_piece:
  assumes "shaped ty t" "entry_ok r (parse_part (new_entry t ty))"
  shows "safe_piece r t"
proof (cases ty)
  case Plain_text
  then show ?thesis using assms(1) safe_plain by simp
next
  case Html_entity
  then show ?thesis using assms entity_piece by auto
next
  case Html_comment
  then obtain a where a: "t = ''<!--'' @ a @ ''-->''" "\<not> list_ex special a" using assms(1) by auto
  have "comments_allowed r" using assms(2) Html_comment by (simp add: entry_ok_def parse_part_def new_entry_def validate_entry_by_rules_def)
  then show ?thesis using a safe_comment [of r a] by (simp add: safe_piece_def)
next
  case Html_tag
  then obtain a where a: "t = CHR ''<'' # a @ ''>''" using assms(1) by auto
  have ok: "entry_ok r (parse_html_tag (new_entry (CHR ''<'' # a @ ''>'') Html_tag))" using assms(2) Html_tag a by (simp add: parse_part_def new_entry_def)
  have "a \<noteq> []" using ok by (auto simp: parse_html_tag_def new_entry_def entry_ok_def)
  then consider b where "a = CHR ''/'' # b" | "hd a \<noteq> CHR ''/''" by (metis list.collapse)
  then show ?thesis
  proof cases
    case 1
    then show ?thesis using close_piece [of r b] ok a by simp
  qed (use open_piece [OF ok \<open>a \<noteq> []\<close>] a in simp)
qed (use assms in \<open>simp_all add: entry_ok_def parse_part_def new_entry_def\<close>)

lemma validate_parts_safe:
  assumes "validate_parts r s" shows "safe_html r s"
proof -
  have "safe_piece r (en_text e)" if e: "e \<in> set (split_to_parts s)" for e
  proof -
    have "accepts r (map parse_part (split_to_parts s)) []" using assms by (simp add: validate_parts_accepts)
    then have "entry_ok r (parse_part e)" using accepts_each [of r "map parse_part (split_to_parts s)" "[]"] e by (simp add: entry_ok_def)
    moreover have "shaped (en_type e) (en_text e)" "e = new_entry (en_text e) (en_type e)" using split_part_of [of s] e by (auto simp: part_ok_def)
    ultimately show ?thesis using part_piece by metis
  qed
  then have "safe_html r (concat (map en_text (split_to_parts s)))" by (intro safe_pieces) auto
  then show ?thesis using split_part_of [of s] by simp
qed

lemma xss_validate_parts:
  "rules_encoding r = [] \<or> is_ascii_compatible (rules_encoding r) \<Longrightarrow> xss_validate conv r s \<Longrightarrow> validate_parts r s"
  by (auto simp: xss_validate_def Let_def split: if_splits)

lemma xss_filter_parts:
  assumes "rules_wf r" "rules_encoding r = [] \<or> is_ascii_compatible (rules_encoding r)" "xss_filter conv r s meth repl_ch = Some t"
  shows "validate_parts r t"
proof -
  obtain valid u where in_eq: "filter_input conv r s repl_ch = Some (valid, u)"
    using assms(3) by (cases "filter_input conv r s repl_ch") (auto simp: xss_filter_def validate_and_filter_if_invalid_def)
  have out: "validate_parts r (snd (filter_parts r meth u))"
    using filter_output_accepts [OF assms(1)] by (simp add: validate_parts_accepts parsed_parts_def)
  show ?thesis
  proof (cases "valid \<and> validate_parts r u")
    case True
    then have "u = s" using in_eq assms(2) by (auto simp: filter_input_def Let_def split: if_splits option.splits bool.splits prod.splits)
    moreover have "t = s" using True assms(3) in_eq filter_parts_valid [of r meth u]
      by (simp add: xss_filter_def validate_and_filter_if_invalid_def case_prod_unfold)
    ultimately show ?thesis using True by simp
  next
    case False
    then have "t = snd (filter_parts r meth u)" using assms(2,3) in_eq filter_parts_valid [of r meth u]
      by (auto simp: xss_filter_def validate_and_filter_if_invalid_def case_prod_unfold split: if_splits)
    then show ?thesis using out by simp
  qed
qed

text \<open>
  C7. For a text in an ASCII compatible encoding, or without a declared one: a text that the validator accepts, and every text that
  the filter returns, is in the grammar of the rules; it has no tag, attribute, entity or comment that the rules do not list, every
  attribute value was accepted by the validator of its property, and the characters of markup appear in markup only.
\<close>

theorem only_listed_markup:
  assumes "rules_wf r" "rules_encoding r = [] \<or> is_ascii_compatible (rules_encoding r)"
  shows "(xss_validate conv r s \<longrightarrow> safe_html r s) \<and> (\<forall>t. xss_filter conv r s meth repl_ch = Some t \<longrightarrow> safe_html r t)"
  using assms xss_validate_parts xss_filter_parts validate_parts_safe by blast

theorem only_listed_markup_witness:
  "safe_html (add_tag ''b'' Opening_and_closing rules_new) ''<b></b>''"
proof -
  let ?r = "add_tag ''b'' Opening_and_closing rules_new" and ?c = "\<lparr>conv_stop = \<lambda>_ _ _. None, conv_skip = \<lambda>_ _ _. None\<rparr>"
  have "xss_filter ?c ?r ''<b></b><i>'' Remove_invalid (ch 0) = Some ''<b></b>''" by code_simp
  then show ?thesis using only_listed_markup [of ?r ?c "''<b></b><i>''" Remove_invalid "ch 0"]
      rules_wf_setters(1) [OF rules_wf_new] by (simp add: add_tag_def change_impl_def rules_new_def)
qed

end
