(* ===== verification/Buddy.thy ===== *)
theory Buddy
  imports Prelude
begin

text \<open>
  The allocator of the shared memory in which the cache of several processes lives (\<^verbatim>\<open>private/buddy_allocator.h\<close>), on a platform
  with 64-bit pointers: the alignment is 16 and a page header has 24 bytes.  A pointer is its distance from \<^verbatim>\<open>memory()\<close>; the null
  pointer is no value.  The memory is seen as the headers that can be read at each distance; what a client writes into its block may
  change every header inside of it.
\<close>

section \<open>The allocator\<close>

record page =
  pg_bits :: int
  pg_next :: "nat option"
  pg_prev :: "nat option"

record buddy_allocator =
  free_list :: "nat \<Rightarrow> nat option"
  memory_size :: nat
  max_bit_size :: int
  headers :: "nat \<Rightarrow> page"

definition page_in_use :: int where
  "page_in_use = 256"

definition alignment_bits :: nat where
  "alignment_bits = 4"

definition alignment :: nat where
  "alignment = 16"

text \<open>Writing through pointers.\<close>

definition set_page :: "nat \<Rightarrow> page \<Rightarrow> buddy_allocator \<Rightarrow> buddy_allocator" where
  "set_page p g s = s\<lparr>headers := (headers s)(p := g)\<rparr>"

definition set_free :: "nat \<Rightarrow> nat option \<Rightarrow> buddy_allocator \<Rightarrow> buddy_allocator" where
  "set_free bits p s = s\<lparr>free_list := (free_list s)(bits := p)\<rparr>"

definition set_prev :: "nat option \<Rightarrow> nat option \<Rightarrow> buddy_allocator \<Rightarrow> buddy_allocator" where
  "set_prev p q s = (case p of None \<Rightarrow> s | Some p \<Rightarrow> set_page p ((headers s p)\<lparr>pg_prev := q\<rparr>) s)"

definition set_next :: "nat option \<Rightarrow> nat option \<Rightarrow> buddy_allocator \<Rightarrow> buddy_allocator" where
  "set_next p q s = (case p of None \<Rightarrow> s | Some p \<Rightarrow> set_page p ((headers s p)\<lparr>pg_next := q\<rparr>) s)"

definition set_bits :: "nat \<Rightarrow> int \<Rightarrow> buddy_allocator \<Rightarrow> buddy_allocator" where
  "set_bits p b s = set_page p ((headers s p)\<lparr>pg_bits := b\<rparr>) s"

definition containts_bits :: "nat \<Rightarrow> int" where
  "containts_bits n = (case find (\<lambda>i. 2 ^ i \<le> n \<and> n < 2 ^ (i + 1)) (rev [1..<63]) of None \<Rightarrow> -1 | Some i \<Rightarrow> int i)"

definition get_bits :: "nat \<Rightarrow> nat" where
  "get_bits n = (case find (\<lambda>i. n \<le> 2 ^ i) [0..<64] of None \<Rightarrow> 64 | Some i \<Rightarrow> i)"

lemma find_SomeD: "find P xs = Some x \<Longrightarrow> P x \<and> x \<in> set xs"
  by (induction xs) (auto split: if_splits)

lemma containts_bits_le: "containts_bits n = int b \<Longrightarrow> 2 ^ b \<le> n \<and> n < 2 ^ (b + 1) \<and> b < 63"
proof -
  assume "containts_bits n = int b"
  then have "find (\<lambda>i. 2 ^ i \<le> n \<and> n < 2 ^ (i + 1)) (rev [1..<63]) = Some b"
    unfolding containts_bits_def by (cases "find (\<lambda>i. 2 ^ i \<le> n \<and> n < 2 ^ (i + 1)) (rev [1..<63])") simp_all
  from find_SomeD [OF this] show ?thesis by (simp only: set_rev set_upt atLeastLessThan_iff)
qed

lemma same_size [simp]: "memory_size (set_page p g s) = memory_size s" "memory_size (set_free b q s) = memory_size s"
  "memory_size (set_bits p i s) = memory_size s" "memory_size (set_prev x q s) = memory_size s" "memory_size (set_next x q s) = memory_size s"
  by (simp_all add: set_page_def set_free_def set_bits_def set_prev_def set_next_def split: option.split)

lemma same_max [simp]: "max_bit_size (set_page p g s) = max_bit_size s" "max_bit_size (set_free b q s) = max_bit_size s"
  "max_bit_size (set_bits p i s) = max_bit_size s" "max_bit_size (set_prev x q s) = max_bit_size s" "max_bit_size (set_next x q s) = max_bit_size s"
  by (simp_all add: set_page_def set_free_def set_bits_def set_prev_def set_next_def split: option.split)

lemma header_set_bits [simp]: "headers (set_bits p i s) p = (headers s p)\<lparr>pg_bits := i\<rparr>"
  by (simp add: set_bits_def set_page_def)

text \<open>The loop of the constructor over what is left of the memory.\<close>

definition add_chunk :: "nat \<Rightarrow> nat \<Rightarrow> buddy_allocator \<Rightarrow> buddy_allocator" where
  "add_chunk pos bits s =
     (let s = set_free bits (Some pos) (set_page pos \<lparr>pg_bits = int bits, pg_next = None, pg_prev = None\<rparr> s)
      in if max_bit_size s = -1 then s\<lparr>max_bit_size := int bits\<rparr> else s)"

function add_chunks :: "nat \<Rightarrow> nat \<Rightarrow> buddy_allocator \<Rightarrow> buddy_allocator" where
  "add_chunks pos reminder s =
     (if containts_bits reminder < int alignment_bits + 1 then s
      else add_chunks (pos + 2 ^ nat (containts_bits reminder)) (reminder - 2 ^ nat (containts_bits reminder))
             (add_chunk pos (nat (containts_bits reminder)) s))"
  by auto
termination
proof (relation "measure (\<lambda>(pos, reminder, s). reminder)", goal_cases)
  case (2 pos reminder s)
  then have "containts_bits reminder = int (nat (containts_bits reminder))" by (simp add: alignment_bits_def)
  from containts_bits_le [OF this] have "2 ^ nat (containts_bits reminder) \<le> reminder" by simp
  moreover have "0 < (2 :: nat) ^ nat (containts_bits reminder)" by simp
  ultimately have "reminder - 2 ^ nat (containts_bits reminder) < reminder" by linarith
  then show ?case by simp
qed simp

declare add_chunks.simps [simp del]

definition buddy_new :: "nat \<Rightarrow> (nat \<Rightarrow> page) \<Rightarrow> buddy_allocator" where
  "buddy_new usable mem = add_chunks 0 usable \<lparr>free_list = (\<lambda>_. None), memory_size = usable, max_bit_size = -1, headers = mem\<rparr>"

text \<open>Taking a page of the size \<open>2 ^ bits\<close>: the first of its list, or the first half of a larger one.\<close>

function page_alloc :: "nat \<Rightarrow> buddy_allocator \<Rightarrow> nat option \<times> buddy_allocator" where
  "page_alloc bit_size s =
     (if int bit_size > max_bit_size s then (None, s)
      else
        (case (case free_list s bit_size of
                 None \<Rightarrow>
                   (case page_alloc (bit_size + 1) s of
                      (None, s) \<Rightarrow> (None, s)
                    | (Some to_split, s) \<Rightarrow>
                        (let unused = to_split + 2 ^ bit_size;
                             s = set_page unused \<lparr>pg_bits = int bit_size, pg_next = None, pg_prev = None\<rparr> s
                         in (Some to_split, set_free bit_size (Some unused) s)))
               | Some r \<Rightarrow>
                   (let n = pg_next (headers s r); s = set_free bit_size n s in (Some r, set_prev n None s))) of
           (None, s) \<Rightarrow> (None, s)
         | (Some r, s) \<Rightarrow> (Some r, set_page r \<lparr>pg_bits = int bit_size + page_in_use, pg_next = None, pg_prev = None\<rparr> s)))"
  by auto
termination
  by (relation "measure (\<lambda>(b, s). nat (max_bit_size s + 1 - int b))") auto

declare page_alloc.simps [simp del]

text \<open>\<^verbatim>\<open>size_t\<close> wraps around at \<open>2 ^ 64\<close>.\<close>

definition request_size :: "nat \<Rightarrow> nat" where
  "request_size required_size = (((required_size + alignment - 1) mod 2 ^ 64 div alignment + 1) * alignment) mod 2 ^ 64"

definition buddy_malloc :: "nat \<Rightarrow> buddy_allocator \<Rightarrow> nat option \<times> buddy_allocator" where
  "buddy_malloc required_size s =
     (case page_alloc (get_bits (request_size required_size)) s of
        (None, s) \<Rightarrow> (None, s)
      | (Some p, s) \<Rightarrow> (Some (p + alignment), s))"

definition get_buddy :: "nat \<Rightarrow> buddy_allocator \<Rightarrow> nat option" where
  "get_buddy p s =
     (let p_len = 2 ^ nat (pg_bits (headers s p)); b_ptr = p_len XOR p
      in if b_ptr + p_len > memory_size s then None else Some b_ptr)"

definition unlink_page :: "nat \<Rightarrow> nat \<Rightarrow> buddy_allocator \<Rightarrow> buddy_allocator" where
  "unlink_page bits buddy s =
     (let bnext = pg_next (headers s buddy); bprev = pg_prev (headers s buddy);
          s = set_next bprev bnext (set_prev bnext bprev s)
      in if bprev = None then set_free bits bnext s else s)"

definition push_page :: "nat \<Rightarrow> nat \<Rightarrow> buddy_allocator \<Rightarrow> buddy_allocator" where
  "push_page bits p s =
     (let n = free_list s bits;
          s = set_page p ((headers s p)\<lparr>pg_next := n, pg_prev := None\<rparr>) s
      in set_free bits (Some p) (set_prev n (Some p) s))"

lemma unlink_page_same [simp]: "memory_size (unlink_page b p s) = memory_size s" "max_bit_size (unlink_page b p s) = max_bit_size s"
  by (simp_all add: unlink_page_def Let_def)

text \<open>The loop merges the page with its buddy as long as that is free and has the same size.\<close>

function free_page :: "nat \<Rightarrow> buddy_allocator \<Rightarrow> buddy_allocator" where
  "free_page p s =
     (let bits = pg_bits (headers s p) - page_in_use; s1 = set_bits p bits s in
      case get_buddy p s1 of
        None \<Rightarrow> push_page (nat bits) p s1
      | Some buddy \<Rightarrow>
          if pg_bits (headers s1 buddy) = bits then
            (let p' = (if buddy < p then buddy else p) in
             free_page p' (set_bits p' (bits + 1 + page_in_use) (unlink_page (nat bits) buddy s1)))
          else push_page (nat bits) p s1)"
  by auto
termination
proof (relation "measure (\<lambda>(p, s). nat (int (memory_size s) + 1 + page_in_use - pg_bits (headers s p)))", goal_cases)
  case (2 p s bits s1 buddy p')
  have bits: "pg_bits (headers s1 p) = bits" "memory_size s1 = memory_size s" "pg_bits (headers s p) = bits + page_in_use" using 2(1,2) by simp_all
  have "2 ^ nat bits \<le> memory_size s" using 2(3) bits by (auto simp: get_buddy_def Let_def split: if_splits)
  moreover have "nat bits < 2 ^ nat bits" by simp
  ultimately have "bits < int (memory_size s) + 1" by linarith
  then show ?case using bits by simp
qed simp

declare free_page.simps [simp del]

text \<open>The assertion that the page is in use is a bit test; without it there is no result.\<close>

definition buddy_free :: "nat option \<Rightarrow> buddy_allocator \<Rightarrow> buddy_allocator option" where
  "buddy_free ptr s =
     (case ptr of
        None \<Rightarrow> Some s
      | Some q \<Rightarrow>
          (let p = q - alignment in
           if pg_bits (headers s p) div page_in_use mod 2 = 1 then Some (free_page p s) else None))"

text \<open>The statistics walk over the lists; a walk need not end by itself.\<close>

partial_function (option) count_pages :: "buddy_allocator \<Rightarrow> nat option \<Rightarrow> nat option" where
  "count_pages s p =
     (case p of
        None \<Rightarrow> Some 0
      | Some q \<Rightarrow> Option.bind (count_pages s (pg_next (headers s q))) (\<lambda>n. Some (n + 1)))"

definition total_free_at :: "nat \<Rightarrow> buddy_allocator \<Rightarrow> nat option" where
  "total_free_at bits s = Option.bind (count_pages s (free_list s bits)) (\<lambda>count. Some (count * (2 ^ bits - alignment)))"

fun total_free_loop :: "nat list \<Rightarrow> buddy_allocator \<Rightarrow> nat \<Rightarrow> nat option" where
  "total_free_loop [] s acc = Some acc"
| "total_free_loop (i # bs) s acc = Option.bind (total_free_at i s) (\<lambda>n. total_free_loop bs s (acc + n))"

definition total_free_memory :: "buddy_allocator \<Rightarrow> nat option" where
  "total_free_memory s = total_free_loop [0..<64] s 0"

definition max_free_chunk :: "buddy_allocator \<Rightarrow> nat option" where
  "max_free_chunk s = (case find (\<lambda>b. free_list s b \<noteq> None) (rev [1..<64]) of None \<Rightarrow> Some 0 | Some b \<Rightarrow> total_free_at b s)"

section \<open>Tiles\<close>

text \<open>The pages of the memory: where they start and how large they are.\<close>

definition area :: "nat \<Rightarrow> nat \<Rightarrow> nat set" where
  "area p b = {p..<p + 2 ^ b}"

definition tiles :: "(nat \<Rightarrow> nat option) \<Rightarrow> nat \<Rightarrow> bool" where
  "tiles z e \<longleftrightarrow> (\<forall>p b. z p = Some b \<longrightarrow> 2 ^ b dvd p \<and> p + 2 ^ b \<le> e)
     \<and> (\<forall>p b q c. z p = Some b \<longrightarrow> z q = Some c \<longrightarrow> p \<noteq> q \<longrightarrow> area p b \<inter> area q c = {})
     \<and> (\<forall>x < e. \<exists>p b. z p = Some b \<and> x \<in> area p b)"

lemma tilesD:
  assumes "tiles z e" "z p = Some b"
  shows "2 ^ b dvd p" "p + 2 ^ b \<le> e" "z q = Some c \<Longrightarrow> p \<noteq> q \<Longrightarrow> area p b \<inter> area q c = {}"
  using assms unfolding tiles_def by blast+

lemma tiles_cover: "tiles z e \<Longrightarrow> x < e \<Longrightarrow> \<exists>p b. z p = Some b \<and> x \<in> area p b"
  unfolding tiles_def by blast

lemma area_Suc: "area p (Suc b) = area p b \<union> area (p + 2 ^ b) b"
  by (auto simp: area_def)

lemma area_halves: "area p b \<inter> area (p + 2 ^ b) b = {}"
  by (auto simp: area_def)

lemma area_self [simp]: "p \<in> area p b"
  by (simp add: area_def)

lemma second_half: "p + 2 ^ b \<in> area p (Suc b)" "p + 2 ^ b \<noteq> p"
  by (simp_all add: area_def)

text \<open>No page starts inside another one.\<close>

lemma tiles_inside:
  assumes "tiles z e" "z p = Some b" "q \<in> area p b" "q \<noteq> p" shows "z q = None"
proof (cases "z q")
  case (Some c)
  then show ?thesis using tilesD(3) [OF assms(1,2) Some] assms(3,4) area_self [of q c] by blast
qed

lemma tilesI:
  assumes "\<And>p b. z p = Some b \<Longrightarrow> 2 ^ b dvd p \<and> p + 2 ^ b \<le> e"
    "\<And>p b q c. z p = Some b \<Longrightarrow> z q = Some c \<Longrightarrow> p \<noteq> q \<Longrightarrow> area p b \<inter> area q c = {}"
    "\<And>x. x < e \<Longrightarrow> \<exists>p b. z p = Some b \<and> x \<in> area p b"
  shows "tiles z e"
  using assms unfolding tiles_def by blast

lemma tiles_split:
  assumes t: "tiles z e" and p: "z p = Some (Suc b)"
  shows "tiles (z(p \<mapsto> b, p + 2 ^ b \<mapsto> b)) e"
proof (rule tilesI)
  let ?z = "z(p \<mapsto> b, p + 2 ^ b \<mapsto> b)"
  note h = second_half [of p b]
  have pos: "2 ^ Suc b dvd p" "p + 2 ^ Suc b \<le> e" using tilesD [OF t p] by auto
  then have dvd: "2 ^ b dvd p" "2 ^ b dvd p + 2 ^ b" by (auto intro: dvd_trans [of _ "2 ^ Suc b"])
  show "2 ^ c dvd q \<and> q + 2 ^ c \<le> e" if "?z q = Some c" for q c
    using that dvd pos tilesD(1,2) [OF t, of q c] by (auto split: if_splits)
  have old: "area q c \<inter> area p b = {} \<and> area q c \<inter> area (p + 2 ^ b) b = {}" if "z q = Some c" "q \<noteq> p" for q c
    using tilesD(3) [OF t p that(1)] that(2) by (auto simp: area_Suc)
  show "area q c \<inter> area q' c' = {}" if "?z q = Some c" "?z q' = Some c'" "q \<noteq> q'" for q c q' c'
  proof (cases "q \<in> {p, p + 2 ^ b}"; cases "q' \<in> {p, p + 2 ^ b}")
    assume "q \<in> {p, p + 2 ^ b}" "q' \<in> {p, p + 2 ^ b}"
    then show ?thesis using that area_halves [of p b] h(2) by (auto split: if_splits)
  next
    assume "q \<in> {p, p + 2 ^ b}" "q' \<notin> {p, p + 2 ^ b}"
    then show ?thesis using that old [of q' c'] h(2) by (auto split: if_splits)
  next
    assume "q \<notin> {p, p + 2 ^ b}" "q' \<in> {p, p + 2 ^ b}"
    then show ?thesis using that old [of q c] h(2) by (auto split: if_splits)
  next
    assume "q \<notin> {p, p + 2 ^ b}" "q' \<notin> {p, p + 2 ^ b}"
    then show ?thesis using that tilesD(3) [OF t, of q c q' c'] by simp
  qed
  show "\<exists>q c. ?z q = Some c \<and> x \<in> area q c" if x: "x < e" for x
  proof -
    obtain q c where q: "z q = Some c" "x \<in> area q c" using tiles_cover [OF t x] by blast
    show ?thesis
    proof (cases "q = p")
      case True
      then have "x \<in> area p (Suc b)" using q p by simp
      then have "x \<in> area p b \<or> x \<in> area (p + 2 ^ b) b" by (simp add: area_Suc)
      moreover have "?z p = Some b" "?z (p + 2 ^ b) = Some b" using h(2) by auto
      ultimately show ?thesis by blast
    next
      case False
      moreover have "q \<noteq> p + 2 ^ b" using tiles_inside [OF t p h] q(1) by auto
      ultimately have "?z q = Some c" using q(1) by simp
      then show ?thesis using q(2) by blast
    qed
  qed
qed

lemma tiles_merge:
  assumes t: "tiles z e" and p: "z p = Some b" "z (p + 2 ^ b) = Some b" "2 ^ Suc b dvd p"
  shows "tiles (z(p \<mapsto> Suc b, p + 2 ^ b := None)) e"
proof (rule tilesI)
  let ?z = "z(p \<mapsto> Suc b, p + 2 ^ b := None)"
  note h = second_half [of p b]
  have pos: "p + 2 ^ Suc b \<le> e" using tilesD(2) [OF t p(2)] by simp
  show "2 ^ c dvd q \<and> q + 2 ^ c \<le> e" if "?z q = Some c" for q c
    using that p(3) pos tilesD(1,2) [OF t, of q c] by (auto split: if_splits)
  have old: "area q c \<inter> area p (Suc b) = {}" if "z q = Some c" "q \<noteq> p" "q \<noteq> p + 2 ^ b" for q c
    using tilesD(3) [OF t p(1) that(1)] tilesD(3) [OF t p(2) that(1)] that(2,3) unfolding area_Suc by blast
  show "area q c \<inter> area q' c' = {}" if "?z q = Some c" "?z q' = Some c'" "q \<noteq> q'" for q c q' c'
  proof (cases "q = p"; cases "q' = p")
    assume "q = p" "q' \<noteq> p"
    then show ?thesis using that old [of q' c'] h(2) by (auto split: if_splits)
  next
    assume "q \<noteq> p" "q' = p"
    then show ?thesis using that old [of q c] h(2) by (auto split: if_splits)
  next
    assume "q \<noteq> p" "q' \<noteq> p"
    then show ?thesis using that tilesD(3) [OF t, of q c q' c'] by (auto split: if_splits)
  qed (use that in simp)
  show "\<exists>q c. ?z q = Some c \<and> x \<in> area q c" if x: "x < e" for x
  proof -
    obtain q c where q: "z q = Some c" "x \<in> area q c" using tiles_cover [OF t x] by blast
    show ?thesis
    proof (cases "q = p \<or> q = p + 2 ^ b")
      case True
      then have "x \<in> area p (Suc b)" using q p by (auto simp: area_Suc)
      moreover have "?z p = Some (Suc b)" using h(2) by simp
      ultimately show ?thesis by blast
    next
      case False
      then have "?z q = Some c" using q(1) by simp
      then show ?thesis using q(2) by blast
    qed
  qed
qed

text \<open>The buddy of a page, as a number, and what is there.\<close>

definition buddy_of :: "nat \<Rightarrow> nat \<Rightarrow> nat" where
  "buddy_of p b = 2 ^ b XOR p"

lemma buddy_of_eq: "2 ^ b dvd p \<Longrightarrow> buddy_of p b = (if 2 ^ Suc b dvd p then p + 2 ^ b else p - 2 ^ b)"
proof -
  assume dvd: "2 ^ b dvd p"
  have "buddy_of p b = flip_bit b p" by (simp add: buddy_of_def flip_bit_eq_xor push_bit_eq_mult xor.commute)
  also have "\<dots> = (if bit p b then p - 2 ^ b else p + 2 ^ b)"
  proof -
    have "set_bit b (unset_bit b p) = unset_bit b p + 2 ^ b" by (simp add: set_bit_eq bit_unset_bit_iff)
    moreover have "set_bit b (unset_bit b p) = p" if "bit p b" using that by (intro bit_eqI) (auto simp: bit_simps)
    ultimately show ?thesis by (auto simp: flip_bit_eq_if set_bit_eq)
  qed
  also have "bit p b \<longleftrightarrow> \<not> 2 ^ Suc b dvd p"
  proof -
    from dvd obtain k where "p = 2 ^ b * k" by blast
    then show ?thesis by (simp add: bit_iff_odd)
  qed
  finally show ?thesis by simp
qed

lemma buddy_of_twice: "buddy_of (buddy_of p b) b = p"
  by (simp add: buddy_of_def xor.assoc [symmetric])

text \<open>Two aligned blocks that meet are nested.\<close>

lemma blocks_nested:
  assumes "2 ^ a dvd m" "2 ^ c dvd p" "a \<le> c" "x \<in> area m a" "x \<in> area p c"
  shows "area m a \<subseteq> area p c"
proof -
  have "2 ^ a dvd (2 :: nat) ^ c" using assms(3) by (rule le_imp_power_dvd)
  then obtain i j k where ijk: "m = 2 ^ a * i" "p = 2 ^ a * j" "(2 :: nat) ^ c = 2 ^ a * k" using assms(1,2) dvd_trans by (metis dvdE)
  have x: "m \<le> x" "x < m + 2 ^ a" "p \<le> x" "x < p + 2 ^ c" using assms(4,5) by (auto simp: area_def)
  have "2 ^ a * j < 2 ^ a * (i + 1)" "2 ^ a * i < 2 ^ a * (j + k)" using x unfolding ijk by (simp_all add: distrib_left)
  then have "j < i + 1" "i < j + k" by (simp_all only: mult_less_cancel1)
  then have "2 ^ a * j \<le> 2 ^ a * i" "2 ^ a * (i + 1) \<le> 2 ^ a * (j + k)" by (simp_all only: mult_le_mono)
  then have "p \<le> m" "m + 2 ^ a \<le> p + 2 ^ c" unfolding ijk by (simp_all add: distrib_left)
  then show ?thesis by (auto simp: area_def)
qed

lemma parent_block:
  assumes "2 ^ b dvd p"
  obtains m where "2 ^ Suc b dvd m" "p \<in> area m (Suc b)" "buddy_of p b \<in> area m (Suc b)" "{p, buddy_of p b} = {m, m + 2 ^ b}"
proof (cases "2 ^ Suc b dvd p")
  case True
  then show thesis using that [of p] buddy_of_eq [OF assms] by (simp add: area_def)
next
  case False
  from assms obtain k where k: "p = 2 ^ b * k" by blast
  have "odd k" using False k by auto
  then obtain j where j: "k = 2 * j + 1" using oddE by blast
  define m where "m = 2 ^ Suc b * j"
  have p: "p = m + 2 ^ b" by (simp add: k j m_def algebra_simps)
  then have "buddy_of p b = m" using buddy_of_eq [OF assms] False by simp
  then show thesis using that [of m] p by (auto simp: area_def m_def)
qed

lemma buddy_dvd: "2 ^ b dvd p \<Longrightarrow> 2 ^ b dvd buddy_of p b"
  by (simp add: buddy_of_eq)

lemma buddy_at:
  assumes "tiles z e" "z p = Some b" "buddy_of p b + 2 ^ b \<le> e"
  obtains c where "z (buddy_of p b) = Some c" "c \<le> b"
proof -
  let ?q = "buddy_of p b"
  have dvd: "2 ^ b dvd p" using tilesD(1) [OF assms(1,2)] .
  obtain m where m: "2 ^ Suc b dvd m" "p \<in> area m (Suc b)" "?q \<in> area m (Suc b)" using parent_block [OF dvd] .
  have "?q < e" using assms(3) by (meson less_add_same_cancel1 less_le_trans zero_less_numeral zero_less_power)
  then obtain r c where r: "z r = Some c" "?q \<in> area r c" using tiles_cover [OF assms(1)] by blast
  have rdvd: "2 ^ c dvd r" using tilesD(1) [OF assms(1) r(1)] .
  have c: "c \<le> b"
  proof (rule ccontr)
    assume "\<not> c \<le> b"
    then have "area m (Suc b) \<subseteq> area r c" using blocks_nested [OF m(1) rdvd _ m(3) r(2)] by simp
    then have "r = p" using tiles_inside [OF assms(1) r(1), of p] m(2) assms(2) by auto
    then show False using r(1) assms(2) \<open>\<not> c \<le> b\<close> by simp
  qed
  then have "2 ^ c dvd ?q" using buddy_dvd [OF dvd] by (meson dvd_trans le_imp_power_dvd)
  then have "area r c \<subseteq> area ?q c" using blocks_nested [OF rdvd _ le_refl r(2), of ?q] by simp
  then have "r = ?q" using area_self [of r c] r(2) by (auto simp: area_def)
  then show thesis using r(1) c that by blast
qed

section \<open>Free lists\<close>

fun dll :: "(nat \<Rightarrow> page) \<Rightarrow> nat option \<Rightarrow> nat list \<Rightarrow> bool" where
  "dll h p [] = True"
| "dll h p (x # xs) = (pg_prev (h x) = p \<and> pg_next (h x) = (if xs = [] then None else Some (hd xs)) \<and> dll h (Some x) xs)"

definition head_of :: "nat list \<Rightarrow> nat option" where
  "head_of xs = (if xs = [] then None else Some (hd xs))"

lemma head_of_simps [simp]: "head_of [] = None" "head_of (x # xs) = Some x"
  by (simp_all add: head_of_def)

lemma dll_cong: "(\<And>x. x \<in> set xs \<Longrightarrow> pg_prev (h' x) = pg_prev (h x) \<and> pg_next (h' x) = pg_next (h x)) \<Longrightarrow> dll h' p xs = dll h p xs"
  by (induction xs arbitrary: p) auto

text \<open>An element is taken out of the middle of a list.\<close>

definition unlinked :: "nat \<Rightarrow> (nat \<Rightarrow> page) \<Rightarrow> nat \<Rightarrow> page" where
  "unlinked x h = (let n = pg_next (h x); q = pg_prev (h x); h1 = (case n of None \<Rightarrow> h | Some y \<Rightarrow> h(y := (h y)\<lparr>pg_prev := q\<rparr>))
     in case q of None \<Rightarrow> h1 | Some y \<Rightarrow> h1(y := (h1 y)\<lparr>pg_next := n\<rparr>))"

lemma headers_unlink: "headers (unlink_page b x s) = unlinked x (headers s)"
  by (auto simp: unlink_page_def unlinked_def set_next_def set_prev_def set_page_def set_free_def Let_def split: option.split)

lemma free_list_unlink: "free_list (unlink_page b x s) = (if pg_prev (headers s x) = None then (free_list s)(b := pg_next (headers s x)) else free_list s)"
  by (auto simp: unlink_page_def set_next_def set_prev_def set_page_def set_free_def Let_def split: option.split)

lemma dll_prev: "dll h p (xs @ x # ys) \<Longrightarrow> pg_prev (h x) = (if xs = [] then p else Some (last xs))"
  by (induction xs arbitrary: p) auto

lemma dll_next: "dll h p (xs @ x # ys) \<Longrightarrow> pg_next (h x) = head_of ys"
  by (induction xs arbitrary: p) (auto simp: head_of_def)

lemma unlinked_fields:
  "pg_bits (unlinked x h y) = pg_bits (h y)"
  "pg_prev (unlinked x h y) = (if pg_next (h x) = Some y then pg_prev (h x) else pg_prev (h y))"
  "pg_next (unlinked x h y) = (if pg_prev (h x) = Some y then pg_next (h x) else pg_next (h y))"
  by (cases "pg_next (h x)"; cases "pg_prev (h x)"; simp add: unlinked_def)+

lemma dll_unlink:
  "dll h p (xs @ x # ys) \<Longrightarrow> distinct (xs @ x # ys) \<Longrightarrow> (\<And>y. p = Some y \<Longrightarrow> y \<notin> set (xs @ x # ys)) \<Longrightarrow> dll (unlinked x h) p (xs @ ys)"
proof (induction xs arbitrary: p)
  case Nil
  have x: "pg_prev (h x) = p" "pg_next (h x) = head_of ys" using Nil(1) by (simp_all add: head_of_def)
  show ?case
  proof (cases ys)
    case (Cons y zs)
    have "dll (unlinked x h) (Some y) zs = dll h (Some y) zs"
      using Nil(2,3) Cons x by (intro dll_cong) (auto simp: unlinked_fields)
    then show ?thesis using Nil Cons x by (auto simp: unlinked_fields)
  qed simp
next
  case (Cons z xs)
  have IH: "dll (unlinked x h) (Some z) (xs @ ys)" using Cons.IH [of "Some z"] Cons.prems(1,2) by auto
  have pn: "pg_prev (h x) = Some (last (z # xs))" "pg_next (h x) = head_of ys"
    using dll_prev [OF Cons.prems(1)] dll_next [OF Cons.prems(1)] by simp_all
  have z: "pg_next (h x) \<noteq> Some z" using pn(2) Cons.prems(2) by (auto simp: head_of_def dest: hd_in_set)
  have "pg_next (unlinked x h z) = (if xs @ ys = [] then None else Some (hd (xs @ ys)))"
  proof (cases "xs = []")
    case True
    then show ?thesis using pn by (simp add: unlinked_fields head_of_def)
  next
    case False
    then have "last xs \<noteq> z" using Cons.prems(2) last_in_set [of xs] by auto
    then show ?thesis using False pn Cons.prems(1) by (simp add: unlinked_fields)
  qed
  then show ?case using IH z Cons.prems(1) by (simp add: unlinked_fields)
qed

definition list_ok :: "(nat \<Rightarrow> page) \<Rightarrow> nat option \<Rightarrow> nat set \<Rightarrow> bool" where
  "list_ok h f A \<longleftrightarrow> (\<exists>xs. dll h None xs \<and> f = head_of xs \<and> distinct xs \<and> set xs = A)"

definition same_links :: "(nat \<Rightarrow> page) \<Rightarrow> (nat \<Rightarrow> page) \<Rightarrow> nat \<Rightarrow> bool" where
  "same_links h h' x \<longleftrightarrow> pg_prev (h' x) = pg_prev (h x) \<and> pg_next (h' x) = pg_next (h x)"

lemma list_ok_frame: "list_ok h f A \<Longrightarrow> (\<And>x. x \<in> A \<Longrightarrow> same_links h h' x) \<Longrightarrow> list_ok h' f A"
  unfolding list_ok_def same_links_def by (metis dll_cong)

lemma list_ok_empty: "list_ok h None A \<longleftrightarrow> A = {}"
  by (auto simp: list_ok_def head_of_def)

lemma list_ok_head: "list_ok h (Some r) A \<Longrightarrow> r \<in> A \<and> pg_prev (h r) = None"
  by (auto simp: list_ok_def head_of_def neq_Nil_conv split: if_splits)

lemma list_ok_single: "pg_prev (h x) = None \<Longrightarrow> pg_next (h x) = None \<Longrightarrow> list_ok h (Some x) {x}"
  unfolding list_ok_def by (intro exI [of _ "[x]"]) simp

lemma list_ok_unlink:
  assumes "list_ok h f A" "x \<in> A"
  shows "list_ok (unlinked x h) (if pg_prev (h x) = None then pg_next (h x) else f) (A - {x})"
    and "y \<notin> A \<Longrightarrow> same_links h (unlinked x h) y"
proof -
  obtain xs where xs: "dll h None xs" "f = head_of xs" "distinct xs" "set xs = A" using assms(1) by (auto simp: list_ok_def)
  obtain as bs where ab: "xs = as @ x # bs" using split_list [of x xs] xs(4) assms(2) by blast
  have pn: "pg_prev (h x) = (if as = [] then None else Some (last as))" "pg_next (h x) = head_of bs"
    using dll_prev dll_next xs(1) ab by blast+
  have "dll (unlinked x h) None (as @ bs)" using dll_unlink [of h None as x bs] xs(1,3) ab by simp
  moreover have "(if pg_prev (h x) = None then pg_next (h x) else f) = head_of (as @ bs)"
    using pn xs(2) ab by (cases as) auto
  moreover have "distinct (as @ bs)" "set (as @ bs) = A - {x}" using xs(3,4) ab by auto
  ultimately show "list_ok (unlinked x h) (if pg_prev (h x) = None then pg_next (h x) else f) (A - {x})" unfolding list_ok_def by blast
  assume y: "y \<notin> A"
  then have "pg_next (h x) \<noteq> Some y" "pg_prev (h x) \<noteq> Some y"
    using pn xs(4) ab by (auto simp: head_of_def split: if_splits dest: hd_in_set last_in_set)
  then show "same_links h (unlinked x h) y" by (simp add: same_links_def unlinked_fields)
qed

text \<open>A page is put in front of a list.\<close>

definition pushed :: "nat \<Rightarrow> nat option \<Rightarrow> (nat \<Rightarrow> page) \<Rightarrow> nat \<Rightarrow> page" where
  "pushed p f h = (let h1 = h(p := (h p)\<lparr>pg_next := f, pg_prev := None\<rparr>) in case f of None \<Rightarrow> h1 | Some y \<Rightarrow> h1(y := (h1 y)\<lparr>pg_prev := Some p\<rparr>))"

lemma push_page_eq: "headers (push_page b p s) = pushed p (free_list s b) (headers s)" "free_list (push_page b p s) = (free_list s)(b := Some p)"
  "memory_size (push_page b p s) = memory_size s" "max_bit_size (push_page b p s) = max_bit_size s"
  by (simp_all add: push_page_def pushed_def set_free_def set_prev_def set_page_def Let_def split: option.split)

lemma pushed_fields: "f \<noteq> Some p \<Longrightarrow> pg_bits (pushed p f h y) = pg_bits (h y)
    \<and> pg_next (pushed p f h y) = (if y = p then f else pg_next (h y))
    \<and> pg_prev (pushed p f h y) = (if y = p then None else if f = Some y then Some p else pg_prev (h y))"
  by (cases f) (auto simp: pushed_def)

lemma list_ok_push:
  assumes "list_ok h f A" "p \<notin> A"
  shows "list_ok (pushed p f h) (Some p) (insert p A)"
    and "y \<notin> A \<Longrightarrow> y \<noteq> p \<Longrightarrow> same_links h (pushed p f h) y"
    and "pg_bits (pushed p f h y) = pg_bits (h y)"
proof -
  obtain xs where xs: "dll h None xs" "f = head_of xs" "distinct xs" "set xs = A" using assms(1) by (auto simp: list_ok_def)
  have f: "f \<noteq> Some p" using assms(2) xs by (auto simp: head_of_def split: if_splits)
  note fields = pushed_fields [OF f, of h]
  have "dll (pushed p f h) (Some p) xs"
  proof (cases xs)
    case (Cons z zs)
    have "dll (pushed p f h) (Some z) zs = dll h (Some z) zs"
      using xs Cons assms(2) fields by (intro dll_cong) auto
    then show ?thesis using xs Cons assms(2) fields by auto
  qed simp
  then have "dll (pushed p f h) None (p # xs)" using fields xs(2) by (simp add: head_of_def)
  then show "list_ok (pushed p f h) (Some p) (insert p A)"
    unfolding list_ok_def using xs assms(2) by (intro exI [of _ "p # xs"]) simp
  show "y \<notin> A \<Longrightarrow> y \<noteq> p \<Longrightarrow> same_links h (pushed p f h) y"
    using fields xs by (auto simp: same_links_def head_of_def split: if_splits)
  show "pg_bits (pushed p f h y) = pg_bits (h y)" using fields by blast
qed

section \<open>The invariant\<close>

type_synonym page_table = "nat \<Rightarrow> (nat \<times> bool) option"

definition sizes :: "page_table \<Rightarrow> nat \<Rightarrow> nat option" where
  "sizes t p = map_option fst (t p)"

definition free_pages :: "page_table \<Rightarrow> nat \<Rightarrow> nat set" where
  "free_pages t b = {p. t p = Some (b, False)}"

definition heads_ok :: "(nat \<Rightarrow> page) \<Rightarrow> page_table \<Rightarrow> bool" where
  "heads_ok h t \<longleftrightarrow> (\<forall>p b u. t p = Some (b, u) \<longrightarrow> 5 \<le> b \<and> b < 63 \<and> pg_bits (h p) = int b + (if u then page_in_use else 0))"

definition lists_ok :: "(nat \<Rightarrow> page) \<Rightarrow> (nat \<Rightarrow> nat option) \<Rightarrow> page_table \<Rightarrow> bool" where
  "lists_ok h f t \<longleftrightarrow> (\<forall>b. list_ok h (f b) (free_pages t b))"

text \<open>No free page has a free buddy of its size: the pages are merged as far as possible.\<close>

definition merged :: "page_table \<Rightarrow> bool" where
  "merged t \<longleftrightarrow> (\<forall>p b. t p = Some (b, False) \<longrightarrow> t (buddy_of p b) \<noteq> Some (b, False))"

definition usable :: "buddy_allocator \<Rightarrow> nat" where
  "usable s = memory_size s - memory_size s mod 32"

definition limits_ok :: "buddy_allocator \<Rightarrow> bool" where
  "limits_ok s \<longleftrightarrow> (\<forall>b \<ge> 5. 2 ^ b \<le> memory_size s \<longrightarrow> int b \<le> max_bit_size s) \<and> max_bit_size s < 63"

definition buddy_inv :: "buddy_allocator \<Rightarrow> page_table \<Rightarrow> bool" where
  "buddy_inv s t \<longleftrightarrow> tiles (sizes t) (usable s) \<and> heads_ok (headers s) t \<and> lists_ok (headers s) (free_list s) t \<and> merged t \<and> limits_ok s"

lemma sizes_upd [simp]: "sizes (t(p \<mapsto> (b, u))) = (sizes t)(p \<mapsto> b)" "sizes (t(p := None)) = (sizes t)(p := None)"
  by (auto simp: sizes_def)

lemma sizes_Some: "t p = Some (b, u) \<Longrightarrow> sizes t p = Some b"
  by (simp add: sizes_def)

lemma sizes_tag: "t p = Some (b, u) \<Longrightarrow> sizes (t(p \<mapsto> (b, v))) = sizes t"
  using sizes_Some [of t p b u] by (simp add: fun_upd_idem)

lemma page_bits:
  assumes "buddy_inv s t" "t p = Some (b, u)"
  shows "5 \<le> b" "b < 63" "int b \<le> max_bit_size s" "p + 2 ^ b \<le> usable s" "2 ^ b dvd p"
    "pg_bits (headers s p) = int b + (if u then page_in_use else 0)"
proof -
  have t: "tiles (sizes t) (usable s)" "heads_ok (headers s) t" "limits_ok s" using assms(1) by (auto simp: buddy_inv_def)
  show "5 \<le> b" "b < 63" "pg_bits (headers s p) = int b + (if u then page_in_use else 0)" using t(2) assms(2) by (auto simp: heads_ok_def)
  show le: "p + 2 ^ b \<le> usable s" "2 ^ b dvd p" using tilesD(1,2) [OF t(1) sizes_Some [of t p b u]] assms(2) by auto
  have "2 ^ b \<le> memory_size s" using le(1) by (simp add: usable_def)
  then show "int b \<le> max_bit_size s" using t(3) \<open>5 \<le> b\<close> by (simp add: limits_ok_def)
qed

section \<open>Allocation\<close>

lemma free_pages_upd: "free_pages (t(p \<mapsto> (c, u))) b = (if \<not> u \<and> c = b then insert p (free_pages t b) else free_pages t b - {p})"
  "free_pages (t(p := None)) b = free_pages t b - {p}"
  by (auto simp: free_pages_def)

lemma used_not_free: "t p = Some (b, True) \<Longrightarrow> p \<notin> free_pages t c" "t p = None \<Longrightarrow> p \<notin> free_pages t c"
  by (simp_all add: free_pages_def)

lemma free_other: "p \<in> free_pages t b \<Longrightarrow> b \<noteq> c \<Longrightarrow> p \<notin> free_pages t c"
  by (simp add: free_pages_def)

text \<open>The page header of a page that is not free may be written.\<close>

lemma lists_ok_set: "lists_ok h f t \<Longrightarrow> (\<And>b. p \<notin> free_pages t b) \<Longrightarrow> lists_ok (h(p := g)) f t"
proof -
  assume l: "lists_ok h f t" and p: "\<And>b. p \<notin> free_pages t b"
  have "list_ok (h(p := g)) (f b) (free_pages t b)" for b
  proof (rule list_ok_frame [of h])
    fix x assume "x \<in> free_pages t b"
    then have "x \<noteq> p" using p by blast
    then show "same_links h (h(p := g)) x" by (simp add: same_links_def)
  qed (use l in \<open>simp add: lists_ok_def\<close>)
  then show ?thesis by (simp add: lists_ok_def)
qed

lemma lists_ok_unlink:
  assumes "lists_ok h f t" "t x = Some (b, False)" "f' = (if pg_prev (h x) = None then f(b := pg_next (h x)) else f)"
    "\<And>d. free_pages t' d = free_pages t d - {x}"
  shows "lists_ok (unlinked x h) f' t'"
proof -
  have x: "x \<in> free_pages t b" using assms(2) by (simp add: free_pages_def)
  have l: "list_ok h (f d) (free_pages t d)" for d using assms(1) by (simp add: lists_ok_def)
  have "list_ok (unlinked x h) (f' d) (free_pages t d - {x})" for d
  proof (cases "d = b")
    case True
    have "f' b = (if pg_prev (h x) = None then pg_next (h x) else f b)" unfolding assms(3) by simp
    then show ?thesis using list_ok_unlink(1) [OF l x] True by metis
  next
    case False
    then have nd: "free_pages t d - {x} = free_pages t d" "f' d = f d" using free_other [OF x] unfolding assms(3) by auto
    have "list_ok (unlinked x h) (f d) (free_pages t d)"
    proof (rule list_ok_frame [OF l])
      fix y assume "y \<in> free_pages t d"
      then have "y \<notin> free_pages t b" using free_other [of y t d b] False by simp
      then show "same_links h (unlinked x h) y" by (rule list_ok_unlink(2) [OF l x])
    qed
    then show ?thesis unfolding nd .
  qed
  then show ?thesis by (simp add: lists_ok_def assms(4))
qed

lemma merged_use: "merged t \<Longrightarrow> merged (t(p \<mapsto> (b, True)))" "merged t \<Longrightarrow> merged (t(p := None))"
  by (auto simp: merged_def)

lemma buddy_of_neq: "2 ^ b dvd p \<Longrightarrow> buddy_of p b \<noteq> p"
proof
  assume "2 ^ b dvd p" "buddy_of p b = p"
  obtain m where "{p, buddy_of p b} = {m, m + 2 ^ b}" by (rule parent_block [OF \<open>2 ^ b dvd p\<close>])
  then have "m = p" "m + 2 ^ b = p" unfolding \<open>buddy_of p b = p\<close> by blast+
  then show False by simp
qed

text \<open>Taking the first page of a list.\<close>

lemma take_inv:
  assumes inv: "buddy_inv s t" and r: "free_list s b = Some r"
    and s': "s' = set_page r \<lparr>pg_bits = int b + page_in_use, pg_next = None, pg_prev = None\<rparr> (set_prev (pg_next (headers s r)) None (set_free b (pg_next (headers s r)) s))"
  shows "t r = Some (b, False)" "buddy_inv s' (t(r \<mapsto> (b, True)))" "memory_size s' = memory_size s" "max_bit_size s' = max_bit_size s"
proof -
  have i: "tiles (sizes t) (usable s)" "heads_ok (headers s) t" "lists_ok (headers s) (free_list s) t" "merged t" "limits_ok s"
    using inv by (auto simp: buddy_inv_def)
  have "list_ok (headers s) (Some r) (free_pages t b)" using i(3) r by (auto simp: lists_ok_def dest: spec [of _ b])
  note hd = list_ok_head [OF this]
  then show tr: "t r = Some (b, False)" by (simp add: free_pages_def)
  have prev: "pg_prev (headers s r) = None" using hd by blast
  show same: "memory_size s' = memory_size s" "max_bit_size s' = max_bit_size s" by (simp_all add: s')
  have h: "headers s' = (unlinked r (headers s))(r := \<lparr>pg_bits = int b + page_in_use, pg_next = None, pg_prev = None\<rparr>)"
    using prev by (auto simp: s' unlinked_def set_page_def set_prev_def set_free_def split: option.split)
  have f: "free_list s' = (if pg_prev (headers s r) = None then (free_list s)(b := pg_next (headers s r)) else free_list s)"
    using prev by (auto simp: s' set_page_def set_prev_def set_free_def split: option.split)
  have "lists_ok (unlinked r (headers s)) (free_list s') (t(r \<mapsto> (b, True)))" by (rule lists_ok_unlink [OF i(3) tr f]) (simp add: free_pages_upd)
  then have "lists_ok (headers s') (free_list s') (t(r \<mapsto> (b, True)))" unfolding h
    by (rule lists_ok_set) (simp add: free_pages_def)
  moreover have "heads_ok (headers s') (t(r \<mapsto> (b, True)))"
    using i(2) tr unfolding heads_ok_def h by (auto simp: unlinked_fields)
  moreover have "tiles (sizes (t(r \<mapsto> (b, True)))) (usable s')" using i(1) sizes_tag [of t r, OF tr] same by (simp add: usable_def)
  moreover have "limits_ok s'" using i(5) same by (simp add: limits_ok_def)
  ultimately show "buddy_inv s' (t(r \<mapsto> (b, True)))" using merged_use(1) [OF i(4)] by (simp add: buddy_inv_def)
qed

text \<open>Cutting a page in use into a page in use and a free one, when no page of that size is free.\<close>

lemma split_inv:
  assumes inv: "buddy_inv s t" and r: "t r = Some (Suc b, True)" and b: "5 \<le> b" and e: "free_list s b = None"
    and s': "s' = set_page r \<lparr>pg_bits = int b + page_in_use, pg_next = None, pg_prev = None\<rparr>
               (set_free b (Some (r + 2 ^ b)) (set_page (r + 2 ^ b) \<lparr>pg_bits = int b, pg_next = None, pg_prev = None\<rparr> s))"
  shows "buddy_inv s' (t(r \<mapsto> (b, True), r + 2 ^ b \<mapsto> (b, False)))" "t (r + 2 ^ b) = None"
    "memory_size s' = memory_size s" "max_bit_size s' = max_bit_size s"
proof -
  let ?u = "r + 2 ^ b" let ?t = "t(r \<mapsto> (b, True), ?u \<mapsto> (b, False))"
  have i: "tiles (sizes t) (usable s)" "heads_ok (headers s) t" "lists_ok (headers s) (free_list s) t" "merged t" "limits_ok s"
    using inv by (auto simp: buddy_inv_def)
  note sr = sizes_Some [of t r "Suc b" True, OF r] and h = second_half [of r b]
  show none: "t ?u = None" using tiles_inside [OF i(1) sr h] by (simp add: sizes_def)
  show same: "memory_size s' = memory_size s" "max_bit_size s' = max_bit_size s" by (simp_all add: s')
  have hd: "headers s' = (headers s)(?u := \<lparr>pg_bits = int b, pg_next = None, pg_prev = None\<rparr>, r := \<lparr>pg_bits = int b + page_in_use, pg_next = None, pg_prev = None\<rparr>)"
    "free_list s' = (free_list s)(b := Some ?u)" by (simp_all add: s' set_page_def set_free_def)
  have fb: "free_pages t b = {}" using i(3) e list_ok_empty unfolding lists_ok_def by metis
  have "lists_ok (headers s') (free_list s) t" unfolding hd
    by (intro lists_ok_set i(3)) (use used_not_free(1) [of t r, OF r] used_not_free(2) [of t "r + 2 ^ b", OF none] in auto)
  then have l: "list_ok (headers s') (free_list s c) (free_pages t c)" for c by (simp add: lists_ok_def)
  have "list_ok (headers s') (free_list s' c) (free_pages ?t c)" for c
  proof (cases "c = b")
    case True
    have "list_ok (headers s') (Some ?u) {?u}" using h(2) by (intro list_ok_single) (simp_all add: hd)
    then show ?thesis using True fb h(2) by (simp add: hd free_pages_upd)
  next
    case False
    then show ?thesis using l [of c] used_not_free(1) [of t r, OF r] used_not_free(2) [of t "r + 2 ^ b", OF none] by (simp add: hd free_pages_upd)
  qed
  then have "lists_ok (headers s') (free_list s') ?t" by (simp add: lists_ok_def)
  moreover have "tiles (sizes ?t) (usable s')" using tiles_split [OF i(1) sr] same by (simp add: usable_def)
  moreover have "heads_ok (headers s') ?t" using i(2) b page_bits(2) [OF inv r] h(2) unfolding heads_ok_def hd by auto
  moreover have "merged ?t"
  proof -
    have dvd: "2 ^ Suc b dvd r" using page_bits(5) [OF inv r] .
    then have "2 ^ b dvd r" by (meson dvd_trans le_imp_power_dvd le_SucI le_refl)
    then have bu: "buddy_of r b = ?u" "buddy_of ?u b = r" using buddy_of_eq [of b r] dvd buddy_of_twice [of r b] by simp_all
    then have "buddy_of p c \<noteq> ?u \<or> c \<noteq> b" if "p \<noteq> r" for p c using that buddy_of_twice [of p b] by metis
    then show ?thesis using i(4) bu h(2) by (auto simp: merged_def split: if_splits)
  qed
  moreover have "limits_ok s'" using i(5) same by (simp add: limits_ok_def)
  ultimately show "buddy_inv s' ?t" by (simp add: buddy_inv_def)
qed

text \<open>What an allocation gives: a page of the size that was not in use before, with every page in use left alone.\<close>

definition allocated :: "nat \<Rightarrow> nat \<Rightarrow> page_table \<Rightarrow> page_table \<Rightarrow> bool" where
  "allocated b r t t' \<longleftrightarrow> t' r = Some (b, True) \<and> (\<forall>c. t r \<noteq> Some (c, True)) \<and> (\<forall>p c. p \<noteq> r \<longrightarrow> (t' p = Some (c, True)) = (t p = Some (c, True)))
     \<and> (\<forall>p c. c < b \<longrightarrow> (t' p = Some (c, False)) = (t p = Some (c, False)))"

definition same_limits :: "buddy_allocator \<Rightarrow> buddy_allocator \<Rightarrow> bool" where
  "same_limits s s' \<longleftrightarrow> memory_size s' = memory_size s \<and> max_bit_size s' = max_bit_size s"

lemma page_alloc_take:
  assumes "buddy_inv s t" "int b \<le> max_bit_size s" "free_list s b = Some r"
  shows "\<exists>s' t'. page_alloc b s = (Some r, s') \<and> buddy_inv s' t' \<and> allocated b r t t' \<and> same_limits s s'"
proof -
  define s' where "s' = set_page r \<lparr>pg_bits = int b + page_in_use, pg_next = None, pg_prev = None\<rparr> (set_prev (pg_next (headers s r)) None (set_free b (pg_next (headers s r)) s))"
  note i = take_inv [OF assms(1,3) s'_def]
  have "page_alloc b s = (Some r, s')" using assms(2,3) by (simp add: page_alloc.simps [of b s] s'_def Let_def)
  moreover have "allocated b r t (t(r \<mapsto> (b, True)))" using i(1) by (simp add: allocated_def)
  ultimately show ?thesis using i(2-4) by (auto simp: same_limits_def)
qed

lemma page_alloc_split:
  assumes "buddy_inv s t" "int b \<le> max_bit_size s" "free_list s b = None" "5 \<le> b"
    "page_alloc (Suc b) s = (Some r, s1)" "buddy_inv s1 t1" "allocated (Suc b) r t t1" "same_limits s s1"
  shows "\<exists>s' t'. page_alloc b s = (Some r, s') \<and> buddy_inv s' t' \<and> allocated b r t t' \<and> same_limits s s'"
proof -
  define s' where "s' = set_page r \<lparr>pg_bits = int b + page_in_use, pg_next = None, pg_prev = None\<rparr>
               (set_free b (Some (r + 2 ^ b)) (set_page (r + 2 ^ b) \<lparr>pg_bits = int b, pg_next = None, pg_prev = None\<rparr> s1))"
  let ?t = "t1(r \<mapsto> (b, True), r + 2 ^ b \<mapsto> (b, False))"
  have "free_pages t b = {}" using assms(1,3) list_ok_empty unfolding buddy_inv_def lists_ok_def by metis
  then have "free_pages t1 b = {}" using assms(7) by (auto simp: allocated_def free_pages_def)
  then have e: "free_list s1 b = None" using assms(6) unfolding buddy_inv_def lists_ok_def by (metis emptyE list_ok_head option.exhaust)
  have r: "t1 r = Some (Suc b, True)" using assms(7) by (simp add: allocated_def)
  note i = split_inv [OF assms(6) r assms(4) e s'_def]
  have "page_alloc b s = (Some r, s')" using assms(2,3,5) by (simp add: page_alloc.simps [of b s] s'_def Let_def)
  moreover have "allocated b r t ?t"
  proof -
    have used: "(t1 p = Some (c, True)) = (t p = Some (c, True))" if "p \<noteq> r" for p c using assms(7) that by (simp add: allocated_def)
    have free: "(t1 p = Some (c, False)) = (t p = Some (c, False))" if "c < b" for p c using assms(7) that by (simp add: allocated_def)
    have none: "t (r + 2 ^ b) \<noteq> Some (c, True)" "c < b \<Longrightarrow> t (r + 2 ^ b) \<noteq> Some (c, False)" "c < b \<Longrightarrow> t r \<noteq> Some (c, False)" for c
      using used [of "r + 2 ^ b" c] free [of c "r + 2 ^ b"] free [of c r] i(2) r by simp_all
    moreover have "t r \<noteq> Some (c, True)" for c using assms(7) by (simp add: allocated_def)
    ultimately show ?thesis using used free by (simp add: allocated_def)
  qed
  moreover have "same_limits s s'" using i(3,4) assms(8) by (simp add: same_limits_def)
  ultimately show ?thesis using i(1) by blast
qed

lemma page_alloc_correct:
  assumes "buddy_inv s t" "5 \<le> b"
  shows "case page_alloc b s of
      (None, s') \<Rightarrow> s' = s \<and> (\<forall>p c. t p = Some (c, False) \<longrightarrow> c < b)
    | (Some r, s') \<Rightarrow> \<exists>t'. buddy_inv s' t' \<and> allocated b r t t' \<and> same_limits s s'"
  using assms(2)
proof (induction "nat (max_bit_size s + 1 - int b)" arbitrary: b rule: less_induct)
  case less
  show ?case
  proof (cases "int b > max_bit_size s")
    case True
    then have "c < b" if "t p = Some (c, False)" for p c using page_bits(3) [OF assms(1) that] by simp
    then show ?thesis using True by (simp add: page_alloc.simps [of b s])
  next
    case False
    show ?thesis
    proof (cases "free_list s b")
      case (Some r)
      have "int b \<le> max_bit_size s" using False by simp
      from page_alloc_take [OF assms(1) this Some] obtain s' t' where "page_alloc b s = (Some r, s')" "buddy_inv s' t'" "allocated b r t t'" "same_limits s s'" by blast
      then show ?thesis by (simp, blast)
    next
      case None
      have IH: "case page_alloc (Suc b) s of (None, s') \<Rightarrow> s' = s \<and> (\<forall>p c. t p = Some (c, False) \<longrightarrow> c < Suc b)
          | (Some r, s') \<Rightarrow> \<exists>t'. buddy_inv s' t' \<and> allocated (Suc b) r t t' \<and> same_limits s s'"
        using less(1) [of "Suc b"] less(2) False by simp
      obtain x s1 where a: "page_alloc (Suc b) s = (x, s1)" by fastforce
      show ?thesis
      proof (cases x)
        case x: None
        have "free_pages t b = {}" using assms(1) None list_ok_empty unfolding buddy_inv_def lists_ok_def by metis
        moreover have "c < Suc b" if "t p = Some (c, False)" for p c using IH a x that by auto
        ultimately have "c < b" if "t p = Some (c, False)" for p c using that by (fastforce simp: free_pages_def less_Suc_eq)
        moreover have "page_alloc b s = (None, s)" using None False IH a x by (simp add: page_alloc.simps [of b s])
        ultimately show ?thesis by simp
      next
        case (Some r)
        then obtain t1 where "buddy_inv s1 t1" "allocated (Suc b) r t t1" "same_limits s s1" using IH a by auto
        moreover have "int b \<le> max_bit_size s" using False by simp
        ultimately obtain s' t' where "page_alloc b s = (Some r, s')" "buddy_inv s' t'" "allocated b r t t'" "same_limits s s'"
          using page_alloc_split [OF assms(1) _ None less(2), of r s1 t1] a Some by blast
        then show ?thesis by (simp, blast)
      qed
    qed
  qed
qed

section \<open>Freeing\<close>

text \<open>
  A page in use is given back.  In front of each round of the loop the invariant holds with the page in use; the round merges it with
  its buddy, or puts it into its list.
\<close>

lemma multiple_le: "d dvd x \<Longrightarrow> x \<le> n \<longleftrightarrow> x \<le> n - n mod d" for x n d :: nat
proof
  assume "d dvd x" "x \<le> n"
  then have "x div d * d \<le> n div d * d" by (intro mult_le_mono1 div_le_mono)
  then show "x \<le> n - n mod d" using \<open>d dvd x\<close> by (simp add: minus_mod_eq_div_mult)
qed simp

lemma unmark_buddy:
  assumes "buddy_inv s t" "t p = Some (b, True)"
  shows "get_buddy p (set_bits p (int b) s) = (if buddy_of p b + 2 ^ b \<le> usable s then Some (buddy_of p b) else None)"
proof -
  have "32 dvd (2 :: nat) ^ b" using le_imp_power_dvd [of 5 b 2] page_bits(1) [OF assms] by simp
  then have "32 dvd buddy_of p b + 2 ^ b" using buddy_dvd [OF page_bits(5) [OF assms]] by (meson dvd_add dvd_trans)
  then have "buddy_of p b + 2 ^ b \<le> memory_size s \<longleftrightarrow> buddy_of p b + 2 ^ b \<le> usable s"
  proof -
    assume "32 dvd buddy_of p b + 2 ^ b"
    then show ?thesis unfolding usable_def by (rule multiple_le)
  qed
  then show ?thesis by (auto simp: get_buddy_def buddy_of_def Let_def)
qed

lemma free_push:
  assumes inv: "buddy_inv s t" and p: "t p = Some (b, True)" and nb: "t (buddy_of p b) \<noteq> Some (b, False)"
  shows "buddy_inv (push_page b p (set_bits p (int b) s)) (t(p \<mapsto> (b, False)))"
proof -
  let ?s = "set_bits p (int b) s" let ?t = "t(p \<mapsto> (b, False))" let ?s' = "push_page b p ?s"
  have i: "tiles (sizes t) (usable s)" "heads_ok (headers s) t" "lists_ok (headers s) (free_list s) t" "merged t" "limits_ok s"
    using inv by (auto simp: buddy_inv_def)
  have same: "usable ?s' = usable s" "limits_ok ?s'" using i(5) by (simp_all add: usable_def limits_ok_def push_page_eq)
  have f: "free_list ?s = free_list s" "headers ?s = (headers s)(p := (headers s p)\<lparr>pg_bits := int b\<rparr>)" by (simp_all add: set_bits_def set_page_def)
  have np: "p \<notin> free_pages t c" for c using p by (simp add: free_pages_def)
  have "lists_ok (headers ?s) (free_list s) t" unfolding f by (rule lists_ok_set [OF i(3) np])
  then have l: "list_ok (headers ?s) (free_list s c) (free_pages t c)" for c by (simp add: lists_ok_def)
  note push = list_ok_push [OF l [of b] np]
  have "list_ok (headers ?s') (free_list ?s' c) (free_pages ?t c)" for c
  proof (cases "c = b")
    case True
    then show ?thesis using push(1) by (simp add: push_page_eq f free_pages_upd)
  next
    case False
    have "list_ok (pushed p (free_list s b) (headers ?s)) (free_list s c) (free_pages t c)"
    proof (rule list_ok_frame [OF l])
      fix y assume y: "y \<in> free_pages t c"
      then have "y \<notin> free_pages t b" "y \<noteq> p" using free_other [OF y False] np by auto
      then show "same_links (headers ?s) (pushed p (free_list s b) (headers ?s)) y" by (rule push(2))
    qed
    then show ?thesis using False np by (simp add: push_page_eq f free_pages_upd)
  qed
  then have "lists_ok (headers ?s') (free_list ?s') ?t" by (simp add: lists_ok_def)
  moreover have "heads_ok (headers ?s') ?t"
    using i(2) p push(3) unfolding heads_ok_def by (auto simp: push_page_eq f)
  moreover have "tiles (sizes ?t) (usable ?s')" using i(1) sizes_tag [of t p, OF p] same by simp
  moreover have "merged ?t"
  proof -
    have "t q \<noteq> Some (b, False)" if "buddy_of q b = p" for q using that nb buddy_of_twice [of q b] by auto
    moreover have "buddy_of p b \<noteq> p" using buddy_of_neq page_bits(5) [OF inv p] by blast
    ultimately show ?thesis using i(4) nb by (auto simp: merged_def)
  qed
  ultimately show ?thesis using same by (simp add: buddy_inv_def)
qed

lemma free_merge:
  assumes inv: "buddy_inv s t" and p: "t p = Some (b, True)" and q: "t (buddy_of p b) = Some (b, False)" and le: "buddy_of p b + 2 ^ b \<le> usable s"
    and m: "m = (if buddy_of p b < p then buddy_of p b else p)"
    and s': "s' = set_bits m (int b + 1 + page_in_use) (unlink_page b (buddy_of p b) (set_bits p (int b) s))"
  shows "buddy_inv s' (t(p := None, buddy_of p b := None, m \<mapsto> (Suc b, True)))" "same_limits s s'"
proof -
  let ?q = "buddy_of p b" let ?t1 = "t(?q := None)" let ?t = "t(p := None, ?q := None, m \<mapsto> (Suc b, True))" let ?s = "set_bits p (int b) s"
  have i: "tiles (sizes t) (usable s)" "heads_ok (headers s) t" "lists_ok (headers s) (free_list s) t" "merged t" "limits_ok s"
    using inv by (auto simp: buddy_inv_def)
  note dvd = page_bits(5) [OF inv p] note neq = buddy_of_neq [OF dvd]
  show same: "same_limits s s'" by (simp add: same_limits_def s')
  have f: "free_list ?s = free_list s" "headers ?s = (headers s)(p := (headers s p)\<lparr>pg_bits := int b\<rparr>)" by (simp_all add: set_bits_def set_page_def)
  have np: "p \<notin> free_pages t c" for c using p by (simp add: free_pages_def)
  have "lists_ok (headers ?s) (free_list ?s) t" unfolding f by (rule lists_ok_set [OF i(3) np])
  moreover define fl where "fl = (if pg_prev (headers ?s ?q) = None then (free_list ?s)(b := pg_next (headers ?s ?q)) else free_list ?s)"
  ultimately have l: "lists_ok (unlinked ?q (headers ?s)) fl ?t"
    by (rule lists_ok_unlink [where t = t and x = "?q", OF _ q]) (use np in \<open>auto simp: free_pages_upd free_pages_def m\<close>)
  have hs: "headers s' = (unlinked ?q (headers ?s))(m := (unlinked ?q (headers ?s) m)\<lparr>pg_bits := int b + 1 + page_in_use\<rparr>)" "free_list s' = fl"
    by (simp_all add: s' set_bits_def set_page_def headers_unlink free_list_unlink fl_def)
  have "lists_ok (headers s') (free_list s') ?t" unfolding hs by (rule lists_ok_set [OF l]) (simp add: free_pages_def)
  moreover have mq: "m = p \<and> ?q = m + 2 ^ b \<or> m = ?q \<and> p = m + 2 ^ b" "2 ^ Suc b dvd m"
  proof -
    obtain o' where o': "2 ^ Suc b dvd o'" "{p, ?q} = {o', o' + 2 ^ b}" using parent_block [OF dvd] by metis
    then have "p = o' \<and> ?q = o' + 2 ^ b \<or> ?q = o' \<and> p = o' + 2 ^ b" by (metis doubleton_eq_iff)
    then show "m = p \<and> ?q = m + 2 ^ b \<or> m = ?q \<and> p = m + 2 ^ b" "2 ^ Suc b dvd m" using o'(1) m by auto
  qed
  have tl: "tiles (sizes ?t) (usable s')"
  proof -
    have z: "sizes t m = Some b" "sizes t (m + 2 ^ b) = Some b" using mq(1) sizes_Some [of t p, OF p] sizes_Some [of t ?q, OF q] by auto
    have "sizes ?t = (sizes t)(m \<mapsto> Suc b, m + 2 ^ b := None)" using mq(1) neq second_half(2) [of m b] by (auto simp: sizes_def)
    then show ?thesis using tiles_merge [OF i(1) z mq(2)] same by (simp add: same_limits_def usable_def)
  qed
  moreover have "limits_ok s'" using i(5) same by (simp add: same_limits_def limits_ok_def)
  moreover have "heads_ok (headers s') ?t"
  proof -
    have "m + 2 ^ Suc b \<le> usable s'" using tilesD(2) [OF tl, of m "Suc b"] by (simp add: sizes_def)
    then have "2 ^ Suc b \<le> memory_size s'" by (simp add: usable_def)
    then have "int (Suc b) < 63" using \<open>limits_ok s'\<close> page_bits(1) [OF inv p] unfolding limits_ok_def by (meson le_SucI le_less_trans)
    then show ?thesis using i(2) page_bits(1) [OF inv p] unfolding heads_ok_def hs by (auto simp: unlinked_fields f)
  qed
  moreover have "merged ?t" using merged_use(1) [OF merged_use(2) [OF merged_use(2) [OF i(4)]]] .
  ultimately show "buddy_inv s' ?t" by (simp add: buddy_inv_def)
qed

text \<open>What freeing does to the pages in use: it takes one away.\<close>

definition released :: "nat \<Rightarrow> page_table \<Rightarrow> page_table \<Rightarrow> bool" where
  "released p t t' \<longleftrightarrow> (\<forall>q c. (t' q = Some (c, True)) = (q \<noteq> p \<and> t q = Some (c, True)))"

lemma free_page_correct:
  assumes "buddy_inv s t" "t p = Some (b, True)"
  shows "\<exists>t'. buddy_inv (free_page p s) t' \<and> released p t t' \<and> same_limits s (free_page p s)"
  using assms
proof (induction "63 - b" arbitrary: s t p b rule: less_induct)
  case less
  note inv = less.prems(1) and p = less.prems(2)
  let ?q = "buddy_of p b" let ?s = "set_bits p (int b) s"
  have bits: "pg_bits (headers s p) - page_in_use = int b" using page_bits(6) [OF inv p] by simp
  note gb = unmark_buddy [OF inv p]
  have hq: "pg_bits (headers ?s ?q) = pg_bits (headers s ?q)" if "?q \<noteq> p" using that by (simp add: set_bits_def set_page_def)
  have neq: "?q \<noteq> p" using buddy_of_neq page_bits(5) [OF inv p] by blast
  have step: "free_page p s = (if ?q + 2 ^ b \<le> usable s \<and> pg_bits (headers s ?q) = int b then
       (let m = (if ?q < p then ?q else p) in free_page m (set_bits m (int b + 1 + page_in_use) (unlink_page b ?q ?s))) else push_page b p ?s)"
    using gb hq [OF neq] bits by (subst free_page.simps) (simp add: Let_def)
  show ?case
  proof (cases "?q + 2 ^ b \<le> usable s \<and> pg_bits (headers s ?q) = int b")
    case True
    have "tiles (sizes t) (usable s)" using inv by (simp add: buddy_inv_def)
    from buddy_at [OF this sizes_Some [of t p, OF p] conjunct1 [OF True]] obtain c where "sizes t ?q = Some c" "c \<le> b" .
    then obtain u where c: "t ?q = Some (c, u)" "c \<le> b" by (auto simp: sizes_def)
    have "c = b" "\<not> u" using page_bits(2,6) [OF inv c(1)] True page_bits(2) [OF inv p] c(2) by (auto simp: page_in_use_def split: if_splits)
    then have q: "t ?q = Some (b, False)" using c(1) by simp
    define m where "m = (if ?q < p then ?q else p)"
    define s' where "s' = set_bits m (int b + 1 + page_in_use) (unlink_page b ?q ?s)"
    let ?t = "t(p := None, ?q := None, m \<mapsto> (Suc b, True))"
    note fm = free_merge [OF inv p q conjunct1 [OF True] m_def s'_def]
    have fp: "free_page p s = free_page m s'" using step True by (simp add: m_def s'_def Let_def)
    have "63 - Suc b < 63 - b" using page_bits(2) [OF inv p] by simp
    from less.hyps [OF this fm(1), of m] obtain t' where t': "buddy_inv (free_page m s') t'" "released m ?t t'" "same_limits s' (free_page m s')" by auto
    have "released p t t'" using t'(2) q unfolding released_def m_def by (auto split: if_splits)
    then show ?thesis using t' fm(2) fp by (auto simp: same_limits_def)
  next
    case False
    have "t ?q \<noteq> Some (b, False)"
    proof
      assume q: "t ?q = Some (b, False)"
      then show False using False page_bits(4,6) [OF inv q] by simp
    qed
    from free_push [OF inv p this] have "buddy_inv (free_page p s) (t(p \<mapsto> (b, False)))" using step False by auto
    moreover have "released p t (t(p \<mapsto> (b, False)))" by (simp add: released_def)
    moreover have "same_limits s (free_page p s)" using step False by (auto simp: same_limits_def push_page_eq)
    ultimately show ?thesis by blast
  qed
qed

section \<open>The constructor\<close>

lemma containts_bits_ge:
  assumes "32 \<le> n" "n < 2 ^ 63" shows "5 \<le> containts_bits n"
proof -
  obtain i where i: "2 ^ i \<le> n" "n < 2 ^ (i + 1)" using ex_power_ivl1 [of 2 n] assms(1) by auto
  have "(2 :: nat) ^ i < 2 ^ 63" using i(1) assms(2) by (rule le_less_trans)
  then have "i < 63" by (rule power_less_imp_less_exp [rotated]) simp
  moreover have "(2 :: nat) ^ 5 < 2 ^ (i + 1)" using i(2) assms(1) by simp
  then have "5 < i + 1" by (rule power_less_imp_less_exp [rotated]) simp
  ultimately have "find (\<lambda>i. 2 ^ i \<le> n \<and> n < 2 ^ (i + 1)) (rev [1..<63]) \<noteq> None"
    using i unfolding find_None_iff by (auto intro!: exI [of _ i])
  then obtain j where j: "find (\<lambda>i. 2 ^ i \<le> n \<and> n < 2 ^ (i + 1)) (rev [1..<63]) = Some j" by blast
  then have "(2 :: nat) ^ 5 < 2 ^ (j + 1)" using find_SomeD [OF j] assms(1) by simp
  then have "5 < j + 1" by (rule power_less_imp_less_exp [rotated]) simp
  then show ?thesis using j unfolding containts_bits_def by simp
qed

lemma tiles_extend:
  assumes "tiles z e" "2 ^ b dvd e" shows "tiles (z(e \<mapsto> b)) (e + 2 ^ b)" "z e = None"
proof -
  show none: "z e = None"
  proof (cases "z e")
    case (Some c)
    then show ?thesis using tilesD(2) [OF assms(1) Some] by simp
  qed
  have below: "area p c \<subseteq> {..<e}" if "z p = Some c" for p c using tilesD(2) [OF assms(1) that] by (auto simp: area_def)
  have new: "area e b \<inter> {..<e} = {}" by (auto simp: area_def)
  show "tiles (z(e \<mapsto> b)) (e + 2 ^ b)"
  proof (rule tilesI)
    show "2 ^ c dvd p \<and> p + 2 ^ c \<le> e + 2 ^ b" if "(z(e \<mapsto> b)) p = Some c" for p c
      using that tilesD(1,2) [OF assms(1), of p c] assms(2) by (auto split: if_splits)
    show "area p c \<inter> area q d = {}" if "(z(e \<mapsto> b)) p = Some c" "(z(e \<mapsto> b)) q = Some d" and pq: "p \<noteq> q" for p c q d
    proof -
      consider "p = e" "q \<noteq> e" | "p \<noteq> e" "q = e" | "p \<noteq> e" "q \<noteq> e" using pq by blast
      then show ?thesis
      proof cases
        case 1
        then show ?thesis using below [of q d] new that by auto
      next
        case 2
        then show ?thesis using below [of p c] new that by auto
      next
        case 3
        then show ?thesis using tilesD(3) [OF assms(1), of p c q d] that pq by simp
      qed
    qed
    show "\<exists>p c. (z(e \<mapsto> b)) p = Some c \<and> x \<in> area p c" if "x < e + 2 ^ b" for x
    proof (cases "x < e")
      case True
      then obtain p c where "z p = Some c" "x \<in> area p c" using tiles_cover [OF assms(1)] by blast
      then have "(z(e \<mapsto> b)) p = Some c \<and> x \<in> area p c" using none by auto
      then show ?thesis by blast
    next
      case False
      then have "(z(e \<mapsto> b)) e = Some b \<and> x \<in> area e b" using that by (simp add: area_def)
      then show ?thesis by blast
    qed
  qed
qed

text \<open>The state of the constructor: the chunks added so far are free and larger than what is left.\<close>

definition chunks_ok :: "nat \<Rightarrow> nat \<Rightarrow> nat \<Rightarrow> buddy_allocator \<Rightarrow> page_table \<Rightarrow> bool" where
  "chunks_ok k pos reminder s t \<longleftrightarrow> pos + reminder = memory_size s \<and> tiles (sizes t) pos \<and> heads_ok (headers s) t \<and> lists_ok (headers s) (free_list s) t
     \<and> (\<forall>p b u. t p = Some (b, u) \<longrightarrow> \<not> u \<and> k \<le> b) \<and> (\<forall>p q b u v. t p = Some (b, u) \<longrightarrow> t q = Some (b, v) \<longrightarrow> p = q)
     \<and> 2 ^ k dvd pos \<and> reminder < 2 ^ k \<and> 5 \<le> k \<and> k \<le> 63
     \<and> (max_bit_size s = -1 \<and> pos = 0 \<or> (\<exists>m. max_bit_size s = int m \<and> m < 63 \<and> memory_size s < 2 ^ (m + 1)))"

lemma chunks_step:
  assumes c: "chunks_ok k pos reminder s t" and b: "containts_bits reminder = int b" "5 \<le> b"
  shows "chunks_ok b (pos + 2 ^ b) (reminder - 2 ^ b) (add_chunk pos b s) (t(pos \<mapsto> (b, False)))"
proof -
  let ?s = "add_chunk pos b s" let ?t = "t(pos \<mapsto> (b, False))"
  have i: "pos + reminder = memory_size s" "tiles (sizes t) pos" "heads_ok (headers s) t" "lists_ok (headers s) (free_list s) t"
      "\<And>p b u. t p = Some (b, u) \<Longrightarrow> \<not> u \<and> k \<le> b" "\<And>p q b u v. t p = Some (b, u) \<Longrightarrow> t q = Some (b, v) \<Longrightarrow> p = q"
      "2 ^ k dvd pos" "reminder < 2 ^ k" "max_bit_size s = -1 \<and> pos = 0 \<or> (\<exists>m. max_bit_size s = int m \<and> m < 63 \<and> memory_size s < 2 ^ (m + 1))"
    using c unfolding chunks_ok_def by blast+
  note le = containts_bits_le [OF b(1)]
  have "(2 :: nat) ^ b < 2 ^ k" using le i(8) by linarith
  then have bk: "b < k" by (rule power_less_imp_less_exp [rotated]) simp
  then have dvd: "2 ^ b dvd pos" using i(7) by (meson dvd_trans le_imp_power_dvd less_imp_le)
  note ext = tiles_extend [OF i(2) dvd]
  have none: "t pos = None" using ext(2) by (simp add: sizes_def)
  have hs: "headers ?s = (headers s)(pos := \<lparr>pg_bits = int b, pg_next = None, pg_prev = None\<rparr>)" "free_list ?s = (free_list s)(b := Some pos)"
      "memory_size ?s = memory_size s" "max_bit_size ?s = (if max_bit_size s = -1 then int b else max_bit_size s)"
    by (simp_all add: add_chunk_def set_page_def set_free_def Let_def)
  have np: "pos \<notin> free_pages t d" for d using none by (simp add: free_pages_def)
  have "lists_ok (headers ?s) (free_list s) t" unfolding hs by (rule lists_ok_set [OF i(4) np])
  then have l: "list_ok (headers ?s) (free_list s d) (free_pages t d)" for d by (simp add: lists_ok_def)
  have fb: "free_pages t b = {}" using i(5) bk by (fastforce simp: free_pages_def)
  have "list_ok (headers ?s) (free_list ?s d) (free_pages ?t d)" for d
  proof (cases "d = b")
    case True
    have "list_ok (headers ?s) (Some pos) {pos}" by (intro list_ok_single) (simp_all add: hs)
    then show ?thesis using True fb by (simp add: hs free_pages_upd)
  next
    case False
    then show ?thesis using l [of d] np by (simp add: hs free_pages_upd)
  qed
  then have lists: "lists_ok (headers ?s) (free_list ?s) ?t" by (simp add: lists_ok_def)
  have heads: "heads_ok (headers ?s) ?t" using i(3) b(2) le none unfolding heads_ok_def hs by auto
  have free: "\<not> u \<and> b \<le> c" if "?t p = Some (c, u)" for p c u
  proof (cases "p = pos")
    case False
    then show ?thesis using i(5) [of p c u] that bk by simp
  qed (use that in simp)
  have unique: "p = q" if pc: "?t p = Some (c, u)" and qc: "?t q = Some (c, v)" for p q c u v
  proof -
    have "c \<noteq> b" if "r \<noteq> pos" "?t r = Some (c, w)" for r w using i(5) [of r c w] that bk by simp
    then have "p = pos \<longleftrightarrow> q = pos" using pc qc by fastforce
    then show ?thesis using i(6) [of p c u q v] pc qc by auto
  qed
  have "\<exists>m. max_bit_size ?s = int m \<and> m < 63 \<and> memory_size ?s < 2 ^ (m + 1)"
  proof (cases "max_bit_size s = -1")
    case True
    then have "pos = 0" using i(9) by auto
    then show ?thesis using True le i(1) hs(3,4) by (intro exI [of _ b]) simp
  next
    case False
    then show ?thesis using i(9) hs(3,4) by simp
  qed
  moreover have "pos + 2 ^ b + (reminder - 2 ^ b) = memory_size ?s" "reminder - 2 ^ b < 2 ^ b" "b \<le> 63" using le i(1) hs(3) by auto
  moreover have "tiles (sizes ?t) (pos + 2 ^ b)" "2 ^ b dvd pos + 2 ^ b" using ext(1) dvd by simp_all
  ultimately show ?thesis unfolding chunks_ok_def using lists heads free unique b(2) by blast
qed

lemma chunks_end:
  assumes c: "chunks_ok k pos reminder s t" and r: "reminder < 32"
  shows "buddy_inv s t"
proof -
  have i: "pos + reminder = memory_size s" "tiles (sizes t) pos" "heads_ok (headers s) t" "lists_ok (headers s) (free_list s) t"
      "\<And>p q b u v. t p = Some (b, u) \<Longrightarrow> t q = Some (b, v) \<Longrightarrow> p = q" "2 ^ k dvd pos" "5 \<le> k"
      "max_bit_size s = -1 \<and> pos = 0 \<or> (\<exists>m. max_bit_size s = int m \<and> m < 63 \<and> memory_size s < 2 ^ (m + 1))"
    using c unfolding chunks_ok_def by blast+
  have "2 ^ 5 dvd pos" using i(6,7) by (meson dvd_trans le_imp_power_dvd)
  then have "(pos + reminder) mod 32 = reminder" using r by (auto elim!: dvdE)
  then have u: "usable s = pos" using i(1) by (simp add: usable_def)
  have "merged t" unfolding merged_def
  proof (intro allI impI notI)
    fix p b assume p: "t p = Some (b, False)" "t (buddy_of p b) = Some (b, False)"
    then show False using i(5) [of p b False "buddy_of p b"] buddy_of_neq tilesD(1) [OF i(2) sizes_Some [of t p b False, OF p(1)]] by metis
  qed
  moreover have "limits_ok s"
  proof -
    have "int b \<le> max_bit_size s" if "5 \<le> b" "2 ^ b \<le> memory_size s" for b
    proof (cases "max_bit_size s = -1 \<and> pos = 0")
      case True
      have "(2 :: nat) ^ 5 \<le> 2 ^ b" using that(1) by (intro power_increasing) simp_all
      then show ?thesis using True i(1) r that(2) by simp
    next
      case False
      then obtain m where m: "max_bit_size s = int m" "memory_size s < 2 ^ (m + 1)" using i(8) by blast
      have "(2 :: nat) ^ b < 2 ^ (m + 1)" using that(2) m(2) by linarith
      then have "b < m + 1" by (rule power_less_imp_less_exp [rotated]) simp
      then show ?thesis using m(1) by simp
    qed
    then show ?thesis using i(8) by (auto simp: limits_ok_def)
  qed
  ultimately show ?thesis using i u by (simp add: buddy_inv_def)
qed

lemma add_chunks_inv:
  "chunks_ok k pos reminder s t \<Longrightarrow> \<exists>t'. buddy_inv (add_chunks pos reminder s) t' \<and> (\<forall>p b. t' p \<noteq> Some (b, True)) \<and> memory_size (add_chunks pos reminder s) = memory_size s"
proof (induction reminder arbitrary: k pos s t rule: less_induct)
  case (less reminder)
  have "reminder < 2 ^ k" "k \<le> 63" using less.prems by (auto simp: chunks_ok_def)
  then have lim: "reminder < 2 ^ 63" by (meson less_le_trans one_le_numeral power_increasing)
  show ?case
  proof (cases "containts_bits reminder < int alignment_bits + 1")
    case True
    then have "reminder < 32" using containts_bits_ge [OF _ lim] by (force simp: alignment_bits_def not_less)
    then have "buddy_inv s t" using chunks_end [OF less.prems] by blast
    moreover have "t p \<noteq> Some (b, True)" for p b using less.prems unfolding chunks_ok_def by blast
    ultimately show ?thesis using True by (auto simp: add_chunks.simps [of pos reminder s])
  next
    case False
    define b where "b = nat (containts_bits reminder)"
    have b: "containts_bits reminder = int b" "5 \<le> b" using False by (auto simp: b_def alignment_bits_def)
    have "2 ^ b \<le> reminder" using containts_bits_le [OF b(1)] by blast
    moreover have "0 < (2 :: nat) ^ b" by simp
    ultimately have lt: "reminder - 2 ^ b < reminder" by linarith
    have "add_chunks pos reminder s = add_chunks (pos + 2 ^ b) (reminder - 2 ^ b) (add_chunk pos b s)"
      using False by (simp add: add_chunks.simps [of pos reminder s] b_def)
    moreover have "memory_size (add_chunk pos b s) = memory_size s" by (simp add: add_chunk_def Let_def)
    ultimately show ?thesis using less.IH [OF lt chunks_step [OF less.prems b]] by simp
  qed
qed

lemma buddy_new_inv:
  assumes "n < 2 ^ 63"
  shows "\<exists>t. buddy_inv (buddy_new n mem) t \<and> (\<forall>p b. t p \<noteq> Some (b, True)) \<and> memory_size (buddy_new n mem) = n"
proof -
  let ?s = "\<lparr>free_list = (\<lambda>_. None), memory_size = n, max_bit_size = -1, headers = mem\<rparr>"
  have "tiles (sizes Map.empty) 0" by (simp add: tiles_def sizes_def)
  moreover have "lists_ok mem (\<lambda>_. None) Map.empty" by (simp add: lists_ok_def list_ok_empty free_pages_def)
  ultimately have "chunks_ok 63 0 n ?s Map.empty" using assms by (simp add: chunks_ok_def heads_ok_def)
  from add_chunks_inv [OF this] show ?thesis by (simp add: buddy_new_def)
qed

end
