(* ===== verification/Buddy_Run.thy ===== *)
theory Buddy_Run
  imports Buddy
begin

text \<open>
  Clients of the allocator: a run of allocations and releases, with the writes of the clients into their blocks in between.  Blocks
  never overlap, a request is refused only when no page is large enough, and when all blocks are released the free lists are those
  of the new allocator again.
\<close>

section \<open>Requests\<close>

lemma request_size_bounds:
  assumes "0 < n" "n < 2 ^ 64 - 32"
  shows "n + 16 \<le> request_size n" "32 \<le> request_size n" "request_size n < 2 ^ 64"
proof -
  have "(n + 15) mod 2 ^ 64 = n + 15" using assms(2) by simp
  moreover have "((n + 15) div 16 + 1) * 16 < 2 ^ 64" using assms(2) by simp
  ultimately have r: "request_size n = ((n + 15) div 16 + 1) * 16" using assms(1) by (simp add: request_size_def alignment_def)
  show "request_size n < 2 ^ 64" using r \<open>((n + 15) div 16 + 1) * 16 < 2 ^ 64\<close> by simp
  have "n \<le> (n + 15) div 16 * 16" by linarith
  then show "n + 16 \<le> request_size n" using r by simp
  have "1 \<le> (n + 15) div 16" using assms(1) by (simp add: less_eq_div_iff_mult_less_eq)
  then show "32 \<le> request_size n" using r by simp
qed

lemma get_bits_bounds:
  assumes "32 \<le> n" "n < 2 ^ 64" shows "n \<le> 2 ^ get_bits n" "5 \<le> get_bits n"
proof -
  show le: "n \<le> 2 ^ get_bits n"
  proof (cases "find (\<lambda>i. n \<le> 2 ^ i) [0..<64]")
    case None
    then show ?thesis using assms(2) by (simp add: get_bits_def)
  next
    case (Some i)
    then show ?thesis using find_SomeD [OF Some] by (simp add: get_bits_def)
  qed
  then have "(2 :: nat) ^ 5 \<le> 2 ^ get_bits n" using assms(1) by simp
  then show "5 \<le> get_bits n" by (rule power_le_imp_le_exp [rotated]) simp
qed

section \<open>Runs\<close>

text \<open>
  What a write into the block of \<open>sz\<close> bytes at \<open>r\<close> may do to the headers: the size of a page is in its bytes 0 to 3, the next pointer
  in 8 to 15, the previous pointer in 16 to 23.
\<close>

definition written :: "nat \<Rightarrow> nat \<Rightarrow> (nat \<Rightarrow> page) \<Rightarrow> (nat \<Rightarrow> page) \<Rightarrow> bool" where
  "written r sz h h' \<longleftrightarrow> (\<forall>p. (p + 4 \<le> r \<or> r + sz \<le> p \<longrightarrow> pg_bits (h' p) = pg_bits (h p))
     \<and> (p + 16 \<le> r \<or> r + sz \<le> p + 8 \<longrightarrow> pg_next (h' p) = pg_next (h p))
     \<and> (p + 24 \<le> r \<or> r + sz \<le> p + 16 \<longrightarrow> pg_prev (h' p) = pg_prev (h p)))"

text \<open>The memory size, the allocator, and the blocks that the clients hold with the sizes they asked for.\<close>

inductive client_run :: "nat \<Rightarrow> buddy_allocator \<Rightarrow> (nat \<Rightarrow> nat option) \<Rightarrow> bool" for n where
  run_new: "n < 2 ^ 63 \<Longrightarrow> client_run n (buddy_new n mem) Map.empty"
| run_malloc: "client_run n s l \<Longrightarrow> 0 < sz \<Longrightarrow> sz < 2 ^ 64 - 32 \<Longrightarrow> buddy_malloc sz s = (Some r, s') \<Longrightarrow> client_run n s' (l(r \<mapsto> sz))"
| run_refused: "client_run n s l \<Longrightarrow> 0 < sz \<Longrightarrow> sz < 2 ^ 64 - 32 \<Longrightarrow> buddy_malloc sz s = (None, s') \<Longrightarrow> client_run n s' l"
| run_free: "client_run n s l \<Longrightarrow> l r = Some sz \<Longrightarrow> buddy_free (Some r) s = Some s' \<Longrightarrow> client_run n s' (l(r := None))"
| run_write: "client_run n s l \<Longrightarrow> l r = Some sz \<Longrightarrow> written r sz (headers s) mem \<Longrightarrow> client_run n (s\<lparr>headers := mem\<rparr>) l"

definition holds :: "(nat \<Rightarrow> nat option) \<Rightarrow> page_table \<Rightarrow> bool" where
  "holds l t \<longleftrightarrow> (\<forall>r sz. l r = Some sz \<longrightarrow> 16 \<le> r \<and> 0 < sz \<and> (\<exists>b. t (r - 16) = Some (b, True) \<and> sz + 16 \<le> 2 ^ b)) \<and> (\<forall>p b. t p = Some (b, True) \<longrightarrow> l (p + 16) \<noteq> None)"

lemma malloc_some:
  assumes inv: "buddy_inv s t" and h: "holds l t" and sz: "0 < sz" "sz < 2 ^ 64 - 32" and m: "buddy_malloc sz s = (Some r, s')"
  shows "\<exists>t'. buddy_inv s' t' \<and> holds (l(r \<mapsto> sz)) t' \<and> memory_size s' = memory_size s"
proof -
  let ?b = "get_bits (request_size sz)"
  note rb = request_size_bounds [OF sz] note gb = get_bits_bounds [OF rb(2,3)]
  obtain p where p: "page_alloc ?b s = (Some p, s')" "r = p + 16" using m by (auto simp: buddy_malloc_def alignment_def split: prod.splits option.splits)
  obtain t' where t': "buddy_inv s' t'" "allocated ?b p t t'" "same_limits s s'" using page_alloc_correct [OF inv gb(2)] p(1) by auto
  have a: "t' p = Some (?b, True)" "\<And>q c. q \<noteq> p \<Longrightarrow> (t' q = Some (c, True)) = (t q = Some (c, True))" "\<And>c. t p \<noteq> Some (c, True)"
    using t'(2) by (auto simp: allocated_def)
  have new: "sz + 16 \<le> 2 ^ ?b" using rb(1) gb(1) by simp
  have old: "x \<noteq> r \<and> 16 \<le> x \<and> 0 < y \<and> (\<exists>b. t' (x - 16) = Some (b, True) \<and> y + 16 \<le> 2 ^ b)" if lx: "l x = Some y" for x y
  proof -
    obtain b where b: "16 \<le> x" "0 < y" "t (x - 16) = Some (b, True)" "y + 16 \<le> 2 ^ b" using h lx unfolding holds_def by blast
    then have "x - 16 \<noteq> p" using a(3) by metis
    then show ?thesis using a(2) b p(2) by auto
  qed
  have "holds (l(r \<mapsto> sz)) t'" unfolding holds_def
  proof (intro conjI allI impI)
    fix x y assume x: "(l(r \<mapsto> sz)) x = Some y"
    show "16 \<le> x" "0 < y" "\<exists>b. t' (x - 16) = Some (b, True) \<and> y + 16 \<le> 2 ^ b"
      using x old [of x y] a(1) new p(2) sz(1) by (cases "x = r"; auto)+
  next
    fix q b assume q: "t' q = Some (b, True)"
    show "(l(r \<mapsto> sz)) (q + 16) \<noteq> None"
    proof (cases "q = p")
      case False
      then have "l (q + 16) \<noteq> None" using a(2) q h unfolding holds_def by blast
      then show ?thesis by simp
    qed (simp add: p(2))
  qed
  then show ?thesis using t' by (auto simp: same_limits_def)
qed

lemma malloc_none:
  assumes "buddy_inv s t" "0 < sz" "sz < 2 ^ 64 - 32" "buddy_malloc sz s = (None, s')"
  shows "s' = s" "t p = Some (b, False) \<Longrightarrow> b < get_bits (request_size sz)"
proof -
  note rb = request_size_bounds [OF assms(2,3)] note gb = get_bits_bounds [OF rb(2,3)]
  have "page_alloc (get_bits (request_size sz)) s = (None, s')" using assms(4) by (auto simp: buddy_malloc_def split: prod.splits option.splits)
  then show "s' = s" "t p = Some (b, False) \<Longrightarrow> b < get_bits (request_size sz)" using page_alloc_correct [OF assms(1) gb(2)] by auto
qed

lemma free_held:
  assumes inv: "buddy_inv s t" and h: "holds l t" and r: "l r = Some sz"
  shows "\<exists>s' t'. buddy_free (Some r) s = Some s' \<and> buddy_inv s' t' \<and> holds (l(r := None)) t' \<and> memory_size s' = memory_size s"
proof -
  obtain b where b: "16 \<le> r" "t (r - 16) = Some (b, True)" using h r unfolding holds_def by blast
  have "pg_bits (headers s (r - 16)) = int b + page_in_use" "b < 63" using page_bits(2,6) [OF inv b(2)] by auto
  then have use: "pg_bits (headers s (r - 16)) div page_in_use mod 2 = 1" by (simp add: page_in_use_def)
  obtain t' where t': "buddy_inv (free_page (r - 16) s) t'" "released (r - 16) t t'" "same_limits s (free_page (r - 16) s)"
    using free_page_correct [OF inv b(2)] by blast
  have "holds (l(r := None)) t'" unfolding holds_def
  proof (intro conjI allI impI)
    fix x y assume x: "(l(r := None)) x = Some y"
    then have lx: "l x = Some y" "x \<noteq> r" by (auto split: if_splits)
    then have "16 \<le> x \<and> 0 < y \<and> (\<exists>b. t (x - 16) = Some (b, True) \<and> y + 16 \<le> 2 ^ b)" using h unfolding holds_def by blast
    moreover have "x - 16 \<noteq> r - 16" if "16 \<le> x" using that b(1) lx(2) by linarith
    ultimately show "16 \<le> x" "0 < y" "\<exists>b. t' (x - 16) = Some (b, True) \<and> y + 16 \<le> 2 ^ b" using t'(2) unfolding released_def by blast+
  next
    fix q c assume "t' q = Some (c, True)"
    then have "q \<noteq> r - 16" "t q = Some (c, True)" using t'(2) unfolding released_def by blast+
    then show "(l(r := None)) (q + 16) \<noteq> None" using h b(1) unfolding holds_def by auto
  qed
  then show ?thesis using t' use by (auto simp: buddy_free_def Let_def alignment_def same_limits_def)
qed

lemma write_inv:
  assumes inv: "buddy_inv s t" and h: "holds l t" and r: "l r = Some sz" and w: "written r sz (headers s) mem"
  shows "buddy_inv (s\<lparr>headers := mem\<rparr>) t"
proof -
  have i: "tiles (sizes t) (usable s)" "heads_ok (headers s) t" "lists_ok (headers s) (free_list s) t" "merged t" "limits_ok s"
    using inv by (auto simp: buddy_inv_def)
  obtain b where b: "16 \<le> r" "t (r - 16) = Some (b, True)" "sz + 16 \<le> 2 ^ b" using h r unfolding holds_def by blast
  have keep: "pg_bits (mem p) = pg_bits (headers s p) \<and> (\<not> u \<longrightarrow> same_links (headers s) mem p)" if p: "t p = Some (c, u)" for p c u
  proof (cases "p = r - 16")
    case True
    then show ?thesis using w b p unfolding written_def by auto
  next
    case False
    have "area (r - 16) b \<inter> area p c = {}" using tilesD(3) [OF i(1) sizes_Some [of t "r - 16", OF b(2)] sizes_Some [of t p, OF p]] False by auto
    then have "p + 2 ^ c \<le> r - 16 \<or> r - 16 + 2 ^ b \<le> p" by (auto simp: area_def)
    moreover have "(2 :: nat) ^ 5 \<le> 2 ^ c" using page_bits(1) [OF inv p] by (intro power_increasing) simp_all
    ultimately have "p + 24 \<le> r \<or> r + sz \<le> p" using b(1,3) by auto
    then show ?thesis using w [unfolded written_def, rule_format, of p] unfolding same_links_def by auto
  qed
  have "heads_ok mem t" using i(2) keep unfolding heads_ok_def by metis
  moreover have "lists_ok mem (free_list s) t" unfolding lists_ok_def
  proof
    fix c
    have "list_ok (headers s) (free_list s c) (free_pages t c)" using i(3) by (simp add: lists_ok_def)
    then show "list_ok mem (free_list s c) (free_pages t c)" by (rule list_ok_frame) (use keep in \<open>auto simp: free_pages_def\<close>)
  qed
  ultimately show ?thesis using i by (simp add: buddy_inv_def usable_def limits_ok_def)
qed

lemma run_inv: "client_run n s l \<Longrightarrow> \<exists>t. buddy_inv s t \<and> holds l t \<and> memory_size s = n"
proof (induction rule: client_run.induct)
  case (run_new mem)
  then show ?case using buddy_new_inv [of n mem] by (auto simp: holds_def)
next
  case (run_malloc s l sz r s')
  then show ?case using malloc_some by metis
next
  case (run_refused s l sz s')
  then show ?case using malloc_none(1) by metis
next
  case (run_free s l r sz s')
  then show ?case using free_held by (metis option.inject)
next
  case (run_write s l r sz mem)
  then show ?case using write_inv by fastforce
qed

section \<open>Tables without blocks in use\<close>

text \<open>Without pages in use and with nothing left to merge, the buddy of every page lies beyond the end.\<close>

definition all_free :: "page_table \<Rightarrow> bool" where
  "all_free t \<longleftrightarrow> (\<forall>p b. t p \<noteq> Some (b, True))"

lemma merged_descent:
  assumes "tiles (sizes t) e" "merged t" "all_free t" "t p = Some (c, u)" "2 ^ b dvd p" "p + 2 ^ b \<le> e" "c < b"
  shows False
  using assms(4-7)
proof (induction c arbitrary: p b u rule: less_induct)
  case (less c)
  have "2 ^ Suc c dvd p" using less.prems(2,4) by (meson Suc_leI dvd_trans le_imp_power_dvd)
  moreover have dvd: "2 ^ c dvd p" using tilesD(1) [OF assms(1) sizes_Some [of t p, OF less.prems(1)]] .
  ultimately have q: "buddy_of p c = p + 2 ^ c" using buddy_of_eq by simp
  have "(2 :: nat) ^ Suc c \<le> 2 ^ b" using less.prems(4) by (intro power_increasing) simp_all
  then have le: "buddy_of p c + 2 ^ c \<le> e" using less.prems(3) q by simp
  obtain d where d: "sizes t (buddy_of p c) = Some d" "d \<le> c" using buddy_at [OF assms(1) sizes_Some [of t p, OF less.prems(1)] le] .
  then obtain v where v: "t (buddy_of p c) = Some (d, v)" by (auto simp: sizes_def)
  have "\<not> u" "\<not> v" using assms(3) less.prems(1) v unfolding all_free_def by (metis (full_types))+
  then have "d \<noteq> c" using assms(2) less.prems(1) v unfolding merged_def by (metis (full_types))
  then show False using less.IH [of d "buddy_of p c" v c] v buddy_dvd [OF dvd] le d(2) by simp
qed

lemma merged_page:
  assumes "tiles (sizes t) e" "merged t" "all_free t" "t p = Some (b, u)"
  shows "2 ^ Suc b dvd p" "p + 2 ^ b \<le> e" "e < p + 2 ^ Suc b"
proof -
  note z = sizes_Some [of t p, OF assms(4)]
  have dvd: "2 ^ b dvd p" using tilesD(1) [OF assms(1) z] .
  show pe: "p + 2 ^ b \<le> e" using tilesD(2) [OF assms(1) z] .
  have far: "\<not> buddy_of p b + 2 ^ b \<le> e"
  proof
    assume le: "buddy_of p b + 2 ^ b \<le> e"
    obtain d where d: "sizes t (buddy_of p b) = Some d" "d \<le> b" using buddy_at [OF assms(1) z le] .
    then obtain v where v: "t (buddy_of p b) = Some (d, v)" by (auto simp: sizes_def)
    have "\<not> u" "\<not> v" using assms(3,4) v unfolding all_free_def by (metis (full_types))+
    then have "d < b" using assms(2,4) v d(2) unfolding merged_def by (metis (full_types) le_neq_implies_less)
    then show False using merged_descent [OF assms(1-3) v buddy_dvd [OF dvd] le] by blast
  qed
  show up: "2 ^ Suc b dvd p"
  proof (rule ccontr)
    assume n: "\<not> 2 ^ Suc b dvd p"
    then have "buddy_of p b = p - 2 ^ b" "0 < p" using buddy_of_eq [OF dvd] by (auto intro: gr0I)
    moreover have "2 ^ b \<le> p" using dvd \<open>0 < p\<close> by (rule dvd_imp_le)
    ultimately show False using far pe by simp
  qed
  then have "buddy_of p b = p + 2 ^ b" using buddy_of_eq [OF dvd] by simp
  then show "e < p + 2 ^ Suc b" using far by simp
qed

lemma merged_unique_le:
  assumes "tiles (sizes t) e" "merged t" "all_free t" "tiles (sizes t') e" "merged t'" "all_free t'" "t p = Some (b, u)"
  shows "t' p = Some (b, False)"
proof -
  note m = merged_page [OF assms(1-3,7)]
  have "p < e" using m(2) by (meson less_add_same_cancel1 less_le_trans zero_less_numeral zero_less_power)
  then obtain q c where "sizes t' q = Some c" and pq: "p \<in> area q c" using tiles_cover [OF assms(4)] by blast
  then obtain v where v: "t' q = Some (c, v)" by (auto simp: sizes_def)
  note m' = merged_page [OF assms(4-6) v]
  have dvd: "2 ^ b dvd p" "2 ^ c dvd q" using m(1) m'(1) by (meson dvd_trans le_imp_power_dvd le_SucI le_refl)+
  have "\<not> b < c"
  proof
    assume "b < c"
    then have "area p (Suc b) \<subseteq> area q c" using blocks_nested [OF m(1) dvd(2) _ area_self pq] by simp
    then have "p + 2 ^ Suc b \<le> q + 2 ^ c" by (auto simp: area_def)
    then show False using m(3) m'(2) by simp
  qed
  moreover have "q = p" if "c \<le> b"
  proof -
    have "2 ^ c dvd p" using dvd(1) that by (meson dvd_trans le_imp_power_dvd)
    then have "area q c \<subseteq> area p c" using blocks_nested [OF dvd(2) _ le_refl pq area_self] by simp
    then show ?thesis using pq by (auto simp: area_def)
  qed
  moreover have "\<not> c < b" if "q = p"
  proof
    assume "c < b"
    then have "(2 :: nat) ^ Suc c \<le> 2 ^ b" by (intro power_increasing) simp_all
    then show False using m(2) m'(3) that by simp
  qed
  ultimately have "q = p" "c = b" by (auto simp: not_less)
  moreover have "\<not> v" using assms(6) v unfolding all_free_def by (metis (full_types))
  ultimately show ?thesis using v by simp
qed

lemma free_lists_eq:
  assumes "buddy_inv s t" "buddy_inv s' t'" "all_free t" "all_free t'" "memory_size s = memory_size s'"
  shows "free_list s = free_list s'"
proof
  fix b
  have i: "tiles (sizes t) (usable s)" "merged t" "tiles (sizes t') (usable s)" "merged t'"
    using assms(1,2,5) by (auto simp: buddy_inv_def usable_def)
  have "free_pages t b = free_pages t' b"
    using merged_unique_le [OF i(1,2) assms(3) i(3,4) assms(4)] merged_unique_le [OF i(3,4) assms(4) i(1,2) assms(3)] by (auto simp: free_pages_def)
  moreover have "\<exists>x. free_pages t b \<subseteq> {x}"
  proof (cases "free_pages t b = {}")
    case False
    then obtain p where p: "t p = Some (b, False)" by (auto simp: free_pages_def)
    have "q = p" if q: "t q = Some (b, False)" for q
    proof -
      note m = merged_page [OF i(1,2) assms(3) p] and m' = merged_page [OF i(1,2) assms(3) q]
      obtain j k where jk: "p = 2 ^ Suc b * j" "q = 2 ^ Suc b * k" using m(1) m'(1) by (auto elim!: dvdE)
      have "2 ^ Suc b * j < 2 ^ Suc b * (k + 1)" "2 ^ Suc b * k < 2 ^ Suc b * (j + 1)" using m(2,3) m'(2,3) unfolding jk by (simp_all add: distrib_left)
      then have "j < k + 1" "k < j + 1" by (simp_all only: mult_less_cancel1)
      then show ?thesis using jk by simp
    qed
    then show ?thesis by (intro exI [of _ p]) (auto simp: free_pages_def)
  qed simp
  ultimately obtain x where x: "free_pages t b \<subseteq> {x}" "free_pages t' b = free_pages t b" by metis
  have l: "list_ok (headers s) (free_list s b) (free_pages t b)" "list_ok (headers s') (free_list s' b) (free_pages t b)"
    using assms(1,2) x(2) unfolding buddy_inv_def lists_ok_def by metis+
  show "free_list s b = free_list s' b"
    using l x(1) list_ok_head list_ok_empty by (metis empty_iff insertE not_None_eq subsetD)
qed

section \<open>Statistics\<close>

lemma count_dll: "dll (headers s) q xs \<Longrightarrow> count_pages s (head_of xs) = Some (length xs)"
proof (induction xs arbitrary: q)
  case Nil
  then show ?case by (simp add: count_pages.simps)
next
  case (Cons x xs)
  have "pg_next (headers s x) = head_of xs" "dll (headers s) (Some x) xs" using Cons.prems by (simp_all add: head_of_def)
  then have "count_pages s (pg_next (headers s x)) = Some (length xs)" using Cons.IH by simp
  then show ?case by (subst count_pages.simps) simp
qed

lemma total_free_at_page:
  assumes "buddy_inv s t"
  shows "total_free_at b s = Some (card (free_pages t b) * (2 ^ b - 16))"
proof -
  obtain xs where xs: "dll (headers s) None xs" "free_list s b = head_of xs" "distinct xs" "set xs = free_pages t b"
    using assms unfolding buddy_inv_def lists_ok_def list_ok_def by metis
  have "card (free_pages t b) = length xs" using xs(3,4) distinct_card by metis
  then show ?thesis using count_dll [OF xs(1)] xs(2) by (simp add: total_free_at_def alignment_def)
qed

lemma total_free_loop_sum:
  "buddy_inv s t \<Longrightarrow> total_free_loop bs s k = Some (k + (\<Sum>b \<leftarrow> bs. card (free_pages t b) * (2 ^ b - 16)))"
  by (induction bs arbitrary: k) (simp_all add: total_free_at_page)

lemma free_lists_statistics: "client_run n s l \<Longrightarrow> \<exists>k. total_free_memory s = Some k" "client_run n s l \<Longrightarrow> \<exists>k. max_free_chunk s = Some k"
proof -
  assume "client_run n s l"
  then obtain t where t: "buddy_inv s t" using run_inv by blast
  show "\<exists>k. total_free_memory s = Some k" using total_free_loop_sum [OF t] by (simp add: total_free_memory_def)
  show "\<exists>k. max_free_chunk s = Some k" using total_free_at_page [OF t] by (simp add: max_free_chunk_def split: option.split)
qed

text \<open>Requests near the end of the range of \<^verbatim>\<open>size_t\<close> wrap around, and a request for nothing asks for a page smaller than its header.\<close>

lemma request_wraps: "2 ^ 64 - 15 \<le> n \<Longrightarrow> n < 2 ^ 64 \<Longrightarrow> request_size n = 16" "request_size 0 = 16" "get_bits 16 = 4"
proof -
  assume n: "2 ^ 64 - 15 \<le> n" "n < 2 ^ 64"
  define d where "d = n - (2 ^ 64 - 15)"
  have "n + 15 = d + 2 ^ 64" "d < 16" using n by (simp_all add: d_def)
  then have "(n + 16 - 1) mod 2 ^ 64 = d" by simp
  then show "request_size n = 16" using \<open>d < 16\<close> unfolding request_size_def alignment_def by (simp only:) simp
next
  show "request_size 0 = 16" by (simp add: request_size_def alignment_def)
  show "get_bits 16 = 4" by (simp add: get_bits_def upt_rec)
qed

section \<open>What clients can rely on\<close>


lemma containts_bits_eq: "2 ^ b \<le> n \<Longrightarrow> n < 2 ^ (b + 1) \<Longrightarrow> 5 \<le> b \<Longrightarrow> b < 63 \<Longrightarrow> containts_bits n = int b"
proof -
  assume n: "2 ^ b \<le> n" "n < 2 ^ (b + 1)" and b: "5 \<le> b" "b < 63"
  have "(2 :: nat) ^ 5 \<le> 2 ^ b" "(2 :: nat) ^ (b + 1) \<le> 2 ^ 63" using b by (intro power_increasing; simp)+
  then have "32 \<le> n" "n < 2 ^ 63" using n by simp_all
  then obtain c where c: "containts_bits n = int c" using containts_bits_ge [of n] by (metis nonneg_int_cases order.trans zero_le_numeral)
  note le = containts_bits_le [OF c]
  have "(2 :: nat) ^ b < 2 ^ (c + 1)" "(2 :: nat) ^ c < 2 ^ (b + 1)" using n le by linarith+
  then have "b < c + 1" "c < b + 1" by (simp_all only: power_less_imp_less_exp [rotated, of 2])
  then show ?thesis using c by simp
qed

definition demo_heap :: buddy_allocator where
  "demo_heap = buddy_new 32 (\<lambda>_. \<lparr>pg_bits = 0, pg_next = None, pg_prev = None\<rparr>)"

lemma demo_run: "client_run 32 demo_heap Map.empty"
  unfolding demo_heap_def by (rule run_new) simp

lemma demo_lists: "free_list demo_heap = (\<lambda>_. None)(5 := Some 0)" "max_bit_size demo_heap = 5"
proof -
  have "containts_bits 32 = 5" using containts_bits_eq [of 5 32] by simp
  moreover have "containts_bits 0 = -1" by (simp add: containts_bits_def upt_rec)
  ultimately show "free_list demo_heap = (\<lambda>_. None)(5 := Some 0)" "max_bit_size demo_heap = 5"
    by (simp_all add: demo_heap_def buddy_new_def add_chunks.simps alignment_bits_def add_chunk_def set_free_def set_page_def)
qed

lemma demo_malloc: "fst (buddy_malloc 8 demo_heap) = Some 16"
proof -
  have "get_bits (request_size 8) = 5" by (simp add: request_size_def alignment_def get_bits_def upt_rec)
  then show ?thesis using demo_lists by (simp add: buddy_malloc_def page_alloc.simps Let_def alignment_def)
qed

lemma demo_block: "client_run 32 (snd (buddy_malloc 8 demo_heap)) (Map.empty(16 \<mapsto> 8))"
proof -
  have "buddy_malloc 8 demo_heap = (Some 16, snd (buddy_malloc 8 demo_heap))" using demo_malloc by (metis prod.collapse)
  then show ?thesis by (rule run_malloc [OF demo_run, rotated 2]) simp_all
qed


lemma malloc_refused_iff:
  assumes "client_run n s l" "0 < sz" "sz < 2 ^ 64 - 32"
  shows "fst (buddy_malloc sz s) = None \<longleftrightarrow> (\<forall>b \<ge> get_bits (request_size sz). free_list s b = None)"
proof -
  obtain t where inv: "buddy_inv s t" "holds l t" using run_inv [OF assms(1)] by blast
  note rb = request_size_bounds [OF assms(2,3)] note gb = get_bits_bounds [OF rb(2,3)]
  have lists: "free_list s b = None \<longleftrightarrow> (\<forall>p. t p \<noteq> Some (b, False))" for b
  proof -
    have "list_ok (headers s) (free_list s b) (free_pages t b)" using inv(1) by (simp add: buddy_inv_def lists_ok_def)
    then show ?thesis using list_ok_empty [of "headers s"] list_ok_head [of "headers s" _ "free_pages t b"] by (cases "free_list s b") (fastforce simp: free_pages_def)+
  qed
  show ?thesis
  proof (cases "buddy_malloc sz s")
    case (Pair x s')
    show ?thesis
    proof (cases x)
      case None
      then have "t p = Some (b, False) \<Longrightarrow> b < get_bits (request_size sz)" for p b using malloc_none(2) [OF inv(1) assms(2,3)] Pair by auto
      then show ?thesis using Pair None lists by (auto simp: not_less [symmetric])
    next
      case (Some r)
      then obtain p where p: "page_alloc (get_bits (request_size sz)) s = (Some p, s')" using Pair by (auto simp: buddy_malloc_def split: prod.splits option.splits)
      have "\<not> (\<forall>b \<ge> get_bits (request_size sz). free_list s b = None)"
      proof
        assume e: "\<forall>b \<ge> get_bits (request_size sz). free_list s b = None"
        have "page_alloc b s = (None, s)" if "get_bits (request_size sz) \<le> b" for b
          using that
        proof (induction "nat (max_bit_size s + 1 - int b)" arbitrary: b rule: less_induct)
          case less
          then show ?case using e by (cases "int b > max_bit_size s") (simp_all add: page_alloc.simps [of b s])
        qed
        then show False using p by simp
      qed
      then show ?thesis using Pair Some by simp
    qed
  qed
qed





end
