(* ===== verification/Archive.thy ===== *)
theory Archive
  imports Prelude
begin

text \<open>
  Serialization (\<^verbatim>\<open>src/archive.cpp\<close>, \<^verbatim>\<open>cppcms/archive_traits.h\<close>): an archive is a string of chunks with a 32-bit length in front,
  and the traits of a type say which chunks its values are.  The template that the compiler selects for a type is the case of a
  function on descriptions of types; a value of a scalar type is its memory image on a little-endian machine.
\<close>

section \<open>Archives\<close>

datatype mode_type = Save_to_archive | Load_from_archive

record archive =
  ar_buffer :: string
  ar_ptr :: nat
  ar_mode :: mode_type

text \<open>An exception, or a read behind the terminating zero of the buffer, which has no defined result.\<close>

datatype archive_exc = Archive_error string | Out_of_bounds

definition archive_new :: archive where
  "archive_new = \<lparr>ar_buffer = [], ar_ptr = 0, ar_mode = Save_to_archive\<rparr>"

definition write_chunk :: "string \<Rightarrow> archive \<Rightarrow> archive" where
  "write_chunk d a = a\<lparr>ar_buffer := ar_buffer a @ le_bytes 4 (length d) @ d\<rparr>"

definition archive_eof :: "archive \<Rightarrow> bool" where
  "archive_eof a \<longleftrightarrow> ar_ptr a \<ge> length (ar_buffer a)"

text \<open>\<^verbatim>\<open>memcpy\<close> from the buffer with its terminating zero.\<close>

definition copy_out :: "archive \<Rightarrow> nat \<Rightarrow> nat \<Rightarrow> archive_exc + string" where
  "copy_out a i n = (if i + n \<le> length (ar_buffer a) + 1 then Inr (take n (drop i (ar_buffer a @ [ch 0]))) else Inl Out_of_bounds)"

text \<open>The test for an overflow of \<^verbatim>\<open>ptr_ + size\<close> never succeeds with 64-bit sizes.\<close>

definition next_chunk_size :: "archive \<Rightarrow> archive_exc + nat" where
  "next_chunk_size a =
     (if archive_eof a then Inl (Archive_error ''At end of archive'')
      else if length (ar_buffer a) - ar_ptr a < 4 then Inl (Archive_error ''Invalid archive format'')
      else
        (let n = from_le (take 4 (drop (ar_ptr a) (ar_buffer a))) in
         if ar_ptr a + n \<ge> length (ar_buffer a) then Inl (Archive_error ''Invalid archive_format'') else Inr n))"

definition read_chunk :: "nat \<Rightarrow> archive \<Rightarrow> archive_exc + string \<times> archive" where
  "read_chunk len a =
     (case next_chunk_size a of
        Inl e \<Rightarrow> Inl e
      | Inr n \<Rightarrow>
          if n \<noteq> len then Inl (Archive_error ''Invalid block length'')
          else (case copy_out a (ar_ptr a + 4) len of
              Inl e \<Rightarrow> Inl e
            | Inr d \<Rightarrow> Inr (d, a\<lparr>ar_ptr := ar_ptr a + 4 + len\<rparr>)))"

definition read_chunk_as_string :: "archive \<Rightarrow> archive_exc + string \<times> archive" where
  "read_chunk_as_string a =
     (case next_chunk_size a of
        Inl e \<Rightarrow> Inl e
      | Inr n \<Rightarrow>
          (case copy_out a (ar_ptr a + 4) n of
             Inl e \<Rightarrow> Inl e
           | Inr d \<Rightarrow> Inr (d, a\<lparr>ar_ptr := ar_ptr a + 4 + n\<rparr>)))"

definition archive_set_mode :: "mode_type \<Rightarrow> archive \<Rightarrow> archive" where
  "archive_set_mode m a = a\<lparr>ar_mode := m, ar_ptr := 0\<rparr>"

definition archive_reset :: "archive \<Rightarrow> archive" where
  "archive_reset a = a\<lparr>ar_ptr := 0\<rparr>"

definition archive_str :: "archive \<Rightarrow> string" where
  "archive_str a = ar_buffer a"

definition archive_set_str :: "string \<Rightarrow> archive \<Rightarrow> archive" where
  "archive_set_str s a = a\<lparr>ar_buffer := s, ar_mode := Load_from_archive, ar_ptr := 0\<rparr>"

section \<open>Traits\<close>

text \<open>
  Strings, scalars of \<open>w\<close> bytes, vectors of scalars, pairs, sequences (\<^verbatim>\<open>vector\<close>, \<^verbatim>\<open>list\<close>) of other types, maps with strings as keys and
  smart pointers.
\<close>

datatype ar_type =
    Ty_string
  | Ty_scalar nat
  | Ty_scalars nat
  | Ty_pair ar_type ar_type
  | Ty_seq ar_type
  | Ty_map ar_type
  | Ty_ptr ar_type

datatype ar_value =
    V_string string
  | V_scalar string
  | V_scalars "string list"
  | V_pair ar_value ar_value
  | V_seq "ar_value list"
  | V_map "(string \<times> ar_value) list"
  | V_ptr "ar_value option"

definition save_string :: "string \<Rightarrow> archive \<Rightarrow> archive" where
  "save_string s = write_chunk s"

definition save_size :: "nat \<Rightarrow> archive \<Rightarrow> archive" where
  "save_size n = write_chunk (le_bytes 8 n)"

definition load_size :: "archive \<Rightarrow> archive_exc + nat \<times> archive" where
  "load_size a = (case read_chunk 8 a of Inl e \<Rightarrow> Inl e | Inr (d, a) \<Rightarrow> Inr (from_le d, a))"

fun save_value :: "ar_value \<Rightarrow> archive \<Rightarrow> archive" where
  "save_value (V_string s) a = save_string s a"
| "save_value (V_scalar d) a = write_chunk d a"
| "save_value (V_scalars ds) a = write_chunk (concat ds) a"
| "save_value (V_pair x y) a = save_value y (save_value x a)"
| "save_value (V_seq xs) a = fold save_value xs (save_size (length xs) a)"
| "save_value (V_map m) a = fold (\<lambda>p a. save_value (snd p) (save_string (fst p) a)) m (save_size (length m) a)"
| "save_value (V_ptr None) a = write_chunk [ch 1] a"
| "save_value (V_ptr (Some x)) a = save_value x (write_chunk [ch 0] a)"

text \<open>The loops of the containers: \<open>n\<close> elements are loaded and inserted.\<close>

fun load_times :: "(archive \<Rightarrow> archive_exc + 'a \<times> archive) \<Rightarrow> ('a \<Rightarrow> 'c \<Rightarrow> 'c) \<Rightarrow> nat \<Rightarrow> 'c \<Rightarrow> archive \<Rightarrow> archive_exc + 'c \<times> archive" where
  "load_times load ins 0 v a = Inr (v, a)"
| "load_times load ins (Suc n) v a =
     (case load a of Inl e \<Rightarrow> Inl e | Inr (x, a) \<Rightarrow> load_times load ins n (ins x v) a)"

definition map_insert :: "string \<times> 'v \<Rightarrow> (string, 'v) smap \<Rightarrow> (string, 'v) smap" where
  "map_insert p m = (if smap_find m (fst p) = None then smap_put (fst p) (snd p) m else m)"

definition load_pair :: "(archive \<Rightarrow> archive_exc + 'a \<times> archive) \<Rightarrow> (archive \<Rightarrow> archive_exc + 'b \<times> archive) \<Rightarrow> archive \<Rightarrow> archive_exc + ('a \<times> 'b) \<times> archive" where
  "load_pair load1 load2 a =
     (case load1 a of Inl e \<Rightarrow> Inl e | Inr (x, a) \<Rightarrow> (case load2 a of Inl e \<Rightarrow> Inl e | Inr (y, a) \<Rightarrow> Inr ((x, y), a)))"

fun split_every :: "nat \<Rightarrow> nat \<Rightarrow> string \<Rightarrow> string list" where
  "split_every 0 w s = []"
| "split_every (Suc n) w s = take w s # split_every n w (drop w s)"

fun load_value :: "ar_type \<Rightarrow> archive \<Rightarrow> archive_exc + ar_value \<times> archive" where
  "load_value Ty_string a = map_sum id (map_prod V_string id) (read_chunk_as_string a)"
| "load_value (Ty_scalar w) a = map_sum id (map_prod V_scalar id) (read_chunk w a)"
| "load_value (Ty_scalars w) a =
     (case next_chunk_size a of
        Inl e \<Rightarrow> Inl e
      | Inr k \<Rightarrow> map_sum id (map_prod (\<lambda>d. V_scalars (split_every (k div w) w d)) id) (read_chunk (k div w * w) a))"
| "load_value (Ty_pair t u) a = map_sum id (map_prod (\<lambda>(x, y). V_pair x y) id) (load_pair (load_value t) (load_value u) a)"
| "load_value (Ty_seq t) a =
     (case load_size a of
        Inl e \<Rightarrow> Inl e
      | Inr (n, a) \<Rightarrow> map_sum id (map_prod V_seq id) (load_times (load_value t) (\<lambda>x v. v @ [x]) n [] a))"
| "load_value (Ty_map t) a =
     (case load_size a of
        Inl e \<Rightarrow> Inl e
      | Inr (n, a) \<Rightarrow> map_sum id (map_prod V_map id) (load_times (load_pair read_chunk_as_string (load_value t)) map_insert n [] a))"
| "load_value (Ty_ptr t) a =
     (case read_chunk 1 a of
        Inl e \<Rightarrow> Inl e
      | Inr (d, a) \<Rightarrow>
          if d \<noteq> [ch 0] then Inr (V_ptr None, a) else map_sum id (map_prod (\<lambda>x. V_ptr (Some x)) id) (load_value t a))"

text \<open>\<^verbatim>\<open>operator &\<close> does either, as the mode says.\<close>

definition archive_and :: "ar_type \<Rightarrow> ar_value \<Rightarrow> archive \<Rightarrow> archive_exc + ar_value \<times> archive" where
  "archive_and t x a = (case ar_mode a of Save_to_archive \<Rightarrow> Inr (x, save_value x a) | Load_from_archive \<Rightarrow> load_value t a)"

text \<open>An object as a string and back.\<close>

definition serialization_save :: "ar_value \<Rightarrow> string" where
  "serialization_save x = archive_str (save_value x archive_new)"

definition serialization_load :: "ar_type \<Rightarrow> string \<Rightarrow> archive_exc + ar_value" where
  "serialization_load t s = map_sum id fst (load_value t (archive_set_str s archive_new))"

section \<open>Round trip\<close>

text \<open>Values of a type whose chunks fit into the length in front of them.\<close>

fun has_type :: "ar_type \<Rightarrow> ar_value \<Rightarrow> bool" where
  "has_type Ty_string x = (case x of V_string s \<Rightarrow> length s < 2 ^ 32 | _ \<Rightarrow> False)"
| "has_type (Ty_scalar w) x = (case x of V_scalar d \<Rightarrow> length d = w \<and> w < 2 ^ 32 | _ \<Rightarrow> False)"
| "has_type (Ty_scalars w) x = (case x of V_scalars ds \<Rightarrow> 0 < w \<and> (\<forall>d \<in> set ds. length d = w) \<and> length ds * w < 2 ^ 32 | _ \<Rightarrow> False)"
| "has_type (Ty_pair t u) x = (case x of V_pair y z \<Rightarrow> has_type t y \<and> has_type u z | _ \<Rightarrow> False)"
| "has_type (Ty_seq t) x = (case x of V_seq xs \<Rightarrow> length xs < 2 ^ 64 \<and> (\<forall>y \<in> set xs. has_type t y) | _ \<Rightarrow> False)"
| "has_type (Ty_map t) x = (case x of V_map m \<Rightarrow> length m < 2 ^ 64 \<and> smap_ok m \<and> (\<forall>p \<in> set m. length (fst p) < 2 ^ 32 \<and> has_type t (snd p)) | _ \<Rightarrow> False)"
| "has_type (Ty_ptr t) x = (case x of V_ptr None \<Rightarrow> True | V_ptr (Some y) \<Rightarrow> has_type t y | _ \<Rightarrow> False)"

text \<open>The bytes of a value.\<close>

definition chunk :: "string \<Rightarrow> string" where
  "chunk d = le_bytes 4 (length d) @ d"

fun bytes :: "ar_value \<Rightarrow> string" where
  "bytes (V_string s) = chunk s"
| "bytes (V_scalar d) = chunk d"
| "bytes (V_scalars ds) = chunk (concat ds)"
| "bytes (V_pair x y) = bytes x @ bytes y"
| "bytes (V_seq xs) = chunk (le_bytes 8 (length xs)) @ concat (map bytes xs)"
| "bytes (V_map m) = chunk (le_bytes 8 (length m)) @ concat (map (\<lambda>p. chunk (fst p) @ bytes (snd p)) m)"
| "bytes (V_ptr None) = chunk [ch 1]"
| "bytes (V_ptr (Some x)) = chunk [ch 0] @ bytes x"

definition put :: "string \<Rightarrow> archive \<Rightarrow> archive" where
  "put d a = a\<lparr>ar_buffer := ar_buffer a @ d\<rparr>"

lemma put_put [simp]: "put e (put d a) = put (d @ e) a" "put [] a = a"
  by (simp_all add: put_def)

lemma write_chunk_put: "write_chunk d a = put (chunk d) a"
  by (simp add: write_chunk_def put_def chunk_def)

lemma fold_put: "(\<And>x a. x \<in> set xs \<Longrightarrow> f x a = put (g x) a) \<Longrightarrow> fold f xs a = put (concat (map g xs)) a"
  by (induction xs arbitrary: a) auto

lemma save_value_put: "save_value x a = put (bytes x) a"
proof (induction x arbitrary: a)
  case (V_seq xs)
  have "fold save_value xs b = put (concat (map bytes xs)) b" for b using V_seq by (intro fold_put) auto
  then show ?case by (simp add: save_size_def write_chunk_put)
next
  case (V_map m)
  have "fold (\<lambda>p a. save_value (snd p) (save_string (fst p) a)) m b = put (concat (map (\<lambda>p. chunk (fst p) @ bytes (snd p)) m)) b" for b
    using V_map by (intro fold_put) (auto simp: save_string_def write_chunk_put)
  then show ?case by (simp add: save_size_def write_chunk_put)
next
  case (V_ptr y)
  then show ?case by (cases y) (simp_all add: write_chunk_put)
qed (simp_all add: save_string_def write_chunk_put)

text \<open>A loader reads a value from bytes when it finds it wherever the bytes stand and moves behind them.\<close>

definition reads :: "(archive \<Rightarrow> archive_exc + 'a \<times> archive) \<Rightarrow> string \<Rightarrow> 'a \<Rightarrow> bool" where
  "reads load d x \<longleftrightarrow> (\<forall>a u v. ar_buffer a = u @ d @ v \<longrightarrow> ar_ptr a = length u \<longrightarrow> load a = Inr (x, a\<lparr>ar_ptr := length (u @ d)\<rparr>))"

lemma readsD: "reads load d x \<Longrightarrow> ar_buffer a = u @ d @ v \<Longrightarrow> ar_ptr a = length u \<Longrightarrow> load a = Inr (x, a\<lparr>ar_ptr := length (u @ d)\<rparr>)"
  unfolding reads_def by blast

lemma next_chunk: "ar_buffer a = u @ chunk d @ v \<Longrightarrow> ar_ptr a = length u \<Longrightarrow> length d < 2 ^ 32 \<Longrightarrow> next_chunk_size a = Inr (length d)"
  by (simp add: next_chunk_size_def archive_eof_def chunk_def)

lemma reads_string: "length d < 2 ^ 32 \<Longrightarrow> reads read_chunk_as_string (chunk d) d"
  unfolding reads_def by (auto simp: read_chunk_as_string_def next_chunk copy_out_def) (simp_all add: chunk_def)

lemma reads_chunk: "length d < 2 ^ 32 \<Longrightarrow> reads (read_chunk (length d)) (chunk d) d"
  unfolding reads_def by (auto simp: read_chunk_def next_chunk copy_out_def) (simp_all add: chunk_def)

lemma reads_map: "reads load d x \<Longrightarrow> reads (\<lambda>a. map_sum id (map_prod f id) (load a)) d (f x)"
  unfolding reads_def by simp

lemma reads_pair:
  assumes "reads load1 d x" "reads load2 e y" shows "reads (load_pair load1 load2) (d @ e) (x, y)"
  unfolding reads_def
proof (intro allI impI)
  fix a :: archive and u v
  assume a: "ar_buffer a = u @ (d @ e) @ v" "ar_ptr a = length u"
  have "load1 a = Inr (x, a\<lparr>ar_ptr := length (u @ d)\<rparr>)" using readsD [OF assms(1), of a u "e @ v"] a by simp
  moreover have "load2 (a\<lparr>ar_ptr := length (u @ d)\<rparr>) = Inr (y, a\<lparr>ar_ptr := length ((u @ d) @ e)\<rparr>)"
    using readsD [OF assms(2), of "a\<lparr>ar_ptr := length (u @ d)\<rparr>" "u @ d" v] a by simp
  ultimately show "load_pair load1 load2 a = Inr ((x, y), a\<lparr>ar_ptr := length (u @ d @ e)\<rparr>)" by (simp add: load_pair_def)
qed

lemma reads_times:
  assumes "\<And>x. x \<in> set xs \<Longrightarrow> reads load (g x) x"
  shows "reads (load_times load ins (length xs) v) (concat (map g xs)) (fold ins xs v)"
  using assms
proof (induction xs arbitrary: v)
  case Nil
  then show ?case by (simp add: reads_def)
next
  case (Cons x xs)
  show ?case unfolding reads_def
  proof (intro allI impI)
    fix a :: archive and u w
    assume a: "ar_buffer a = u @ concat (map g (x # xs)) @ w" "ar_ptr a = length u"
    let ?a = "a\<lparr>ar_ptr := length (u @ g x)\<rparr>"
    have "load a = Inr (x, ?a)" using readsD [of load "g x" x a u "concat (map g xs) @ w"] Cons.prems [of x] a by simp
    moreover have "load_times load ins (length xs) (ins x v) ?a = Inr (fold ins xs (ins x v), a\<lparr>ar_ptr := length ((u @ g x) @ concat (map g xs))\<rparr>)"
      using readsD [OF Cons.IH [of "ins x v"], of ?a "u @ g x" w] Cons.prems a by simp
    ultimately show "load_times load ins (length (x # xs)) v a = Inr (fold ins (x # xs) v, a\<lparr>ar_ptr := length (u @ concat (map g (x # xs)))\<rparr>)" by simp
  qed
qed

lemma reads_bind:
  assumes "reads load1 d x" "reads (load2 x) e y"
    and "\<And>a. load a = (case load1 a of Inl e \<Rightarrow> Inl e | Inr (x, a) \<Rightarrow> load2 x a)"
  shows "reads load (d @ e) y"
  unfolding reads_def
proof (intro allI impI)
  fix a :: archive and u v
  assume a: "ar_buffer a = u @ (d @ e) @ v" "ar_ptr a = length u"
  have "load1 a = Inr (x, a\<lparr>ar_ptr := length (u @ d)\<rparr>)" using readsD [OF assms(1), of a u "e @ v"] a by simp
  moreover have "load2 x (a\<lparr>ar_ptr := length (u @ d)\<rparr>) = Inr (y, a\<lparr>ar_ptr := length ((u @ d) @ e)\<rparr>)"
    using readsD [OF assms(2), of "a\<lparr>ar_ptr := length (u @ d)\<rparr>" "u @ d" v] a by simp
  ultimately show "load a = Inr (y, a\<lparr>ar_ptr := length (u @ d @ e)\<rparr>)" by (simp add: assms(3))
qed

lemma reads_size: "n < 2 ^ 64 \<Longrightarrow> reads load_size (chunk (le_bytes 8 n)) n"
  using reads_chunk [of "le_bytes 8 n"] unfolding reads_def load_size_def by simp

lemma fold_snoc: "fold (\<lambda>x v. v @ [x]) xs v = v @ xs"
  by (induction xs arbitrary: v) simp_all

lemma fold_map_insert: "smap_ok (m @ m') \<Longrightarrow> fold map_insert m' m = m @ m'"
proof (induction m' arbitrary: m)
  case (Cons p m')
  obtain k v where p: "p = (k, v)" by (cases p)
  have ok: "smap_ok (m @ [(k, v)])" "smap_ok ((m @ [(k, v)]) @ m')" using Cons.prems p smap_ok_append1 [of "m @ [(k, v)]" m'] by simp_all
  have "smap_find m k = None" using ok(1) unfolding smap_find_None_iff smap_ok_def by (auto simp: sorted_wrt_append)
  then show ?case using Cons.IH [OF ok(2)] p smap_put_last [OF ok(1)] by (simp add: map_insert_def)
qed simp

lemma split_every_concat: "\<forall>d \<in> set ds. length d = w \<Longrightarrow> split_every (length ds) w (concat ds) = ds"
  by (induction ds) auto

lemma length_concat_same: "\<forall>d \<in> set ds. length d = w \<Longrightarrow> length (concat ds) = length ds * w"
  by (induction ds) auto

lemma reads_scalars:
  assumes "0 < w" "\<forall>d \<in> set ds. length d = w" "length ds * w < 2 ^ 32"
  shows "reads (load_value (Ty_scalars w)) (chunk (concat ds)) (V_scalars ds)"
  unfolding reads_def
proof (intro allI impI)
  fix a :: archive and u v
  assume a: "ar_buffer a = u @ chunk (concat ds) @ v" "ar_ptr a = length u"
  have len: "length (concat ds) = length ds * w" using length_concat_same [OF assms(2)] .
  have "next_chunk_size a = Inr (length ds * w)" using next_chunk [OF a] len assms(3) by simp
  moreover have "read_chunk (length ds * w) a = Inr (concat ds, a\<lparr>ar_ptr := length (u @ chunk (concat ds))\<rparr>)"
    using readsD [OF reads_chunk [of "concat ds"] a] len assms(3) by simp
  moreover have "length ds * w div w = length ds" using assms(1) by simp
  ultimately show "load_value (Ty_scalars w) a = Inr (V_scalars ds, a\<lparr>ar_ptr := length (u @ chunk (concat ds))\<rparr>)"
    using split_every_concat [OF assms(2)] by simp
qed

lemma load_value_reads: "has_type t x \<Longrightarrow> reads (load_value t) (bytes x) x"
proof (induction t arbitrary: x)
  case Ty_string
  then obtain s where x: "x = V_string s" "length s < 2 ^ 32" by (auto split: ar_value.splits)
  have "load_value Ty_string = (\<lambda>a. map_sum id (map_prod V_string id) (read_chunk_as_string a))" by (rule ext) simp
  then show ?case using reads_map [OF reads_string, of s V_string] x by simp
next
  case (Ty_scalar w)
  then obtain d where x: "x = V_scalar d" "length d = w" "w < 2 ^ 32" by (auto split: ar_value.splits)
  have "load_value (Ty_scalar w) = (\<lambda>a. map_sum id (map_prod V_scalar id) (read_chunk w a))" by (rule ext) simp
  then show ?case using reads_map [OF reads_chunk, of d V_scalar] x by simp
next
  case (Ty_scalars w)
  then obtain ds where "x = V_scalars ds" "0 < w" "\<forall>d \<in> set ds. length d = w" "length ds * w < 2 ^ 32" by (auto split: ar_value.splits)
  then show ?case using reads_scalars by (simp del: load_value.simps)
next
  case (Ty_pair t u)
  then obtain y z where x: "x = V_pair y z" "has_type t y" "has_type u z" by (auto split: ar_value.splits)
  have "load_value (Ty_pair t u) = (\<lambda>a. map_sum id (map_prod (\<lambda>(x, y). V_pair x y) id) (load_pair (load_value t) (load_value u) a))" by (rule ext) simp
  then show ?case using reads_map [OF reads_pair [OF Ty_pair.IH(1) [OF x(2)] Ty_pair.IH(2) [OF x(3)]], of "\<lambda>(x, y). V_pair x y"] x(1) by simp
next
  case (Ty_seq t)
  then obtain xs where x: "x = V_seq xs" "length xs < 2 ^ 64" "\<forall>y \<in> set xs. has_type t y" by (auto split: ar_value.splits)
  have elems: "reads (load_times (load_value t) (\<lambda>x v. v @ [x]) (length xs) []) (concat (map bytes xs)) xs"
    using reads_times [of xs "load_value t" bytes "\<lambda>x v. v @ [x]" "[]"] Ty_seq.IH x(3) by (simp add: fold_snoc)
  show ?case unfolding x(1) bytes.simps
    by (rule reads_bind [where ?load2.0 = "\<lambda>n a. map_sum id (map_prod V_seq id) (load_times (load_value t) (\<lambda>x v. v @ [x]) n [] a)",
          OF reads_size [OF x(2)] reads_map [OF elems]]) simp
next
  case (Ty_map t)
  then obtain m where x: "x = V_map m" "length m < 2 ^ 64" "smap_ok m" "\<forall>p \<in> set m. length (fst p) < 2 ^ 32 \<and> has_type t (snd p)"
    by (auto split: ar_value.splits)
  have "reads (load_pair read_chunk_as_string (load_value t)) (chunk (fst p) @ bytes (snd p)) p" if "p \<in> set m" for p
    using reads_pair [OF reads_string Ty_map.IH, of "fst p" "snd p"] x(4) that by (cases p) auto
  then have elems: "reads (load_times (load_pair read_chunk_as_string (load_value t)) map_insert (length m) []) (concat (map (\<lambda>p. chunk (fst p) @ bytes (snd p)) m)) m"
    using reads_times [of m _ "\<lambda>p. chunk (fst p) @ bytes (snd p)" map_insert "[]"] fold_map_insert [of "[]" m] x(3) by fastforce
  show ?case unfolding x(1) bytes.simps
    by (rule reads_bind [where ?load2.0 = "\<lambda>n a. map_sum id (map_prod V_map id) (load_times (load_pair read_chunk_as_string (load_value t)) map_insert n [] a)",
          OF reads_size [OF x(2)] reads_map [OF elems]]) simp
next
  case (Ty_ptr t)
  then consider "x = V_ptr None" | y where "x = V_ptr (Some y)" "has_type t y" by (auto split: ar_value.splits option.splits)
  then show ?case
  proof cases
    case 1
    have "load_value (Ty_ptr t) a = Inr (V_ptr None, a\<lparr>ar_ptr := length (u @ chunk [ch 1])\<rparr>)" if "ar_buffer a = u @ chunk [ch 1] @ v" "ar_ptr a = length u" for a u v
      using readsD [OF reads_chunk [of "[ch 1]"] that] by (simp add: ch_def)
    then show ?thesis using 1 by (simp add: reads_def del: load_value.simps)
  next
    case 2
    have "reads (\<lambda>a. map_sum id (map_prod (\<lambda>x. V_ptr (Some x)) id) (load_value t a)) (bytes y) (V_ptr (Some y))"
      by (rule reads_map [OF Ty_ptr.IH [OF 2(2)]])
    then have r: "reads (\<lambda>a. if [ch 0] \<noteq> [ch 0] then Inr (V_ptr None, a) else map_sum id (map_prod (\<lambda>x. V_ptr (Some x)) id) (load_value t a)) (bytes y) (V_ptr (Some y))"
      by simp
    have c: "reads (read_chunk 1) (chunk [ch 0]) [ch 0]" using reads_chunk [of "[ch 0]"] by simp
    show ?thesis unfolding 2(1) bytes.simps
      by (rule reads_bind [where ?load2.0 = "\<lambda>d a. if d \<noteq> [ch 0] then Inr (V_ptr None, a) else map_sum id (map_prod (\<lambda>x. V_ptr (Some x)) id) (load_value t a)", OF c r]) simp
  qed
qed

text \<open>
  C12. Serialization is undone by loading.  Every value of a type built from strings, scalars, vectors, pairs, lists, maps and smart
  pointers is loaded again from the string it was saved to, and saving several values and loading them in the same order gives
  them all.
\<close>

theorem serialization_roundtrip:
  assumes "has_type t x" "has_type u y"
  shows "serialization_load t (serialization_save x) = Inr x
    \<and> load_pair (load_value t) (load_value u) (archive_set_str (archive_str (save_value y (save_value x archive_new))) archive_new)
        = Inr ((x, y), \<lparr>ar_buffer = archive_str (save_value y (save_value x archive_new)), ar_ptr = length (archive_str (save_value y (save_value x archive_new))),
             ar_mode = Load_from_archive\<rparr>)"
proof -
  have str: "archive_str (save_value x archive_new) = bytes x" "archive_str (save_value y (save_value x archive_new)) = bytes x @ bytes y"
    by (simp_all add: archive_str_def save_value_put put_def archive_new_def)
  have "load_value t (archive_set_str (bytes x) archive_new) = Inr (x, (archive_set_str (bytes x) archive_new)\<lparr>ar_ptr := length ([] @ bytes x)\<rparr>)"
    by (rule readsD [OF load_value_reads [OF assms(1)], of _ _ "[]"]) (simp_all add: archive_set_str_def)
  moreover have "load_pair (load_value t) (load_value u) (archive_set_str (bytes x @ bytes y) archive_new)
      = Inr ((x, y), (archive_set_str (bytes x @ bytes y) archive_new)\<lparr>ar_ptr := length ([] @ bytes x @ bytes y)\<rparr>)"
    by (rule readsD [OF reads_pair [OF load_value_reads [OF assms(1)] load_value_reads [OF assms(2)]], of _ _ "[]"]) (simp_all add: archive_set_str_def)
  ultimately show ?thesis unfolding serialization_load_def serialization_save_def str by (simp add: archive_set_str_def archive_new_def)
qed

theorem serialization_roundtrip_witness:
  "serialization_load (Ty_map (Ty_seq (Ty_scalar 2))) (serialization_save (V_map [(''k'', V_seq [V_scalar ''ab'', V_scalar ''cd''])]))
    = Inr (V_map [(''k'', V_seq [V_scalar ''ab'', V_scalar ''cd''])])"
proof -
  have "has_type (Ty_map (Ty_seq (Ty_scalar 2))) (V_map [(''k'', V_seq [V_scalar ''ab'', V_scalar ''cd''])])" by (simp add: smap_ok_def)
  from serialization_roundtrip [OF this this] show ?thesis by blast
qed

section \<open>Foreign input\<close>


lemma archive_overrun: "read_chunk_as_string (archive_set_str [ch 7, ch 0, ch 0, ch 0, ch 65, ch 66, ch 67, ch 68] archive_new) = Inl Out_of_bounds"
  by code_simp

end
