(* ===== verification/Spec2Isabelle.thy ===== *)
theory Spec2Isabelle
  imports Cache_Storage Session_Interface Http_Server Encoding Json_Safety Request_Correct Xss_Grammar Buddy_Run Archive
begin

text \<open>
  A verification development of CppCMS, the C++ web framework.

  The program.  A CppCMS process accepts HTTP connections (\<^verbatim>\<open>src/http_api.cpp\<close>), cuts the input into
  headers (\<^verbatim>\<open>private/http_parser.h\<close>), keeps them as CGI variables (\<^verbatim>\<open>private/string_map.h\<close>) and starts the
  application.  The application reads the cookies of the request (\<^verbatim>\<open>src/http_request.cpp\<close>), and its
  session object (\<^verbatim>\<open>src/session_interface.cpp\<close>) finds the session with one of three back ends
  (\<^verbatim>\<open>src/session_sid.cpp\<close>, \<^verbatim>\<open>src/session_cookies.cpp\<close>, \<^verbatim>\<open>src/session_dual.cpp\<close>): on the server, in a session
  storage, or at the client, in an encrypted cookie (\<^verbatim>\<open>src/hmac_encryptor.cpp\<close>, \<^verbatim>\<open>src/aes_encryptor.cpp\<close>).
  Pages may be kept in the cache (\<^verbatim>\<open>src/cache_storage.cpp\<close>).  The response goes back with its headers and
  cookies (\<^verbatim>\<open>private/response_headers.h\<close>, \<^verbatim>\<open>src/http_cookie.cpp\<close>), cut into chunks where the length is not
  known in advance.

  The theories, in the order of their imports.

  \<^item> \<^verbatim>\<open>Prelude\<close>: strings as character lists, bytes, the clock and time types, results with errors, ordered
    association lists for \<^verbatim>\<open>std::map\<close>, and the interface \<^verbatim>\<open>codec\<close> of encodings that can be undone, which
    hexadecimal, URL and base64 text interpret.
  \<^item> \<^verbatim>\<open>Http_Protocol\<close> (\<^verbatim>\<open>private/http_protocol.h\<close>): characters, tokens, quoted strings, comparison of names.
  \<^item> \<^verbatim>\<open>Util_Codec\<close> (\<^verbatim>\<open>src/util.cpp\<close>, \<^verbatim>\<open>private/tohex.h\<close>), \<^verbatim>\<open>Base64_Url\<close> (\<^verbatim>\<open>src/base64.cpp\<close>), \<^verbatim>\<open>Decimal\<close>
    (\<^verbatim>\<open>private/todec.h\<close>, \<^verbatim>\<open>private/format_number.h\<close>): text forms of data, with their round trips.
  \<^item> \<^verbatim>\<open>Cache_Storage\<close> (\<^verbatim>\<open>src/cache_storage.cpp\<close>): the memory cache.  Four linked containers are one record; the
    invariant \<^verbatim>\<open>cache_inv\<close> ties them together, every operation keeps it, and the cache refines an ideal table
    that may forget entries but never returns one that was replaced, invalidated or has expired.
  \<^item> \<^verbatim>\<open>Block_Hash\<close>, \<^verbatim>\<open>Sha1\<close> (\<^verbatim>\<open>private/sha1.h\<close>), \<^verbatim>\<open>Md5\<close> (\<^verbatim>\<open>src/md5.cpp\<close>), \<^verbatim>\<open>Crypto_Hmac\<close> (\<^verbatim>\<open>src/crypto.cpp\<close>):
    digests on 32-bit words, fed in pieces; keys; HMAC over any digest that keeps the laws of \<^verbatim>\<open>digest_laws\<close>.
  \<^item> \<^verbatim>\<open>Encryptors\<close>: the two session encryptors and what they accept.
  \<^item> \<^verbatim>\<open>Session_Storage\<close>, \<^verbatim>\<open>Session_Api\<close>, \<^verbatim>\<open>Session_Interface\<close>: the memory storage as an expiring table, the three
    back ends behind one interface, and the session object with its binary format, its renewal rules, exposed
    cookies and CSRF token.
  \<^item> \<^verbatim>\<open>Http_Cookie\<close>: cookies, written and parsed.
  \<^item> \<^verbatim>\<open>String_Map\<close>, \<^verbatim>\<open>Http_Parser\<close>, \<^verbatim>\<open>Response_Headers\<close>, \<^verbatim>\<open>Http_Server\<close>: a connection of the embedded server from
    the first byte of a request to the framing of the response.
  \<^item> \<^verbatim>\<open>Utf\<close> (\<^verbatim>\<open>private/utf_iterator.h\<close>), \<^verbatim>\<open>Encoding\<close> (\<^verbatim>\<open>private/encoding_validators.h\<close>, \<^verbatim>\<open>src/encoding.cpp\<close>): UTF-8 and UTF-16,
    validation is exact, and what the filter for untrusted text leaves is valid.
  \<^item> \<^verbatim>\<open>Json_Value\<close>, \<^verbatim>\<open>Json_Parser\<close> (\<^verbatim>\<open>src/json.cpp\<close>): values, access by path, the writer, the tokenizer and the parser with
    its stack; \<^verbatim>\<open>Json_Correct\<close> shows the round trip, \<^verbatim>\<open>Json_Safety\<close> an invariant that holds on every input.
  \<^item> \<^verbatim>\<open>Content_Type\<close> (\<^verbatim>\<open>src/http_content_type.cpp\<close>), \<^verbatim>\<open>Multipart\<close> (\<^verbatim>\<open>private/multipart_parser.h\<close>), \<^verbatim>\<open>Request\<close>
    (\<^verbatim>\<open>src/http_request.cpp\<close>, \<^verbatim>\<open>src/http_content_filter.cpp\<close>, parts of \<^verbatim>\<open>src/http_context.cpp\<close> and \<^verbatim>\<open>src/cgi_api.cpp\<close>): the body of a
    request, read piece by piece, with limits and the filters of an application.  \<^verbatim>\<open>Multipart_Correct\<close> follows the parser through
    a body written from a list of parts, \<^verbatim>\<open>Request_Correct\<close> shows that forms arrive as they were sent, that only complete
    bodies are handed over, and which requests are refused.
  \<^item> \<^verbatim>\<open>Xss_Uri\<close>, \<^verbatim>\<open>Xss\<close> (\<^verbatim>\<open>src/xss.cpp\<close>): the URI parser of attribute values and the filter for HTML written by users.  \<^verbatim>\<open>Xss_Nest\<close>
    relates the marks that the code puts on a list of entries to a run over the entries, \<^verbatim>\<open>Xss_Filter\<close> follows that run through what the
    filter leaves, \<^verbatim>\<open>Xss_Safe\<close> shows that the output is valid, \<^verbatim>\<open>Xss_Grammar\<close> that valid texts are in a grammar of the rules.
  \<^item> \<^verbatim>\<open>Buddy\<close> (\<^verbatim>\<open>private/buddy_allocator.h\<close>): the allocator of the memory that the processes share.  Pages are headers at
    addresses, the free lists doubly linked lists through them; the invariant \<^verbatim>\<open>buddy_inv\<close> describes the memory as a tiling
    by pages.  \<^verbatim>\<open>Buddy_Run\<close> follows clients that allocate, write and release.
  \<^item> \<^verbatim>\<open>Archive\<close> (\<^verbatim>\<open>src/archive.cpp\<close>, \<^verbatim>\<open>cppcms/archive_traits.h\<close>): serialization of values into chunks.
  Interfaces.  What one component relies on is a locale that the theory of the provider interprets on its own
  definitions: \<^verbatim>\<open>codec\<close> (encodings), \<^verbatim>\<open>base_cache\<close> (cache), \<^verbatim>\<open>digest_laws\<close> (digests),
  \<^verbatim>\<open>encryptor_laws\<close> (encryptors), \<^verbatim>\<open>session_storage_laws\<close> (session storages), \<^verbatim>\<open>session_api_laws\<close> (back ends).  So
  HMAC is verified once for both digests, the session object once for all back ends.

  State, errors, time and termination.  An operation takes the state and returns it changed.  A thrown exception
  is \<^verbatim>\<open>Inl\<close>; where the code changes state before it throws, the state is returned with the error.  The clock is a
  function from the number of calls of \<^verbatim>\<open>time(0)\<close> made so far, or the value that one call gave.  Random bytes and
  the data a socket delivers are arguments.  Words and bytes keep their width where the code lets them wrap:
  digests, base64, the packed headers of the session data, lengths of chunks.  There is no fuel in the
  development: loops are structural recursion or \<^verbatim>\<open>function\<close> with a measure, and the loops over a
  connection's input recurse on the data read; the one loop that ends only thanks to an invariant, the search for
  a free slot in the variable table, is a \<^verbatim>\<open>partial_function\<close> that is shown to return.

  Parameters.  AES, the digests of OpenSSL and libgcrypt, the random device and the format of dates are code outside
  the repository or of the C library: they are arguments, with hypotheses named where they are used (that AES
  decryption undoes encryption under the same key, that a digest has its announced length).

  Bounds.  Lengths are mathematical numbers; where a 32-bit or signed counter of the code would be exceeded the
  theorems bound the length: messages below 128 MB for HMAC and encryptors, texts below 1 GB for base64, and 16 KB
  for the headers of a request, which is the limit of the code itself.

  Not modelled.  Locks, threads and sockets: an operation is atomic and a connection is the sequence of the pieces
  it receives.  The part of the session library that talks to files, SQL or the network, form widgets, templates, the
  XSS filter, localization and the booster library are listed in the manifest with the reason; the plan is to take
  next the parts with logic of their own: multipart parsing, the URL mapper and dispatcher, the XSS filter, form
  validation, the network cache protocol.
\<close>

section \<open>A session across two requests\<close>

lemma cookie_header_chars:
  "list_all cookie_pair_ok ps \<Longrightarrow> c \<in> set (cookie_header ps) \<Longrightarrow> tchar c \<or> c = CHR ''='' \<or> c = CHR '';'' \<or> c = CHR '' ''"
  by (induction ps rule: cookie_header.induct) (auto simp: cookie_pair_ok_def list_all_iff)

lemma cookie_header_value:
  assumes "list_all cookie_pair_ok ps" "ps \<noteq> []"
  shows "pair_ok (''Cookie'', cookie_header ps)" "plain_text (cookie_header ps)"
proof -
  have n: "\<not> tchar (ch 0)" "\<not> tchar (CHR ''('')" "list_all tchar ''Cookie''" "CHR ''='' \<noteq> ch 0" "CHR '';'' \<noteq> ch 0" "CHR '' '' \<noteq> ch 0"
    by code_simp+
  have c: "d \<noteq> CR \<and> d \<noteq> DQUOTE \<and> d \<noteq> CHR ''('' \<and> d \<noteq> ch 0" if "d \<in> set (cookie_header ps)" for d
    using cookie_header_chars [OF assms(1) that] n not_tchar by auto
  then show "plain_text (cookie_header ps)" by (auto simp: plain_text_def list_all_iff)
  have "cookie_header ps \<noteq> []" "tchar (hd (cookie_header ps))" using cookie_header_hd [OF assms(2,1)] by auto
  then have "hd (cookie_header ps) \<noteq> CHR '' ''" "hd (cookie_header ps) \<noteq> TAB" using not_tchar by metis+
  then show "pair_ok (''Cookie'', cookie_header ps)"
    using c n(3) cookie_header_hd [OF assms(2,1)] by (auto simp: pair_ok_def)
qed



end
